(* ===== verification/Bytes.thy ===== *)
theory Bytes
  imports Prelude
begin

text \<open>
  Byte strings: Rust's little-endian integer conversions, the UTF-8 and UTF-16 conversions of
  \<open>core::str\<close> and \<open>core::char\<close> that the sources use, the loader's diagnostics
  (\<open>src/src/diagnostic.rs\<close>) and its byte cursor (\<open>src/src/bytes.rs\<close>).

  The lemmas show that a cursor read is exact (it consumes precisely the bytes it returns or leaves
  the position alone), that the fixed-width reads invert \<open>to_le_bytes\<close>, and that \<open>read_uleb32\<close>
  accepts the canonical ULEB128 encoding of every \<open>u32\<close> and nothing else.
\<close>

unbundle bit_operations_syntax

subsection \<open>Little-endian integers\<close>

fun le_bytes :: "nat \<Rightarrow> nat \<Rightarrow> bytes" where
  "le_bytes 0 v = []"
| "le_bytes (Suc n) v = of_nat (v mod 256) # le_bytes n (v div 256)"

fun le_nat :: "bytes \<Rightarrow> nat" where
  "le_nat [] = 0"
| "le_nat (b # bs) = unat b + 256 * le_nat bs"

subsection \<open>Unicode\<close>

definition is_continuation :: "u8 \<Rightarrow> bool" where
  "is_continuation b \<longleftrightarrow> 0x80 \<le> b \<and> b \<le> 0xBF"

definition in_range :: "u8 \<Rightarrow> u8 \<Rightarrow> u8 \<Rightarrow> bool" where
  "in_range lo hi b \<longleftrightarrow> lo \<le> b \<and> b \<le> hi"

fun utf8_valid :: "bytes \<Rightarrow> bool" where
  "utf8_valid [] = True"
| "utf8_valid (b # bs) =
     (if b < 0x80 then utf8_valid bs
      else if in_range 0xC2 0xDF b then
        (case bs of c # cs \<Rightarrow> is_continuation c \<and> utf8_valid cs | _ \<Rightarrow> False)
      else if in_range 0xE0 0xEF b then
        (case bs of c # d # cs \<Rightarrow>
           in_range (if b = 0xE0 then 0xA0 else 0x80) (if b = 0xED then 0x9F else 0xBF) c
           \<and> is_continuation d \<and> utf8_valid cs
         | _ \<Rightarrow> False)
      else if in_range 0xF0 0xF4 b then
        (case bs of c # d # e # cs \<Rightarrow>
           in_range (if b = 0xF0 then 0x90 else 0x80) (if b = 0xF4 then 0x8F else 0xBF) c
           \<and> is_continuation d \<and> is_continuation e \<and> utf8_valid cs
         | _ \<Rightarrow> False)
      else False)"

text \<open>A scalar value is a natural number; \<open>encode_utf8\<close> is \<open>String::push\<close> on one scalar.\<close>

definition encode_utf8 :: "nat \<Rightarrow> bytes" where
  "encode_utf8 c =
     (if c < 0x80 then [of_nat c]
      else if c < 0x800 then [of_nat (0xC0 + c div 0x40), of_nat (0x80 + c mod 0x40)]
      else if c < 0x10000 then
        [of_nat (0xE0 + c div 0x1000), of_nat (0x80 + c div 0x40 mod 0x40),
         of_nat (0x80 + c mod 0x40)]
      else
        [of_nat (0xF0 + c div 0x40000), of_nat (0x80 + c div 0x1000 mod 0x40),
         of_nat (0x80 + c div 0x40 mod 0x40), of_nat (0x80 + c mod 0x40)])"

text \<open>\<open>char::decode_utf16\<close>: an unpaired surrogate is an error item and decoding goes on after it.\<close>

fun decode_utf16 :: "u16 list \<Rightarrow> (u16 + nat) list" where
  "decode_utf16 [] = []"
| "decode_utf16 (u # us) =
     (if u < 0xD800 \<or> 0xDFFF < u then Inr (unat u) # decode_utf16 us
      else if 0xDC00 \<le> u then Inl u # decode_utf16 us
      else (case us of
              v # vs \<Rightarrow>
                (if 0xDC00 \<le> v \<and> v \<le> 0xDFFF
                 then Inr (0x10000 + (unat u - 0xD800) * 0x400 + (unat v - 0xDC00))
                        # decode_utf16 vs
                 else Inl u # decode_utf16 us)
            | [] \<Rightarrow> [Inl u]))"

definition is_scalar :: "nat \<Rightarrow> bool" where
  "is_scalar c \<longleftrightarrow> c < 0x110000 \<and> \<not> (0xD800 \<le> c \<and> c < 0xE000)"

definition ascii :: "string \<Rightarrow> bytes" where
  "ascii s = map of_char s"

subsection \<open>Diagnostics\<close>

datatype family = FamContainer | FamSection | FamLimit | FamModule | FamSymbol | FamType | FamCode
  | FamCfg | FamRegister | FamException | FamCapability | FamCost

datatype code = UnexpectedEnd | IntegerOverflow | NonCanonicalUleb128 | InvalidUtf8 | LimitExceeded
  | BadMagic | UnsupportedVersion | BadLength | BadDigest | BadDirectory | BadSection | BadRecord
  | BadModule | BadSymbol | BadType | BadInstruction | BadControlFlow | UninitializedRegister
  | BadException | BadCapability | BadCost

record location =
  loc_offset :: "nat option"
  loc_section :: "nat option"
  loc_module :: "nat option"
  loc_function :: "nat option"
  loc_block :: "nat option"
  loc_instruction :: "nat option"

record diagnostic =
  diag_family :: family
  diag_code :: code
  diag_location :: location
  diag_detail :: bytes

definition default_location :: location where
  "default_location = \<lparr>loc_offset = None, loc_section = None, loc_module = None,
     loc_function = None, loc_block = None, loc_instruction = None\<rparr>"

definition MAX_DETAIL_BYTES :: nat where "MAX_DETAIL_BYTES = 256"

definition is_char_boundary :: "bytes \<Rightarrow> nat \<Rightarrow> bool" where
  "is_char_boundary s i \<longleftrightarrow>
     i = 0 \<or> i = length s \<or> (i < length s \<and> \<not> is_continuation (s ! i))"

fun floor_boundary :: "bytes \<Rightarrow> nat \<Rightarrow> nat" where
  "floor_boundary s 0 = 0"
| "floor_boundary s (Suc b) = (if is_char_boundary s (Suc b) then Suc b else floor_boundary s b)"

definition truncate_detail :: "bytes \<Rightarrow> bytes" where
  "truncate_detail s =
     (if length s \<le> MAX_DETAIL_BYTES then s else take (floor_boundary s MAX_DETAIL_BYTES) s)"

definition at_offset :: "family \<Rightarrow> code \<Rightarrow> nat \<Rightarrow> bytes \<Rightarrow> diagnostic" where
  "at_offset f c off d = \<lparr>diag_family = f, diag_code = c,
     diag_location = default_location\<lparr>loc_offset := (if off < 2 ^ 64 then Some off else None)\<rparr>,
     diag_detail = truncate_detail d\<rparr>"

record diagnostic_set =
  ds_diagnostics :: "diagnostic list"
  ds_limit :: nat

definition diagnostic_set_new :: "nat \<Rightarrow> diagnostic_set" where
  "diagnostic_set_new limit = \<lparr>ds_diagnostics = [], ds_limit = limit\<rparr>"

definition diagnostic_push :: "diagnostic \<Rightarrow> diagnostic_set \<Rightarrow> diagnostic_set" where
  "diagnostic_push d s =
     (if ds_limit s \<le> length (ds_diagnostics s) then s
      else s\<lparr>ds_diagnostics :=
               ds_diagnostics s @ [d\<lparr>diag_detail := truncate_detail (diag_detail d)\<rparr>]\<rparr>)"

subsection \<open>Cursor\<close>

record cursor =
  cur_bytes :: bytes
  cur_position :: nat

definition cursor_new :: "bytes \<Rightarrow> cursor" where
  "cursor_new bs = \<lparr>cur_bytes = bs, cur_position = 0\<rparr>"

definition error_at :: "nat \<Rightarrow> code \<Rightarrow> string \<Rightarrow> diagnostic" where
  "error_at off c detail = at_offset FamContainer c off (ascii detail)"

definition cursor_take :: "nat \<Rightarrow> (cursor, diagnostic, bytes) smonad" where
  "cursor_take len c =
     (let start = cur_position c in
      case checked_add 64 start len of
        None \<Rightarrow> (Inl (error_at start IntegerOverflow ''byte range overflows usize''), c)
      | Some stop \<Rightarrow>
          if length (cur_bytes c) < stop
          then (Inl (error_at start UnexpectedEnd ''value extends beyond input''), c)
          else (Inr (take len (drop start (cur_bytes c))), c\<lparr>cur_position := stop\<rparr>))"

definition read_u8 :: "(cursor, diagnostic, u8) smonad" where
  "read_u8 = sbind (cursor_take 1) (\<lambda>bs. sret (hd bs))"

definition read_u16 :: "(cursor, diagnostic, u16) smonad" where
  "read_u16 = sbind (cursor_take 2) (\<lambda>bs. sret (of_nat (le_nat bs)))"

definition read_u32 :: "(cursor, diagnostic, u32) smonad" where
  "read_u32 = sbind (cursor_take 4) (\<lambda>bs. sret (of_nat (le_nat bs)))"

definition read_i32 :: "(cursor, diagnostic, int) smonad" where
  "read_i32 = sbind (cursor_take 4) (\<lambda>bs. sret (sint (of_nat (le_nat bs) :: u32)))"

definition read_u64 :: "(cursor, diagnostic, u64) smonad" where
  "read_u64 = sbind (cursor_take 8) (\<lambda>bs. sret (of_nat (le_nat bs)))"

text \<open>The loop of \<open>read_uleb32\<close>; \<open>n\<close> groups are left and \<open>5 - n\<close> is the loop variable.\<close>

fun uleb_loop :: "nat \<Rightarrow> nat \<Rightarrow> u32 \<Rightarrow> (cursor, diagnostic, u32) smonad" where
  "uleb_loop start 0 val = sfail (error_at start IntegerOverflow ''ULEB128 exceeds five bytes'')"
| "uleb_loop start (Suc n) val = (let group = 4 - n in
     sbind read_u8 (\<lambda>byte.
       if group = 4 \<and> byte AND 0xF0 \<noteq> 0
       then sfail (error_at start IntegerOverflow ''ULEB128 exceeds u32'')
       else
         (let val = val OR push_bit (group * 7) (ucast (byte AND 0x7F)) in
          if byte AND 0x80 = 0 then
            (if 0 < group \<and> byte AND 0x7F = 0
             then sfail (error_at start NonCanonicalUleb128 ''ULEB128 has a redundant final group'')
             else sret val)
          else uleb_loop start n val)))"

definition read_uleb32 :: "(cursor, diagnostic, u32) smonad" where
  "read_uleb32 c = uleb_loop (cur_position c) 5 0 c"

definition read_utf8 :: "nat \<Rightarrow> (cursor, diagnostic, bytes) smonad" where
  "read_utf8 len c =
     sbind (cursor_take len)
       (\<lambda>bs. if utf8_valid bs then sret bs
             else sfail (error_at (cur_position c) InvalidUtf8 ''text is not valid UTF-8'')) c"

text \<open>Reference: the canonical ULEB128 encoding (shortest, little-endian groups of seven bits).\<close>

fun uleb_encode :: "nat \<Rightarrow> bytes" where
  "uleb_encode v =
     (if v < 128 then [of_nat v] else of_nat (128 + v mod 128) # uleb_encode (v div 128))"

declare uleb_encode.simps [simp del]

subsection \<open>Little-endian round trips\<close>

lemma length_le_bytes [simp]: "length (le_bytes n v) = n"
  by (induction n v rule: le_bytes.induct) auto

lemma unat_of_nat_byte [simp]: "unat (of_nat (v mod 256) :: u8) = v mod 256"
  by (simp add: unat_of_nat)

lemma le_nat_le_bytes: "le_nat (le_bytes n v) = v mod 256 ^ n"
proof (induction n arbitrary: v)
  case 0
  then show ?case by simp
next
  case (Suc n)
  then show ?case by (simp add: mod_mult2_eq)
qed

lemma le_nat_less: "le_nat bs < 256 ^ length bs"
proof (induction bs)
  case Nil
  then show ?case by simp
next
  case (Cons b bs)
  have "unat b < 256" by simp
  with Cons have "unat b + 256 * le_nat bs < 256 + 256 * le_nat bs" by simp
  also have "\<dots> \<le> 256 * 256 ^ length bs" using Cons by simp
  finally show ?case by simp
qed

lemma le_bytes_le_nat: "le_bytes (length bs) (le_nat bs) = bs"
proof (induction bs)
  case Nil
  then show ?case by simp
next
  case (Cons b bs)
  have b: "unat b < 256" by simp
  then have "(unat b + 256 * le_nat bs) mod 256 = unat b"
    and "(unat b + 256 * le_nat bs) div 256 = le_nat bs" by simp_all
  with Cons show ?case by simp
qed

lemma le_nat_le_bytes_id: "v < 256 ^ n \<Longrightarrow> le_nat (le_bytes n v) = v"
  by (simp add: le_nat_le_bytes)

lemma le_bytes_inj: "v < 256 ^ n \<Longrightarrow> w < 256 ^ n \<Longrightarrow> le_bytes n v = le_bytes n w \<Longrightarrow> v = w"
  by (metis le_nat_le_bytes_id)

subsection \<open>Cursor reads\<close>

lemma cursor_take_iff:
  "cursor_take n c = (Inr bs, c') \<longleftrightarrow>
     cur_position c + n < 2 ^ 64 \<and> cur_position c + n \<le> length (cur_bytes c) \<and>
     bs = take n (drop (cur_position c) (cur_bytes c)) \<and>
     c' = c\<lparr>cur_position := cur_position c + n\<rparr>"
  by (auto simp: cursor_take_def checked_add_def Let_def split: if_splits)

lemma cursor_take_error: "cursor_take n c = (Inl e, c') \<Longrightarrow> c' = c"
  by (auto simp: cursor_take_def checked_add_def Let_def split: option.splits if_splits)

lemma read_u8_iff:
  "read_u8 c = (Inr b, c') \<longleftrightarrow>
     cur_position c + 1 < 2 ^ 64 \<and> cur_position c < length (cur_bytes c) \<and>
     b = cur_bytes c ! cur_position c \<and> c' = c\<lparr>cur_position := cur_position c + 1\<rparr>"
  by (auto simp: read_u8_def sbind_Inr_iff cursor_take_iff Suc_le_eq hd_conv_nth take_Suc
      hd_drop_conv_nth)

lemma read_u8_error: "read_u8 c = (Inl e, c') \<Longrightarrow> c' = c"
  by (auto simp: read_u8_def sbind_Inl_iff dest: cursor_take_error)

lemma unat_low_seven: "unat ((b :: u8) AND 0x7F) = unat b mod 128"
proof -
  have "b AND 0x7F = take_bit 7 b" by (simp add: take_bit_eq_mask mask_eq_exp_minus_1)
  then have "unat (b AND 0x7F) = take_bit 7 (unat b)" by (simp only: unsigned_take_bit_eq)
  then show ?thesis by (simp add: take_bit_eq_mod)
qed

lemma byte_top_bit: "(b :: u8) AND 0x80 = 0 \<longleftrightarrow> unat b < 128"
proof -
  have "b AND 0x80 = 0 \<longleftrightarrow> \<not> bit b 7"
    using and_exp_eq_0_iff_not_bit [of b 7] by simp
  also have "\<dots> \<longleftrightarrow> \<not> bit (unat b) 7" by (simp add: bit_unsigned_iff)
  also have "\<dots> \<longleftrightarrow> even (unat b div 128)" by (simp add: bit_iff_odd)
  also have "\<dots> \<longleftrightarrow> unat b < 128"
  proof -
    have "unat b < 256" by simp
    then have "unat b div 128 = 0 \<or> unat b div 128 = 1" by linarith
    then show ?thesis by (auto simp: div_eq_0_iff)
  qed
  finally show ?thesis .
qed

lemma byte_high_nibble: "(b :: u8) AND 0xF0 = 0 \<longleftrightarrow> unat b < 16"
proof -
  have F0: "unat (0xF0 :: u8) = 0xF0" by simp
  have "b AND 0xF0 = 0 \<longleftrightarrow> unat (b AND 0xF0) = 0" by (simp add: unsigned_eq_0_iff)
  also have "\<dots> \<longleftrightarrow> unat b AND 0xF0 = 0" by (simp only: unsigned_and_eq F0)
  also have "\<dots> \<longleftrightarrow> unat b < 16"
  proof
    assume "unat b AND 0xF0 = 0"
    then have "drop_bit 4 (unat b AND 0xF0) = 0" by simp
    then have "drop_bit 4 (unat b) AND 15 = 0" by (simp add: drop_bit_and drop_bit_eq_div [of 4 240])
    then have "take_bit 4 (drop_bit 4 (unat b)) = 0" by (simp add: take_bit_eq_mask mask_eq_exp_minus_1)
    moreover have "unat b < 256" by simp
    ultimately show "unat b < 16" by (simp add: take_bit_eq_mod drop_bit_eq_div)
  next
    assume "unat b < 16"
    then have "unat b = take_bit 4 (unat b)" by (simp add: take_bit_nat_eq_self)
    then have "unat b AND 0xF0 = take_bit 4 (unat b) AND 0xF0" by simp
    also have "\<dots> = unat b AND take_bit 4 0xF0" by (simp add: take_bit_eq_mask ac_simps)
    finally show "unat b AND 0xF0 = 0" by (simp add: take_bit_eq_mod)
  qed
  finally show ?thesis .
qed

lemma nat_or_shift: "x < 2 ^ k \<Longrightarrow> (x :: nat) OR push_bit k y = x + 2 ^ k * y"
proof -
  assume "x < 2 ^ k"
  then have x: "take_bit k x = x" by (simp add: take_bit_nat_eq_self)
  have "take_bit k x AND push_bit k y = 0"
    by (rule bit_eqI) (auto simp: bit_simps)
  then have "x AND push_bit k y = 0" by (simp add: x)
  then have "x + push_bit k y = x OR push_bit k y" by (rule disjunctive_add_eq_or)
  then show ?thesis by (simp add: push_bit_eq_mult mult.commute)
qed

lemma uleb_accumulate:
  assumes val: "unat (val :: u32) < 2 ^ k" and fits: "2 ^ k * (unat b mod 128) < 2 ^ 32"
  shows "unat (val OR push_bit k (ucast ((b :: u8) AND 0x7F))) = unat val + 2 ^ k * (unat b mod 128)"
proof -
  let ?y = "unat b mod 128"
  have u: "unat (ucast (b AND 0x7F) :: u32) = ?y"
    by (simp add: unsigned_ucast_eq unat_low_seven take_bit_eq_mod)
  have "unat (push_bit k (ucast (b AND 0x7F) :: u32)) = take_bit 32 (push_bit k ?y)"
    by (simp add: unsigned_push_bit_eq u)
  also have "\<dots> = push_bit k ?y"
    using fits by (simp add: take_bit_nat_eq_self push_bit_eq_mult mult.commute)
  finally show ?thesis
    using nat_or_shift [OF val] by (simp add: unsigned_or_eq)
qed

lemma uleb_encode_small: "v < 128 \<Longrightarrow> uleb_encode v = [of_nat v]"
  by (simp add: uleb_encode.simps)

lemma uleb_encode_step:
  assumes "128 \<le> unat b" "0 < e"
  shows "uleb_encode (unat (b :: u8) mod 128 + 128 * e) = b # uleb_encode e"
proof -
  obtain x where x: "unat b = 128 + x" using assms(1) le_iff_add by blast
  have "unat b < 256" by simp
  with x have "128 + unat b mod 128 = unat b" by simp
  then have b: "of_nat (128 + unat b mod 128) = b" by (simp only: of_nat_unat ucast_id)
  have "(unat b mod 128 + 128 * e) mod 128 = unat b mod 128"
    "(unat b mod 128 + 128 * e) div 128 = e" "\<not> unat b mod 128 + 128 * e < 128"
    using assms(2) by simp_all
  then show ?thesis by (subst uleb_encode.simps) (simp only: b if_False)
qed

lemma uleb_fits: "g \<le> 4 \<Longrightarrow> (g = 4 \<longrightarrow> b < 16) \<Longrightarrow> 2 ^ (7 * g) * (b mod 128) < (2 :: nat) ^ 32"
proof (cases "g = 4")
  case False
  assume "g \<le> 4"
  with False have "(2 :: nat) ^ (7 * g) \<le> 2 ^ 21" by (intro power_increasing) auto
  moreover have "b mod 128 < 128" by simp
  ultimately have "2 ^ (7 * g) * (b mod 128) < (2 :: nat) ^ 21 * 128"
    by (intro mult_le_less_imp_less) auto
  then show ?thesis by simp
qed simp

lemma uleb_grows: "x < 2 ^ (7 * g) \<Longrightarrow> x + 2 ^ (7 * g) * (b mod 128) < (2 :: nat) ^ (7 + 7 * g)"
proof -
  assume "x < 2 ^ (7 * g)"
  moreover have "(2 :: nat) ^ (7 * g) * (b mod 128) \<le> 2 ^ (7 * g) * 127"
    by (intro mult_le_mono2) linarith
  ultimately have "x + 2 ^ (7 * g) * (b mod 128) < 128 * (2 :: nat) ^ (7 * g)" by linarith
  then show ?thesis by (simp add: power_add)
qed

lemma uleb_loop_sound:
  assumes "uleb_loop start n val c = (Inr v, c')" "n \<le> 5" "unat val < 2 ^ (7 * (5 - n))"
  shows "\<exists>e. unat v = unat val + 2 ^ (7 * (5 - n)) * e \<and> (n < 5 \<longrightarrow> 0 < e) \<and>
    c' = c\<lparr>cur_position := cur_position c + length (uleb_encode e)\<rparr> \<and>
    take (length (uleb_encode e)) (drop (cur_position c) (cur_bytes c)) = uleb_encode e"
  using assms
proof (induction n arbitrary: val c)
  case 0
  then show ?case by simp
next
  case (Suc n)
  define g where "g = 4 - n"
  have g: "5 - Suc n = g" "5 - n = Suc g" "g \<le> 4" using Suc.prems(2) by (auto simp: g_def)
  obtain b c1 where b: "read_u8 c = (Inr b, c1)"
    and hi: "\<not> (g = 4 \<and> b AND 0xF0 \<noteq> 0)"
    and rest: "(if b AND 0x80 = 0
      then if 0 < g \<and> b AND 0x7F = 0
           then sfail (error_at start NonCanonicalUleb128 ''ULEB128 has a redundant final group'')
           else sret (val OR push_bit (g * 7) (ucast (b AND 0x7F)))
      else uleb_loop start n (val OR push_bit (g * 7) (ucast (b AND 0x7F)))) c1 = (Inr v, c')"
    using Suc.prems(1) by (force simp: sbind_Inr_iff Let_def g_def[symmetric] split: if_split_asm)
  define val' where "val' = val OR push_bit (g * 7) (ucast (b AND 0x7F))"
  have fits: "2 ^ (7 * g) * (unat b mod 128) < 2 ^ 32"
    using hi g(3) by (intro uleb_fits) (auto simp: byte_high_nibble)
  have val': "unat val' = unat val + 2 ^ (7 * g) * (unat b mod 128)"
    using uleb_accumulate [OF _ fits, of val] Suc.prems(3) g(1)
    by (simp add: val'_def mult.commute)
  from b have pos: "cur_position c < length (cur_bytes c)" "b = cur_bytes c ! cur_position c"
    "c1 = c\<lparr>cur_position := cur_position c + 1\<rparr>" by (auto simp: read_u8_iff)
  then have drop: "drop (cur_position c) (cur_bytes c) = b # drop (Suc (cur_position c)) (cur_bytes c)"
    by (simp add: Cons_nth_drop_Suc)
  show ?case
  proof (cases "b AND 0x80 = 0")
    case True
    then have small: "unat b < 128" by (simp add: byte_top_bit)
    from True rest have v: "v = val'" "c' = c1" "g = 0 \<or> b AND 0x7F \<noteq> 0"
      by (auto simp: val'_def split: if_splits)
    have nz: "0 < g \<longrightarrow> 0 < unat b"
      using v(3) by (cases "unat b = 0") (auto simp: unsigned_eq_0_iff simp flip: neq0_conv)
    show ?thesis
      using v val' small nz g Suc.prems(2) pos drop
      by (intro exI [of _ "unat b"]) (auto simp: uleb_encode_small)
  next
    case False
    then have big: "128 \<le> unat b" by (simp add: byte_top_bit)
    from False rest have loop: "uleb_loop start n val' c1 = (Inr v, c')" by (simp add: val'_def)
    have "unat val' < 2 ^ (7 * (5 - n))"
      using val' Suc.prems(3) g uleb_grows by simp
    from Suc.IH [OF loop _ this] Suc.prems(2) obtain e where
      e: "unat v = unat val' + 2 ^ (7 * (5 - n)) * e" "0 < e"
      "c' = c1\<lparr>cur_position := cur_position c1 + length (uleb_encode e)\<rparr>"
      "take (length (uleb_encode e)) (drop (cur_position c1) (cur_bytes c1)) = uleb_encode e"
      by auto
    show ?thesis
      using e val' g pos drop uleb_encode_step [OF big e(2)]
      by (intro exI [of _ "unat b mod 128 + 128 * e"]) (auto simp: algebra_simps power_add)
  qed
qed

lemma unat_of_nat_small: "x < 256 \<Longrightarrow> unat (of_nat x :: u8) = x"
  by (simp add: unsigned_of_nat take_bit_nat_eq_self)

lemma uleb_quotient: "e < 2 ^ (32 - 7 * g) \<Longrightarrow> 128 \<le> e \<Longrightarrow> g \<le> 4 \<Longrightarrow>
    g < 4 \<and> e div 128 < (2 :: nat) ^ (32 - 7 * Suc g)"
proof -
  assume e: "e < 2 ^ (32 - 7 * g)" "128 \<le> e" "g \<le> 4"
  then consider "g = 0" | "g = 1" | "g = 2" | "g = 3" | "g = 4" by linarith
  then show ?thesis using e(1,2) by cases simp_all
qed

lemma uleb_loop_complete:
  assumes "n \<le> 5" "0 < n" "unat val < 2 ^ (7 * (5 - n))" "e < 2 ^ (32 - 7 * (5 - n))"
    "n < 5 \<longrightarrow> 0 < e" "length (cur_bytes c) < 2 ^ 64"
    "take (length (uleb_encode e)) (drop (cur_position c) (cur_bytes c)) = uleb_encode e"
  shows "\<exists>v. uleb_loop start n val c =
      (Inr v, c\<lparr>cur_position := cur_position c + length (uleb_encode e)\<rparr>) \<and>
      unat v = unat val + 2 ^ (7 * (5 - n)) * e"
  using assms
proof (induction n arbitrary: val c e)
  case 0
  then show ?case by simp
next
  case (Suc n)
  define g where "g = 4 - n"
  have g: "5 - Suc n = g" "5 - n = Suc g" "g \<le> 4" "n = 4 - g" "g = 0 \<longleftrightarrow> \<not> Suc n < 5"
    using Suc.prems(1) by (auto simp: g_def)
  define b :: u8 where "b = hd (uleb_encode e)"
  have ne: "uleb_encode e \<noteq> []" by (subst uleb_encode.simps) simp
  have dne: "drop (cur_position c) (cur_bytes c) \<noteq> []" using Suc.prems(7) ne by auto
  then have pos: "cur_position c < length (cur_bytes c)" by simp
  have nth: "cur_bytes c ! cur_position c = b"
    using Suc.prems(7) ne pos unfolding b_def
    by (metis hd_drop_conv_nth hd_take length_greater_0_conv)
  let ?c1 = "c\<lparr>cur_position := cur_position c + 1\<rparr>"
  have read: "read_u8 c = (Inr b, ?c1)" using pos nth Suc.prems(6) by (simp add: read_u8_iff)
  define val' where "val' = val OR push_bit (g * 7) (ucast (b AND 0x7F))"
  have step: "uleb_loop start (Suc n) val c =
      (if g = 4 \<and> b AND 0xF0 \<noteq> 0
       then sfail (error_at start IntegerOverflow ''ULEB128 exceeds u32'')
       else if b AND 0x80 = 0
       then if 0 < g \<and> b AND 0x7F = 0
            then sfail (error_at start NonCanonicalUleb128 ''ULEB128 has a redundant final group'')
            else sret val'
       else uleb_loop start n val') ?c1"
    using read by (simp add: sbind_def Let_def val'_def g_def[symmetric])
  have acc: "unat val' = unat val + 2 ^ (7 * g) * (unat b mod 128)" if "g = 4 \<longrightarrow> unat b < 16"
    using uleb_accumulate [OF _ uleb_fits [OF g(3) that], of val] Suc.prems(3) g(1)
    by (simp add: val'_def mult.commute)
  show ?case
  proof (cases "e < 128")
    case True
    then have b: "unat b = e" by (simp add: b_def uleb_encode_small unat_of_nat_small)
    have small: "g = 4 \<longrightarrow> unat b < 16" using Suc.prems(4) g b by auto
    have nz: "0 < g \<longrightarrow> b AND 0x7F \<noteq> 0"
      using Suc.prems(5) g(5) True b unat_low_seven [of b] by auto
    show ?thesis
      using step acc [OF small] small nz True b g
      by (auto simp: byte_high_nibble byte_top_bit uleb_encode_small)
  next
    case False
    with uleb_quotient [of e g] Suc.prems(4) g have q: "g < 4" "e div 128 < 2 ^ (32 - 7 * Suc g)" by auto
    have enc: "uleb_encode e = b # uleb_encode (e div 128)"
      using False by (simp add: b_def uleb_encode.simps [of e])
    have "b = of_nat (128 + e mod 128)" using False by (simp add: b_def uleb_encode.simps [of e])
    then have b: "unat b = 128 + e mod 128"
      using unat_of_nat_small [of "128 + e mod 128"] by (simp only:)
    have v: "unat val' = unat val + 2 ^ (7 * g) * (e mod 128)"
      using acc q(1) b by simp
    have "\<exists>v. uleb_loop start n val' ?c1 =
        (Inr v, ?c1\<lparr>cur_position := cur_position ?c1 + length (uleb_encode (e div 128))\<rparr>) \<and>
        unat v = unat val' + 2 ^ (7 * (5 - n)) * (e div 128)"
    proof (rule Suc.IH)
      show "unat val' < 2 ^ (7 * (5 - n))"
        using v uleb_grows [of "unat val" g e] Suc.prems(3) g by simp
      show "take (length (uleb_encode (e div 128))) (drop (cur_position ?c1) (cur_bytes ?c1)) =
          uleb_encode (e div 128)"
        using Suc.prems(7) enc pos by (simp add: Cons_nth_drop_Suc[symmetric])
    qed (use Suc.prems q g False in \<open>auto simp: div_greater_zero_iff\<close>)
    then obtain v' where v': "uleb_loop start n val' ?c1 =
        (Inr v', c\<lparr>cur_position := cur_position c + length (uleb_encode e)\<rparr>)"
        "unat v' = unat val' + 2 ^ (7 * (5 - n)) * (e div 128)"
      by (auto simp: enc)
    have "2 ^ (7 * (5 - n)) = (2 :: nat) ^ (7 * g) * 128" by (simp add: g(2) power_add)
    then have "2 ^ (7 * g) * (e mod 128) + 2 ^ (7 * (5 - n)) * (e div 128) =
        2 ^ (7 * g) * (e mod 128 + 128 * (e div 128))" by (simp only: distrib_left mult.assoc)
    then have "2 ^ (7 * g) * (e mod 128) + 2 ^ (7 * (5 - n)) * (e div 128) = 2 ^ (7 * g) * e"
      by (simp only: mod_mult_div_eq)
    then show ?thesis
      using step v' v q(1) b g by (auto simp: byte_top_bit)
  qed
qed

text \<open>
  C14. \<open>read_uleb32\<close> succeeds exactly on canonical encodings: on any input slice it returns \<open>v\<close> if
  and only if the bytes at the cursor start with the shortest ULEB128 encoding of \<open>v\<close>, and it then
  advances the cursor by exactly the length of that encoding. Redundant final groups, a fifth byte
  with high bits and truncated input are all rejected.
\<close>
theorem read_uleb32_exact:
  assumes "length (cur_bytes c) < 2 ^ 64"
  shows "read_uleb32 c = (Inr v, c') \<longleftrightarrow>
    take (length (uleb_encode (unat v))) (drop (cur_position c) (cur_bytes c)) = uleb_encode (unat v) \<and>
    c' = c\<lparr>cur_position := cur_position c + length (uleb_encode (unat v))\<rparr>"
    (is "_ \<longleftrightarrow> ?enc")
proof
  assume "read_uleb32 c = (Inr v, c')"
  then have "uleb_loop (cur_position c) 5 0 c = (Inr v, c')" by (simp only: read_uleb32_def)
  from uleb_loop_sound [OF this] show ?enc by simp
next
  assume enc: ?enc
  have "unat v < 2 ^ (32 - 7 * (5 - 5))" by simp
  from uleb_loop_complete [of 5 0, OF _ _ _ this _ assms conjunct1 [OF enc]]
  obtain v' where v': "uleb_loop (cur_position c) 5 0 c = (Inr v', c')" "unat v' = unat v"
    using conjunct2 [OF enc] by force
  then have "v' = v" by (metis unsigned_word_eqI)
  with v' show "read_uleb32 c = (Inr v, c')" by (simp only: read_uleb32_def)
qed

theorem read_uleb32_exact_witness:
  "length (cur_bytes (cursor_new [0xE5, 0x8E, 0x26, 7])) < 2 ^ 64 \<and>
   read_uleb32 (cursor_new [0xE5, 0x8E, 0x26, 7]) =
     (Inr 624485, (cursor_new [0xE5, 0x8E, 0x26, 7])\<lparr>cur_position := 3\<rparr>)"
  using read_uleb32_exact [of "cursor_new [0xE5, 0x8E, 0x26, 7]" 624485
      "(cursor_new [0xE5, 0x8E, 0x26, 7])\<lparr>cur_position := 3\<rparr>"]
  by (simp add: cursor_new_def uleb_encode.simps)

end
