(* ===== verification/Fs_Path.thy ===== *)
theory Fs_Path
  imports Bytes
begin

text \<open>
  The filesystem's errors, limits and virtual paths (\<open>src/src/filesystem/error.rs\<close>,
  \<open>limits.rs\<close>, \<open>path.rs\<close>). A \<open>str\<close> is its UTF-8 byte list, a \<open>VirtualPath\<close> the list of its
  components; since the separator and NUL are ASCII, splitting on bytes is splitting on scalars.

  The lemmas show that parsing accepts exactly the printed form of a well-formed path, that the
  printed form and the component list determine each other, and that the UTF-16 entry point is the
  UTF-8 one on the transcoded text although it stops early.
\<close>

datatype filesystem_error = InvalidPath | NotFound | AlreadyExists | NotDirectory | IsDirectory
  | NotExecutable | NotEmpty | ReadOnly | PermissionDenied | StaleHandle | QuotaExceeded | Busy
  | StorageFaulted | FsClosed | Panicked

text \<open>\<open>Panicked\<close> is not a constructor of the source's enum: it is the model's value for a Rust panic
  (an \<open>expect\<close> on \<open>None\<close>). The reachable states of the filesystem are shown never to produce it.\<close>

datatype store_health = HealthActive | HealthDraining | HealthFaulted | HealthClosed

record filesystem_limits =
  maximum_path_bytes :: nat
  maximum_component_bytes :: nat
  maximum_components :: nat
  maximum_logical_bytes :: nat
  maximum_file_bytes :: nat
  maximum_nodes :: nat
  maximum_directory_entries :: nat
  maximum_open_handles :: nat
  maximum_io_bytes :: nat
  maximum_rom_bytes :: nat
  maximum_journal_record_bytes :: nat
  maximum_journal_payload_bytes :: nat
  maximum_checkpoint_bytes :: nat
  maximum_recovery_records :: nat
  maximum_recovery_bytes :: nat
  maximum_persistence_queue_records :: nat
  maximum_persistence_queue_bytes :: nat

definition default_limits :: filesystem_limits where
  "default_limits = \<lparr>
     maximum_path_bytes = 4096,
     maximum_component_bytes = 255,
     maximum_components = 64,
     maximum_logical_bytes = 64 * 2 ^ 20,
     maximum_file_bytes = 8 * 2 ^ 20,
     maximum_nodes = 65536,
     maximum_directory_entries = 4096,
     maximum_open_handles = 256,
     maximum_io_bytes = 64 * 2 ^ 10,
     maximum_rom_bytes = 16 * 2 ^ 20,
     maximum_journal_record_bytes = 2 ^ 20,
     maximum_journal_payload_bytes = 512 * 2 ^ 10,
     maximum_checkpoint_bytes = 128 * 2 ^ 20,
     maximum_recovery_records = 65536,
     maximum_recovery_bytes = 512 * 2 ^ 20,
     maximum_persistence_queue_records = 4096,
     maximum_persistence_queue_bytes = 64 * 2 ^ 20\<rparr>"

definition testing_limits :: filesystem_limits where
  "testing_limits = \<lparr>
     maximum_path_bytes = 256,
     maximum_component_bytes = 64,
     maximum_components = 16,
     maximum_logical_bytes = 2 ^ 20,
     maximum_file_bytes = 2 ^ 16,
     maximum_nodes = 1024,
     maximum_directory_entries = 256,
     maximum_open_handles = 32,
     maximum_io_bytes = 4096,
     maximum_rom_bytes = 2 ^ 20,
     maximum_journal_record_bytes = 2 ^ 16,
     maximum_journal_payload_bytes = 2 ^ 15,
     maximum_checkpoint_bytes = 2 ^ 20,
     maximum_recovery_records = 1024,
     maximum_recovery_bytes = 4 * 2 ^ 20,
     maximum_persistence_queue_records = 64,
     maximum_persistence_queue_bytes = 2 ^ 20\<rparr>"

type_synonym component = bytes
type_synonym virtual_path = "component list"

abbreviation SLASH :: u8 where "SLASH \<equiv> 0x2F"
abbreviation DOT :: u8 where "DOT \<equiv> 0x2E"

fun split_on :: "'a \<Rightarrow> 'a list \<Rightarrow> 'a list list" where
  "split_on c [] = [[]]"
| "split_on c (x # xs) =
     (if x = c then [] # split_on c xs
      else (case split_on c xs of [] \<Rightarrow> [[x]] | y # ys \<Rightarrow> (x # y) # ys))"

definition root_path :: virtual_path where "root_path = []"

definition component_ok :: "filesystem_limits \<Rightarrow> component \<Rightarrow> bool" where
  "component_ok lim c \<longleftrightarrow>
     \<not> (c = [] \<or> c = [DOT] \<or> c = [DOT, DOT] \<or> maximum_component_bytes lim < length c)"

definition starts_with_slash :: "bytes \<Rightarrow> bool" where
  "starts_with_slash s \<longleftrightarrow> (case s of [] \<Rightarrow> False | b # _ \<Rightarrow> b = SLASH)"

definition parse_utf8 :: "bytes \<Rightarrow> filesystem_limits \<Rightarrow> filesystem_error + virtual_path" where
  "parse_utf8 s lim =
     (if maximum_path_bytes lim < length s \<or> \<not> starts_with_slash s \<or> s = [] \<or> 0 \<in> set s
      then Inl InvalidPath
      else if s = [SLASH] then Inr []
      else if last s = SLASH then Inl InvalidPath
      else
        (let components = split_on SLASH (drop 1 s) in
         if \<not> list_all (component_ok lim) components then Inl InvalidPath
         else if maximum_components lim < length components then Inl InvalidPath
         else Inr components))"

fun utf16_text :: "filesystem_limits \<Rightarrow> (u16 + nat) list \<Rightarrow> bytes \<Rightarrow> filesystem_error + bytes" where
  "utf16_text lim [] decoded = Inr decoded"
| "utf16_text lim (Inl u # items) decoded = Inl InvalidPath"
| "utf16_text lim (Inr scalar # items) decoded =
     (if scalar = 0 then Inl InvalidPath
      else
        (let decoded = decoded @ encode_utf8 scalar in
         if maximum_path_bytes lim < length decoded then Inl InvalidPath
         else utf16_text lim items decoded))"

definition parse_utf16 :: "u16 list \<Rightarrow> filesystem_limits \<Rightarrow> filesystem_error + virtual_path" where
  "parse_utf16 units lim =
     rbind (utf16_text lim (decode_utf16 units) []) (\<lambda>decoded. parse_utf8 decoded lim)"

definition is_within :: "virtual_path \<Rightarrow> virtual_path \<Rightarrow> bool" where
  "is_within p r \<longleftrightarrow> take (length r) p = r"

definition path_parent :: "virtual_path \<Rightarrow> virtual_path option" where
  "path_parent p = (if p = [] then None else Some (take (length p - 1) p))"

definition file_name :: "virtual_path \<Rightarrow> component option" where
  "file_name p = (if p = [] then None else Some (last p))"

definition encoded_len :: "virtual_path \<Rightarrow> nat" where
  "encoded_len p = 1 + sum_list (map length p) + (length p - 1)"

definition display :: "virtual_path \<Rightarrow> bytes" where
  "display p =
     SLASH # (case p of [] \<Rightarrow> [] | first # rest \<Rightarrow> first @ concat (map (\<lambda>c. SLASH # c) rest))"

text \<open>Well-formed paths: what a parsed path satisfies.\<close>

definition path_wf :: "filesystem_limits \<Rightarrow> virtual_path \<Rightarrow> bool" where
  "path_wf lim p \<longleftrightarrow>
     encoded_len p \<le> maximum_path_bytes lim \<and> length p \<le> maximum_components lim \<and>
     list_all (\<lambda>c. component_ok lim c \<and> SLASH \<notin> set c \<and> 0 \<notin> set c) p"

subsection \<open>Splitting and joining\<close>

lemma starts_with_slash_iff: "starts_with_slash s \<longleftrightarrow> (\<exists>r. s = SLASH # r)"
  by (auto simp: starts_with_slash_def split: list.splits)

lemma split_on_not_Nil [simp]: "split_on c xs \<noteq> []"
  by (induction xs) (auto split: list.splits)

lemma split_on_no_sep: "c \<notin> set xs \<Longrightarrow> split_on c xs = [xs]"
  by (induction xs) auto

lemma split_on_append: "c \<notin> set xs \<Longrightarrow> split_on c (xs @ c # ys) = xs # split_on c ys"
  by (induction xs) auto

lemma split_on_free: "p \<in> set (split_on c xs) \<Longrightarrow> c \<notin> set p \<and> set p \<subseteq> set xs"
proof (induction xs arbitrary: p)
  case Nil
  then show ?case by simp
next
  case (Cons x xs)
  then show ?case
    by (cases "split_on c xs") (fastforce split: if_splits)+
qed

definition join_tail :: "bytes list \<Rightarrow> bytes" where
  "join_tail cs = concat (map (\<lambda>c. SLASH # c) cs)"

lemma split_join:
  "list_all (\<lambda>c. SLASH \<notin> set c) (x # xs) \<Longrightarrow> split_on SLASH (x @ join_tail xs) = x # xs"
proof (induction xs arbitrary: x)
  case Nil
  then show ?case by (simp add: join_tail_def split_on_no_sep)
next
  case (Cons y ys)
  then show ?case using split_on_append [of SLASH x "y @ join_tail ys"]
    by (simp add: join_tail_def)
qed

lemma join_split: "split_on SLASH s = x # xs \<Longrightarrow> x @ join_tail xs = s"
proof (induction s arbitrary: x xs)
  case Nil
  then show ?case by (simp add: join_tail_def)
next
  case (Cons b s)
  obtain y ys where y: "split_on SLASH s = y # ys" by (cases "split_on SLASH s") auto
  show ?case
  proof (cases "b = SLASH")
    case True
    with Cons.prems y have "x = []" "xs = y # ys" by auto
    with Cons.IH [OF y] True show ?thesis by (simp add: join_tail_def)
  next
    case False
    with Cons.prems y have "x = b # y" "xs = ys" by auto
    with Cons.IH [OF y] show ?thesis by simp
  qed
qed

lemma display_Cons: "display (c # cs) = SLASH # c @ join_tail cs"
  by (simp add: display_def join_tail_def)

lemma display_Nil [simp]: "display [] = [SLASH]"
  by (simp add: display_def)

lemma length_join_tail: "length (join_tail cs) = sum_list (map length cs) + length cs"
  by (induction cs) (auto simp: join_tail_def)

lemma length_display: "length (display p) = encoded_len p"
  by (cases p) (auto simp: display_Cons encoded_len_def length_join_tail)

lemma set_join_tail: "set (join_tail cs) \<subseteq> insert SLASH (\<Union> (set ` set cs))"
  by (auto simp: join_tail_def)

lemma path_wf_no_slash: "path_wf lim p \<Longrightarrow> list_all (\<lambda>c. SLASH \<notin> set c) p"
  by (auto simp: path_wf_def list_all_iff)

lemma path_wf_last:
  assumes "path_wf lim (c # cs)" shows "last (c @ join_tail cs) \<noteq> SLASH"
proof (cases cs rule: rev_cases)
  case Nil
  with assms have "c \<noteq> []" "SLASH \<notin> set c" by (auto simp: path_wf_def component_ok_def)
  with Nil show ?thesis using last_in_set [of c] by (metis append_Nil2 concat.simps(1) join_tail_def list.map(1))
next
  case (snoc ds d)
  with assms have d: "d \<noteq> []" "SLASH \<notin> set d" by (auto simp: path_wf_def component_ok_def)
  from snoc d(1) have "last (c @ join_tail cs) = last d" by (simp add: join_tail_def)
  with d show ?thesis by (metis last_in_set)
qed

lemma parse_utf8_display: "path_wf lim p \<Longrightarrow> parse_utf8 (display p) lim = Inr p"
proof (cases p)
  case Nil
  assume "path_wf lim p"
  with Nil show ?thesis by (simp add: path_wf_def encoded_len_def parse_utf8_def starts_with_slash_def)
next
  case (Cons c cs)
  assume wf: "path_wf lim p"
  then have len: "length (display p) \<le> maximum_path_bytes lim"
    by (simp add: path_wf_def length_display)
  have c: "c \<noteq> []" using wf Cons by (simp add: path_wf_def component_ok_def)
  have nul: "0 \<notin> set (display p)"
    using wf Cons set_join_tail [of cs] by (auto simp: display_Cons path_wf_def list_all_iff)
  have "last (display p) = last (c @ join_tail cs)" using c Cons by (simp add: display_Cons)
  then have last: "last (display p) \<noteq> SLASH" using path_wf_last wf Cons by metis
  have "split_on SLASH (drop 1 (display p)) = p"
    using split_join [of c cs] path_wf_no_slash [OF wf] Cons by (simp add: display_Cons)
  moreover have "list_all (component_ok lim) p" "length p \<le> maximum_components lim"
    using wf by (auto simp: path_wf_def list_all_iff)
  ultimately show ?thesis
    using len nul last c Cons by (simp add: parse_utf8_def display_Cons starts_with_slash_def)
qed

lemma parse_utf8_sound: "parse_utf8 s lim = Inr p \<Longrightarrow> s = display p \<and> path_wf lim p"
proof -
  assume parse: "parse_utf8 s lim = Inr p"
  then have len: "length s \<le> maximum_path_bytes lim" and nul: "0 \<notin> set s"
    and ex: "\<exists>r. s = SLASH # r"
    by (auto simp: parse_utf8_def Let_def starts_with_slash_iff split: if_splits)
  from ex obtain r where s: "s = SLASH # r" by blast
  show ?thesis
  proof (cases "r = []")
    case True
    with parse s len show ?thesis
      by (simp add: parse_utf8_def path_wf_def encoded_len_def starts_with_slash_def)
  next
    case False
    with parse s have p: "p = split_on SLASH r" "list_all (component_ok lim) p"
      "length p \<le> maximum_components lim"
      by (auto simp: parse_utf8_def Let_def split: if_splits)
    obtain c cs where c: "p = c # cs" using p(1) split_on_not_Nil [of SLASH r] by (metis neq_Nil_conv)
    have disp: "s = display p" using join_split [OF p(1) [unfolded c, symmetric]] c s by (simp add: display_Cons)
    have "list_all (\<lambda>c. SLASH \<notin> set c \<and> 0 \<notin> set c) p"
      using p(1) nul s by (auto simp: list_all_iff dest: split_on_free)
    with p disp len show ?thesis
      by (auto simp: path_wf_def list_all_iff length_display)
  qed
qed

text \<open>
  C12. Parsing and printing of virtual paths are inverse: \<open>parse_utf8\<close> accepts exactly the text
  \<open>display\<close> prints for a path that respects the component, count and length limits and has no
  empty, dot, dot-dot, NUL- or slash-carrying component, and it returns that path.
\<close>
theorem parse_utf8_iff: "parse_utf8 s lim = Inr p \<longleftrightarrow> s = display p \<and> path_wf lim p"
  using parse_utf8_display parse_utf8_sound by blast

subsection \<open>UTF-16 entry point\<close>

lemma utf16_text_iff:
  "utf16_text lim items d = Inr t \<longleftrightarrow>
     (\<exists>ss. items = map Inr ss \<and> 0 \<notin> set ss \<and> t = d @ concat (map encode_utf8 ss) \<and>
           (ss = [] \<or> length t \<le> maximum_path_bytes lim))"
proof (induction lim items d rule: utf16_text.induct)
  case (3 lim scalar items d)
  show ?case
  proof (cases "scalar = 0 \<or> maximum_path_bytes lim < length (d @ encode_utf8 scalar)")
    case True
    then show ?thesis by (auto simp: Cons_eq_map_conv)
  next
    case False
    with 3 show ?thesis by (auto simp: Cons_eq_map_conv)
  qed
qed (auto simp: Cons_eq_map_conv)

lemma utf16_text_error: "utf16_text lim items d = Inl e \<Longrightarrow> e = InvalidPath"
  by (induction lim items d rule: utf16_text.induct) (auto simp: Let_def split: if_splits)

lemma decode_utf16_scalar: "Inr c \<in> set (decode_utf16 us) \<Longrightarrow> is_scalar c"
proof (induction us rule: decode_utf16.induct)
  case (2 u us)
  have "unat u < 1114112" by (rule less_trans [OF unat_less_u16]) simp
  with 2 show ?case
    by (auto simp: is_scalar_def word_less_nat_alt word_le_nat_alt not_less not_le
        split: if_splits list.splits)
qed simp

lemma byte_range_of_nat:
  assumes "x < 256"
  shows "in_range lo hi (of_nat x) \<longleftrightarrow> unat lo \<le> x \<and> x \<le> unat hi"
    "is_continuation (of_nat x) \<longleftrightarrow> 128 \<le> x \<and> x < 192"
    "(of_nat x :: u8) < lo \<longleftrightarrow> x < unat lo"
    "(of_nat x :: u8) = lo \<longleftrightarrow> x = unat lo"
  using assms
  by (auto simp: in_range_def is_continuation_def word_le_nat_alt word_less_nat_alt
      unat_of_nat_small word_unat_eq_iff)

lemma utf8_valid_two:
  assumes "0xC2 \<le> a" "a \<le> 0xDF" "0x80 \<le> b" "b < 0xC0"
  shows "utf8_valid (of_nat a # of_nat b # s) = utf8_valid s"
  using assms by (simp add: byte_range_of_nat)

lemma utf8_valid_three:
  assumes "0xE0 \<le> a" "a \<le> 0xEF" "0x80 \<le> b" "b < 0xC0" "0x80 \<le> d" "d < 0xC0"
    "a = 0xE0 \<longrightarrow> 0xA0 \<le> b" "a = 0xED \<longrightarrow> b \<le> 0x9F"
  shows "utf8_valid (of_nat a # of_nat b # of_nat d # s) = utf8_valid s"
  using assms by (simp add: byte_range_of_nat)

lemma utf8_valid_four:
  assumes "0xF0 \<le> a" "a \<le> 0xF4" "0x80 \<le> b" "b < 0xC0" "0x80 \<le> d" "d < 0xC0"
    "0x80 \<le> e" "e < 0xC0" "a = 0xF0 \<longrightarrow> 0x90 \<le> b" "a = 0xF4 \<longrightarrow> b \<le> 0x8F"
  shows "utf8_valid (of_nat a # of_nat b # of_nat d # of_nat e # s) = utf8_valid s"
  using assms by (simp add: byte_range_of_nat)

lemma utf8_valid_encode: "is_scalar c \<Longrightarrow> utf8_valid (encode_utf8 c @ s) = utf8_valid s"
proof -
  assume c: "is_scalar c"
  consider "c < 0x80" | "0x80 \<le> c" "c < 0x800" | "0x800 \<le> c" "c < 0x10000"
    | "0x10000 \<le> c" "c < 0x110000" using c unfolding is_scalar_def by linarith
  then show ?thesis
  proof cases
    case 1
    then show ?thesis by (simp add: encode_utf8_def byte_range_of_nat)
  next
    case 2
    then have "2 \<le> c div 0x40" "c div 0x40 < 0x20"
      using div_le_mono [of 128 c 64] by (simp_all add: less_mult_imp_div_less)
    moreover have "encode_utf8 c = [of_nat (0xC0 + c div 0x40), of_nat (0x80 + c mod 0x40)]"
      using 2 by (simp add: encode_utf8_def)
    ultimately show ?thesis
      using utf8_valid_two [of "0xC0 + c div 0x40" "0x80 + c mod 0x40" s] by simp
  next
    case 3
    define a b where "a = c div 0x1000" and "b = c div 0x40 mod 0x40"
    have "a = c div 0x40 div 0x40" by (simp add: a_def flip: div_mult2_eq)
    then have cdiv: "c div 0x40 = a * 0x40 + b" by (simp only: b_def div_mult_mod_eq)
    have ab: "a < 0x10" "b < 0x40" using 3 by (simp_all add: a_def b_def less_mult_imp_div_less)
    moreover obtain r where r: "c = (a * 0x40 + b) * 0x40 + r" "r < 0x40"
      by (metis cdiv div_mult_mod_eq mod_less_divisor zero_less_numeral)
    moreover have "a = 0 \<longrightarrow> 0x20 \<le> b" using r 3 by simp
    moreover have "a = 0xD \<longrightarrow> b \<le> 0x1F" using r ab c by (auto simp: is_scalar_def)
    moreover have "encode_utf8 c = [of_nat (0xE0 + a), of_nat (0x80 + b), of_nat (0x80 + c mod 0x40)]"
      using 3 by (simp add: encode_utf8_def a_def b_def)
    ultimately show ?thesis
      using utf8_valid_three [of "0xE0 + a" "0x80 + b" "0x80 + c mod 0x40" s] by simp
  next
    case 4
    define a b where "a = c div 0x40000" and "b = c div 0x1000 mod 0x40"
    have "a = c div 0x1000 div 0x40" by (simp add: a_def flip: div_mult2_eq)
    then have cdiv: "c div 0x1000 = a * 0x40 + b" by (simp only: b_def div_mult_mod_eq)
    have ab: "a < 5" "b < 0x40" using 4 by (simp_all add: a_def b_def less_mult_imp_div_less)
    moreover obtain r where r: "c = (a * 0x40 + b) * 0x1000 + r" "r < 0x1000"
      by (metis cdiv div_mult_mod_eq mod_less_divisor zero_less_numeral)
    moreover have "a = 0 \<longrightarrow> 0x10 \<le> b" using r 4 by simp
    moreover have "a = 4 \<longrightarrow> b \<le> 0xF" using r 4 by auto
    moreover have "encode_utf8 c = [of_nat (0xF0 + a), of_nat (0x80 + b),
        of_nat (0x80 + c div 0x40 mod 0x40), of_nat (0x80 + c mod 0x40)]"
      using 4 by (simp add: encode_utf8_def a_def b_def)
    ultimately show ?thesis
      using utf8_valid_four [of "0xF0 + a" "0x80 + b" "0x80 + c div 0x40 mod 0x40" "0x80 + c mod 0x40" s]
      by simp
  qed
qed

lemma utf8_valid_scalars: "\<forall>c\<in>set ss. is_scalar c \<Longrightarrow> utf8_valid (concat (map encode_utf8 ss))"
  by (induction ss) (auto simp: utf8_valid_encode)

text \<open>
  C13. \<open>parse_utf16\<close> returns \<open>p\<close> exactly when the code units decode without an unpaired surrogate and
  the scalars' UTF-8 text is the printed form of the well-formed path \<open>p\<close>; the early exits on a NUL
  and on an over-long prefix never change the answer, and the text accepted is valid UTF-8.
\<close>
theorem parse_utf16_iff:
  "parse_utf16 units lim = Inr p \<longleftrightarrow>
     (\<exists>ss. decode_utf16 units = map Inr ss \<and> concat (map encode_utf8 ss) = display p \<and>
           utf8_valid (display p) \<and> path_wf lim p)"
proof
  assume "parse_utf16 units lim = Inr p"
  then obtain ss where ss: "decode_utf16 units = map Inr ss"
      "parse_utf8 (concat (map encode_utf8 ss)) lim = Inr p"
    by (auto simp: parse_utf16_def rbind_Inr_iff utf16_text_iff)
  from parse_utf8_sound [OF ss(2)] have "concat (map encode_utf8 ss) = display p" "path_wf lim p"
    by auto
  moreover from ss(1) have "\<forall>c\<in>set ss. is_scalar c"
    by (metis decode_utf16_scalar imageI list.set_map)
  ultimately show "\<exists>ss. decode_utf16 units = map Inr ss \<and> concat (map encode_utf8 ss) = display p \<and>
           utf8_valid (display p) \<and> path_wf lim p"
    using ss(1) utf8_valid_scalars by metis
next
  assume "\<exists>ss. decode_utf16 units = map Inr ss \<and> concat (map encode_utf8 ss) = display p \<and>
           utf8_valid (display p) \<and> path_wf lim p"
  then obtain ss where ss: "decode_utf16 units = map Inr ss"
      "concat (map encode_utf8 ss) = display p" "path_wf lim p" by blast
  have nul: "0 \<notin> set (display p)"
    using parse_utf8_display [OF ss(3)] by (auto simp: parse_utf8_def split: if_splits)
  have "0 \<notin> set ss"
  proof
    assume "0 \<in> set ss"
    then have "set (encode_utf8 0) \<subseteq> set (concat (map encode_utf8 ss))" by (simp only: set_concat set_map) blast
    then have "0 \<in> set (concat (map encode_utf8 ss))" by (simp add: encode_utf8_def [of 0])
    with nul ss(2) show False by simp
  qed
  moreover have "length (display p) \<le> maximum_path_bytes lim"
    using ss(3) by (simp add: length_display path_wf_def)
  ultimately have "utf16_text lim (decode_utf16 units) [] = Inr (display p)"
    using ss by (auto simp: utf16_text_iff)
  then show "parse_utf16 units lim = Inr p"
    using parse_utf8_display [OF ss(3)] by (simp add: parse_utf16_def)
qed

lemma parse_utf8_error: "parse_utf8 s lim = Inl e \<Longrightarrow> e = InvalidPath"
  by (auto simp: parse_utf8_def Let_def split: if_splits)

end
