(* ===== verification/Generation_Tables.thy ===== *)
theory Generation_Tables
  imports Prelude
begin

text \<open>
  The contract shared by the slot tables that hand out generation-checked handles: the guest file
  handles, the external roots of the heap. A handle resolves to what was stored under it until it is
  closed, and never again afterwards, whatever the table stores in between.
\<close>

datatype ('v, 'h) table_op = TOpen 'v | TClose 'h

fun table_apply ::
  "('s \<Rightarrow> 'v \<Rightarrow> ('h \<times> 's) option) \<Rightarrow> ('s \<Rightarrow> 'h \<Rightarrow> 's option) \<Rightarrow> 's \<Rightarrow> ('v, 'h) table_op \<Rightarrow> 's"
where
  "table_apply opn cls s (TOpen v) = (case opn s v of None \<Rightarrow> s | Some (_, t) \<Rightarrow> t)"
| "table_apply opn cls s (TClose h) = (case cls s h of None \<Rightarrow> s | Some t \<Rightarrow> t)"

locale generation_table =
  fixes inv :: "'s \<Rightarrow> bool"
    and opn :: "'s \<Rightarrow> 'v \<Rightarrow> ('h \<times> 's) option"
    and get :: "'s \<Rightarrow> 'h \<Rightarrow> 'v option"
    and cls :: "'s \<Rightarrow> 'h \<Rightarrow> 's option"
    and dead :: "'s \<Rightarrow> 'h \<Rightarrow> bool"
  assumes open_inv: "\<lbrakk>inv s; opn s v = Some (h, s')\<rbrakk> \<Longrightarrow> inv s'"
    and close_inv: "\<lbrakk>inv s; cls s h = Some s'\<rbrakk> \<Longrightarrow> inv s'"
    and open_get: "\<lbrakk>inv s; opn s v = Some (h, s')\<rbrakk> \<Longrightarrow> get s' h = Some v"
    and open_fresh: "\<lbrakk>inv s; opn s v = Some (h, s')\<rbrakk> \<Longrightarrow> get s h = None \<and> \<not> dead s h"
    and open_other: "\<lbrakk>inv s; opn s v = Some (h, s'); k \<noteq> h\<rbrakk> \<Longrightarrow> get s' k = get s k"
    and open_dead: "\<lbrakk>inv s; opn s v = Some (h, s'); dead s k\<rbrakk> \<Longrightarrow> dead s' k"
    and close_get: "\<lbrakk>inv s; cls s h = Some s'\<rbrakk> \<Longrightarrow> get s h \<noteq> None"
    and close_other: "\<lbrakk>inv s; cls s h = Some s'; k \<noteq> h\<rbrakk> \<Longrightarrow> get s' k = get s k"
    and close_dead: "\<lbrakk>inv s; cls s h = Some s'; dead s k \<or> k = h\<rbrakk> \<Longrightarrow> dead s' k"
    and dead_get: "\<lbrakk>inv s; dead s h\<rbrakk> \<Longrightarrow> get s h = None"
begin

abbreviation "apply_op \<equiv> table_apply opn cls"

lemma apply_op_inv: "inv s \<Longrightarrow> inv (apply_op s c)"
  by (cases c) (auto split: option.splits intro: open_inv close_inv)

lemma foldl_inv: "inv s \<Longrightarrow> inv (foldl apply_op s cs)"
  by (induction cs arbitrary: s) (simp_all add: apply_op_inv)

lemma apply_op_dead: "inv s \<Longrightarrow> dead s h \<Longrightarrow> dead (apply_op s c) h"
  by (cases c) (auto split: option.splits intro: open_dead close_dead)

lemma foldl_dead: "inv s \<Longrightarrow> dead s h \<Longrightarrow> dead (foldl apply_op s cs) h"
  by (induction cs arbitrary: s) (simp_all add: apply_op_inv apply_op_dead)

lemma closed_never_resolves:
  assumes "inv s" "cls s h = Some s'"
  shows "get (foldl apply_op s' cs) h = None"
  using assms by (meson close_dead close_inv dead_get foldl_dead foldl_inv)

lemma closed_never_reissued:
  assumes "inv s" "cls s h = Some s'" "opn (foldl apply_op s' cs) v = Some (k, t)"
  shows "k \<noteq> h"
  using assms by (meson close_dead close_inv foldl_dead foldl_inv open_fresh)

lemma live_until_closed:
  assumes "inv s" "get s h = Some v" "\<forall>c\<in>set cs. c \<noteq> TClose h"
  shows "get (foldl apply_op s cs) h = Some v"
  using assms
proof (induction cs arbitrary: s)
  case Nil
  then show ?case by simp
next
  case (Cons c cs)
  have "get (apply_op s c) h = Some v"
  proof (cases c)
    case (TOpen w)
    with Cons.prems show ?thesis
      by (cases "opn s w") (auto, metis open_fresh open_other option.distinct(1))
  next
    case (TClose k)
    with Cons.prems show ?thesis by (cases "cls s k") (auto, metis close_other)
  qed
  with Cons apply_op_inv show ?case by simp
qed

end

end
