(* ===== verification/Fs_Handles.thy ===== *)
theory Fs_Handles
  imports Fs_Path Generation_Tables
begin

text \<open>
  Open-file handles, capabilities and the quota ledger of the filesystem
  (\<open>src/src/filesystem/handle.rs\<close>, \<open>capability.rs\<close>, \<open>quota.rs\<close>).

  The lemmas show that the handle table meets the contract of \<open>generation_table\<close> (a closed handle
  is never valid again and is never handed out again), that delegation only ever shrinks authority,
  and that a quota reservation keeps the ledger inside its limits.
\<close>

unbundle bit_operations_syntax

subsection \<open>Handles\<close>

record file_handle =
  fh_slot :: nat
  fh_generation :: nat

datatype open_mode = ModeRead | ModeWrite | ModeReadWrite

fun readable :: "open_mode \<Rightarrow> bool" where
  "readable ModeRead = True"
| "readable ModeWrite = False"
| "readable ModeReadWrite = True"

fun writable :: "open_mode \<Rightarrow> bool" where
  "writable ModeRead = False"
| "writable ModeWrite = True"
| "writable ModeReadWrite = True"

record open_file =
  of_path :: virtual_path
  of_mode :: open_mode

record handle_slot =
  hs_generation :: nat
  hs_file :: "open_file option"
  hs_retired :: bool

record handle_table =
  maximum_handles :: nat
  ht_slots :: "handle_slot list"

abbreviation U32_MAX :: nat where "U32_MAX \<equiv> 4294967295"

definition handle_table_new :: "nat \<Rightarrow> handle_table" where
  "handle_table_new n = \<lparr>maximum_handles = n, ht_slots = []\<rparr>"

definition handle_open :: "open_file \<Rightarrow> (handle_table, filesystem_error, file_handle) smonad" where
  "handle_open f t =
     (case find_index (\<lambda>e. hs_file e = None \<and> \<not> hs_retired e) (ht_slots t) of
        Some slot \<Rightarrow>
          (Inr \<lparr>fh_slot = slot mod 2 ^ 32, fh_generation = hs_generation (ht_slots t ! slot)\<rparr>,
           t\<lparr>ht_slots := (ht_slots t)[slot := (ht_slots t ! slot)\<lparr>hs_file := Some f\<rparr>]\<rparr>)
      | None \<Rightarrow>
          if maximum_handles t \<le> length (ht_slots t) \<or> U32_MAX < length (ht_slots t)
          then (Inl QuotaExceeded, t)
          else
            (Inr \<lparr>fh_slot = length (ht_slots t) mod 2 ^ 32, fh_generation = 1\<rparr>,
             t\<lparr>ht_slots := ht_slots t @ [\<lparr>hs_generation = 1, hs_file = Some f, hs_retired = False\<rparr>]\<rparr>))"

definition handle_get :: "handle_table \<Rightarrow> file_handle \<Rightarrow> filesystem_error + open_file" where
  "handle_get t h =
     (if length (ht_slots t) \<le> fh_slot h then Inl StaleHandle
      else
        (let slot = ht_slots t ! fh_slot h in
         if hs_generation slot \<noteq> fh_generation h then Inl StaleHandle
         else ok_or (hs_file slot) StaleHandle))"

definition handle_close :: "file_handle \<Rightarrow> (handle_table, filesystem_error, unit) smonad" where
  "handle_close h t =
     (if length (ht_slots t) \<le> fh_slot h then (Inl StaleHandle, t)
      else
        (let slot = ht_slots t ! fh_slot h in
         if hs_generation slot \<noteq> fh_generation h \<or> hs_file slot = None then (Inl StaleHandle, t)
         else
           (let slot = slot\<lparr>hs_file := None\<rparr>;
                slot = (case checked_add 32 (hs_generation slot) 1 of
                          Some next \<Rightarrow> slot\<lparr>hs_generation := next\<rparr>
                        | None \<Rightarrow> slot\<lparr>hs_retired := True\<rparr>)
            in (Inr (), t\<lparr>ht_slots := (ht_slots t)[fh_slot h := slot]\<rparr>))))"

definition handle_open_count :: "handle_table \<Rightarrow> nat" where
  "handle_open_count t = length (filter (\<lambda>s. hs_file s \<noteq> None) (ht_slots t))"

definition handle_table_inv :: "handle_table \<Rightarrow> bool" where
  "handle_table_inv t \<longleftrightarrow>
     length (ht_slots t) \<le> maximum_handles t \<and> length (ht_slots t) \<le> 2 ^ 32 \<and>
     list_all (\<lambda>s. 0 < hs_generation s \<and> hs_generation s < 2 ^ 32 \<and> (hs_retired s \<longrightarrow> hs_file s = None))
       (ht_slots t)"

text \<open>A handle that can never be valid again: its slot moved past its generation, or was retired.\<close>

definition handle_dead :: "handle_table \<Rightarrow> file_handle \<Rightarrow> bool" where
  "handle_dead t h \<longleftrightarrow> fh_slot h < length (ht_slots t) \<and>
     (fh_generation h < hs_generation (ht_slots t ! fh_slot h) \<or>
      fh_generation h = hs_generation (ht_slots t ! fh_slot h) \<and> hs_retired (ht_slots t ! fh_slot h))"

text \<open>The table's operations at the types of the contract.\<close>

definition handle_open_op :: "handle_table \<Rightarrow> open_file \<Rightarrow> (file_handle \<times> handle_table) option" where
  "handle_open_op t f = (case handle_open f t of (Inl _, _) \<Rightarrow> None | (Inr h, t') \<Rightarrow> Some (h, t'))"

definition handle_get_op :: "handle_table \<Rightarrow> file_handle \<Rightarrow> open_file option" where
  "handle_get_op t h = (case handle_get t h of Inl _ \<Rightarrow> None | Inr f \<Rightarrow> Some f)"

definition handle_close_op :: "handle_table \<Rightarrow> file_handle \<Rightarrow> handle_table option" where
  "handle_close_op t h = (case handle_close h t of (Inl _, _) \<Rightarrow> None | (Inr _, t') \<Rightarrow> Some t')"

subsection \<open>Capabilities\<close>

type_synonym file_rights = u16

definition INSPECT :: file_rights where "INSPECT = push_bit 0 1"
definition LIST :: file_rights where "LIST = push_bit 1 1"
definition READ :: file_rights where "READ = push_bit 2 1"
definition CREATE :: file_rights where "CREATE = push_bit 3 1"
definition WRITE :: file_rights where "WRITE = push_bit 4 1"
definition DELETE :: file_rights where "DELETE = push_bit 5 1"
definition RENAME :: file_rights where "RENAME = push_bit 6 1"
definition EXECUTE :: file_rights where "EXECUTE = push_bit 7 1"
definition OWNER :: file_rights where "OWNER = push_bit 8 1 - 1"

definition rights_contains :: "file_rights \<Rightarrow> file_rights \<Rightarrow> bool" where
  "rights_contains r required \<longleftrightarrow> r AND required = required"

record file_capability =
  cap_root :: virtual_path
  cap_rights :: file_rights
  cap_logical_byte_limit :: nat
  cap_operation_limit :: nat
  cap_handle_limit :: nat

definition capability_new :: "virtual_path \<Rightarrow> file_rights \<Rightarrow> file_capability" where
  "capability_new r rights = \<lparr>cap_root = r, cap_rights = rights,
     cap_logical_byte_limit = 2 ^ 64 - 1, cap_operation_limit = 2 ^ 64 - 1,
     cap_handle_limit = 2 ^ 32 - 1\<rparr>"

definition permits :: "file_capability \<Rightarrow> virtual_path \<Rightarrow> file_rights \<Rightarrow> bool" where
  "permits c p required \<longleftrightarrow> is_within p (cap_root c) \<and> rights_contains (cap_rights c) required"

definition delegate ::
  "file_capability \<Rightarrow> virtual_path \<Rightarrow> file_rights \<Rightarrow> filesystem_error + file_capability" where
  "delegate c r rights =
     (if \<not> is_within r (cap_root c) \<or> \<not> rights_contains (cap_rights c) rights
      then Inl PermissionDenied
      else Inr \<lparr>cap_root = r, cap_rights = rights,
                cap_logical_byte_limit = cap_logical_byte_limit c,
                cap_operation_limit = cap_operation_limit c,
                cap_handle_limit = cap_handle_limit c\<rparr>)"

subsection \<open>Quota\<close>

record mutation_cost =
  logical_bytes_added :: nat
  nodes_added :: nat
  journal_bytes :: nat
  queue_records :: nat

definition default_cost :: mutation_cost where
  "default_cost = \<lparr>logical_bytes_added = 0, nodes_added = 0, journal_bytes = 0, queue_records = 0\<rparr>"

record quota_ledger =
  ql_maximum_logical_bytes :: nat
  ql_maximum_nodes :: nat
  ql_logical_bytes :: nat
  ql_nodes :: nat

definition quota_new :: "filesystem_limits \<Rightarrow> nat \<Rightarrow> quota_ledger" where
  "quota_new lim initial = \<lparr>ql_maximum_logical_bytes = maximum_logical_bytes lim,
     ql_maximum_nodes = maximum_nodes lim, ql_logical_bytes = 0, ql_nodes = initial\<rparr>"

definition quota_reserve :: "quota_ledger \<Rightarrow> mutation_cost \<Rightarrow> filesystem_error + mutation_cost" where
  "quota_reserve q cost =
     rbind (ok_or (checked_add 64 (ql_logical_bytes q) (logical_bytes_added cost)) QuotaExceeded)
       (\<lambda>logical.
     rbind (ok_or (checked_add 32 (ql_nodes q) (nodes_added cost)) QuotaExceeded)
       (\<lambda>nodes.
     if ql_maximum_logical_bytes q < logical \<or> ql_maximum_nodes q < nodes
     then Inl QuotaExceeded else Inr cost))"

definition quota_commit :: "mutation_cost \<Rightarrow> quota_ledger \<Rightarrow> quota_ledger" where
  "quota_commit r q = q\<lparr>
     ql_logical_bytes := wrapping_add 64 (ql_logical_bytes q) (logical_bytes_added r),
     ql_nodes := wrapping_add 32 (ql_nodes q) (nodes_added r)\<rparr>"

definition quota_release :: "nat \<Rightarrow> nat \<Rightarrow> quota_ledger \<Rightarrow> quota_ledger" where
  "quota_release logical nodes q = q\<lparr>
     ql_logical_bytes := wrapping_sub 64 (ql_logical_bytes q) logical,
     ql_nodes := wrapping_sub 32 (ql_nodes q) nodes\<rparr>"

subsection \<open>The handle table meets the contract\<close>

lemma handle_open_op_iff:
  "handle_open_op t f = Some (h, t') \<longleftrightarrow>
     (case find_index (\<lambda>e. hs_file e = None \<and> \<not> hs_retired e) (ht_slots t) of
        Some slot \<Rightarrow>
          h = \<lparr>fh_slot = slot mod 2 ^ 32, fh_generation = hs_generation (ht_slots t ! slot)\<rparr> \<and>
          t' = t\<lparr>ht_slots := (ht_slots t)[slot := (ht_slots t ! slot)\<lparr>hs_file := Some f\<rparr>]\<rparr>
      | None \<Rightarrow>
          length (ht_slots t) < maximum_handles t \<and> length (ht_slots t) < 2 ^ 32 \<and>
          h = \<lparr>fh_slot = length (ht_slots t), fh_generation = 1\<rparr> \<and>
          t' = t\<lparr>ht_slots :=
                 ht_slots t @ [\<lparr>hs_generation = 1, hs_file = Some f, hs_retired = False\<rparr>]\<rparr>)"
  by (auto simp: handle_open_op_def handle_open_def split: option.splits if_splits)

lemma handle_get_op_eq:
  "handle_get_op t h =
     (if fh_slot h < length (ht_slots t) \<and> hs_generation (ht_slots t ! fh_slot h) = fh_generation h
      then hs_file (ht_slots t ! fh_slot h) else None)"
  by (auto simp: handle_get_op_def handle_get_def Let_def ok_or_def split: option.splits)

lemma handle_close_op_iff:
  "handle_close_op t h = Some t' \<longleftrightarrow>
     handle_get_op t h \<noteq> None \<and>
     t' = t\<lparr>ht_slots := (ht_slots t)[fh_slot h :=
       (if fh_generation h + 1 < 2 ^ 32
        then (ht_slots t ! fh_slot h)\<lparr>hs_file := None, hs_generation := fh_generation h + 1\<rparr>
        else (ht_slots t ! fh_slot h)\<lparr>hs_file := None, hs_retired := True\<rparr>)]\<rparr>"
  by (auto simp: handle_close_op_def handle_close_def handle_get_op_eq Let_def
      checked_add_def split: option.splits if_splits)

lemma handle_open_op_cases:
  assumes "handle_table_inv t" "handle_open_op t f = Some (h, t')"
  obtains (reuse) slot where "slot < length (ht_slots t)" "hs_file (ht_slots t ! slot) = None"
      "\<not> hs_retired (ht_slots t ! slot)"
      "h = \<lparr>fh_slot = slot, fh_generation = hs_generation (ht_slots t ! slot)\<rparr>"
      "t' = t\<lparr>ht_slots := (ht_slots t)[slot := (ht_slots t ! slot)\<lparr>hs_file := Some f\<rparr>]\<rparr>"
  | (push) "length (ht_slots t) < maximum_handles t" "length (ht_slots t) < 2 ^ 32"
      "h = \<lparr>fh_slot = length (ht_slots t), fh_generation = 1\<rparr>"
      "t' = t\<lparr>ht_slots := ht_slots t @ [\<lparr>hs_generation = 1, hs_file = Some f, hs_retired = False\<rparr>]\<rparr>"
proof (cases "find_index (\<lambda>e. hs_file e = None \<and> \<not> hs_retired e) (ht_slots t)")
  case None
  with assms(2) push show ?thesis by (simp add: handle_open_op_iff)
next
  case (Some slot)
  have "slot < length (ht_slots t)" using find_index_less [OF Some] .
  moreover have "length (ht_slots t) \<le> 2 ^ 32" using assms(1) by (simp add: handle_table_inv_def)
  ultimately have "slot mod 2 ^ 32 = slot" by simp
  with find_index_SomeD [OF Some] assms(2) Some reuse [of slot] show ?thesis
    by (simp add: handle_open_op_iff)
qed

lemmas handle_ops = handle_close_op_iff handle_get_op_eq handle_dead_def

lemma handle_open_op_inv:
  assumes "handle_table_inv t" "handle_open_op t f = Some (h, t')"
  shows "handle_table_inv t'"
  using assms
proof (cases rule: handle_open_op_cases)
  case (reuse slot)
  with assms(1) show ?thesis
    by (simp add: handle_table_inv_def list_all_length nth_list_update)
next
  case push
  with assms(1) show ?thesis by (simp add: handle_table_inv_def list_all_length nth_append)
qed

lemma handle_close_op_inv:
  "handle_table_inv t \<Longrightarrow> handle_close_op t h = Some t' \<Longrightarrow> handle_table_inv t'"
  by (auto simp: handle_ops handle_table_inv_def list_all_length nth_list_update split: if_splits)

lemma handle_open_op_frame:
  assumes "handle_table_inv t" "handle_open_op t f = Some (h, t')"
  shows "k \<noteq> h \<Longrightarrow> handle_get_op t' k = handle_get_op t k" "handle_dead t k \<Longrightarrow> handle_dead t' k"
    "handle_get_op t' h = Some f" "handle_get_op t h = None \<and> \<not> handle_dead t h"
  using assms
  by (cases rule: handle_open_op_cases; cases k;
      auto simp: handle_ops nth_list_update nth_append)+

lemma handle_close_op_frame:
  assumes "handle_close_op t h = Some t'"
  shows "k \<noteq> h \<Longrightarrow> handle_get_op t' k = handle_get_op t k"
    "handle_dead t k \<or> k = h \<Longrightarrow> handle_dead t' k"
proof -
  let ?slots = "ht_slots t"
  have h: "fh_slot h < length ?slots" "hs_generation (?slots ! fh_slot h) = fh_generation h"
    and t': "ht_slots t' = ?slots[fh_slot h :=
       (if fh_generation h + 1 < 2 ^ 32
        then (?slots ! fh_slot h)\<lparr>hs_file := None, hs_generation := fh_generation h + 1\<rparr>
        else (?slots ! fh_slot h)\<lparr>hs_file := None, hs_retired := True\<rparr>)]"
    using assms by (auto simp: handle_ops split: if_splits)
  have same: "ht_slots t' ! fh_slot k = ?slots ! fh_slot k" if "fh_slot k \<noteq> fh_slot h"
    using that by (simp add: t')
  show "handle_get_op t' k = handle_get_op t k" if "k \<noteq> h"
  proof (cases "fh_slot k = fh_slot h")
    case True
    with that have "fh_generation k \<noteq> fh_generation h" by (cases k; cases h; simp)
    with True h show ?thesis by (simp add: handle_get_op_eq t')
  next
    case False
    then show ?thesis by (simp add: handle_get_op_eq same) (simp add: t')
  qed
  show "handle_dead t' k" if "handle_dead t k \<or> k = h"
    using that h by (cases "fh_slot k = fh_slot h") (auto simp: handle_dead_def t' same)
qed

interpretation fh: generation_table handle_table_inv handle_open_op handle_get_op handle_close_op
  handle_dead
proof
  fix t f h t' k
  assume inv: "handle_table_inv t" and op: "handle_open_op t f = Some (h, t')"
  show "handle_table_inv t'" using inv op by (rule handle_open_op_inv)
  show "handle_get_op t' h = Some f" and "handle_get_op t h = None \<and> \<not> handle_dead t h"
    and "k \<noteq> h \<Longrightarrow> handle_get_op t' k = handle_get_op t k"
    and "handle_dead t k \<Longrightarrow> handle_dead t' k"
    using handle_open_op_frame [OF inv op] by blast+
next
  fix t h t' k
  assume inv: "handle_table_inv t" and op: "handle_close_op t h = Some t'"
  show "handle_table_inv t'" using inv op by (rule handle_close_op_inv)
  show "handle_get_op t h \<noteq> None" using op by (simp add: handle_close_op_iff)
  show "k \<noteq> h \<Longrightarrow> handle_get_op t' k = handle_get_op t k"
    and "handle_dead t k \<or> k = h \<Longrightarrow> handle_dead t' k"
    using handle_close_op_frame [OF op] by blast+
next
  fix t h
  assume "handle_table_inv t" "handle_dead t h"
  then show "handle_get_op t h = None"
    by (auto simp: handle_ops handle_table_inv_def list_all_length)
qed

text \<open>
  C10. A closed file handle is dead for good: after \<open>close\<close> succeeds, no sequence of later opens
  and closes makes that handle value resolve again, and no later \<open>open\<close> hands the same value out,
  even when the slot is reused and when its 32-bit generation is exhausted.
\<close>
theorem closed_handle_never_aliases:
  assumes "handle_table_inv t" "handle_close h t = (Inr (), t')"
  shows "handle_get_op (foldl (table_apply handle_open_op handle_close_op) t' ops) h = None \<and>
    (\<forall>f k u. handle_open f (foldl (table_apply handle_open_op handle_close_op) t' ops) = (Inr k, u)
        \<longrightarrow> k \<noteq> h)"
proof -
  have c: "handle_close_op t h = Some t'" using assms(2) by (simp add: handle_close_op_def)
  have "k \<noteq> h" if "handle_open f (foldl fh.apply_op t' ops) = (Inr k, u)" for f k u
  proof -
    have "handle_open_op (foldl fh.apply_op t' ops) f = Some (k, u)"
      using that by (simp add: handle_open_op_def)
    then show ?thesis by (rule fh.closed_never_reissued [OF assms(1) c])
  qed
  with fh.closed_never_resolves [OF assms(1) c] show ?thesis by blast
qed

theorem closed_handle_never_aliases_witness:
  "handle_get_op (foldl (table_apply handle_open_op handle_close_op)
     \<lparr>maximum_handles = 1, ht_slots = [\<lparr>hs_generation = 2, hs_file = None, hs_retired = False\<rparr>]\<rparr>
     [TOpen \<lparr>of_path = [], of_mode = ModeRead\<rparr>]) \<lparr>fh_slot = 0, fh_generation = 1\<rparr> = None"
  using closed_handle_never_aliases [of
      "\<lparr>maximum_handles = 1, ht_slots = [\<lparr>hs_generation = 1,
         hs_file = Some \<lparr>of_path = [], of_mode = ModeRead\<rparr>, hs_retired = False\<rparr>]\<rparr>"
      "\<lparr>fh_slot = 0, fh_generation = 1\<rparr>"
      "\<lparr>maximum_handles = 1, ht_slots = [\<lparr>hs_generation = 2, hs_file = None, hs_retired = False\<rparr>]\<rparr>"
      "[TOpen \<lparr>of_path = [], of_mode = ModeRead\<rparr>]"]
  by (simp add: handle_table_inv_def handle_close_def checked_add_def)

subsection \<open>Delegation\<close>

lemma is_within_trans: "is_within p r \<Longrightarrow> is_within r q \<Longrightarrow> is_within p q"
  by (metis is_within_def length_take min_def take_take)

lemma rights_contains_trans:
  "rights_contains a b \<Longrightarrow> rights_contains b c \<Longrightarrow> rights_contains a c"
  unfolding rights_contains_def by (metis and.assoc)

inductive delegates :: "file_capability \<Rightarrow> file_capability \<Rightarrow> bool" where
  delegates_refl: "delegates c c"
| delegates_step: "delegates c d \<Longrightarrow> delegate d r rights = Inr e \<Longrightarrow> delegates c e"

lemma delegate_permits: "delegate c r rights = Inr d \<Longrightarrow> permits d p required \<Longrightarrow> permits c p required"
  by (auto simp: delegate_def permits_def split: if_splits
      intro: is_within_trans rights_contains_trans)

text \<open>
  C11. Delegation never amplifies authority: whatever chain of \<open>delegate\<close> calls produced a capability
  from \<open>c\<close>, every access it permits is one \<open>c\<close> permits, and it carries the same byte, operation and
  handle limits.
\<close>
theorem delegation_attenuates:
  assumes "delegates c d"
  shows "(permits d p required \<longrightarrow> permits c p required) \<and>
    cap_handle_limit d = cap_handle_limit c \<and> cap_operation_limit d = cap_operation_limit c \<and>
    cap_logical_byte_limit d = cap_logical_byte_limit c"
  using assms
proof (induction rule: delegates.induct)
  case (delegates_step c d r rights e)
  then show ?case using delegate_permits [OF delegates_step.hyps(2)]
    by (auto simp: delegate_def split: if_splits)
qed simp

theorem delegation_attenuates_witness:
  "permits (capability_new [[0x68]] OWNER) [[0x68], [0x61]] READ"
proof -
  let ?c = "capability_new [[0x68]] OWNER"
  let ?d = "?c\<lparr>cap_root := [[0x68], [0x61]], cap_rights := READ OR LIST\<rparr>"
  have "delegate ?c [[0x68], [0x61]] (READ OR LIST) = Inr ?d"
    by (simp add: delegate_def capability_new_def is_within_def rights_contains_def OWNER_def READ_def
        LIST_def)
  then have "delegates ?c ?d" using delegates_step [OF delegates_refl] by blast
  from delegation_attenuates [OF this, of "[[0x68], [0x61]]" READ] show ?thesis
    by (simp add: permits_def is_within_def rights_contains_def READ_def LIST_def)
qed

subsection \<open>Reservations\<close>

lemma quota_reserve_iff:
  "quota_reserve q cost = Inr r \<longleftrightarrow>
     r = cost \<and>
     ql_logical_bytes q + logical_bytes_added cost < 2 ^ 64 \<and>
     ql_logical_bytes q + logical_bytes_added cost \<le> ql_maximum_logical_bytes q \<and>
     ql_nodes q + nodes_added cost < 2 ^ 32 \<and>
     ql_nodes q + nodes_added cost \<le> ql_maximum_nodes q"
  by (auto simp: quota_reserve_def monad_simps checked_simps not_less)

lemma quota_reserve_error: "quota_reserve q cost = Inl e \<Longrightarrow> e = QuotaExceeded"
  by (auto simp: quota_reserve_def monad_simps split: if_splits)

end
