(* ===== verification/Fs_Codec.thy ===== *)
theory Fs_Codec
  imports Fs_Path
begin

text \<open>
  The byte format shared by the journal and the checkpoints of the filesystem
  (\<open>src/src/filesystem/persistence/codec.rs\<close>). A \<open>Writer\<close> is the byte list written so far, so its
  methods are the bytes they append; a \<open>Cursor\<close> is a byte list with an offset. SHA-256 comes from an
  external crate and is the parameter \<open>sha\<close>, of which only the digest length is used.

  \<open>parser_for m E\<close> says that the cursor program \<open>m\<close> succeeds with \<open>v\<close> exactly on inputs that start
  with bytes \<open>xs\<close> such that \<open>E v xs\<close>, and consumes exactly \<open>xs\<close>. It is closed under sequencing, so
  that the decoders of the journal and the checkpoint are shown to accept exactly the encodings.
\<close>

datatype codec_error = Malformed | CodecVersion | CodecLimit | DigestMismatch | NonCanonical

type_synonym sha256 = "bytes \<Rightarrow> bytes"

definition DIGEST_BYTES :: nat where "DIGEST_BYTES = 32"

definition sha256_length :: "sha256 \<Rightarrow> bool" where
  "sha256_length sha \<longleftrightarrow> (\<forall>bs. length (sha bs) = 32)"

subsection \<open>Writer\<close>

definition w_u16 :: "nat \<Rightarrow> bytes" where "w_u16 v = le_bytes 2 v"
definition w_u32 :: "nat \<Rightarrow> bytes" where "w_u32 v = le_bytes 4 v"
definition w_u64 :: "nat \<Rightarrow> bytes" where "w_u64 v = le_bytes 8 v"

definition w_path :: "virtual_path \<Rightarrow> codec_error + bytes" where
  "w_path p =
     (if encoded_len p < 2 ^ 32
      then Inr (w_u32 (encoded_len p) @ [SLASH] @
                (case p of [] \<Rightarrow> []
                 | first # rest \<Rightarrow> first @ concat (map (\<lambda>c. [SLASH] @ c) rest)))
      else Inl CodecLimit)"

definition finish_checked :: "sha256 \<Rightarrow> bytes \<Rightarrow> nat \<Rightarrow> codec_error + bytes" where
  "finish_checked sha bs maxi =
     rbind (ok_or (checked_add 64 (length bs) DIGEST_BYTES) CodecLimit) (\<lambda>len.
       if maxi < len then Inl CodecLimit else Inr (bs @ sha bs))"

definition path_record_len :: "virtual_path \<Rightarrow> codec_error + nat" where
  "path_record_len p = ok_or (checked_add 64 4 (encoded_len p)) CodecLimit"

subsection \<open>Cursor\<close>

record pcursor =
  pc_bytes :: bytes
  pc_offset :: nat

type_synonym 'a parser = "(pcursor, codec_error, 'a) smonad"

definition pc_verified :: "sha256 \<Rightarrow> bytes \<Rightarrow> nat \<Rightarrow> codec_error + pcursor" where
  "pc_verified sha bs maxi =
     (if maxi < length bs then Inl CodecLimit
      else if length bs < DIGEST_BYTES then Inl Malformed
      else
        (let payload_end = length bs - DIGEST_BYTES;
             expected = drop payload_end bs in
         if sha (take payload_end bs) \<noteq> expected then Inl DigestMismatch
         else Inr \<lparr>pc_bytes = take payload_end bs, pc_offset = 0\<rparr>))"

definition pc_plain :: "bytes \<Rightarrow> pcursor" where
  "pc_plain bs = \<lparr>pc_bytes = bs, pc_offset = 0\<rparr>"

definition pc_exact :: "nat \<Rightarrow> bytes parser" where
  "pc_exact len c =
     (case checked_add 64 (pc_offset c) len of
        None \<Rightarrow> (Inl Malformed, c)
      | Some stop \<Rightarrow>
          if length (pc_bytes c) < stop then (Inl Malformed, c)
          else (Inr (take len (drop (pc_offset c) (pc_bytes c))), c\<lparr>pc_offset := stop\<rparr>))"

definition pc_u8 :: "nat parser" where
  "pc_u8 = sbind (pc_exact 1) (\<lambda>bs. sret (unat (hd bs)))"

definition pc_u16 :: "nat parser" where
  "pc_u16 = sbind (pc_exact 2) (\<lambda>bs. sret (le_nat bs))"

definition pc_u32 :: "nat parser" where
  "pc_u32 = sbind (pc_exact 4) (\<lambda>bs. sret (le_nat bs))"

definition pc_u64 :: "nat parser" where
  "pc_u64 = sbind (pc_exact 8) (\<lambda>bs. sret (le_nat bs))"

definition pc_path :: "filesystem_limits \<Rightarrow> virtual_path parser" where
  "pc_path lim =
     sbind pc_u32 (\<lambda>len.
       if maximum_path_bytes lim < len then sfail CodecLimit
       else
         sbind (pc_exact len) (\<lambda>text.
           if \<not> utf8_valid text then sfail Malformed
           else
             (case parse_utf8 text lim of
                Inl _ \<Rightarrow> sfail NonCanonical
              | Inr p \<Rightarrow> sret p)))"

definition pc_remaining :: "pcursor \<Rightarrow> nat" where
  "pc_remaining c = length (pc_bytes c) - pc_offset c"

definition pc_finish :: "pcursor \<Rightarrow> codec_error + unit" where
  "pc_finish c = (if pc_offset c = length (pc_bytes c) then Inr () else Inl Malformed)"

definition home_descendant :: "virtual_path \<Rightarrow> bool" where
  "home_descendant p = (case p of a # b # _ \<Rightarrow> a = ascii ''home'' | _ \<Rightarrow> False)"

subsection \<open>Exact parsers\<close>

definition adv :: "nat \<Rightarrow> pcursor \<Rightarrow> pcursor" where
  "adv n c = c\<lparr>pc_offset := pc_offset c + n\<rparr>"

definition cur_at :: "pcursor \<Rightarrow> bytes \<Rightarrow> bool" where
  "cur_at c zs \<longleftrightarrow> pc_offset c \<le> length (pc_bytes c) \<and> drop (pc_offset c) (pc_bytes c) = zs \<and>
     length (pc_bytes c) < 2 ^ 64"

definition parser_for :: "'a parser \<Rightarrow> ('a \<Rightarrow> bytes \<Rightarrow> bool) \<Rightarrow> bool" where
  "parser_for m E \<longleftrightarrow> (\<forall>c zs v c'. cur_at c zs \<longrightarrow>
     (m c = (Inr v, c') \<longleftrightarrow> (\<exists>xs ys. zs = xs @ ys \<and> E v xs \<and> c' = adv (length xs) c)))"

named_theorems parsers \<open>exactness of the cursor programs\<close>

lemma adv_adv: "adv m (adv n c) = adv (n + m) c"
  by (simp add: adv_def)

lemma adv_0 [simp]: "adv 0 c = c"
  by (simp add: adv_def)

lemma cur_at_adv: "cur_at c (xs @ ys) \<Longrightarrow> cur_at (adv (length xs) c) ys"
proof -
  assume "cur_at c (xs @ ys)"
  then have d: "drop (pc_offset c) (pc_bytes c) = xs @ ys" and o: "pc_offset c \<le> length (pc_bytes c)"
    and l: "length (pc_bytes c) < 2 ^ 64" by (auto simp: cur_at_def)
  from d o have "length (pc_bytes c) = pc_offset c + length xs + length ys"
    by (metis add.assoc add_diff_inverse_nat le_add_diff_inverse length_append length_drop)
  moreover have "drop (pc_offset c + length xs) (pc_bytes c) = ys"
    using d by (metis add.commute append_eq_conv_conj drop_drop)
  ultimately show ?thesis using l by (simp add: cur_at_def adv_def)
qed

lemma parser_forI:
  assumes "\<And>c zs v c'. cur_at c zs \<Longrightarrow> m c = (Inr v, c') \<Longrightarrow>
      \<exists>xs ys. zs = xs @ ys \<and> E v xs \<and> c' = adv (length xs) c"
    and "\<And>c xs ys v. cur_at c (xs @ ys) \<Longrightarrow> E v xs \<Longrightarrow> m c = (Inr v, adv (length xs) c)"
  shows "parser_for m E"
  unfolding parser_for_def using assms by blast

lemma parser_forD:
  "parser_for m E \<Longrightarrow> cur_at c zs \<Longrightarrow>
     m c = (Inr v, c') \<longleftrightarrow> (\<exists>xs ys. zs = xs @ ys \<and> E v xs \<and> c' = adv (length xs) c)"
  by (simp add: parser_for_def)

lemma parser_for_bind:
  assumes m: "parser_for m E" and f: "\<And>x. parser_for (f x) (F x)"
  shows "parser_for (sbind m f) (\<lambda>v xs. \<exists>x a b. xs = a @ b \<and> E x a \<and> F x v b)"
proof (rule parser_forI)
  fix c zs v c'
  assume c: "cur_at c zs" and run: "sbind m f c = (Inr v, c')"
  then obtain x c1 where x: "m c = (Inr x, c1)" "f x c1 = (Inr v, c')" by (auto simp: sbind_Inr_iff)
  from x(1) parser_forD [OF m c] obtain a ys where a: "zs = a @ ys" "E x a" "c1 = adv (length a) c"
    by blast
  with c have "cur_at c1 ys" by (simp add: cur_at_adv)
  from x(2) parser_forD [OF f this] obtain b ws where
    b: "ys = b @ ws" "F x v b" "c' = adv (length b) c1" by blast
  with a show "\<exists>xs ys. zs = xs @ ys \<and> (\<exists>x a b. xs = a @ b \<and> E x a \<and> F x v b) \<and> c' = adv (length xs) c"
    by (intro exI [of _ "a @ b"] exI [of _ ws]) (auto simp: adv_adv)
next
  fix c xs ys v
  assume c: "cur_at c (xs @ ys)" and "\<exists>x a b. xs = a @ b \<and> E x a \<and> F x v b"
  then obtain x a b where x: "xs = a @ b" "E x a" "F x v b" by blast
  from c x(1) have c1: "cur_at c (a @ b @ ys)" by simp
  have m1: "m c = (Inr x, adv (length a) c)" using parser_forD [OF m c1] x(2) by blast
  have "f x (adv (length a) c) = (Inr v, adv (length b) (adv (length a) c))"
    using parser_forD [OF f cur_at_adv [OF c1]] x(3) by blast
  with m1 x(1) show "sbind m f c = (Inr v, adv (length xs) c)"
    by (simp add: sbind_step adv_adv)
qed

lemma parser_for_ret: "parser_for (sret x) (\<lambda>v xs. v = x \<and> xs = [])"
  by (rule parser_forI) auto

lemma parser_for_fail: "parser_for (sfail e) (\<lambda>v xs. False)"
  by (rule parser_forI) auto

lemma parser_for_if:
  "parser_for m E \<Longrightarrow> parser_for n F \<Longrightarrow>
     parser_for (if b then m else n) (\<lambda>v xs. if b then E v xs else F v xs)"
  by simp

lemma parser_for_cong: "parser_for m E \<Longrightarrow> (\<And>v xs. E v xs \<longleftrightarrow> F v xs) \<Longrightarrow> parser_for m F"
  by (simp add: parser_for_def)

lemma pc_exact_parser [parsers]: "parser_for (pc_exact n) (\<lambda>v xs. v = xs \<and> length xs = n)"
proof (rule parser_forI)
  fix c zs v c'
  assume c: "cur_at c zs" and run: "pc_exact n c = (Inr v, c')"
  then have "n \<le> length zs" "v = take n zs" "c' = adv n c"
    by (auto simp: pc_exact_def cur_at_def adv_def checked_add_def split: if_splits)
  then show "\<exists>xs ys. zs = xs @ ys \<and> (v = xs \<and> length xs = n) \<and> c' = adv (length xs) c"
    by (intro exI [of _ "take n zs"] exI [of _ "drop n zs"]) auto
next
  fix c xs ys v
  assume c: "cur_at c (xs @ ys)" and v: "v = xs \<and> length xs = n"
  from c have d: "drop (pc_offset c) (pc_bytes c) = xs @ ys" by (simp add: cur_at_def)
  have "pc_offset c + n \<le> length (pc_bytes c)"
    using cur_at_adv [OF c] v by (simp add: cur_at_def adv_def)
  moreover have "length (pc_bytes c) < 2 ^ 64" using c by (simp add: cur_at_def)
  ultimately show "pc_exact n c = (Inr v, adv (length xs) c)"
    using d v by (simp add: pc_exact_def checked_add_def adv_def)
qed

lemma parser_for_le:
  "parser_for (sbind (pc_exact n) (\<lambda>bs. sret (le_nat bs))) (\<lambda>v xs. xs = le_bytes n v \<and> v < 256 ^ n)"
  by (rule parser_for_cong [OF parser_for_bind [OF pc_exact_parser parser_for_ret]])
    (auto simp: le_bytes_le_nat le_nat_le_bytes_id le_nat_less)

lemma pc_u8_parser [parsers]: "parser_for pc_u8 (\<lambda>v xs. xs = [of_nat v] \<and> v < 256)"
proof -
  have "length xs = 1 \<and> v = unat (hd xs) \<longleftrightarrow> xs = [of_nat v] \<and> v < 256" for v and xs :: bytes
    by (cases xs) (auto simp: unat_of_nat_small)
  then show ?thesis unfolding pc_u8_def
    by (intro parser_for_cong [OF parser_for_bind [OF pc_exact_parser parser_for_ret]]) auto
qed

lemma pc_u16_parser [parsers]: "parser_for pc_u16 (\<lambda>v xs. xs = w_u16 v \<and> v < 256 ^ 2)"
  unfolding pc_u16_def w_u16_def by (rule parser_for_le)

lemma pc_u32_parser [parsers]: "parser_for pc_u32 (\<lambda>v xs. xs = w_u32 v \<and> v < 256 ^ 4)"
  unfolding pc_u32_def w_u32_def by (rule parser_for_le)

lemma pc_u64_parser [parsers]: "parser_for pc_u64 (\<lambda>v xs. xs = w_u64 v \<and> v < 256 ^ 8)"
  unfolding pc_u64_def w_u64_def by (rule parser_for_le)

lemma parser_for_case_sum:
  "(\<And>e. parser_for (f e) (E e)) \<Longrightarrow> (\<And>x. parser_for (g x) (F x)) \<Longrightarrow>
   parser_for (case r of Inl e \<Rightarrow> f e | Inr x \<Rightarrow> g x)
     (\<lambda>v xs. (\<exists>e. r = Inl e \<and> E e v xs) \<or> (\<exists>x. r = Inr x \<and> F x v xs))"
  by (cases r) simp_all

lemma w_path_eq:
  "w_path p =
     (if encoded_len p < 2 ^ 32 then Inr (w_u32 (encoded_len p) @ display p) else Inl CodecLimit)"
proof -
  have "((@) [SLASH]) = ((#) SLASH)" by (simp add: fun_eq_iff)
  then show ?thesis by (simp add: w_path_def display_def split: list.splits)
qed

text \<open>What a path must satisfy for its record to be decodable under the limits.\<close>

definition path_storable :: "filesystem_limits \<Rightarrow> virtual_path \<Rightarrow> bool" where
  "path_storable lim p \<longleftrightarrow> path_wf lim p \<and> utf8_valid (display p)"

lemma pc_path_parser [parsers]:
  "parser_for (pc_path lim) (\<lambda>p xs. w_path p = Inr xs \<and> path_storable lim p)"
proof -
  have step: "parser_for (pc_path lim)
    (\<lambda>p xs. \<exists>len a b. xs = a @ b \<and> (a = w_u32 len \<and> len < 256 ^ 4) \<and>
       (if maximum_path_bytes lim < len then False
        else \<exists>text c d. b = c @ d \<and> (text = c \<and> length c = len) \<and>
          (if \<not> utf8_valid text then False
           else ((\<exists>e. parse_utf8 text lim = Inl e \<and> False) \<or>
              (\<exists>q. parse_utf8 text lim = Inr q \<and> p = q \<and> d = [])))))"
    unfolding pc_path_def
    by (intro parser_for_bind parser_for_if parser_for_case_sum parser_for_fail parser_for_ret parsers)
  show ?thesis
  proof (rule parser_for_cong [OF step])
    fix p xs
    show "(\<exists>len a b. xs = a @ b \<and> (a = w_u32 len \<and> len < 256 ^ 4) \<and>
       (if maximum_path_bytes lim < len then False
        else \<exists>text c d. b = c @ d \<and> (text = c \<and> length c = len) \<and>
          (if \<not> utf8_valid text then False
           else ((\<exists>e. parse_utf8 text lim = Inl e \<and> False) \<or>
              (\<exists>q. parse_utf8 text lim = Inr q \<and> p = q \<and> d = []))))) \<longleftrightarrow>
      w_path p = Inr xs \<and> path_storable lim p" (is "?L \<longleftrightarrow> ?R")
    proof
      assume ?L
      then obtain s where "xs = w_u32 (length s) @ s" "length s < 256 ^ 4"
        "utf8_valid s" "parse_utf8 s lim = Inr p"
        by (auto split: if_split_asm)
      then show ?R
        using parse_utf8_sound [of s lim p]
        by (auto simp: w_path_eq length_display path_storable_def)
    next
      assume r: ?R
      then have "path_wf lim p" "utf8_valid (display p)" by (auto simp: path_storable_def)
      moreover have "xs = w_u32 (encoded_len p) @ display p" "encoded_len p < 256 ^ 4"
        using r by (auto simp: w_path_eq split: if_splits)
      moreover have "encoded_len p \<le> maximum_path_bytes lim"
        using \<open>path_wf lim p\<close> by (simp add: path_wf_def)
      ultimately show ?L
        by (intro exI [of _ "encoded_len p"] exI [of _ "w_u32 (encoded_len p)"] exI [of _ "display p"])
          (auto simp: length_display parse_utf8_display)
    qed
  qed
qed

lemma pc_plain_at [simp]: "length bs < 2 ^ 64 \<Longrightarrow> cur_at (pc_plain bs) bs"
  by (simp add: cur_at_def pc_plain_def)

lemma pc_finish_adv:
  "cur_at c zs \<Longrightarrow> zs = xs @ ys \<Longrightarrow> pc_finish (adv (length xs) c) = Inr u \<longleftrightarrow> ys = []"
proof -
  assume c: "cur_at c zs" and zs: "zs = xs @ ys"
  then have "cur_at (adv (length xs) c) ys" by (simp add: cur_at_adv)
  then show ?thesis by (auto simp: pc_finish_def cur_at_def)
qed

text \<open>Running an exact parser on a whole input: it succeeds precisely on the encodings.\<close>

lemma parse_whole:
  assumes "parser_for m E" "length bs < 2 ^ 64"
  shows "(\<exists>c. m (pc_plain bs) = (Inr v, c) \<and> pc_finish c = Inr ()) \<longleftrightarrow> E v bs"
  using parser_forD [OF assms(1) pc_plain_at [OF assms(2)]] pc_finish_adv [OF pc_plain_at [OF assms(2)]]
  by (metis append_Nil2)

lemma pc_verified_iff:
  assumes "sha256_length sha"
  shows "pc_verified sha bs maxi = Inr c \<longleftrightarrow>
     (\<exists>body. bs = body @ sha body \<and> length bs \<le> maxi \<and> c = pc_plain body)"
proof
  assume "pc_verified sha bs maxi = Inr c"
  then show "\<exists>body. bs = body @ sha body \<and> length bs \<le> maxi \<and> c = pc_plain body"
    by (auto simp: pc_verified_def Let_def pc_plain_def split: if_splits
        intro!: exI [of _ "take (length bs - DIGEST_BYTES) bs"])
next
  assume "\<exists>body. bs = body @ sha body \<and> length bs \<le> maxi \<and> c = pc_plain body"
  moreover have "length (sha body) = 32" for body using assms by (simp add: sha256_length_def)
  ultimately show "pc_verified sha bs maxi = Inr c"
    by (auto simp: pc_verified_def Let_def pc_plain_def DIGEST_BYTES_def)
qed

subsection \<open>Parsers that look at what is left\<close>

definition parser_rest :: "'a parser \<Rightarrow> ('a \<Rightarrow> bytes \<Rightarrow> bytes \<Rightarrow> bool) \<Rightarrow> bool" where
  "parser_rest m E \<longleftrightarrow> (\<forall>c zs v c'. cur_at c zs \<longrightarrow>
     (m c = (Inr v, c') \<longleftrightarrow> (\<exists>xs ys. zs = xs @ ys \<and> E v xs ys \<and> c' = adv (length xs) c)))"

lemma parser_rest_for: "parser_for m E \<Longrightarrow> parser_rest m (\<lambda>v xs ys. E v xs)"
  by (simp add: parser_for_def parser_rest_def)

lemma parser_restD:
  "parser_rest m E \<Longrightarrow> cur_at c zs \<Longrightarrow>
     m c = (Inr v, c') \<longleftrightarrow> (\<exists>xs ys. zs = xs @ ys \<and> E v xs ys \<and> c' = adv (length xs) c)"
  by (simp add: parser_rest_def)

lemma parser_rest_bind:
  assumes m: "parser_rest m E" and f: "\<And>x. parser_rest (f x) (F x)"
  shows "parser_rest (sbind m f) (\<lambda>v xs ys. \<exists>x a b. xs = a @ b \<and> E x a (b @ ys) \<and> F x v b ys)"
  unfolding parser_rest_def
proof (intro allI impI iffI)
  fix c zs v c'
  assume c: "cur_at c zs" and run: "sbind m f c = (Inr v, c')"
  then obtain x c1 where x: "m c = (Inr x, c1)" "f x c1 = (Inr v, c')" by (auto simp: sbind_Inr_iff)
  from x(1) parser_restD [OF m c] obtain a ys where a: "zs = a @ ys" "E x a ys" "c1 = adv (length a) c"
    by blast
  with c have "cur_at c1 ys" by (simp add: cur_at_adv)
  from x(2) parser_restD [OF f this] obtain b ws where
    b: "ys = b @ ws" "F x v b ws" "c' = adv (length b) c1" by blast
  with a show "\<exists>xs ys. zs = xs @ ys \<and> (\<exists>x a b. xs = a @ b \<and> E x a (b @ ys) \<and> F x v b ys) \<and>
      c' = adv (length xs) c"
    by (intro exI [of _ "a @ b"] exI [of _ ws]) (auto simp: adv_adv)
next
  fix c zs v c'
  assume c: "cur_at c zs"
    and "\<exists>xs ys. zs = xs @ ys \<and> (\<exists>x a b. xs = a @ b \<and> E x a (b @ ys) \<and> F x v b ys) \<and>
      c' = adv (length xs) c"
  then obtain ys x a b where x: "zs = (a @ b) @ ys" "E x a (b @ ys)" "F x v b ys"
    "c' = adv (length (a @ b)) c" by blast
  from c x(1) have c1: "cur_at c (a @ b @ ys)" by simp
  have m1: "m c = (Inr x, adv (length a) c)" using parser_restD [OF m c1] x(2) by blast
  have "f x (adv (length a) c) = (Inr v, adv (length b) (adv (length a) c))"
    using parser_restD [OF f cur_at_adv [OF c1]] x(3) by blast
  with m1 x(4) show "sbind m f c = (Inr v, c')"
    by (simp add: sbind_step adv_adv)
qed

lemma parser_rest_if:
  "parser_rest m E \<Longrightarrow> parser_rest n F \<Longrightarrow>
     parser_rest (if b then m else n) (\<lambda>v xs ys. if b then E v xs ys else F v xs ys)"
  by simp

lemma parser_rest_cong:
  "parser_rest m E \<Longrightarrow> (\<And>v xs ys. E v xs ys \<longleftrightarrow> F v xs ys) \<Longrightarrow> parser_rest m F"
  by (simp add: parser_rest_def)

lemma parser_rest_fail: "parser_rest (sfail e) (\<lambda>v xs ys. False)"
  by (simp add: parser_rest_def)

lemma parser_rest_const: "parser_rest (sread (\<lambda>_. r)) (\<lambda>v xs ys. r = Inr v \<and> xs = [])"
  by (auto simp: parser_rest_def)

lemma parser_rest_remaining:
  "parser_rest (sread (\<lambda>c. Inr (pc_remaining c))) (\<lambda>v xs ys. v = length ys \<and> xs = [])"
  by (auto simp: parser_rest_def pc_remaining_def cur_at_def)

lemma parser_rest_finish: "parser_rest (sread pc_finish) (\<lambda>v xs ys. xs = [] \<and> ys = [])"
  by (auto simp: parser_rest_def pc_finish_def cur_at_def)

lemma parse_whole_rest:
  assumes "parser_rest m E" "\<And>v xs ys. E v xs ys \<Longrightarrow> ys = []" "length bs < 2 ^ 64"
  shows "fst (m (pc_plain bs)) = Inr v \<longleftrightarrow> E v bs []"
proof -
  have "fst (m (pc_plain bs)) = Inr v \<longleftrightarrow> (\<exists>c'. m (pc_plain bs) = (Inr v, c'))"
    by (cases "m (pc_plain bs)") auto
  also have "\<dots> \<longleftrightarrow> (\<exists>xs ys. bs = xs @ ys \<and> E v xs ys)"
    using parser_restD [OF assms(1) pc_plain_at [OF assms(3)]] by blast
  also have "\<dots> \<longleftrightarrow> E v bs []" using assms(2) by force
  finally show ?thesis .
qed

subsection \<open>Reading back what was written\<close>

lemma ex_exact:
  "length M = n \<Longrightarrow> P M rest \<Longrightarrow> \<exists>x a b. M @ rest = a @ b \<and> (x = a \<and> length a = n) \<and> P x b"
  by blast

lemma ex_written:
  "v < n \<Longrightarrow> P v rest \<Longrightarrow> \<exists>x a b. w v @ rest = a @ b \<and> (a = w x \<and> x < n) \<and> P x b" for v n :: nat
  by blast

lemma ex_byte:
  "v < 256 \<Longrightarrow> P v rest \<Longrightarrow> \<exists>x a b. [of_nat v] @ rest = a @ b \<and> (a = [of_nat x] \<and> x < 256) \<and> P x b"
  for v :: nat
  by blast

lemma ex_path:
  "w_path p = Inr pb \<Longrightarrow> path_storable lim p \<Longrightarrow> P p rest \<Longrightarrow>
     \<exists>x a b. pb @ rest = a @ b \<and> (w_path x = Inr a \<and> path_storable lim x) \<and> P x b"
  by blast

end
