(* ===== verification/Fs_Journal.thy ===== *)
theory Fs_Journal
  imports Fs_Codec
begin

text \<open>
  Journal records of the filesystem (\<open>src/src/filesystem/persistence/journal.rs\<close>,
  \<open>persistence/mod.rs\<close>): the operations, their canonical form, and the checked byte format.
  The result is that decoding accepts exactly the encodings of canonical records within the limits.
\<close>

type_synonym computer_id = bytes
type_synonym object_id = bytes

datatype journal_operation =
    JCreateDirectory virtual_path nat
  | JPutFile virtual_path nat nat object_id bool
  | JRemove virtual_path
  | JRename virtual_path virtual_path bool

definition of_bool_byte :: "bool \<Rightarrow> u8" where
  "of_bool_byte b = (if b then 1 else 0)"

definition add_path_len :: "filesystem_limits \<Rightarrow> nat \<Rightarrow> virtual_path \<Rightarrow> codec_error + nat" where
  "add_path_len lim len p =
     (if maximum_path_bytes lim < encoded_len p then Inl CodecLimit
      else rbind (path_record_len p) (\<lambda>n. ok_or (checked_add 64 len n) CodecLimit))"

definition op_encoded_len :: "journal_operation \<Rightarrow> filesystem_limits \<Rightarrow> codec_error + nat" where
  "op_encoded_len op lim =
     rbind
       (case op of
          JCreateDirectory p _ \<Rightarrow> add_path_len lim 4 p
        | JPutFile p _ _ _ _ \<Rightarrow> add_path_len lim 4 p
        | JRemove p \<Rightarrow> add_path_len lim 4 p
        | JRename s d _ \<Rightarrow> rbind (add_path_len lim 4 s) (\<lambda>len. add_path_len lim len d))
       (\<lambda>len. ok_or (checked_add 64 len
          (case op of
             JCreateDirectory _ _ \<Rightarrow> 8
           | JPutFile _ _ _ _ _ \<Rightarrow> 8 + 8 + 32
           | JRemove _ \<Rightarrow> 0
           | JRename _ _ _ \<Rightarrow> 0)) CodecLimit)"

definition op_bytes :: "journal_operation \<Rightarrow> codec_error + bytes" where
  "op_bytes op =
     (case op of
        JCreateDirectory path node_generation \<Rightarrow>
          rbind (w_path path) (\<lambda>p. Inr ([1] @ [0] @ w_u16 0 @ p @ w_u64 node_generation))
      | JPutFile path node_generation logical_size object_id executable \<Rightarrow>
          rbind (w_path path) (\<lambda>p.
            Inr ([2] @ [of_bool_byte executable] @ w_u16 0 @ p @ w_u64 node_generation
                 @ w_u64 logical_size @ object_id))
      | JRemove path \<Rightarrow> rbind (w_path path) (\<lambda>p. Inr ([3] @ [0] @ w_u16 0 @ p))
      | JRename source destination replace \<Rightarrow>
          rbind (w_path source) (\<lambda>s. rbind (w_path destination) (\<lambda>d.
            Inr ([4] @ [of_bool_byte replace] @ w_u16 0 @ s @ d))))"

definition op_encode :: "journal_operation \<Rightarrow> filesystem_limits \<Rightarrow> codec_error + bytes" where
  "op_encode op lim =
     rbind (op_encoded_len op lim) (\<lambda>len.
       if maximum_journal_payload_bytes lim < len then Inl CodecLimit else op_bytes op)"

definition paths_are_home_descendants :: "journal_operation \<Rightarrow> bool" where
  "paths_are_home_descendants op =
     (case op of
        JCreateDirectory p _ \<Rightarrow> home_descendant p
      | JPutFile p _ _ _ _ \<Rightarrow> home_descendant p
      | JRemove p \<Rightarrow> home_descendant p
      | JRename s d _ \<Rightarrow> home_descendant s \<and> home_descendant d \<and> s \<noteq> d)"

definition generation_is_canonical :: "journal_operation \<Rightarrow> nat \<Rightarrow> bool" where
  "generation_is_canonical op sequence =
     (case op of
        JCreateDirectory _ g \<Rightarrow> g = sequence
      | JPutFile _ g _ _ _ \<Rightarrow> g = sequence
      | JRemove _ \<Rightarrow> True
      | JRename _ _ _ \<Rightarrow> True)"

definition op_parser :: "filesystem_limits \<Rightarrow> journal_operation parser" where
  "op_parser lim =
     sbind pc_u8 (\<lambda>operation.
     sbind pc_u8 (\<lambda>flags.
     sbind pc_u16 (\<lambda>reserved.
     if reserved \<noteq> 0 then sfail Malformed
     else if operation = 1 \<and> flags = 0 then
       sbind (pc_path lim) (\<lambda>path.
       sbind pc_u64 (\<lambda>node_generation. sret (JCreateDirectory path node_generation)))
     else if operation = 2 \<and> flags div 2 = 0 then
       sbind (pc_path lim) (\<lambda>path.
       sbind pc_u64 (\<lambda>node_generation.
       sbind pc_u64 (\<lambda>logical_size.
       if maximum_file_bytes lim < logical_size then sfail CodecLimit
       else
         sbind (pc_exact 32) (\<lambda>object_id.
         sret (JPutFile path node_generation logical_size object_id (odd flags))))))
     else if operation = 3 \<and> flags = 0 then sbind (pc_path lim) (\<lambda>path. sret (JRemove path))
     else if operation = 4 \<and> flags div 2 = 0 then
       sbind (pc_path lim) (\<lambda>source.
       sbind (pc_path lim) (\<lambda>destination. sret (JRename source destination (odd flags))))
     else sfail Malformed)))"

definition op_decode :: "bytes \<Rightarrow> filesystem_limits \<Rightarrow> codec_error + journal_operation" where
  "op_decode bs lim =
     (case op_parser lim (pc_plain bs) of
        (Inl e, _) \<Rightarrow> Inl e
      | (Inr op, c) \<Rightarrow>
          rbind (pc_finish c) (\<lambda>_.
            if \<not> paths_are_home_descendants op then Inl NonCanonical else Inr op))"

subsection \<open>Records\<close>

record journal_record =
  jr_computer_id :: computer_id
  jr_sequence :: nat
  jr_previous_sequence :: nat
  jr_operation :: journal_operation

definition JOURNAL_MAGIC :: bytes where
  "JOURNAL_MAGIC = ascii ''CPKTJNL'' @ [0]"

definition journal_record_new ::
  "computer_id \<Rightarrow> nat \<Rightarrow> nat \<Rightarrow> journal_operation \<Rightarrow> codec_error + journal_record" where
  "journal_record_new cid sequence previous op =
     (if sequence = 0 \<or> checked_add 64 previous 1 \<noteq> Some sequence
         \<or> \<not> paths_are_home_descendants op \<or> \<not> generation_is_canonical op sequence
      then Inl NonCanonical
      else Inr \<lparr>jr_computer_id = cid, jr_sequence = sequence, jr_previous_sequence = previous,
                jr_operation = op\<rparr>)"

definition record_encode ::
  "sha256 \<Rightarrow> journal_record \<Rightarrow> filesystem_limits \<Rightarrow> codec_error + bytes" where
  "record_encode sha r lim =
     rbind (op_encode (jr_operation r) lim) (\<lambda>payload.
     rbind (ok_or (checked_add 64 48 (length payload)) CodecLimit) (\<lambda>encoded_without_digest.
     rbind (ok_or (checked_add 64 encoded_without_digest DIGEST_BYTES) CodecLimit) (\<lambda>total.
     if maximum_journal_record_bytes lim < total then Inl CodecLimit
     else if \<not> length payload < 2 ^ 32 then Inl CodecLimit
     else
       finish_checked sha
         (JOURNAL_MAGIC @ w_u16 1 @ w_u16 0 @ jr_computer_id r @ w_u64 (jr_sequence r)
          @ w_u64 (jr_previous_sequence r) @ w_u32 (length payload) @ payload)
         (maximum_journal_record_bytes lim))))"

definition record_parser :: "filesystem_limits \<Rightarrow> journal_record parser" where
  "record_parser lim =
     sbind (pc_exact 8) (\<lambda>magic.
     if magic \<noteq> JOURNAL_MAGIC then sfail Malformed else
     sbind pc_u16 (\<lambda>version.
     if version \<noteq> 1 then sfail CodecVersion else
     sbind pc_u16 (\<lambda>reserved.
     if reserved \<noteq> 0 then sfail Malformed else
     sbind (pc_exact 16) (\<lambda>computer_id.
     sbind pc_u64 (\<lambda>sequence.
     sbind pc_u64 (\<lambda>previous_sequence.
     sbind pc_u32 (\<lambda>payload_length.
     sbind (sread (\<lambda>c. Inr (pc_remaining c))) (\<lambda>remaining.
     if maximum_journal_payload_bytes lim < payload_length \<or> payload_length \<noteq> remaining
     then sfail (if maximum_journal_payload_bytes lim < payload_length then CodecLimit else Malformed)
     else
       sbind (pc_exact payload_length) (\<lambda>payload.
       sbind (sread (\<lambda>_. op_decode payload lim)) (\<lambda>operation.
       sbind (sread pc_finish) (\<lambda>_.
       sread (\<lambda>_. journal_record_new computer_id sequence previous_sequence operation))))))))))))"

definition record_decode ::
  "sha256 \<Rightarrow> bytes \<Rightarrow> filesystem_limits \<Rightarrow> codec_error + journal_record" where
  "record_decode sha bs lim =
     rbind (pc_verified sha bs (maximum_journal_record_bytes lim)) (\<lambda>c. fst (record_parser lim c))"

text \<open>Operations and records whose fields fit their machine types and the limits.\<close>

definition op_storable :: "filesystem_limits \<Rightarrow> journal_operation \<Rightarrow> bool" where
  "op_storable lim op =
     (case op of
        JCreateDirectory p g \<Rightarrow> path_storable lim p \<and> g < 2 ^ 64
      | JPutFile p g n oid _ \<Rightarrow>
          path_storable lim p \<and> g < 2 ^ 64 \<and> n < 2 ^ 64 \<and> n \<le> maximum_file_bytes lim \<and> length oid = 32
      | JRemove p \<Rightarrow> path_storable lim p
      | JRename s d _ \<Rightarrow> path_storable lim s \<and> path_storable lim d)"

definition record_storable :: "filesystem_limits \<Rightarrow> journal_record \<Rightarrow> bool" where
  "record_storable lim r \<longleftrightarrow>
     length (jr_computer_id r) = 16 \<and> jr_sequence r < 2 ^ 64 \<and>
     journal_record_new (jr_computer_id r) (jr_sequence r) (jr_previous_sequence r) (jr_operation r)
       = Inr r \<and>
     op_storable lim (jr_operation r)"

subsection \<open>Operations\<close>

lemma header_parser:
  assumes "\<And>k f r. parser_for (body k f r) (R k f r)"
  shows "parser_for (sbind pc_u8 (\<lambda>k. sbind pc_u8 (\<lambda>f. sbind pc_u16 (\<lambda>r. body k f r))))
    (\<lambda>v xs. \<exists>k f r ys. k < 256 \<and> f < 256 \<and> r < 65536 \<and>
       xs = [of_nat k] @ [of_nat f] @ w_u16 r @ ys \<and> R k f r v ys)"
  by (rule parser_for_cong [OF parser_for_bind [OF pc_u8_parser parser_for_bind [OF pc_u8_parser
      parser_for_bind [OF pc_u16_parser assms]]]]) fastforce

lemma create_parser:
  "parser_for (sbind (pc_path lim) (\<lambda>p. sbind pc_u64 (\<lambda>g. sret (JCreateDirectory p g))))
    (\<lambda>op xs. \<exists>p g pb. op = JCreateDirectory p g \<and> xs = pb @ w_u64 g \<and> w_path p = Inr pb \<and>
       path_storable lim p \<and> g < 2 ^ 64)"
  by (rule parser_for_cong [OF parser_for_bind [OF pc_path_parser parser_for_bind [OF pc_u64_parser
      parser_for_ret]]]) force

lemma put_parser:
  "parser_for (sbind (pc_path lim) (\<lambda>p. sbind pc_u64 (\<lambda>g. sbind pc_u64 (\<lambda>n.
       if maximum_file_bytes lim < n then sfail CodecLimit
       else sbind (pc_exact 32) (\<lambda>oid. sret (JPutFile p g n oid x))))))
    (\<lambda>op xs. \<exists>p g n oid pb. op = JPutFile p g n oid x \<and> xs = pb @ w_u64 g @ w_u64 n @ oid \<and>
       w_path p = Inr pb \<and> path_storable lim p \<and> g < 2 ^ 64 \<and> n < 2 ^ 64 \<and>
       n \<le> maximum_file_bytes lim \<and> length oid = 32)"
proof (rule parser_for_cong [OF parser_for_bind [OF pc_path_parser parser_for_bind [OF pc_u64_parser
      parser_for_bind [OF pc_u64_parser parser_for_if [OF parser_for_fail parser_for_bind
      [OF pc_exact_parser parser_for_ret]]]]]], rule iffI, goal_cases)
  case 1
  then show ?case by (auto simp: not_less split: if_split_asm)
next
  case 2
  then show ?case by (clarsimp simp: not_less) (metis append.assoc append_Nil2)
qed

lemma remove_parser:
  "parser_for (sbind (pc_path lim) (\<lambda>p. sret (JRemove p)))
    (\<lambda>op xs. \<exists>p. op = JRemove p \<and> w_path p = Inr xs \<and> path_storable lim p)"
  by (rule parser_for_cong [OF parser_for_bind [OF pc_path_parser parser_for_ret]]) force

lemma rename_parser:
  "parser_for (sbind (pc_path lim) (\<lambda>s. sbind (pc_path lim) (\<lambda>d. sret (JRename s d x))))
    (\<lambda>op xs. \<exists>s d sb db. op = JRename s d x \<and> xs = sb @ db \<and> w_path s = Inr sb \<and> w_path d = Inr db \<and>
       path_storable lim s \<and> path_storable lim d)"
  by (rule parser_for_cong [OF parser_for_bind [OF pc_path_parser parser_for_bind [OF pc_path_parser
      parser_for_ret]]]) force

lemma flag_byte: "f div 2 = 0 \<Longrightarrow> of_nat f = of_bool_byte (odd f)"
  by (cases "f = 0") (auto simp: of_bool_byte_def div_eq_0_iff less_2_cases_iff)

lemma op_parser_exact:
  "parser_for (op_parser lim) (\<lambda>op xs. op_bytes op = Inr xs \<and> op_storable lim op)"
proof -
  have step: "parser_for (op_parser lim)
    (\<lambda>op xs. \<exists>k f r ys. k < 256 \<and> f < 256 \<and> r < 65536 \<and>
      xs = [of_nat k] @ [of_nat f] @ w_u16 r @ ys \<and>
      (if r \<noteq> 0 then False
       else if k = 1 \<and> f = 0 then (\<exists>p g pb. op = JCreateDirectory p g \<and> ys = pb @ w_u64 g \<and>
         w_path p = Inr pb \<and> path_storable lim p \<and> g < 2 ^ 64)
       else if k = 2 \<and> f div 2 = 0 then (\<exists>p g n oid pb. op = JPutFile p g n oid (odd f) \<and>
         ys = pb @ w_u64 g @ w_u64 n @ oid \<and> w_path p = Inr pb \<and> path_storable lim p \<and>
         g < 2 ^ 64 \<and> n < 2 ^ 64 \<and> n \<le> maximum_file_bytes lim \<and> length oid = 32)
       else if k = 3 \<and> f = 0 then (\<exists>p. op = JRemove p \<and> w_path p = Inr ys \<and> path_storable lim p)
       else if k = 4 \<and> f div 2 = 0 then (\<exists>s d sb db. op = JRename s d (odd f) \<and> ys = sb @ db \<and>
         w_path s = Inr sb \<and> w_path d = Inr db \<and> path_storable lim s \<and> path_storable lim d)
       else False))"
    unfolding op_parser_def
    by (intro header_parser parser_for_if parser_for_fail create_parser put_parser remove_parser
        rename_parser)
  show ?thesis
  proof (rule parser_for_cong [OF step])
    fix op xs
    show "(\<exists>k f r ys. k < 256 \<and> f < 256 \<and> r < 65536 \<and>
      xs = [of_nat k] @ [of_nat f] @ w_u16 r @ ys \<and>
      (if r \<noteq> 0 then False
       else if k = 1 \<and> f = 0 then (\<exists>p g pb. op = JCreateDirectory p g \<and> ys = pb @ w_u64 g \<and>
         w_path p = Inr pb \<and> path_storable lim p \<and> g < 2 ^ 64)
       else if k = 2 \<and> f div 2 = 0 then (\<exists>p g n oid pb. op = JPutFile p g n oid (odd f) \<and>
         ys = pb @ w_u64 g @ w_u64 n @ oid \<and> w_path p = Inr pb \<and> path_storable lim p \<and>
         g < 2 ^ 64 \<and> n < 2 ^ 64 \<and> n \<le> maximum_file_bytes lim \<and> length oid = 32)
       else if k = 3 \<and> f = 0 then (\<exists>p. op = JRemove p \<and> w_path p = Inr ys \<and> path_storable lim p)
       else if k = 4 \<and> f div 2 = 0 then (\<exists>s d sb db. op = JRename s d (odd f) \<and> ys = sb @ db \<and>
         w_path s = Inr sb \<and> w_path d = Inr db \<and> path_storable lim s \<and> path_storable lim d)
       else False)) \<longleftrightarrow> op_bytes op = Inr xs \<and> op_storable lim op" (is "?L \<longleftrightarrow> ?R")
    proof
      assume ?L
      then show ?R
        by (auto simp: op_bytes_def op_storable_def flag_byte of_bool_byte_def split: if_split_asm)
    next
      assume R: ?R
      show ?L
      proof (cases op)
        case (JCreateDirectory p g)
        with R show ?thesis
          by (intro exI [of _ 1] exI [of _ 0]) (auto simp: op_bytes_def op_storable_def rbind_Inr_iff)
      next
        case (JPutFile p g n oid x)
        with R show ?thesis
          by (intro exI [of _ 2] exI [of _ "of_bool x"] exI [of _ 0])
            (auto simp: op_bytes_def op_storable_def rbind_Inr_iff of_bool_byte_def)
      next
        case (JRemove p)
        with R show ?thesis
          by (intro exI [of _ 3] exI [of _ 0]) (auto simp: op_bytes_def op_storable_def rbind_Inr_iff)
      next
        case (JRename src dst x)
        with R show ?thesis
          by (intro exI [of _ 4] exI [of _ "of_bool x"] exI [of _ 0])
            (auto simp: op_bytes_def op_storable_def rbind_Inr_iff of_bool_byte_def)
      qed
    qed
  qed
qed

lemma op_decode_iff:
  assumes "length bs < 2 ^ 64"
  shows "op_decode bs lim = Inr op \<longleftrightarrow>
    op_bytes op = Inr bs \<and> op_storable lim op \<and> paths_are_home_descendants op"
proof -
  have "op_decode bs lim = Inr op \<longleftrightarrow>
      (\<exists>c. op_parser lim (pc_plain bs) = (Inr op, c) \<and> pc_finish c = Inr ()) \<and>
      paths_are_home_descendants op"
    by (auto simp: op_decode_def rbind_Inr_iff split: prod.splits sum.splits if_splits)
  then show ?thesis using parse_whole [OF op_parser_exact assms] by blast
qed

lemma path_storable_len: "path_storable lim p \<Longrightarrow> encoded_len p \<le> maximum_path_bytes lim"
  by (simp add: path_storable_def path_wf_def)

lemma w_path_length: "w_path p = Inr bs \<Longrightarrow> length bs = 4 + encoded_len p \<and> encoded_len p < 2 ^ 32"
  by (auto simp: w_path_eq w_u32_def length_display split: if_splits)

lemma add_path_len_eq:
  assumes "path_storable lim p" "w_path p = Inr pb" "len + length pb < 2 ^ 64"
  shows "add_path_len lim len p = Inr (len + length pb)"
  using path_storable_len [OF assms(1)] w_path_length [OF assms(2)] assms(3)
  by (simp add: add_path_len_def path_record_len_def checked_add_def)

lemma op_encoded_len_bytes:
  assumes "op_storable lim op" "op_bytes op = Inr bs" "length bs < 2 ^ 64"
  shows "op_encoded_len op lim = Inr (length bs)"
proof (cases op)
  case (JCreateDirectory p g)
  with assms obtain pb where pb: "w_path p = Inr pb" "path_storable lim p" "length bs = 12 + length pb"
    by (auto simp: op_bytes_def op_storable_def rbind_Inr_iff w_u16_def w_u64_def)
  with JCreateDirectory assms(3) add_path_len_eq [OF pb(2,1), of 4] show ?thesis
    by (simp add: op_encoded_len_def checked_add_def)
next
  case (JPutFile p g n oid x)
  with assms obtain pb where pb: "w_path p = Inr pb" "path_storable lim p" "length bs = 52 + length pb"
    by (auto simp: op_bytes_def op_storable_def rbind_Inr_iff w_u16_def w_u64_def)
  with JPutFile assms(3) add_path_len_eq [OF pb(2,1), of 4] show ?thesis
    by (simp add: op_encoded_len_def checked_add_def)
next
  case (JRemove p)
  with assms obtain pb where pb: "w_path p = Inr pb" "path_storable lim p" "length bs = 4 + length pb"
    by (auto simp: op_bytes_def op_storable_def rbind_Inr_iff w_u16_def)
  with JRemove assms(3) add_path_len_eq [OF pb(2,1), of 4] show ?thesis
    by (simp add: op_encoded_len_def checked_add_def)
next
  case (JRename s d x)
  with assms obtain sb db where pb: "w_path s = Inr sb" "path_storable lim s" "w_path d = Inr db"
    "path_storable lim d" "length bs = 4 + length sb + length db"
    by (auto simp: op_bytes_def op_storable_def rbind_Inr_iff w_u16_def)
  with JRename assms(3) add_path_len_eq [OF pb(2,1), of 4]
    add_path_len_eq [OF pb(4,3), of "4 + length sb"] show ?thesis
    by (simp add: op_encoded_len_def checked_add_def)
qed

lemma op_encode_iff:
  assumes "op_storable lim op" "length bs < 2 ^ 64"
  shows "op_encode op lim = Inr bs \<longleftrightarrow>
    op_bytes op = Inr bs \<and> length bs \<le> maximum_journal_payload_bytes lim"
proof (cases "op_bytes op = Inr bs")
  case True
  then have "op_encoded_len op lim = Inr (length bs)"
    using op_encoded_len_bytes assms by blast
  with True show ?thesis by (simp add: op_encode_def)
next
  case False
  then show ?thesis by (auto simp: op_encode_def rbind_Inr_iff split: if_split_asm)
qed

subsection \<open>Records\<close>

definition record_body :: "journal_record \<Rightarrow> bytes \<Rightarrow> bytes" where
  "record_body r payload = JOURNAL_MAGIC @ w_u16 1 @ w_u16 0 @ jr_computer_id r @
     w_u64 (jr_sequence r) @ w_u64 (jr_previous_sequence r) @ w_u32 (length payload) @ payload"

lemma record_parser_rest:
  "parser_rest (record_parser lim)
    (\<lambda>r xs ys. ys = [] \<and> (\<exists>payload. xs = record_body r payload \<and>
       length payload \<le> maximum_journal_payload_bytes lim \<and> length payload < 2 ^ 32 \<and>
       jr_previous_sequence r < 2 ^ 64 \<and> jr_sequence r < 2 ^ 64 \<and> length (jr_computer_id r) = 16 \<and>
       op_decode payload lim = Inr (jr_operation r) \<and>
       journal_record_new (jr_computer_id r) (jr_sequence r) (jr_previous_sequence r) (jr_operation r)
         = Inr r))"
proof (unfold record_parser_def, rule parser_rest_cong,
    (rule parser_rest_bind parser_rest_if parser_rest_fail parser_rest_remaining parser_rest_finish
      parser_rest_const parsers [THEN parser_rest_for])+, rule iffI, goal_cases)
  case (1 r xs ys)
  then show ?case
    by (auto simp: record_body_def journal_record_new_def split: if_split_asm)
next
  case (2 r xs ys)
  then obtain payload where r: "ys = []" "xs = record_body r payload"
     "length payload \<le> maximum_journal_payload_bytes lim" "length payload < 2 ^ 32"
     "jr_previous_sequence r < 2 ^ 64" "jr_sequence r < 2 ^ 64" "length (jr_computer_id r) = 16"
     "op_decode payload lim = Inr (jr_operation r)"
     "journal_record_new (jr_computer_id r) (jr_sequence r) (jr_previous_sequence r) (jr_operation r)
         = Inr r"
    by blast
  have m: "length JOURNAL_MAGIC = 8" by (simp add: JOURNAL_MAGIC_def ascii_def)
  show ?case
    unfolding r(1,2) record_body_def
    apply (rule ex_exact [OF m], simp only: simp_thms if_False)
    apply (rule ex_written, simp, simp only: simp_thms if_False)
    apply (rule ex_written, simp, simp only: simp_thms if_False)
    apply (rule ex_exact [OF r(7)])
    apply (rule ex_written, use r(6) in simp)
    apply (rule ex_written, use r(5) in simp)
    apply (rule ex_written, use r(4) in simp)
    using r(3,8,9) by auto
qed

lemma length_record_body:
  "length (jr_computer_id r) = 16 \<Longrightarrow> length (record_body r payload) = 48 + length payload"
  by (simp add: record_body_def JOURNAL_MAGIC_def ascii_def w_u16_def w_u32_def w_u64_def)

lemma record_decode_iff:
  assumes "sha256_length sha" "length bs < 2 ^ 64"
  shows "record_decode sha bs lim = Inr r \<longleftrightarrow>
    (\<exists>payload. bs = record_body r payload @ sha (record_body r payload) \<and>
       length bs \<le> maximum_journal_record_bytes lim \<and>
       length payload \<le> maximum_journal_payload_bytes lim \<and> length payload < 2 ^ 32 \<and>
       record_storable lim r \<and> op_bytes (jr_operation r) = Inr payload)"
proof -
  have fin: "jr_previous_sequence r < 2 ^ 64 \<and> paths_are_home_descendants (jr_operation r)"
    if "jr_sequence r < 2 ^ 64" "journal_record_new (jr_computer_id r) (jr_sequence r)
      (jr_previous_sequence r) (jr_operation r) = Inr r"
    using that by (auto simp: journal_record_new_def checked_add_def split: if_splits)
  have "record_decode sha bs lim = Inr r \<longleftrightarrow>
    (\<exists>body. bs = body @ sha body \<and> length bs \<le> maximum_journal_record_bytes lim \<and>
       fst (record_parser lim (pc_plain body)) = Inr r)"
    by (auto simp: record_decode_def rbind_Inr_iff pc_verified_iff [OF assms(1)])
  also have "\<dots> \<longleftrightarrow> (\<exists>body. bs = body @ sha body \<and> length bs \<le> maximum_journal_record_bytes lim \<and>
       (\<exists>payload. body = record_body r payload \<and>
       length payload \<le> maximum_journal_payload_bytes lim \<and> length payload < 2 ^ 32 \<and>
       jr_previous_sequence r < 2 ^ 64 \<and> jr_sequence r < 2 ^ 64 \<and> length (jr_computer_id r) = 16 \<and>
       op_decode payload lim = Inr (jr_operation r) \<and>
       journal_record_new (jr_computer_id r) (jr_sequence r) (jr_previous_sequence r) (jr_operation r)
         = Inr r))"
  proof -
    have "fst (record_parser lim (pc_plain body)) = Inr r \<longleftrightarrow> (\<exists>payload. body = record_body r payload \<and>
       length payload \<le> maximum_journal_payload_bytes lim \<and> length payload < 2 ^ 32 \<and>
       jr_previous_sequence r < 2 ^ 64 \<and> jr_sequence r < 2 ^ 64 \<and> length (jr_computer_id r) = 16 \<and>
       op_decode payload lim = Inr (jr_operation r) \<and>
       journal_record_new (jr_computer_id r) (jr_sequence r) (jr_previous_sequence r) (jr_operation r)
         = Inr r)" if "length body < 2 ^ 64" for body
      by (subst parse_whole_rest [OF record_parser_rest _ that]) blast+
    then show ?thesis using assms(2) by fastforce
  qed
  also have "\<dots> \<longleftrightarrow> (\<exists>payload. bs = record_body r payload @ sha (record_body r payload) \<and>
       length bs \<le> maximum_journal_record_bytes lim \<and>
       length payload \<le> maximum_journal_payload_bytes lim \<and> length payload < 2 ^ 32 \<and>
       record_storable lim r \<and> op_bytes (jr_operation r) = Inr payload)"
  proof -
    have "op_decode payload lim = Inr (jr_operation r) \<longleftrightarrow> op_bytes (jr_operation r) = Inr payload \<and>
        op_storable lim (jr_operation r) \<and> paths_are_home_descendants (jr_operation r)"
      if "length payload < 2 ^ 32" for payload
      using that by (intro op_decode_iff) simp
    with fin show ?thesis unfolding record_storable_def by blast
  qed
  finally show ?thesis .
qed

lemma record_encode_eq:
  "record_encode sha r lim =
     rbind (op_encode (jr_operation r) lim) (\<lambda>payload.
     rbind (ok_or (checked_add 64 48 (length payload)) CodecLimit) (\<lambda>encoded_without_digest.
     rbind (ok_or (checked_add 64 encoded_without_digest DIGEST_BYTES) CodecLimit) (\<lambda>total.
     if maximum_journal_record_bytes lim < total then Inl CodecLimit
     else if \<not> length payload < 2 ^ 32 then Inl CodecLimit
     else finish_checked sha (record_body r payload) (maximum_journal_record_bytes lim))))"
  by (simp only: record_encode_def record_body_def)

lemma record_encode_iff:
  assumes "sha256_length sha" "record_storable lim r"
  shows "record_encode sha r lim = Inr bs \<longleftrightarrow>
    (\<exists>payload. bs = record_body r payload @ sha (record_body r payload) \<and> length bs < 2 ^ 64 \<and>
       length bs \<le> maximum_journal_record_bytes lim \<and>
       length payload \<le> maximum_journal_payload_bytes lim \<and> length payload < 2 ^ 32 \<and>
       op_bytes (jr_operation r) = Inr payload)"
proof -
  have len: "length (record_body r p) = 48 + length p" "length (sha b) = 32" for p b
    using assms length_record_body by (auto simp: record_storable_def sha256_length_def)
  have st: "op_storable lim (jr_operation r)" using assms(2) by (simp add: record_storable_def)
  have "record_encode sha r lim = Inr bs \<longleftrightarrow>
    (\<exists>payload. op_encode (jr_operation r) lim = Inr payload \<and>
       bs = record_body r payload @ sha (record_body r payload) \<and> length bs < 2 ^ 64 \<and>
       length bs \<le> maximum_journal_record_bytes lim \<and> length payload < 2 ^ 32)"
    by (cases "op_encode (jr_operation r) lim")
      (auto simp: record_encode_eq rbind_Inr_iff ok_or_iff checked_simps finish_checked_def len
        DIGEST_BYTES_def not_less)
  moreover have "op_encode (jr_operation r) lim = Inr p \<longleftrightarrow>
      op_bytes (jr_operation r) = Inr p \<and> length p \<le> maximum_journal_payload_bytes lim"
    if "length p < 2 ^ 32" for p
    using that by (intro op_encode_iff [OF st]) simp
  ultimately show ?thesis by blast
qed

text \<open>
  C8. The journal codec is exact: \<open>JournalRecord::decode\<close> returns \<open>r\<close> on a byte string if and only if
  the string is what \<open>encode\<close> writes for \<open>r\<close> and \<open>r\<close> is a canonical record whose paths, size and
  identifiers respect the limits. So every accepted file has one meaning, every canonical record
  survives a write and a read, and nothing else (trailing bytes, foreign flags, a wrong digest, a
  non-canonical path or sequence) is accepted.
\<close>
theorem journal_codec_exact:
  assumes "sha256_length sha" "length bs < 2 ^ 64"
  shows "record_decode sha bs lim = Inr r \<longleftrightarrow>
    record_encode sha r lim = Inr bs \<and> record_storable lim r"
  using record_decode_iff [OF assms] record_encode_iff [OF assms(1)] assms(2) by blast

theorem journal_codec_exact_witness:
  "\<exists>bs. record_decode (\<lambda>_. replicate 32 0) bs testing_limits = Inr
     \<lparr>jr_computer_id = replicate 16 7, jr_sequence = 1, jr_previous_sequence = 0,
      jr_operation = JCreateDirectory [ascii ''home'', ascii ''a''] 1\<rparr>"
proof -
  let ?r = "\<lparr>jr_computer_id = replicate 16 7, jr_sequence = 1, jr_previous_sequence = 0,
      jr_operation = JCreateDirectory [ascii ''home'', ascii ''a''] 1\<rparr> :: journal_record"
  let ?sha = "\<lambda>_. replicate 32 (0 :: u8)"
  have st: "record_storable testing_limits ?r"
    by (simp add: record_storable_def journal_record_new_def checked_add_def
        paths_are_home_descendants_def home_descendant_def generation_is_canonical_def
        op_storable_def path_storable_def path_wf_def component_ok_def testing_limits_def ascii_def
        encoded_len_def display_def)
  obtain bs where bs: "record_encode ?sha ?r testing_limits = Inr bs" "length bs < 2 ^ 64"
    by (simp add: record_encode_def op_encode_def op_encoded_len_def add_path_len_def
        path_record_len_def encoded_len_def testing_limits_def ascii_def checked_add_def op_bytes_def
        w_path_def w_u16_def w_u32_def w_u64_def finish_checked_def DIGEST_BYTES_def
        JOURNAL_MAGIC_def)
  have "sha256_length ?sha" by (simp add: sha256_length_def)
  from journal_codec_exact [OF this bs(2)] bs(1) st show ?thesis by blast
qed

end
