(* ===== verification/Ordered_Map.thy ===== *)
theory Ordered_Map
  imports Prelude
begin

text \<open>
  \<open>BTreeMap\<close>: an association list whose keys ascend strictly. Lookup is \<open>map_of\<close>; the laws of
  insertion and removal (what they do to lookups, to the length and to any sum over the entries)
  serve the directory tree, the object store and crash recovery.
\<close>

type_synonym ('k, 'v) btree = "('k \<times> 'v) list"

definition bt_ok :: "('k :: linorder, 'v) btree \<Rightarrow> bool" where
  "bt_ok m \<longleftrightarrow> sorted_wrt (<) (map fst m)"

fun bt_insert :: "'k :: linorder \<Rightarrow> 'v \<Rightarrow> ('k, 'v) btree \<Rightarrow> ('k, 'v) btree" where
  "bt_insert k v [] = [(k, v)]"
| "bt_insert k v ((j, w) # m) =
     (if k < j then (k, v) # (j, w) # m
      else if k = j then (k, v) # m
      else (j, w) # bt_insert k v m)"

definition bt_remove :: "'k :: linorder \<Rightarrow> ('k, 'v) btree \<Rightarrow> ('k, 'v) btree" where
  "bt_remove k m = filter (\<lambda>(j, _). j \<noteq> k) m"

definition bt_collect :: "('k :: linorder \<times> 'v) list \<Rightarrow> ('k, 'v) btree" where
  "bt_collect kvs = fold (\<lambda>(k, v) m. bt_insert k v m) kvs []"

lemma map_of_bt_insert [simp]: "map_of (bt_insert k v m) = (map_of m)(k \<mapsto> v)"
  by (induction k v m rule: bt_insert.induct) (auto simp: fun_eq_iff)

lemma map_of_bt_remove [simp]: "map_of (bt_remove k m) = (map_of m)(k := None)"
  by (induction m) (auto simp: bt_remove_def fun_eq_iff)

lemma fst_set_bt_insert: "fst ` set (bt_insert k v m) = insert k (fst ` set m)"
  by (induction k v m rule: bt_insert.induct) auto

lemma bt_ok_Nil [simp]: "bt_ok []"
  by (simp add: bt_ok_def)

lemma bt_ok_Cons: "bt_ok ((k, v) # m) \<longleftrightarrow> (\<forall>j\<in>fst ` set m. k < j) \<and> bt_ok m"
  by (simp add: bt_ok_def)

lemma bt_ok_insert [simp]: "bt_ok m \<Longrightarrow> bt_ok (bt_insert k v m)"
  by (induction k v m rule: bt_insert.induct) (auto simp: bt_ok_Cons fst_set_bt_insert)

lemma bt_ok_filter: "bt_ok m \<Longrightarrow> bt_ok (filter p m)"
proof (induction m)
  case (Cons a m)
  then show ?case by (cases a) (auto simp: bt_ok_Cons)
qed simp

lemma bt_ok_remove [simp]: "bt_ok m \<Longrightarrow> bt_ok (bt_remove k m)"
  unfolding bt_remove_def by (rule bt_ok_filter)

lemma bt_ok_distinct: "bt_ok m \<Longrightarrow> distinct (map fst m)"
  by (simp add: bt_ok_def strict_sorted_iff)

lemma bt_ok_ext: "bt_ok m \<Longrightarrow> bt_ok n \<Longrightarrow> map_of m = map_of n \<Longrightarrow> m = n"
proof -
  assume ok: "bt_ok m" "bt_ok n" and eq: "map_of m = map_of n"
  have "set m = set n"
    using eq ok [THEN bt_ok_distinct] by (simp only: set_map_of_compr)
  moreover have "sorted (map fst m)" "sorted (map fst n)" "inj_on fst (set m \<union> set n)"
    using ok [unfolded bt_ok_def] ok [THEN bt_ok_distinct] \<open>set m = set n\<close>
    by (auto simp: strict_sorted_iff distinct_map)
  ultimately show "m = n"
    using ok [THEN bt_ok_distinct] \<open>set m = set n\<close> by (intro map_sorted_distinct_set_unique) auto
qed

lemma bt_remove_absent: "map_of m k = None \<Longrightarrow> bt_remove k m = m"
  by (induction m) (auto simp: bt_remove_def split: if_splits)

lemma sum_bt_insert:
  "bt_ok m \<Longrightarrow> sum_list (map w (bt_insert k v m)) = w (k, v) + sum_list (map w (bt_remove k m))"
  for w :: "_ \<Rightarrow> nat"
proof (induction k v m rule: bt_insert.induct)
  case (2 k v j u m)
  have keep: "bt_remove k m = m" if "\<forall>i\<in>fst ` set m. k < i"
    using that by (auto simp: bt_remove_def filter_id_conv)
  show ?case
  proof (cases "k \<le> j")
    case True
    with 2 have "\<forall>i\<in>fst ` set m. k < i" by (auto simp: bt_ok_Cons)
    with keep True show ?thesis by (auto simp: bt_remove_def)
  next
    case False
    with 2 show ?thesis by (auto simp: bt_remove_def bt_ok_Cons)
  qed
qed (simp add: bt_remove_def)

lemma sum_bt_remove:
  "bt_ok m \<Longrightarrow> map_of m k = Some v \<Longrightarrow>
     sum_list (map w m) = w (k, v) + sum_list (map w (bt_remove k m))" for w :: "_ \<Rightarrow> nat"
proof (induction m)
  case (Cons a m)
  obtain j u where a: "a = (j, u)" by (cases a)
  show ?case
  proof (cases "j = k")
    case True
    with Cons.prems a have "\<forall>i\<in>fst ` set m. k < i" by (auto simp: bt_ok_Cons)
    then have "bt_remove k m = m" by (auto simp: bt_remove_def filter_id_conv)
    with True Cons.prems a show ?thesis by (auto simp: bt_remove_def)
  next
    case False
    with Cons a show ?thesis by (auto simp: bt_remove_def bt_ok_Cons)
  qed
qed simp

lemma length_bt_insert:
  "bt_ok m \<Longrightarrow> length (bt_insert k v m) = (if map_of m k = None then Suc (length m) else length m)"
  using sum_bt_insert [of m "\<lambda>_. 1" k v] sum_bt_remove [of m k _ "\<lambda>_. 1"]
  by (auto simp: sum_list_triv bt_remove_absent)

lemma length_bt_remove:
  "bt_ok m \<Longrightarrow> length (bt_remove k m) = (if map_of m k = None then length m else length m - 1)"
  using sum_bt_remove [of m k _ "\<lambda>_. 1"] by (auto simp: sum_list_triv bt_remove_absent)

lemma bt_ok_map_of_iff: "bt_ok m \<Longrightarrow> map_of m k = Some v \<longleftrightarrow> (k, v) \<in> set m"
  by (simp add: bt_ok_distinct)

end
