(* ===== verification/Fs_Worker.thy ===== *)
theory Fs_Worker
  imports Fs_Journal Ordered_Map
begin

text \<open>
  The persistence queue between the filesystem and its worker thread
  (\<open>src/src/filesystem/worker.rs\<close>): reservations, publication, release of an unused reservation and
  the construction of a journaled mutation. Every operation runs under the queue's mutex and is one
  state transformer. The completion channels of the two control commands are not modelled, and a
  failing memory reservation is outside the model.
\<close>

record mutation_command =
  mc_computer_id :: computer_id
  mc_generation :: nat
  mc_object :: "(object_id \<times> bytes) option"
  mc_journal :: bytes

datatype command =
    CmdMutation mutation_command
  | CmdTombstone computer_id bool
  | CmdCollect "object_id list"
  | CmdStop

record queue_state =
  qs_health :: store_health
  qs_queue :: "command list"
  qs_queued_bytes :: nat
  qs_reserved_records :: nat
  qs_reserved_bytes :: nat
  qs_maximum_records :: nat
  qs_maximum_bytes :: nat
  qs_admitted :: "(computer_id, nat) btree"
  qs_durable :: "(computer_id, nat) btree"
  qs_stop_enqueued :: bool

record computer_persistence =
  cp_computer_id :: computer_id
  cp_gate :: queue_state
  cp_limits :: filesystem_limits

definition queue_start :: "filesystem_limits \<Rightarrow> queue_state" where
  "queue_start lim = \<lparr>qs_health = HealthActive, qs_queue = [], qs_queued_bytes = 0,
     qs_reserved_records = 0, qs_reserved_bytes = 0,
     qs_maximum_records = maximum_persistence_queue_records lim,
     qs_maximum_bytes = maximum_persistence_queue_bytes lim,
     qs_admitted = [], qs_durable = [], qs_stop_enqueued = False\<rparr>"

abbreviation USIZE_MAX :: nat where "USIZE_MAX \<equiv> 18446744073709551615"

definition saturating_add :: "nat \<Rightarrow> nat \<Rightarrow> nat" where
  "saturating_add a b = min (a + b) USIZE_MAX"

definition saturating_mul :: "nat \<Rightarrow> nat \<Rightarrow> nat" where
  "saturating_mul a b = min (a * b) USIZE_MAX"

definition byte_cost :: "command \<Rightarrow> nat" where
  "byte_cost c =
     (case c of
        CmdMutation m \<Rightarrow>
          saturating_add (case mc_object m of None \<Rightarrow> 0 | Some (_, bs) \<Rightarrow> length bs)
            (length (mc_journal m))
      | CmdTombstone _ _ \<Rightarrow> 0
      | CmdCollect objects \<Rightarrow> saturating_mul (length objects) 32
      | CmdStop \<Rightarrow> 0)"

definition require_active_filesystem :: "store_health \<Rightarrow> filesystem_error + unit" where
  "require_active_filesystem h =
     (case h of
        HealthActive \<Rightarrow> Inr ()
      | HealthDraining \<Rightarrow> Inl FsClosed
      | HealthClosed \<Rightarrow> Inl FsClosed
      | HealthFaulted \<Rightarrow> Inl StorageFaulted)"

definition queue_reserve :: "nat \<Rightarrow> (queue_state, filesystem_error, nat) smonad" where
  "queue_reserve cost q =
     (case require_active_filesystem (qs_health q) of
        Inl e \<Rightarrow> (Inl e, q)
      | Inr _ \<Rightarrow>
          (case checked_add 64 (length (qs_queue q)) (qs_reserved_records q) of
             None \<Rightarrow> (Inl Busy, q)
           | Some records \<Rightarrow>
               (case Option.bind (checked_add 64 (qs_queued_bytes q) (qs_reserved_bytes q))
                       (\<lambda>t. checked_add 64 t cost) of
                  None \<Rightarrow> (Inl Busy, q)
                | Some bytes \<Rightarrow>
                    if qs_maximum_records q \<le> records \<or> qs_maximum_bytes q < bytes
                    then (Inl Busy, q)
                    else
                      (Inr cost,
                       q\<lparr>qs_reserved_records := qs_reserved_records q + 1,
                         qs_reserved_bytes := qs_reserved_bytes q + cost\<rparr>))))"

definition queue_publish :: "nat \<Rightarrow> command \<Rightarrow> queue_state \<Rightarrow> queue_state" where
  "queue_publish cost c q = q\<lparr>
     qs_reserved_records := wrapping_sub 64 (qs_reserved_records q) 1,
     qs_reserved_bytes := wrapping_sub 64 (qs_reserved_bytes q) cost,
     qs_queued_bytes := wrapping_add 64 (qs_queued_bytes q) cost,
     qs_admitted := (case c of
         CmdMutation m \<Rightarrow> bt_insert (mc_computer_id m) (mc_generation m) (qs_admitted q)
       | _ \<Rightarrow> qs_admitted q),
     qs_queue := qs_queue q @ [c]\<rparr>"

definition queue_release :: "nat \<Rightarrow> queue_state \<Rightarrow> queue_state" where
  "queue_release cost q = q\<lparr>
     qs_reserved_records := wrapping_sub 64 (qs_reserved_records q) 1,
     qs_reserved_bytes := wrapping_sub 64 (qs_reserved_bytes q) cost\<rparr>"

definition codec_to_filesystem :: "codec_error \<Rightarrow> filesystem_error" where
  "codec_to_filesystem e = (case e of CodecLimit \<Rightarrow> QuotaExceeded | _ \<Rightarrow> StorageFaulted)"

record persistence_mutation =
  pm_reservation :: nat
  pm_command :: command

definition persistence_prepare ::
  "sha256 \<Rightarrow> nat \<Rightarrow> (object_id \<times> bytes) option \<Rightarrow> journal_operation
    \<Rightarrow> (computer_persistence, filesystem_error, persistence_mutation) smonad" where
  "persistence_prepare sha gen object op p =
     (case map_err codec_to_filesystem
             (rbind (journal_record_new (cp_computer_id p) gen (gen - 1) op)
                (\<lambda>r. record_encode sha r (cp_limits p))) of
        Inl e \<Rightarrow> (Inl e, p)
      | Inr journal \<Rightarrow>
          (let c = CmdMutation \<lparr>mc_computer_id = cp_computer_id p, mc_generation = gen,
                                 mc_object = object, mc_journal = journal\<rparr> in
           case queue_reserve (byte_cost c) (cp_gate p) of
             (Inl e, g) \<Rightarrow> (Inl e, p\<lparr>cp_gate := g\<rparr>)
           | (Inr reservation, g) \<Rightarrow>
               (Inr \<lparr>pm_reservation = reservation, pm_command = c\<rparr>, p\<lparr>cp_gate := g\<rparr>)))"

definition mutation_publish :: "persistence_mutation \<Rightarrow> computer_persistence \<Rightarrow> computer_persistence" where
  "mutation_publish m p = p\<lparr>cp_gate := queue_publish (pm_reservation m) (pm_command m) (cp_gate p)\<rparr>"

definition mutation_drop :: "persistence_mutation \<Rightarrow> computer_persistence \<Rightarrow> computer_persistence" where
  "mutation_drop m p = p\<lparr>cp_gate := queue_release (pm_reservation m) (cp_gate p)\<rparr>"

subsection \<open>Accounting\<close>

text \<open>The queue's books: the queued bytes are the costs of the queued commands, and the records and
  bytes queued or reserved stay within the configured maxima (one stop command aside).\<close>

definition queue_inv :: "queue_state \<Rightarrow> bool" where
  "queue_inv q \<longleftrightarrow>
     qs_queued_bytes q = sum_list (map byte_cost (qs_queue q)) \<and>
     length (filter (\<lambda>c. c \<noteq> CmdStop) (qs_queue q)) + qs_reserved_records q \<le> qs_maximum_records q \<and>
     length (filter (\<lambda>c. c = CmdStop) (qs_queue q)) \<le> 1 \<and>
     qs_queued_bytes q + qs_reserved_bytes q \<le> qs_maximum_bytes q \<and> qs_maximum_bytes q < 2 ^ 64"

lemma queue_reserve_iff:
  "queue_reserve cost q = (Inr r, q') \<longleftrightarrow>
     qs_health q = HealthActive \<and> r = cost \<and>
     length (qs_queue q) + qs_reserved_records q < 2 ^ 64 \<and>
     length (qs_queue q) + qs_reserved_records q < qs_maximum_records q \<and>
     qs_queued_bytes q + qs_reserved_bytes q + cost < 2 ^ 64 \<and>
     qs_queued_bytes q + qs_reserved_bytes q + cost \<le> qs_maximum_bytes q \<and>
     q' = q\<lparr>qs_reserved_records := qs_reserved_records q + 1,
            qs_reserved_bytes := qs_reserved_bytes q + cost\<rparr>"
  by (auto simp: queue_reserve_def require_active_filesystem_def checked_add_def
      split: store_health.splits if_splits option.splits bind_splits)

lemma queue_reserve_error: "queue_reserve cost q = (Inl e, q') \<Longrightarrow> q' = q"
  by (auto simp: queue_reserve_def split: sum.splits option.splits if_splits)

lemma length_filter_split: "length xs = length (filter P xs) + length (filter (\<lambda>x. \<not> P x) xs)"
  by (simp add: sum_length_filter_compl)

lemma queue_reserve_inv:
  assumes "queue_inv q" "queue_reserve cost q = (Inr r, q')"
  shows "queue_inv q'"
proof -
  have "length (qs_queue q) =
      length (filter (\<lambda>c. c \<noteq> CmdStop) (qs_queue q)) + length (filter (\<lambda>c. c = CmdStop) (qs_queue q))"
    using length_filter_split [of "qs_queue q" "\<lambda>c. c \<noteq> CmdStop"] by simp
  with assms show ?thesis by (auto simp: queue_inv_def queue_reserve_iff)
qed

lemma queue_publish_inv:
  assumes "queue_inv q" "1 \<le> qs_reserved_records q" "byte_cost c \<le> qs_reserved_bytes q" "c \<noteq> CmdStop"
  shows "queue_inv (queue_publish (byte_cost c) c q)"
  using assms by (auto simp: queue_inv_def queue_publish_def)

lemma queue_release_inv:
  assumes "queue_inv q" "1 \<le> qs_reserved_records q" "cost \<le> qs_reserved_bytes q"
  shows "queue_inv (queue_release cost q)"
  using assms by (auto simp: queue_inv_def queue_release_def)

end
