(* ===== verification/Fs_Checkpoint.thy ===== *)
theory Fs_Checkpoint
  imports Fs_Journal
begin

text \<open>
  Namespace checkpoints (\<open>src/src/filesystem/persistence/checkpoint.rs\<close>): one record per node below
  \<open>/home\<close> in path order, framed and digested like a journal record. As for the journal, decoding
  accepts exactly the encodings of canonical checkpoints within the limits.
\<close>

datatype checkpoint_node =
    CkDirectory virtual_path nat
  | CkFile virtual_path nat nat object_id bool

fun ck_path :: "checkpoint_node \<Rightarrow> virtual_path" where
  "ck_path (CkDirectory p _) = p"
| "ck_path (CkFile p _ _ _ _) = p"

fun ck_executable :: "checkpoint_node \<Rightarrow> bool" where
  "ck_executable (CkDirectory _ _) = False"
| "ck_executable (CkFile _ _ _ _ x) = x"

fun ck_is_directory :: "checkpoint_node \<Rightarrow> bool" where
  "ck_is_directory (CkDirectory _ _) = True"
| "ck_is_directory (CkFile _ _ _ _ _) = False"

fun ck_object :: "checkpoint_node \<Rightarrow> (object_id \<times> nat) option" where
  "ck_object (CkDirectory _ _) = None"
| "ck_object (CkFile _ _ n oid _) = Some (oid, n)"

fun ck_with_path :: "checkpoint_node \<Rightarrow> virtual_path \<Rightarrow> nat \<Rightarrow> checkpoint_node" where
  "ck_with_path (CkDirectory _ _) p g = CkDirectory p g"
| "ck_with_path (CkFile _ _ n oid x) p g = CkFile p g n oid x"

fun ck_generation :: "checkpoint_node \<Rightarrow> nat" where
  "ck_generation (CkDirectory _ g) = g"
| "ck_generation (CkFile _ g _ _ _) = g"

definition ck_node_bytes :: "checkpoint_node \<Rightarrow> codec_error + bytes" where
  "ck_node_bytes node =
     rbind (w_path (ck_path node)) (\<lambda>p.
       Inr (p @
         (case node of
            CkDirectory _ node_generation \<Rightarrow>
              [1] @ [0] @ w_u16 0 @ w_u64 node_generation @ w_u64 0 @ replicate 32 0
          | CkFile _ node_generation logical_size object_id executable \<Rightarrow>
              [2] @ [of_bool_byte executable] @ w_u16 0 @ w_u64 node_generation
              @ w_u64 logical_size @ object_id)))"

definition ck_node_parser :: "filesystem_limits \<Rightarrow> checkpoint_node parser" where
  "ck_node_parser lim =
     sbind (pc_path lim) (\<lambda>path.
     sbind pc_u8 (\<lambda>kind.
     sbind pc_u8 (\<lambda>flags.
     sbind pc_u16 (\<lambda>reserved.
     if reserved \<noteq> 0 then sfail Malformed else
     sbind pc_u64 (\<lambda>node_generation.
     sbind pc_u64 (\<lambda>logical_size.
     sbind (pc_exact 32) (\<lambda>object_id.
       if kind = 1 \<and> flags = 0 \<and> logical_size = 0 \<and> object_id = replicate 32 0
       then sret (CkDirectory path node_generation)
       else if kind = 2 \<and> flags div 2 = 0 \<and> logical_size \<le> maximum_file_bytes lim
       then sret (CkFile path node_generation logical_size object_id (odd flags))
       else if kind = 2 \<and> maximum_file_bytes lim < logical_size then sfail CodecLimit
       else sfail Malformed)))))))"

record checkpoint =
  ckp_computer_id :: computer_id
  ckp_generation :: nat
  ckp_nodes :: "checkpoint_node list"

fun validate_nodes_loop ::
  "checkpoint_node option \<Rightarrow> virtual_path list \<Rightarrow> nat \<Rightarrow> checkpoint_node list \<Rightarrow> codec_error + unit"
where
  "validate_nodes_loop previous directories gen [] = Inr ()"
| "validate_nodes_loop previous directories gen (node # nodes) =
     (if \<not> home_descendant (ck_path node)
         \<or> (case previous of None \<Rightarrow> False | Some before \<Rightarrow> ck_path before \<ge> ck_path node)
         \<or> ck_generation node > gen
      then Inl NonCanonical
      else
        rbind (ok_or (path_parent (ck_path node)) NonCanonical) (\<lambda>parent.
          if display parent \<noteq> ascii ''/home'' \<and> parent \<notin> set directories then Inl NonCanonical
          else
            validate_nodes_loop (Some node)
              (if ck_is_directory node then ck_path node # directories else directories) gen nodes))"

definition validate_nodes :: "checkpoint_node list \<Rightarrow> nat \<Rightarrow> codec_error + unit" where
  "validate_nodes nodes gen = validate_nodes_loop None [] gen nodes"

definition checkpoint_new ::
  "computer_id \<Rightarrow> nat \<Rightarrow> checkpoint_node list \<Rightarrow> codec_error + checkpoint" where
  "checkpoint_new cid gen nodes =
     rbind (validate_nodes nodes gen) (\<lambda>_.
       Inr \<lparr>ckp_computer_id = cid, ckp_generation = gen, ckp_nodes = nodes\<rparr>)"

definition CHECKPOINT_MAGIC :: bytes where
  "CHECKPOINT_MAGIC = ascii ''CPKTCHK'' @ [0]"

fun ck_len_loop :: "filesystem_limits \<Rightarrow> nat \<Rightarrow> checkpoint_node list \<Rightarrow> codec_error + nat" where
  "ck_len_loop lim len [] = Inr len"
| "ck_len_loop lim len (node # nodes) =
     (if maximum_path_bytes lim < encoded_len (ck_path node) then Inl CodecLimit
      else if (case node of CkFile _ _ n _ _ \<Rightarrow> maximum_file_bytes lim < n | _ \<Rightarrow> False)
      then Inl CodecLimit
      else
        rbind (path_record_len (ck_path node)) (\<lambda>n.
        rbind (ok_or (Option.bind (checked_add 64 len n) (\<lambda>l. checked_add 64 l 52)) CodecLimit)
          (\<lambda>len. ck_len_loop lim len nodes)))"

fun ck_nodes_bytes :: "checkpoint_node list \<Rightarrow> codec_error + bytes" where
  "ck_nodes_bytes [] = Inr []"
| "ck_nodes_bytes (node # nodes) =
     rbind (ck_node_bytes node) (\<lambda>a. rbind (ck_nodes_bytes nodes) (\<lambda>b. Inr (a @ b)))"

definition checkpoint_encode ::
  "sha256 \<Rightarrow> checkpoint \<Rightarrow> filesystem_limits \<Rightarrow> codec_error + bytes" where
  "checkpoint_encode sha ck lim =
     (if maximum_nodes lim - 2 < length (ckp_nodes ck) then Inl CodecLimit
      else
        rbind (ck_len_loop lim 40 (ckp_nodes ck)) (\<lambda>encoded_without_digest.
        rbind (ok_or (checked_add 64 encoded_without_digest DIGEST_BYTES) CodecLimit) (\<lambda>total.
        if maximum_checkpoint_bytes lim < total then Inl CodecLimit
        else if \<not> length (ckp_nodes ck) < 2 ^ 32 then Inl CodecLimit
        else
          rbind (ck_nodes_bytes (ckp_nodes ck)) (\<lambda>nodes.
          finish_checked sha
            (CHECKPOINT_MAGIC @ w_u16 1 @ w_u16 0 @ ckp_computer_id ck @ w_u64 (ckp_generation ck)
             @ w_u32 (length (ckp_nodes ck)) @ nodes)
            (maximum_checkpoint_bytes lim)))))"

fun ck_nodes_parser :: "filesystem_limits \<Rightarrow> nat \<Rightarrow> checkpoint_node list parser" where
  "ck_nodes_parser lim 0 = sret []"
| "ck_nodes_parser lim (Suc n) =
     sbind (ck_node_parser lim) (\<lambda>node. sbind (ck_nodes_parser lim n) (\<lambda>nodes. sret (node # nodes)))"

definition checkpoint_parser :: "filesystem_limits \<Rightarrow> checkpoint parser" where
  "checkpoint_parser lim =
     sbind (pc_exact 8) (\<lambda>magic.
     if magic \<noteq> CHECKPOINT_MAGIC then sfail Malformed else
     sbind pc_u16 (\<lambda>version.
     if version \<noteq> 1 then sfail CodecVersion else
     sbind pc_u16 (\<lambda>reserved.
     if reserved \<noteq> 0 then sfail Malformed else
     sbind (pc_exact 16) (\<lambda>computer_id.
     sbind pc_u64 (\<lambda>generation.
     sbind pc_u32 (\<lambda>count.
     if maximum_nodes lim - 2 < count then sfail CodecLimit else
     sbind (ck_nodes_parser lim count) (\<lambda>nodes.
     sbind (sread pc_finish) (\<lambda>_.
     sread (\<lambda>_. checkpoint_new computer_id generation nodes)))))))))"

definition checkpoint_decode ::
  "sha256 \<Rightarrow> bytes \<Rightarrow> filesystem_limits \<Rightarrow> codec_error + checkpoint" where
  "checkpoint_decode sha bs lim =
     rbind (pc_verified sha bs (maximum_checkpoint_bytes lim)) (\<lambda>c. fst (checkpoint_parser lim c))"

definition ck_node_storable :: "filesystem_limits \<Rightarrow> checkpoint_node \<Rightarrow> bool" where
  "ck_node_storable lim node \<longleftrightarrow> path_storable lim (ck_path node) \<and> ck_generation node < 2 ^ 64 \<and>
     (case node of
        CkDirectory _ _ \<Rightarrow> True
      | CkFile _ _ n oid _ \<Rightarrow> n < 2 ^ 64 \<and> n \<le> maximum_file_bytes lim \<and> length oid = 32)"

definition checkpoint_storable :: "filesystem_limits \<Rightarrow> checkpoint \<Rightarrow> bool" where
  "checkpoint_storable lim ck \<longleftrightarrow>
     length (ckp_computer_id ck) = 16 \<and> ckp_generation ck < 2 ^ 64 \<and>
     validate_nodes (ckp_nodes ck) (ckp_generation ck) = Inr () \<and>
     list_all (ck_node_storable lim) (ckp_nodes ck)"

subsection \<open>Nodes\<close>

lemma ck_node_parser_exact:
  "parser_for (ck_node_parser lim) (\<lambda>node xs. ck_node_bytes node = Inr xs \<and> ck_node_storable lim node)"
proof (unfold ck_node_parser_def, rule parser_for_cong,
    (rule parser_for_bind parser_for_if parser_for_fail parser_for_ret parsers)+, rule iffI, goal_cases)
  case (1 node xs)
  then show ?case
    by (auto simp: ck_node_bytes_def ck_node_storable_def flag_byte split: if_split_asm)
next
  case (2 node xs)
  then obtain pb where pb: "w_path (ck_path node) = Inr pb" "path_storable lim (ck_path node)"
    by (auto simp: ck_node_bytes_def ck_node_storable_def rbind_Inr_iff)
  show ?case
  proof (cases node)
    case (CkDirectory p g)
    with 2 pb have xs: "xs = pb @ [of_nat 1] @ [of_nat 0] @ w_u16 0 @ w_u64 g @ w_u64 0 @
        replicate 32 0 @ []" and g: "g < 256 ^ 8"
      by (auto simp: ck_node_bytes_def ck_node_storable_def)
    show ?thesis unfolding xs
      apply (rule ex_path [OF pb], rule ex_byte, simp, rule ex_byte, simp)
      apply (rule ex_written, simp, simp only: simp_thms if_False)
      apply (rule ex_written [OF g], rule ex_written, simp, rule ex_exact, simp)
      by (simp add: CkDirectory)
  next
    case (CkFile p g n oid x)
    with 2 pb have xs: "xs = pb @ [of_nat 2] @ [of_nat (of_bool x)] @ w_u16 0 @ w_u64 g @ w_u64 n @
        oid @ []" and g: "g < 256 ^ 8" "n < 256 ^ 8" "length oid = 32" "n \<le> maximum_file_bytes lim"
      by (auto simp: ck_node_bytes_def ck_node_storable_def of_bool_byte_def)
    show ?thesis unfolding xs
      apply (rule ex_path [OF pb], rule ex_byte, simp, rule ex_byte, simp)
      apply (rule ex_written, simp, simp only: simp_thms if_False)
      apply (rule ex_written [OF g(1)], rule ex_written [OF g(2)], rule ex_exact [OF g(3)])
      using g(4) by (simp add: CkFile)
  qed
qed

lemma ck_nodes_parser_exact:
  "parser_for (ck_nodes_parser lim n)
     (\<lambda>nodes xs. length nodes = n \<and> ck_nodes_bytes nodes = Inr xs \<and> list_all (ck_node_storable lim) nodes)"
proof (induction n)
  case 0
  show ?case unfolding ck_nodes_parser.simps by (rule parser_for_cong [OF parser_for_ret]) auto
next
  case (Suc n)
  show ?case unfolding ck_nodes_parser.simps
  proof (rule parser_for_cong [OF parser_for_bind [OF ck_node_parser_exact
          parser_for_bind [OF Suc.IH parser_for_ret]]], rule iffI, goal_cases)
    case (1 v xs)
    then show ?case by auto
  next
    case (2 v xs)
    then show ?case
      by (cases v) (fastforce simp: rbind_Inr_iff)+
  qed
qed

subsection \<open>Checkpoints\<close>

definition checkpoint_body :: "checkpoint \<Rightarrow> bytes \<Rightarrow> bytes" where
  "checkpoint_body ck nodes = CHECKPOINT_MAGIC @ w_u16 1 @ w_u16 0 @ ckp_computer_id ck @
     w_u64 (ckp_generation ck) @ w_u32 (length (ckp_nodes ck)) @ nodes"

lemma checkpoint_parser_rest:
  "parser_rest (checkpoint_parser lim)
    (\<lambda>ck xs ys. ys = [] \<and> (\<exists>nodes. xs = checkpoint_body ck nodes \<and>
       length (ckp_nodes ck) \<le> maximum_nodes lim - 2 \<and> length (ckp_nodes ck) < 2 ^ 32 \<and>
       checkpoint_storable lim ck \<and> ck_nodes_bytes (ckp_nodes ck) = Inr nodes))"
proof (unfold checkpoint_parser_def, rule parser_rest_cong,
    (rule parser_rest_bind parser_rest_if parser_rest_fail parser_rest_finish
      parser_rest_const parsers [THEN parser_rest_for] ck_nodes_parser_exact [THEN parser_rest_for])+,
    rule iffI, goal_cases)
  case (1 ck xs ys)
  then show ?case
    by (auto simp: checkpoint_body_def checkpoint_new_def rbind_Inr_iff checkpoint_storable_def
        split: if_split_asm)
next
  case (2 ck xs ys)
  then obtain nodes where r: "ys = []" "xs = checkpoint_body ck nodes"
     "length (ckp_nodes ck) \<le> maximum_nodes lim - 2" "length (ckp_nodes ck) < 256 ^ 4"
     "checkpoint_storable lim ck" "ck_nodes_bytes (ckp_nodes ck) = Inr nodes"
    by auto
  have m: "length CHECKPOINT_MAGIC = 8" by (simp add: CHECKPOINT_MAGIC_def ascii_def)
  from r(5) have st: "length (ckp_computer_id ck) = 16" "ckp_generation ck < 256 ^ 8"
    "list_all (ck_node_storable lim) (ckp_nodes ck)"
    "checkpoint_new (ckp_computer_id ck) (ckp_generation ck) (ckp_nodes ck) = Inr ck"
    by (auto simp: checkpoint_storable_def checkpoint_new_def)
  show ?case
    unfolding r(1,2) checkpoint_body_def
    apply (rule ex_exact [OF m], simp only: simp_thms if_False)
    apply (rule ex_written, simp, simp only: simp_thms if_False)
    apply (rule ex_written, simp, simp only: simp_thms if_False)
    apply (rule ex_exact [OF st(1)])
    apply (rule ex_written [OF st(2)], rule ex_written [OF r(4)])
    using r(3,6) st(3,4) by auto
qed

lemma length_checkpoint_body:
  "length (ckp_computer_id ck) = 16 \<Longrightarrow> length (checkpoint_body ck nodes) = 40 + length nodes"
  by (simp add: checkpoint_body_def CHECKPOINT_MAGIC_def ascii_def w_u16_def w_u32_def w_u64_def)

lemma checkpoint_decode_iff:
  assumes "sha256_length sha" "length bs < 2 ^ 64"
  shows "checkpoint_decode sha bs lim = Inr ck \<longleftrightarrow>
    (\<exists>nodes. bs = checkpoint_body ck nodes @ sha (checkpoint_body ck nodes) \<and>
       length bs \<le> maximum_checkpoint_bytes lim \<and>
       length (ckp_nodes ck) \<le> maximum_nodes lim - 2 \<and> length (ckp_nodes ck) < 2 ^ 32 \<and>
       checkpoint_storable lim ck \<and> ck_nodes_bytes (ckp_nodes ck) = Inr nodes)"
proof -
  have "checkpoint_decode sha bs lim = Inr ck \<longleftrightarrow>
    (\<exists>body. bs = body @ sha body \<and> length bs \<le> maximum_checkpoint_bytes lim \<and>
       fst (checkpoint_parser lim (pc_plain body)) = Inr ck)"
    by (auto simp: checkpoint_decode_def rbind_Inr_iff pc_verified_iff [OF assms(1)])
  moreover have "fst (checkpoint_parser lim (pc_plain body)) = Inr ck \<longleftrightarrow>
      (\<exists>nodes. body = checkpoint_body ck nodes \<and>
       length (ckp_nodes ck) \<le> maximum_nodes lim - 2 \<and> length (ckp_nodes ck) < 2 ^ 32 \<and>
       checkpoint_storable lim ck \<and> ck_nodes_bytes (ckp_nodes ck) = Inr nodes)"
    if "length body < 2 ^ 64" for body
    by (subst parse_whole_rest [OF checkpoint_parser_rest _ that]) blast+
  moreover have "length body < 2 ^ 64" if "bs = body @ sha body" for body
    using assms(2) that by simp
  ultimately show ?thesis by blast
qed

lemma ck_node_bytes_length:
  "ck_node_bytes node = Inr bs \<Longrightarrow> ck_node_storable lim node \<Longrightarrow>
     length bs = 4 + encoded_len (ck_path node) + 52"
  by (cases node)
    (auto simp: ck_node_bytes_def ck_node_storable_def rbind_Inr_iff w_u16_def w_u64_def
      dest: w_path_length)

lemma ck_len_loop_bytes:
  assumes "list_all (ck_node_storable lim) nodes" "ck_nodes_bytes nodes = Inr bs"
    "len + length bs < 2 ^ 64"
  shows "ck_len_loop lim len nodes = Inr (len + length bs)"
  using assms
proof (induction nodes arbitrary: len bs)
  case (Cons node nodes)
  then obtain a b where ab: "ck_node_bytes node = Inr a" "ck_nodes_bytes nodes = Inr b" "bs = a @ b"
    by (auto simp: rbind_Inr_iff)
  have st: "ck_node_storable lim node" using Cons.prems by simp
  have la: "length a = 4 + encoded_len (ck_path node) + 52" using ck_node_bytes_length [OF ab(1) st] .
  have "ck_len_loop lim (len + length a) nodes = Inr (len + length a + length b)"
    using Cons.IH [OF _ ab(2)] Cons.prems ab(3) by simp
  moreover have "encoded_len (ck_path node) \<le> maximum_path_bytes lim"
    using st by (simp add: ck_node_storable_def path_storable_len)
  moreover have "\<not> (case node of CkFile _ _ n _ _ \<Rightarrow> maximum_file_bytes lim < n | _ \<Rightarrow> False)"
    using st by (cases node) (auto simp: ck_node_storable_def)
  ultimately show ?case
    using la Cons.prems(3) ab(3)
    by (simp add: path_record_len_def checked_add_def add.assoc add.left_commute)
qed simp

lemma checkpoint_encode_eq:
  "checkpoint_encode sha ck lim =
     (if maximum_nodes lim - 2 < length (ckp_nodes ck) then Inl CodecLimit
      else
        rbind (ck_len_loop lim 40 (ckp_nodes ck)) (\<lambda>encoded_without_digest.
        rbind (ok_or (checked_add 64 encoded_without_digest DIGEST_BYTES) CodecLimit) (\<lambda>total.
        if maximum_checkpoint_bytes lim < total then Inl CodecLimit
        else if \<not> length (ckp_nodes ck) < 2 ^ 32 then Inl CodecLimit
        else
          rbind (ck_nodes_bytes (ckp_nodes ck)) (\<lambda>nodes.
          finish_checked sha (checkpoint_body ck nodes) (maximum_checkpoint_bytes lim)))))"
  by (simp only: checkpoint_encode_def checkpoint_body_def)

lemma checkpoint_encode_iff:
  assumes "sha256_length sha" "checkpoint_storable lim ck" "length bs < 2 ^ 64"
  shows "checkpoint_encode sha ck lim = Inr bs \<longleftrightarrow>
    (\<exists>nodes. bs = checkpoint_body ck nodes @ sha (checkpoint_body ck nodes) \<and>
       length bs \<le> maximum_checkpoint_bytes lim \<and>
       length (ckp_nodes ck) \<le> maximum_nodes lim - 2 \<and> length (ckp_nodes ck) < 2 ^ 32 \<and>
       ck_nodes_bytes (ckp_nodes ck) = Inr nodes)"
proof (cases "ck_nodes_bytes (ckp_nodes ck)")
  case (Inl e)
  then show ?thesis
    by (auto simp: checkpoint_encode_eq rbind_Inr_iff split: if_split_asm)
next
  case (Inr nodes)
  have len: "length (checkpoint_body ck nodes) = 40 + length nodes" "length (sha b) = 32" for b
    using assms length_checkpoint_body by (auto simp: checkpoint_storable_def sha256_length_def)
  have st: "list_all (ck_node_storable lim) (ckp_nodes ck)"
    using assms(2) by (simp add: checkpoint_storable_def)
  show ?thesis
  proof (cases "72 + length nodes < 2 ^ 64")
    case True
    then have "ck_len_loop lim 40 (ckp_nodes ck) = Inr (40 + length nodes)"
      using ck_len_loop_bytes [OF st Inr] by simp
    with Inr True show ?thesis
      by (auto simp: checkpoint_encode_eq rbind_Inr_iff ok_or_iff checked_simps finish_checked_def len
          DIGEST_BYTES_def not_less)
  next
    case False
    with Inr assms(3) show ?thesis
      by (auto simp: checkpoint_encode_eq rbind_Inr_iff ok_or_iff checked_simps finish_checked_def len
          DIGEST_BYTES_def split: if_split_asm)
  qed
qed

text \<open>
  C9. The checkpoint codec is exact: \<open>Checkpoint::decode\<close> returns \<open>ck\<close> on a byte string if and only if
  the string is what \<open>encode\<close> writes for \<open>ck\<close> and \<open>ck\<close> is canonical (nodes strictly ascending, below
  the home directory, each under a directory listed before it, none newer than the checkpoint) and
  within the limits.
\<close>
theorem checkpoint_codec_exact:
  assumes "sha256_length sha" "length bs < 2 ^ 64"
  shows "checkpoint_decode sha bs lim = Inr ck \<longleftrightarrow>
    checkpoint_encode sha ck lim = Inr bs \<and> checkpoint_storable lim ck"
  using checkpoint_decode_iff [OF assms] checkpoint_encode_iff [OF assms(1) _ assms(2)] by blast

theorem checkpoint_codec_exact_witness:
  "\<exists>bs. checkpoint_decode (\<lambda>_. replicate 32 0) bs testing_limits = Inr
     \<lparr>ckp_computer_id = replicate 16 7, ckp_generation = 3,
      ckp_nodes = [CkDirectory [ascii ''home'', ascii ''a''] 1]\<rparr>"
proof -
  let ?r = "\<lparr>ckp_computer_id = replicate 16 7, ckp_generation = 3,
      ckp_nodes = [CkDirectory [ascii ''home'', ascii ''a''] 1]\<rparr> :: checkpoint"
  let ?sha = "\<lambda>_. replicate 32 (0 :: u8)"
  have st: "checkpoint_storable testing_limits ?r"
    by (simp add: checkpoint_storable_def validate_nodes_def home_descendant_def path_parent_def
        ck_node_storable_def path_storable_def path_wf_def component_ok_def testing_limits_def ascii_def
        encoded_len_def display_def)
  obtain bs where bs: "checkpoint_encode ?sha ?r testing_limits = Inr bs" "length bs < 2 ^ 64"
    by (simp add: checkpoint_encode_def ck_node_bytes_def
        path_record_len_def encoded_len_def testing_limits_def ascii_def checked_add_def
        w_path_def w_u16_def w_u32_def w_u64_def finish_checked_def DIGEST_BYTES_def
        CHECKPOINT_MAGIC_def)
  have "sha256_length ?sha" by (simp add: sha256_length_def)
  from checkpoint_codec_exact [OF this bs(2)] bs(1) st show ?thesis by blast
qed

end
