(* ===== verification/Fs_Recovery.thy ===== *)
theory Fs_Recovery
  imports Fs_Checkpoint Ordered_Map
begin

text \<open>
  Crash recovery (\<open>src/src/filesystem/persistence/recovery.rs\<close>): the newest checkpoint not beyond the
  confirmed generation is loaded, then the journal is replayed in sequence order. A broken record
  is fatal while its sequence is confirmed and ends the replay otherwise. \<open>apply\<close> works on a clone of
  the state that is dropped on failure, so its error path carries no state.
\<close>

datatype recovery_error = ConfirmedCorruption | RecoveryLimit

record recovery_checkpoint =
  rc_claimed_generation :: nat
  rc_bytes :: bytes

record recovery_journal_record =
  rj_claimed_sequence :: nat
  rj_bytes :: bytes

record recovery_input =
  ri_computer_id :: computer_id
  ri_confirmed_generation :: nat
  ri_checkpoints :: "recovery_checkpoint list"
  ri_journal_records :: "recovery_journal_record list"

record recovered_state =
  rs_generation :: nat
  rs_nodes :: "(virtual_path, checkpoint_node) btree"

fun checked_sum :: "nat \<Rightarrow> nat \<Rightarrow> nat list \<Rightarrow> nat option" where
  "checked_sum w acc [] = Some acc"
| "checked_sum w acc (n # ns) =
     (case checked_add w acc n of None \<Rightarrow> None | Some t \<Rightarrow> checked_sum w t ns)"

definition bound_work :: "recovery_input \<Rightarrow> filesystem_limits \<Rightarrow> recovery_error + unit" where
  "bound_work input lim =
     rbind (ok_or (checked_add 64 (length (ri_checkpoints input)) (length (ri_journal_records input)))
        RecoveryLimit) (\<lambda>records.
     if maximum_recovery_records lim < records then Inl RecoveryLimit
     else
       rbind (ok_or (checked_sum 64 0
          (map (\<lambda>c. length (rc_bytes c)) (ri_checkpoints input)
           @ map (\<lambda>r. length (rj_bytes r)) (ri_journal_records input))) RecoveryLimit) (\<lambda>work.
       if maximum_recovery_bytes lim < work then Inl RecoveryLimit else Inr ()))"

definition require_parent :: "recovered_state \<Rightarrow> virtual_path \<Rightarrow> unit + unit" where
  "require_parent st path =
     rbind (ok_or (path_parent path) ()) (\<lambda>parent.
       if display parent = ascii ''/home'' then Inr ()
       else
         (case map_of (rs_nodes st) parent of
            Some node \<Rightarrow> if ck_is_directory node then Inr () else Inl ()
          | None \<Rightarrow> Inl ()))"

definition rebase ::
  "virtual_path \<Rightarrow> virtual_path \<Rightarrow> virtual_path \<Rightarrow> filesystem_limits \<Rightarrow> unit + virtual_path" where
  "rebase path source destination lim =
     map_err (\<lambda>_. ())
       (parse_utf8
          (display destination @ concat (map (\<lambda>c. SLASH # c) (drop (length source) path))) lim)"

fun child_count_loop ::
  "filesystem_limits \<Rightarrow> (virtual_path, nat) btree \<Rightarrow> virtual_path list \<Rightarrow> unit + unit" where
  "child_count_loop lim counts [] = Inr ()"
| "child_count_loop lim counts (path # paths) =
     rbind (ok_or (path_parent path) ()) (\<lambda>parent.
       (let count = (case map_of counts parent of None \<Rightarrow> 0 | Some n \<Rightarrow> n) + 1 in
        if maximum_directory_entries lim < count then Inl ()
        else child_count_loop lim (bt_insert parent count counts) paths))"

definition ck_size :: "checkpoint_node \<Rightarrow> nat" where
  "ck_size node = (case node of CkDirectory _ _ \<Rightarrow> 0 | CkFile _ _ n _ _ \<Rightarrow> n)"

definition validate_state :: "recovered_state \<Rightarrow> filesystem_limits \<Rightarrow> unit + unit" where
  "validate_state st lim =
     (if maximum_nodes lim - 2 < length (rs_nodes st) then Inl ()
      else
        rbind (ok_or (checked_sum 64 0 (map (ck_size \<circ> snd) (rs_nodes st))) ()) (\<lambda>logical_bytes.
        if maximum_logical_bytes lim < logical_bytes then Inl ()
        else child_count_loop lim [] (map fst (rs_nodes st))))"

definition has_descendant :: "recovered_state \<Rightarrow> virtual_path \<Rightarrow> bool" where
  "has_descendant st path \<longleftrightarrow> list_ex (\<lambda>(p, _). p \<noteq> path \<and> is_within p path) (rs_nodes st)"

fun insert_moving ::
  "(virtual_path \<times> checkpoint_node) list \<Rightarrow> virtual_path \<Rightarrow> virtual_path \<Rightarrow> nat \<Rightarrow> filesystem_limits
    \<Rightarrow> (virtual_path, checkpoint_node) btree \<Rightarrow> unit + (virtual_path, checkpoint_node) btree"
where
  "insert_moving [] source destination gen lim nodes = Inr nodes"
| "insert_moving ((path, node) # moving) source destination gen lim nodes =
     rbind (rebase path source destination lim) (\<lambda>rebased.
       (let node_generation = (if path = source then gen else ck_generation node) in
        insert_moving moving source destination gen lim
          (bt_insert rebased (ck_with_path node rebased node_generation) nodes)))"

definition recovery_rename ::
  "recovered_state \<Rightarrow> virtual_path \<Rightarrow> virtual_path \<Rightarrow> bool \<Rightarrow> nat \<Rightarrow> filesystem_limits
    \<Rightarrow> unit + recovered_state"
where
  "recovery_rename st source destination replace gen lim =
     (if is_within destination source then Inl ()
      else
        rbind (require_parent st destination) (\<lambda>_.
        rbind (ok_or (map_of (rs_nodes st) source) ()) (\<lambda>source_node.
        rbind
          (case map_of (rs_nodes st) destination of
             None \<Rightarrow> Inr ()
           | Some existing \<Rightarrow>
               if \<not> replace \<or> ck_is_directory existing \<noteq> ck_is_directory source_node then Inl ()
               else if ck_is_directory existing \<and> has_descendant st destination then Inl ()
               else Inr ())
          (\<lambda>_.
        (let moving = takeWhile (\<lambda>(p, _). is_within p source)
                        (filter (\<lambda>(p, _). source \<le> p) (rs_nodes st)) in
         if moving = [] then Inl ()
         else
           (let nodes = bt_remove destination (rs_nodes st);
                nodes = fold (\<lambda>(p, _) m. bt_remove p m) moving nodes in
            rbind (insert_moving moving source destination gen lim nodes) (\<lambda>nodes.
              Inr (st\<lparr>rs_nodes := nodes\<rparr>))))))))"

definition recovery_op ::
  "recovered_state \<Rightarrow> journal_operation \<Rightarrow> nat \<Rightarrow> filesystem_limits \<Rightarrow> unit + recovered_state" where
  "recovery_op st op gen lim =
       (case op of
          JCreateDirectory path node_generation \<Rightarrow>
            if node_generation = gen then
              rbind (require_parent st path) (\<lambda>_.
                if map_of (rs_nodes st) path \<noteq> None then Inl ()
                else Inr (st\<lparr>rs_nodes := bt_insert path (CkDirectory path gen) (rs_nodes st)\<rparr>))
            else Inl ()
        | JPutFile path node_generation logical_size object_id executable \<Rightarrow>
            if node_generation = gen then
              rbind (require_parent st path) (\<lambda>_.
                if (case map_of (rs_nodes st) path of Some n \<Rightarrow> ck_is_directory n | None \<Rightarrow> False)
                then Inl ()
                else Inr (st\<lparr>rs_nodes := bt_insert path
                            (CkFile path gen logical_size object_id executable) (rs_nodes st)\<rparr>))
            else Inl ()
        | JRemove path \<Rightarrow>
            rbind (ok_or (map_of (rs_nodes st) path) ()) (\<lambda>node.
              if ck_is_directory node \<and> has_descendant st path then Inl ()
              else Inr (st\<lparr>rs_nodes := bt_remove path (rs_nodes st)\<rparr>))
        | JRename source destination replace \<Rightarrow>
            recovery_rename st source destination replace gen lim)"

definition recovery_apply ::
  "recovered_state \<Rightarrow> journal_operation \<Rightarrow> nat \<Rightarrow> filesystem_limits \<Rightarrow> unit + recovered_state" where
  "recovery_apply st op gen lim =
     rbind (recovery_op st op gen lim) (\<lambda>st'. rbind (validate_state st' lim) (\<lambda>_. Inr st'))"

fun adjacent_duplicate :: "nat list \<Rightarrow> nat option" where
  "adjacent_duplicate (a # b # xs) = (if a = b then Some a else adjacent_duplicate (b # xs))"
| "adjacent_duplicate _ = None"

fun recover_loop ::
  "sha256 \<Rightarrow> filesystem_limits \<Rightarrow> computer_id \<Rightarrow> nat \<Rightarrow> recovered_state
    \<Rightarrow> recovery_journal_record list \<Rightarrow> recovery_error + recovered_state"
where
  "recover_loop sha lim cid confirmed st [] = Inr st"
| "recover_loop sha lim cid confirmed st (stored # records) =
     (if rj_claimed_sequence stored \<le> rs_generation st
      then recover_loop sha lim cid confirmed st records
      else
        (case checked_add 64 (rs_generation st) 1 of
           None \<Rightarrow> Inl ConfirmedCorruption
         | Some expected \<Rightarrow>
             if rj_claimed_sequence stored \<noteq> expected then
               (if expected \<le> confirmed then Inl ConfirmedCorruption else Inr st)
             else
               (let decoded = record_decode sha (rj_bytes stored) lim;
                    accepted = (case decoded of
                        Inl _ \<Rightarrow> None
                      | Inr r \<Rightarrow>
                          if jr_computer_id r = cid \<and> jr_sequence r = rj_claimed_sequence stored
                             \<and> jr_previous_sequence r = rs_generation st
                          then Some r else None) in
                case accepted of
                  None \<Rightarrow>
                    (if rj_claimed_sequence stored \<le> confirmed then Inl ConfirmedCorruption else Inr st)
                | Some r \<Rightarrow>
                    (case recovery_apply st (jr_operation r) (jr_sequence r) lim of
                       Inl _ \<Rightarrow>
                         (if rj_claimed_sequence stored \<le> confirmed then Inl ConfirmedCorruption
                          else Inr st)
                     | Inr nxt \<Rightarrow>
                         recover_loop sha lim cid confirmed
                           (nxt\<lparr>rs_generation := jr_sequence r\<rparr>) records))))"

definition recovery_base ::
  "sha256 \<Rightarrow> recovery_input \<Rightarrow> filesystem_limits \<Rightarrow> recovery_error + recovered_state" where
  "recovery_base sha input lim =
     (let checkpoints = sort_key rc_claimed_generation
            (filter (\<lambda>c. rc_claimed_generation c \<le> ri_confirmed_generation input)
               (ri_checkpoints input)) in
      if adjacent_duplicate (map rc_claimed_generation checkpoints) \<noteq> None
      then Inl ConfirmedCorruption
      else if checkpoints = [] then Inr \<lparr>rs_generation = 0, rs_nodes = []\<rparr>
      else
        (let candidate = last checkpoints in
         rbind (map_err (\<lambda>_. ConfirmedCorruption) (checkpoint_decode sha (rc_bytes candidate) lim))
           (\<lambda>ck.
           if ckp_computer_id ck \<noteq> ri_computer_id input
              \<or> ckp_generation ck \<noteq> rc_claimed_generation candidate
           then Inl ConfirmedCorruption
           else Inr \<lparr>rs_generation = ckp_generation ck,
                     rs_nodes = bt_collect (map (\<lambda>n. (ck_path n, n)) (ckp_nodes ck))\<rparr>)))"

definition recovery_records ::
  "recovery_input \<Rightarrow> recovery_error + recovery_journal_record list" where
  "recovery_records input =
     (let records = sort_key rj_claimed_sequence (ri_journal_records input) in
      case adjacent_duplicate (map rj_claimed_sequence records) of
        None \<Rightarrow> Inr records
      | Some duplicate \<Rightarrow>
          if duplicate \<le> ri_confirmed_generation input then Inl ConfirmedCorruption
          else Inr (filter (\<lambda>r. rj_claimed_sequence r < duplicate) records))"

definition recover ::
  "sha256 \<Rightarrow> recovery_input \<Rightarrow> filesystem_limits \<Rightarrow> recovery_error + recovered_state" where
  "recover sha input lim =
     rbind (bound_work input lim) (\<lambda>_.
     rbind (recovery_base sha input lim) (\<lambda>st.
     rbind (map_err (\<lambda>_. ConfirmedCorruption) (validate_state st lim)) (\<lambda>_.
     rbind (recovery_records input) (\<lambda>records.
     rbind (recover_loop sha lim (ri_computer_id input) (ri_confirmed_generation input) st records)
       (\<lambda>st.
     if rs_generation st < ri_confirmed_generation input then Inl ConfirmedCorruption
     else Inr st)))))"

end
