(* ===== verification/Fs_Tree.thy ===== *)
theory Fs_Tree
  imports Fs_Handles Fs_Worker Fs_Recovery
begin

text \<open>
  The live filesystem of one computer (\<open>src/src/filesystem/tree.rs\<close>): the read-only \<open>/rom\<close> tree, the
  writable \<open>/home\<close> tree, reference-counted content objects, the handle table, the quota ledger and
  the generation counter. A directory is an ordered map, so the tree is a nested datatype.

  A method that borrows \<open>&mut self\<close> is a state transformer; \<open>find_directory_mut\<close> and
  \<open>find_node_mut\<close>, which return a mutable borrow, take the update that the caller performs through
  it. Dropping an unpublished \<open>PersistenceMutation\<close> on an early return releases its reservation
  (\<open>drop_on_error\<close>). An \<open>expect\<close> that fails is the error \<open>Panicked\<close>. SHA-256 is the parameter \<open>sha\<close>.
\<close>

unbundle bit_operations_syntax

datatype node_kind = KindFile | KindDirectory

record node_metadata =
  nm_kind :: node_kind
  nm_logical_size :: nat
  nm_generation :: nat
  nm_executable :: bool

datatype executable_revision = RevAbsent | RevPresent nat

fun revision_generation :: "executable_revision \<Rightarrow> nat option" where
  "revision_generation RevAbsent = None"
| "revision_generation (RevPresent g) = Some g"

datatype node = Node (node_meta: node_metadata) (node_contents: contents)
  and contents = CFile object_id | CDir "(component \<times> node) list"

type_synonym directory = "(component, node) btree"

definition node_directory :: "nat \<Rightarrow> node" where
  "node_directory gen = Node \<lparr>nm_kind = KindDirectory, nm_logical_size = 0, nm_generation = gen,
     nm_executable = False\<rparr> (CDir [])"

definition node_file :: "object_id \<Rightarrow> nat \<Rightarrow> nat \<Rightarrow> bool \<Rightarrow> node" where
  "node_file object logical_size gen executable = Node \<lparr>nm_kind = KindFile,
     nm_logical_size = logical_size, nm_generation = gen, nm_executable = executable\<rparr> (CFile object)"

definition node_object_id :: "node \<Rightarrow> object_id option" where
  "node_object_id n = (case node_contents n of CFile object \<Rightarrow> Some object | CDir _ \<Rightarrow> None)"

subsection \<open>Object store\<close>

record stored_object =
  so_bytes :: bytes
  so_references :: nat

type_synonym object_store = "(object_id, stored_object) btree"

definition objects_bytes :: "object_store \<Rightarrow> object_id \<Rightarrow> filesystem_error + bytes" where
  "objects_bytes st object = ok_or (map_option so_bytes (map_of st object)) Panicked"

definition objects_remove :: "object_id \<Rightarrow> object_store \<Rightarrow> filesystem_error + object_store" where
  "objects_remove object st =
     rbind (ok_or (map_of st object) Panicked) (\<lambda>stored.
       (let references = wrapping_sub 32 (so_references stored) 1 in
        if references = 0 then Inr (bt_remove object st)
        else Inr (bt_insert object (stored\<lparr>so_references := references\<rparr>) st)))"

definition objects_replace ::
  "object_id option \<Rightarrow> object_id \<Rightarrow> bytes \<Rightarrow> object_store \<Rightarrow> filesystem_error + object_store" where
  "objects_replace previous nxt bs st =
     (if previous = Some nxt then Inr st
      else
        (let stored = (case map_of st nxt of
               Some stored \<Rightarrow> stored | None \<Rightarrow> \<lparr>so_bytes = bs, so_references = 0\<rparr>) in
         rbind (ok_or (checked_add 32 (so_references stored) 1) Panicked) (\<lambda>references.
           (let st' = bt_insert nxt (stored\<lparr>so_references := references\<rparr>) st in
            case previous of None \<Rightarrow> Inr st' | Some p \<Rightarrow> objects_remove p st'))))"

subsection \<open>Walking the tree\<close>

fun find_node :: "directory \<Rightarrow> component list \<Rightarrow> filesystem_error + node" where
  "find_node d [] = Inl NotFound"
| "find_node d (first # rest) =
     rbind (ok_or (map_of d first) NotFound) (\<lambda>node.
       if rest = [] then Inr node
       else (case node_contents node of
               CDir children \<Rightarrow> find_node children rest
             | CFile _ \<Rightarrow> Inl NotDirectory))"

fun find_node_mut ::
  "directory \<Rightarrow> component list \<Rightarrow> (node \<Rightarrow> node) \<Rightarrow> filesystem_error + directory" where
  "find_node_mut d [] f = Inl NotFound"
| "find_node_mut d (first # rest) f =
     rbind (ok_or (map_of d first) NotFound) (\<lambda>node.
       if rest = [] then Inr (bt_insert first (f node) d)
       else (case node_contents node of
               CDir children \<Rightarrow>
                 rbind (find_node_mut children rest f) (\<lambda>children'.
                   Inr (bt_insert first (Node (node_meta node) (CDir children')) d))
             | CFile _ \<Rightarrow> Inl NotDirectory))"

fun find_directory :: "directory \<Rightarrow> component list \<Rightarrow> filesystem_error + directory" where
  "find_directory d [] = Inr d"
| "find_directory d (c # cs) =
     rbind (ok_or (map_of d c) NotFound) (\<lambda>node.
       case node_contents node of
         CDir children \<Rightarrow> find_directory children cs
       | CFile _ \<Rightarrow> Inl NotDirectory)"

fun find_directory_mut ::
  "directory \<Rightarrow> component list \<Rightarrow> (directory \<Rightarrow> directory) \<Rightarrow> filesystem_error + directory" where
  "find_directory_mut d [] f = Inr (f d)"
| "find_directory_mut d (c # cs) f =
     rbind (ok_or (map_of d c) NotFound) (\<lambda>node.
       case node_contents node of
         CDir children \<Rightarrow>
           rbind (find_directory_mut children cs f) (\<lambda>children'.
             Inr (bt_insert c (Node (node_meta node) (CDir children')) d))
       | CFile _ \<Rightarrow> Inl NotDirectory)"

datatype mount = Rom | Home

definition split_mount :: "virtual_path \<Rightarrow> filesystem_error + (mount \<times> component list)" where
  "split_mount path =
     (case path of
        [] \<Rightarrow> Inl PermissionDenied
      | first # rest \<Rightarrow>
          if first = ascii ''rom'' then Inr (Rom, rest)
          else if first = ascii ''home'' then Inr (Home, rest)
          else Inl NotFound)"

definition split_name :: "component list \<Rightarrow> filesystem_error + (component \<times> component list)" where
  "split_name cs = (if cs = [] then Inl PermissionDenied else Inr (last cs, butlast cs))"

definition require :: "file_capability \<Rightarrow> virtual_path \<Rightarrow> file_rights \<Rightarrow> filesystem_error + unit" where
  "require capability path rights = rguard (permits capability path rights) PermissionDenied"

definition writable_path :: "virtual_path \<Rightarrow> filesystem_error + (mount \<times> component list)" where
  "writable_path path =
     rbind (split_mount path) (\<lambda>(mount, components).
       if mount = Rom then Inl ReadOnly else Inr (mount, components))"

definition mutable_target ::
  "file_capability \<Rightarrow> virtual_path \<Rightarrow> file_rights \<Rightarrow> filesystem_error + (mount \<times> component list)" where
  "mutable_target capability path rights =
     rbind (writable_path path) (\<lambda>(mount, components).
     rbind (require capability path rights) (\<lambda>_. Inr (mount, components)))"

subsection \<open>The filesystem of a computer\<close>

record computer_fs =
  cfs_rom :: directory
  cfs_home :: directory
  cfs_handles :: handle_table
  cfs_objects :: object_store
  cfs_quota :: quota_ledger
  cfs_limits :: filesystem_limits
  cfs_generation :: nat
  cfs_persistence :: "computer_persistence option"

type_synonym 'a fs_op = "(computer_fs, filesystem_error, 'a) smonad"

definition with_limits :: "filesystem_limits \<Rightarrow> computer_fs" where
  "with_limits lim = \<lparr>cfs_rom = [], cfs_home = [],
     cfs_handles = handle_table_new (maximum_open_handles lim),
     cfs_objects = [], cfs_quota = quota_new lim 2, cfs_limits = lim, cfs_generation = 0,
     cfs_persistence = None\<rparr>"

fun cfs_directory :: "mount \<Rightarrow> computer_fs \<Rightarrow> directory" where
  "cfs_directory Rom s = cfs_rom s"
| "cfs_directory Home s = cfs_home s"

fun set_directory :: "mount \<Rightarrow> directory \<Rightarrow> computer_fs \<Rightarrow> computer_fs" where
  "set_directory Rom d s = s\<lparr>cfs_rom := d\<rparr>"
| "set_directory Home d s = s\<lparr>cfs_home := d\<rparr>"

definition modify_directory ::
  "mount \<Rightarrow> component list \<Rightarrow> (directory \<Rightarrow> directory) \<Rightarrow> unit fs_op" where
  "modify_directory m cs f s =
     (case find_directory_mut (cfs_directory m s) cs f of
        Inl e \<Rightarrow> (Inl e, s)
      | Inr d \<Rightarrow> (Inr (), set_directory m d s))"

definition modify_node :: "mount \<Rightarrow> component list \<Rightarrow> (node \<Rightarrow> node) \<Rightarrow> unit fs_op" where
  "modify_node m cs f s =
     (case find_node_mut (cfs_directory m s) cs f of
        Inl e \<Rightarrow> (Inl e, s)
      | Inr d \<Rightarrow> (Inr (), set_directory m d s))"

definition modify_objects :: "(object_store \<Rightarrow> filesystem_error + object_store) \<Rightarrow> unit fs_op" where
  "modify_objects f s =
     (case f (cfs_objects s) of Inl e \<Rightarrow> (Inl e, s) | Inr st \<Rightarrow> (Inr (), s\<lparr>cfs_objects := st\<rparr>))"

definition modify_quota :: "(quota_ledger \<Rightarrow> quota_ledger) \<Rightarrow> unit fs_op" where
  "modify_quota f = smodify (\<lambda>s. s\<lparr>cfs_quota := f (cfs_quota s)\<rparr>)"

definition set_generation :: "nat \<Rightarrow> unit fs_op" where
  "set_generation g = smodify (\<lambda>s. s\<lparr>cfs_generation := g\<rparr>)"

definition next_generation :: "computer_fs \<Rightarrow> filesystem_error + nat" where
  "next_generation s = ok_or (checked_add 64 (cfs_generation s) 1) StorageFaulted"

definition check_file_size :: "nat \<Rightarrow> computer_fs \<Rightarrow> filesystem_error + unit" where
  "check_file_size n s = rguard (n \<le> maximum_file_bytes (cfs_limits s)) QuotaExceeded"

definition check_directory_entry_limit :: "nat \<Rightarrow> computer_fs \<Rightarrow> filesystem_error + unit" where
  "check_directory_entry_limit current s =
     rguard (current < maximum_directory_entries (cfs_limits s)) QuotaExceeded"

definition prepare_persistence ::
  "sha256 \<Rightarrow> nat \<Rightarrow> (object_id \<times> bytes) option \<Rightarrow> journal_operation
    \<Rightarrow> persistence_mutation option fs_op" where
  "prepare_persistence sha gen object op s =
     (case cfs_persistence s of
        None \<Rightarrow> (Inr None, s)
      | Some p \<Rightarrow>
          (case persistence_prepare sha gen object op p of
             (Inl e, p') \<Rightarrow> (Inl e, s\<lparr>cfs_persistence := Some p'\<rparr>)
           | (Inr m, p') \<Rightarrow> (Inr (Some m), s\<lparr>cfs_persistence := Some p'\<rparr>)))"

definition publish :: "persistence_mutation option \<Rightarrow> unit fs_op" where
  "publish m = smodify (\<lambda>s.
     case m of None \<Rightarrow> s
     | Some m \<Rightarrow> s\<lparr>cfs_persistence := map_option (mutation_publish m) (cfs_persistence s)\<rparr>)"

definition drop_on_error :: "persistence_mutation option \<Rightarrow> 'a fs_op \<Rightarrow> 'a fs_op" where
  "drop_on_error m f s =
     (case f s of
        (Inr x, t) \<Rightarrow> (Inr x, t)
      | (Inl e, t) \<Rightarrow>
          (Inl e, case m of None \<Rightarrow> t
                  | Some m \<Rightarrow> t\<lparr>cfs_persistence := map_option (mutation_drop m) (cfs_persistence t)\<rparr>))"

definition object_id_of :: "sha256 \<Rightarrow> bytes \<Rightarrow> object_id" where
  "object_id_of sha bs = sha bs"

subsection \<open>Queries\<close>

definition fs_stat ::
  "file_capability \<Rightarrow> virtual_path \<Rightarrow> computer_fs \<Rightarrow> filesystem_error + node_metadata" where
  "fs_stat capability path s =
     rbind (require capability path INSPECT) (\<lambda>_.
     if path = [] then Inr (node_meta (node_directory 0))
     else
       rbind (split_mount path) (\<lambda>(mount, components).
       if components = [] then Inr (node_meta (node_directory 0))
       else rbind (find_node (cfs_directory mount s) components) (\<lambda>n. Inr (node_meta n))))"

definition fs_list ::
  "file_capability \<Rightarrow> virtual_path \<Rightarrow> computer_fs \<Rightarrow> filesystem_error + component list" where
  "fs_list capability path s =
     rbind (require capability path LIST) (\<lambda>_.
     if path = [] then Inr [ascii ''home'', ascii ''rom'']
     else
       rbind (split_mount path) (\<lambda>(mount, components).
       rbind
         (if components = [] then Inr (cfs_directory mount s)
          else
            rbind (find_node (cfs_directory mount s) components) (\<lambda>n.
              case node_contents n of
                CDir d \<Rightarrow> Inr d
              | CFile _ \<Rightarrow> Inl NotDirectory))
         (\<lambda>d. Inr (map fst d))))"

definition read_snapshot ::
  "file_capability \<Rightarrow> virtual_path \<Rightarrow> computer_fs \<Rightarrow> filesystem_error + bytes" where
  "read_snapshot capability path s =
     rbind (require capability path READ) (\<lambda>_.
     if path = [] then Inl IsDirectory
     else
       rbind (split_mount path) (\<lambda>(mount, components).
       if components = [] then Inl IsDirectory
       else
         rbind (find_node (cfs_directory mount s) components) (\<lambda>n.
         rbind (ok_or (node_object_id n) IsDirectory) (\<lambda>object.
         objects_bytes (cfs_objects s) object))))"

definition file_bytes :: "virtual_path \<Rightarrow> computer_fs \<Rightarrow> filesystem_error + bytes" where
  "file_bytes path s =
     rbind (split_mount path) (\<lambda>(mount, components).
     rbind (find_node (cfs_directory mount s) components) (\<lambda>n.
       case node_contents n of
         CFile object \<Rightarrow> objects_bytes (cfs_objects s) object
       | CDir _ \<Rightarrow> Inl IsDirectory))"

definition fs_read :: "file_handle \<Rightarrow> nat \<Rightarrow> nat \<Rightarrow> computer_fs \<Rightarrow> filesystem_error + bytes" where
  "fs_read handle offset maximum_bytes s =
     rbind (handle_get (cfs_handles s) handle) (\<lambda>opened.
     if \<not> readable (of_mode opened) then Inl PermissionDenied
     else
       rbind (file_bytes (of_path opened) s) (\<lambda>bytes.
         (let start = min offset (length bytes);
              accepted = min maximum_bytes (maximum_io_bytes (cfs_limits s));
              stop = min (saturating_add start accepted) (length bytes) in
          Inr (take (stop - start) (drop start bytes)))))"

subsection \<open>Mutations\<close>

definition create_directory :: "sha256 \<Rightarrow> file_capability \<Rightarrow> virtual_path \<Rightarrow> unit fs_op" where
  "create_directory sha capability path =
     sbind (sread (\<lambda>_. mutable_target capability path CREATE)) (\<lambda>(mount, components).
     sbind (sread (\<lambda>_. split_name components)) (\<lambda>(name, parent_components).
     sbind (sread (\<lambda>s. find_directory (cfs_directory mount s) parent_components)) (\<lambda>parent.
     if map_of parent name \<noteq> None then sfail AlreadyExists
     else
       sbind (sread (check_directory_entry_limit (length parent))) (\<lambda>_.
       sbind (sread (\<lambda>s. quota_reserve (cfs_quota s) (default_cost\<lparr>nodes_added := 1\<rparr>))) (\<lambda>reservation.
       sbind (sread next_generation) (\<lambda>generation.
       sbind (prepare_persistence sha generation None (JCreateDirectory path generation)) (\<lambda>persistence.
       sseq (drop_on_error persistence
         (sseq (modify_directory mount parent_components (bt_insert name (node_directory generation)))
         (sseq (modify_quota (quota_commit reservation))
         (set_generation generation))))
       (publish persistence))))))))"

definition write_file ::
  "sha256 \<Rightarrow> file_capability \<Rightarrow> virtual_path \<Rightarrow> bytes \<Rightarrow> bool \<Rightarrow> unit fs_op" where
  "write_file sha capability path bs executable =
     sbind (sread (\<lambda>_. writable_path path)) (\<lambda>(mount, components).
     sbind (sread (\<lambda>_. split_name components)) (\<lambda>(name, parent_components).
     sbind (sread (\<lambda>s. find_directory (cfs_directory mount s) parent_components)) (\<lambda>parent.
     (let previous = map_of parent name in
     sbind
       (if previous \<noteq> None then sread (\<lambda>_. require capability path WRITE)
        else
          sseq (sread (\<lambda>_. require capability path (CREATE OR WRITE)))
               (sread (check_directory_entry_limit (length parent)))) (\<lambda>_.
     if (case previous of Some n \<Rightarrow> (case node_contents n of CDir _ \<Rightarrow> True | CFile _ \<Rightarrow> False)
                        | None \<Rightarrow> False)
     then sfail IsDirectory
     else
       (let len = length bs;
            previous_size = (case previous of None \<Rightarrow> 0 | Some n \<Rightarrow> nm_logical_size (node_meta n)) in
       sbind (sread (check_file_size len)) (\<lambda>_.
       sbind (sread (\<lambda>s. quota_reserve (cfs_quota s)
         (default_cost\<lparr>logical_bytes_added := len - previous_size,
            nodes_added := (if previous = None then 1 else 0)\<rparr>))) (\<lambda>reservation.
       sbind (sread next_generation) (\<lambda>generation.
       (let object = object_id_of sha bs in
       sbind (prepare_persistence sha generation (Some (object, bs))
         (JPutFile path generation len object executable)) (\<lambda>persistence.
       sseq (drop_on_error persistence
         (sseq (modify_directory mount parent_components
                  (bt_insert name (node_file object len generation executable)))
         (sseq (modify_objects (objects_replace (Option.bind previous node_object_id) object bs))
         (sseq (modify_quota (quota_commit reservation))
         (sseq (modify_quota (quota_release (previous_size - len) 0))
         (set_generation generation))))))
       (publish persistence))))))))))))"

definition replacement_revision ::
  "file_capability \<Rightarrow> virtual_path \<Rightarrow> computer_fs \<Rightarrow> filesystem_error + executable_revision" where
  "replacement_revision capability path s =
     rbind (writable_path path) (\<lambda>(mount, components).
     rbind (split_name components) (\<lambda>(name, parent_components).
     rbind (find_directory (cfs_directory mount s) parent_components) (\<lambda>parent.
       case map_of parent name of
         Some n \<Rightarrow>
           rbind (require capability path WRITE) (\<lambda>_.
             if nm_kind (node_meta n) \<noteq> KindFile then Inl IsDirectory
             else Inr (RevPresent (nm_generation (node_meta n))))
       | None \<Rightarrow>
           rbind (require capability path (CREATE OR WRITE)) (\<lambda>_.
           rbind (check_directory_entry_limit (length parent) s) (\<lambda>_.
             Inr RevAbsent)))))"

definition replace_file_if_revision ::
  "sha256 \<Rightarrow> file_capability \<Rightarrow> virtual_path \<Rightarrow> bytes \<Rightarrow> executable_revision \<Rightarrow> bool \<Rightarrow> unit fs_op" where
  "replace_file_if_revision sha capability path bs expected executable =
     sbind (sread (replacement_revision capability path)) (\<lambda>actual.
     if actual \<noteq> expected then sfail Busy else write_file sha capability path bs executable)"

definition install_executable ::
  "sha256 \<Rightarrow> file_capability \<Rightarrow> virtual_path \<Rightarrow> bytes \<Rightarrow> executable_revision \<Rightarrow> unit fs_op" where
  "install_executable sha capability path bs expected =
     replace_file_if_revision sha capability path bs expected True"

definition install_executable_from_rom ::
  "sha256 \<Rightarrow> file_capability \<Rightarrow> virtual_path \<Rightarrow> virtual_path \<Rightarrow> unit fs_op" where
  "install_executable_from_rom sha capability source destination =
     sbind (sread (\<lambda>_. split_mount source)) (\<lambda>(source_mount, source_components).
     if source_mount \<noteq> Rom then sfail PermissionDenied
     else
       sbind (sread (\<lambda>s. find_node (cfs_directory source_mount s) source_components)) (\<lambda>source_node.
       if nm_kind (node_meta source_node) \<noteq> KindFile \<or> \<not> nm_executable (node_meta source_node)
       then sfail NotExecutable
       else
         sbind (sread (\<lambda>s. case node_contents source_node of
                    CFile object \<Rightarrow> objects_bytes (cfs_objects s) object
                  | CDir _ \<Rightarrow> Inl NotExecutable)) (\<lambda>source_bytes.
         sbind (sread (\<lambda>_. writable_path destination)) (\<lambda>(destination_mount, destination_components).
         sbind (sread (\<lambda>_. split_name destination_components)) (\<lambda>(name, parent_components).
         sbind (sread (\<lambda>s. find_directory (cfs_directory destination_mount s) parent_components))
           (\<lambda>parent.
         if map_of parent name \<noteq> None then sfail AlreadyExists
         else write_file sha capability destination source_bytes True))))))"

definition fs_open :: "file_capability \<Rightarrow> virtual_path \<Rightarrow> open_mode \<Rightarrow> file_handle fs_op" where
  "fs_open capability path mode =
     (let rights = INSPECT;
          rights = (if readable mode then rights OR READ else rights);
          rights = (if writable mode then rights OR WRITE else rights) in
     sbind (sread (\<lambda>_. require capability path rights)) (\<lambda>_.
     sbind (sread (\<lambda>_. split_mount path)) (\<lambda>(mount, components).
     sbind (sread (\<lambda>s. rbind (find_node (cfs_directory mount s) components) (\<lambda>n.
        case node_contents n of CFile _ \<Rightarrow> Inr () | CDir _ \<Rightarrow> Inl IsDirectory))) (\<lambda>_.
     (\<lambda>s. if cap_handle_limit capability \<le> handle_open_count (cfs_handles s)
          then (Inl QuotaExceeded, s)
          else
            (case handle_open \<lparr>of_path = path, of_mode = mode\<rparr> (cfs_handles s) of
               (r, h) \<Rightarrow> (r, s\<lparr>cfs_handles := h\<rparr>)))))))"

definition fs_close :: "file_handle \<Rightarrow> unit fs_op" where
  "fs_close handle s =
     (case handle_close handle (cfs_handles s) of (r, h) \<Rightarrow> (r, s\<lparr>cfs_handles := h\<rparr>))"

definition replace_existing :: "sha256 \<Rightarrow> virtual_path \<Rightarrow> bytes \<Rightarrow> unit fs_op" where
  "replace_existing sha path bs =
     sbind (sread (\<lambda>_. writable_path path)) (\<lambda>(mount, components).
     sbind (sread (\<lambda>s. find_node (cfs_directory mount s) components)) (\<lambda>previous.
     sbind (sread (\<lambda>_. ok_or (node_object_id previous) IsDirectory)) (\<lambda>previous_object.
     (let len = length bs; previous_size = nm_logical_size (node_meta previous);
          executable = nm_executable (node_meta previous) in
     sbind (sread (check_file_size len)) (\<lambda>_.
     sbind (sread (\<lambda>s. quota_reserve (cfs_quota s)
       (default_cost\<lparr>logical_bytes_added := len - previous_size\<rparr>))) (\<lambda>reservation.
     sbind (sread next_generation) (\<lambda>generation.
     (let object = object_id_of sha bs in
     sbind (prepare_persistence sha generation (Some (object, bs))
       (JPutFile path generation len object executable)) (\<lambda>persistence.
     sseq (drop_on_error persistence
       (sseq (modify_node mount components (\<lambda>_. node_file object len generation executable))
       (sseq (modify_objects (objects_replace (Some previous_object) object bs))
       (sseq (modify_quota (quota_commit reservation))
       (sseq (modify_quota (quota_release (previous_size - len) 0))
       (set_generation generation))))))
     (publish persistence))))))))))"

definition resize :: "bytes \<Rightarrow> nat \<Rightarrow> bytes" where
  "resize bs n = take n bs @ replicate (n - length bs) 0"

definition fs_write :: "sha256 \<Rightarrow> file_handle \<Rightarrow> nat \<Rightarrow> bytes \<Rightarrow> nat fs_op" where
  "fs_write sha handle offset bs =
     sbind (sread (\<lambda>s. handle_get (cfs_handles s) handle)) (\<lambda>opened.
     if \<not> writable (of_mode opened) then sfail PermissionDenied
     else
       sbind (sread (\<lambda>s. Inr (min (length bs) (maximum_io_bytes (cfs_limits s))))) (\<lambda>accepted.
       if accepted = 0 then sret 0
       else
         sbind (sread (\<lambda>_. ok_or (checked_add 64 offset accepted) QuotaExceeded)) (\<lambda>stop.
         sbind (sread (check_file_size stop)) (\<lambda>_.
         sbind (sread (file_bytes (of_path opened))) (\<lambda>current.
           (let replacement = resize current (max (length current) stop);
                replacement = take offset replacement @ take accepted bs @ drop stop replacement in
            sseq (replace_existing sha (of_path opened) replacement) (sret accepted)))))))"

definition fs_truncate :: "sha256 \<Rightarrow> file_handle \<Rightarrow> nat \<Rightarrow> unit fs_op" where
  "fs_truncate sha handle len =
     sbind (sread (\<lambda>s. handle_get (cfs_handles s) handle)) (\<lambda>opened.
     if \<not> writable (of_mode opened) then sfail PermissionDenied
     else
       sbind (sread (check_file_size len)) (\<lambda>_.
       sbind (sread (file_bytes (of_path opened))) (\<lambda>current.
       if length current = len then sret ()
       else replace_existing sha (of_path opened) (resize current len))))"

definition fs_remove :: "sha256 \<Rightarrow> file_capability \<Rightarrow> virtual_path \<Rightarrow> unit fs_op" where
  "fs_remove sha capability path =
     sbind (sread (\<lambda>_. mutable_target capability path DELETE)) (\<lambda>(mount, components).
     sbind (sread (\<lambda>_. split_name components)) (\<lambda>(name, parent_components).
     sbind (sread (\<lambda>s. rbind (find_directory (cfs_directory mount s) parent_components)
        (\<lambda>d. ok_or (map_of d name) NotFound))) (\<lambda>n.
     if (case node_contents n of CDir children \<Rightarrow> children \<noteq> [] | CFile _ \<Rightarrow> False)
     then sfail NotEmpty
     else
       sbind (sread next_generation) (\<lambda>generation.
       sbind (prepare_persistence sha generation None (JRemove path)) (\<lambda>persistence.
       sseq (drop_on_error persistence
         (sseq (modify_directory mount parent_components (bt_remove name))
         (sseq (case node_object_id n of None \<Rightarrow> sret ()
                | Some object \<Rightarrow> modify_objects (objects_remove object))
         (sseq (modify_quota (quota_release (nm_logical_size (node_meta n)) 1))
         (set_generation generation)))))
       (publish persistence))))))"

definition fs_rename ::
  "sha256 \<Rightarrow> file_capability \<Rightarrow> virtual_path \<Rightarrow> virtual_path \<Rightarrow> bool \<Rightarrow> unit fs_op" where
  "fs_rename sha capability source destination replace =
     sbind (sread (\<lambda>_. mutable_target capability source RENAME)) (\<lambda>(source_mount, source_components).
     sbind (sread (\<lambda>_. mutable_target capability destination RENAME))
       (\<lambda>(destination_mount, destination_components).
     if source_mount \<noteq> destination_mount then sfail PermissionDenied
     else if source = destination then sret ()
     else if is_within destination source then sfail InvalidPath
     else
       sbind (sread (\<lambda>_. split_name source_components)) (\<lambda>(source_name, source_parent).
       sbind (sread (\<lambda>_. split_name destination_components)) (\<lambda>(destination_name, destination_parent).
       sbind (sread (\<lambda>s. rbind (find_directory (cfs_directory source_mount s) source_parent)
          (\<lambda>d. ok_or (map_of d source_name) NotFound))) (\<lambda>source_node.
       sbind (sread (\<lambda>s. find_directory (cfs_directory source_mount s) destination_parent)) (\<lambda>parent.
       (let existing = map_of parent destination_name in
       sbind
         (case existing of
            Some n \<Rightarrow>
              if \<not> replace then sfail AlreadyExists
              else if (case node_contents n of CDir children \<Rightarrow> children \<noteq> [] | CFile _ \<Rightarrow> False)
              then sfail NotEmpty
              else if nm_kind (node_meta n) \<noteq> nm_kind (node_meta source_node)
              then sfail (case nm_kind (node_meta n) of
                            KindDirectory \<Rightarrow> IsDirectory | KindFile \<Rightarrow> NotDirectory)
              else sret ()
          | None \<Rightarrow> sread (check_directory_entry_limit (length parent))) (\<lambda>_.
       sbind (sread next_generation) (\<lambda>generation.
       sbind (prepare_persistence sha generation None (JRename source destination replace))
         (\<lambda>persistence.
       sseq (drop_on_error persistence
         (sbind (sread (\<lambda>s. rbind (find_directory (cfs_directory source_mount s) source_parent)
            (\<lambda>d. ok_or (map_of d source_name) Panicked))) (\<lambda>n.
          sseq (modify_directory source_mount source_parent (bt_remove source_name))
          (sseq (\<lambda>s. case modify_directory destination_mount destination_parent
                   (bt_insert destination_name
                      (Node ((node_meta n)\<lparr>nm_generation := generation\<rparr>) (node_contents n))
                    \<circ> bt_remove destination_name) s of
                   (Inl _, t) \<Rightarrow> (Inl Panicked, t) | r \<Rightarrow> r)
          (sseq
            (case existing of
               None \<Rightarrow> sret ()
             | Some e \<Rightarrow>
                 sseq (case node_object_id e of None \<Rightarrow> sret ()
                       | Some object \<Rightarrow> modify_objects (objects_remove object))
                      (modify_quota (quota_release (nm_logical_size (node_meta e)) 1)))
          (set_generation generation))))))
       (publish persistence)))))))))))"

subsection \<open>Reading an executable in chunks\<close>

function read_chunks ::
  "computer_fs \<Rightarrow> file_handle \<Rightarrow> nat \<Rightarrow> nat \<Rightarrow> bytes \<Rightarrow> filesystem_error + bytes" where
  "read_chunks s handle len offset acc =
     (if offset < len then
        rbind (fs_read handle offset (len - offset) s) (\<lambda>chunk.
          if chunk = [] then Inl StorageFaulted
          else
            rbind (ok_or (checked_add 64 offset (length chunk)) StorageFaulted) (\<lambda>offset'.
              read_chunks s handle len offset' (acc @ chunk)))
      else Inr acc)"
  by pat_completeness auto

termination
  by (relation "measure (\<lambda>(s, h, len, offset, acc). len - offset)")
    (auto simp: ok_or_iff checked_add_iff length_greater_0_conv diff_less_mono2)

declare read_chunks.simps [simp del]

definition read_executable :: "file_capability \<Rightarrow> virtual_path \<Rightarrow> bytes fs_op" where
  "read_executable capability path =
     sbind (sread (\<lambda>_. require capability path (INSPECT OR READ OR EXECUTE))) (\<lambda>_.
     sbind (sread (fs_stat capability path)) (\<lambda>metadata.
     if nm_kind metadata \<noteq> KindFile \<or> \<not> nm_executable metadata then sfail NotExecutable
     else
       sbind (sread (check_file_size (nm_logical_size metadata))) (\<lambda>_.
       sbind (fs_open capability path ModeRead) (\<lambda>handle s.
         (case read_chunks s handle (nm_logical_size metadata) 0 [] of
            Inl e \<Rightarrow> (Inl e, snd (fs_close handle s))
          | Inr bytes \<Rightarrow>
              (case fs_close handle s of
                 (Inl e, t) \<Rightarrow> (Inl e, t)
               | (Inr _, t) \<Rightarrow> (Inr bytes, t)))))))"

subsection \<open>Building a filesystem from a ROM image and from recovered state\<close>

datatype rom_entry_kind = RomDirectory | RomFile

record rom_entry =
  re_path :: virtual_path
  re_kind :: rom_entry_kind
  re_executable :: bool
  re_content :: bytes

datatype rom_image_error = RomMalformed | RomVersion | RomLimit | RomDigest | RomNonCanonical
  | RomPanicked

fun with_rom_loop ::
  "sha256 \<Rightarrow> rom_entry list \<Rightarrow> computer_fs \<Rightarrow> rom_image_error + computer_fs" where
  "with_rom_loop sha [] s = Inr s"
| "with_rom_loop sha (e # es) s =
     (case re_path e of
        [] \<Rightarrow> Inl RomNonCanonical
      | _ # relative \<Rightarrow>
          rbind (map_err (\<lambda>_. RomNonCanonical) (split_name relative)) (\<lambda>(name, parent).
            (case re_kind e of
               RomDirectory \<Rightarrow>
                 rbind (map_err (\<lambda>_. RomNonCanonical)
                    (find_directory_mut (cfs_rom s) parent (bt_insert name (node_directory 0)))) (\<lambda>d.
                 with_rom_loop sha es (s\<lparr>cfs_rom := d\<rparr>))
             | RomFile \<Rightarrow>
                 (let object = object_id_of sha (re_content e) in
                 rbind (map_err (\<lambda>_. RomNonCanonical)
                    (find_directory_mut (cfs_rom s) parent (bt_insert name
                       (node_file object (length (re_content e)) 0 (re_executable e))))) (\<lambda>d.
                 rbind (map_err (\<lambda>_. RomPanicked)
                    (objects_replace None object (re_content e) (cfs_objects s))) (\<lambda>st.
                 with_rom_loop sha es (s\<lparr>cfs_rom := d, cfs_objects := st\<rparr>)))))))"

definition with_rom ::
  "sha256 \<Rightarrow> filesystem_limits \<Rightarrow> rom_entry list \<Rightarrow> rom_image_error + computer_fs" where
  "with_rom sha lim entries = with_rom_loop sha entries (with_limits lim)"

fun restore_loop ::
  "(object_id \<Rightarrow> bytes option) \<Rightarrow> checkpoint_node list \<Rightarrow> unit fs_op" where
  "restore_loop objects [] = sret ()"
| "restore_loop objects (node # nodes) =
     sbind (sread (\<lambda>_. writable_path (ck_path node))) (\<lambda>(_, components).
     sbind (sread (\<lambda>_. split_name components)) (\<lambda>(name, parent).
     sbind
       (case node of
          CkDirectory _ g \<Rightarrow> sret (node_directory g)
        | CkFile _ g logical_size object executable \<Rightarrow>
            sbind (sread (\<lambda>_. ok_or (objects object) StorageFaulted)) (\<lambda>bytes.
            if length bytes \<noteq> logical_size then sfail StorageFaulted
            else
              sseq (modify_objects (objects_replace None object bytes))
                   (sret (node_file object logical_size g executable)))) (\<lambda>restored.
     sseq (modify_directory Home parent (bt_insert name restored))
          (restore_loop objects nodes))))"

definition restore_recovered ::
  "recovered_state \<Rightarrow> (object_id \<Rightarrow> bytes option) \<Rightarrow> unit fs_op" where
  "restore_recovered recovered objects =
     (let nodes = map snd (rs_nodes recovered) in
     sbind (sread (\<lambda>_. ok_or (checked_sum 64 0 (map ck_size nodes)) StorageFaulted)) (\<lambda>logical_bytes.
     sbind (sread (\<lambda>_. rguard (length nodes < 2 ^ 32) StorageFaulted)) (\<lambda>_.
     sbind (sread (\<lambda>s. quota_reserve (cfs_quota s)
       (default_cost\<lparr>logical_bytes_added := logical_bytes, nodes_added := length nodes\<rparr>)))
       (\<lambda>reservation.
     sseq (restore_loop objects nodes)
     (sseq (modify_quota (quota_commit reservation))
           (set_generation (rs_generation recovered)))))))"

end
