(* ===== verification/Fs_Namespace.thy ===== *)
theory Fs_Namespace
  imports Fs_Recovery
begin

text \<open>
  The abstract namespace: a finite map from paths below \<open>/home\<close> to node descriptions, and what the
  four journaled operations do to it. Crash recovery is shown to implement it here; the live
  directory tree is shown to implement it in \<open>Fs_Refinement\<close>.
\<close>

type_synonym namespace = "virtual_path \<Rightarrow> checkpoint_node option"

definition HOME :: virtual_path where "HOME = [ascii ''home'']"

text \<open>Components are non-empty and free of the separator, as parsing guarantees.\<close>

definition path_plain :: "virtual_path \<Rightarrow> bool" where
  "path_plain p \<longleftrightarrow> list_all (\<lambda>c. c \<noteq> [] \<and> SLASH \<notin> set c) p"

text \<open>The parent of \<open>p\<close> is the home directory or a directory of the namespace.\<close>

definition has_parent :: "namespace \<Rightarrow> virtual_path \<Rightarrow> bool" where
  "has_parent N p \<longleftrightarrow> p \<noteq> [] \<and> (butlast p = HOME \<or> (\<exists>g. N (butlast p) = Some (CkDirectory (butlast p) g)))"

definition ns_wf :: "namespace \<Rightarrow> bool" where
  "ns_wf N \<longleftrightarrow> finite (dom N) \<and> N HOME = None \<and>
     (\<forall>p n. N p = Some n \<longrightarrow> ck_path n = p \<and> path_plain p \<and> has_parent N p)"

definition ns_rename :: "virtual_path \<Rightarrow> virtual_path \<Rightarrow> nat \<Rightarrow> namespace \<Rightarrow> namespace" where
  "ns_rename src dst g N = (\<lambda>p.
     if is_within p dst then
       (let q = src @ drop (length dst) p in
        map_option (\<lambda>n. ck_with_path n p (if q = src then g else ck_generation n)) (N q))
     else if is_within p src then None
     else N p)"

definition ns_apply :: "journal_operation \<Rightarrow> nat \<Rightarrow> namespace \<Rightarrow> namespace" where
  "ns_apply op g N =
     (case op of
        JCreateDirectory p _ \<Rightarrow> N(p \<mapsto> CkDirectory p g)
      | JPutFile p _ n oid x \<Rightarrow> N(p \<mapsto> CkFile p g n oid x)
      | JRemove p \<Rightarrow> N(p := None)
      | JRename src dst _ \<Rightarrow> ns_rename src dst g N)"

definition ns_has_descendant :: "namespace \<Rightarrow> virtual_path \<Rightarrow> bool" where
  "ns_has_descendant N p \<longleftrightarrow> (\<exists>q n. N q = Some n \<and> q \<noteq> p \<and> is_within q p)"

definition ns_replaceable :: "namespace \<Rightarrow> virtual_path \<Rightarrow> virtual_path \<Rightarrow> bool \<Rightarrow> bool" where
  "ns_replaceable N src dst replace \<longleftrightarrow>
     (case N dst of
        None \<Rightarrow> True
      | Some existing \<Rightarrow>
          replace \<and> ck_is_directory existing = ck_is_directory (the (N src)) \<and>
          \<not> (ck_is_directory existing \<and> ns_has_descendant N dst))"

definition ns_allowed :: "journal_operation \<Rightarrow> nat \<Rightarrow> namespace \<Rightarrow> bool" where
  "ns_allowed op g N =
     (case op of
        JCreateDirectory p ng \<Rightarrow> ng = g \<and> path_plain p \<and> has_parent N p \<and> N p = None
      | JPutFile p ng _ _ _ \<Rightarrow>
          ng = g \<and> path_plain p \<and> has_parent N p \<and> \<not> (case N p of Some n \<Rightarrow> ck_is_directory n | None \<Rightarrow> False)
      | JRemove p \<Rightarrow>
          N p \<noteq> None \<and> \<not> (ck_is_directory (the (N p)) \<and> ns_has_descendant N p)
      | JRename src dst replace \<Rightarrow>
          \<not> is_within dst src \<and> path_plain dst \<and> has_parent N dst \<and> N src \<noteq> None \<and> ns_replaceable N src dst replace)"

definition ns_size :: "namespace \<Rightarrow> nat" where
  "ns_size N = (\<Sum>p\<in>dom N. ck_size (the (N p)))"

definition ns_children :: "namespace \<Rightarrow> virtual_path \<Rightarrow> virtual_path set" where
  "ns_children N q = {p \<in> dom N. path_parent p = Some q}"

definition ns_within_limits :: "filesystem_limits \<Rightarrow> namespace \<Rightarrow> bool" where
  "ns_within_limits lim N \<longleftrightarrow>
     card (dom N) \<le> maximum_nodes lim - 2 \<and> ns_size N < 2 ^ 64 \<and>
     ns_size N \<le> maximum_logical_bytes lim \<and>
     (\<forall>q. card (ns_children N q) \<le> maximum_directory_entries lim)"

text \<open>Paths a rename would give to the nodes it moves.\<close>

definition moved_paths_wf ::
  "filesystem_limits \<Rightarrow> virtual_path \<Rightarrow> virtual_path \<Rightarrow> namespace \<Rightarrow> bool" where
  "moved_paths_wf lim src dst N \<longleftrightarrow>
     (\<forall>p\<in>dom N. is_within p src \<longrightarrow> path_wf lim (dst @ drop (length src) p))"

definition rs_ns :: "recovered_state \<Rightarrow> namespace" where
  "rs_ns st = map_of (rs_nodes st)"

definition rs_ok :: "recovered_state \<Rightarrow> bool" where
  "rs_ok st \<longleftrightarrow> bt_ok (rs_nodes st) \<and> ns_wf (rs_ns st)"

subsection \<open>Checking a recovered state\<close>

lemma checked_sum_iff:
  "checked_sum w t ns = Some s \<longleftrightarrow> s = t + sum_list ns \<and> (ns = [] \<or> t + sum_list ns < 2 ^ w)"
proof (induction ns arbitrary: t)
  case (Cons n ns)
  show ?case
  proof (cases "t + n < 2 ^ w")
    case True
    with Cons.IH [of "t + n"] show ?thesis by (auto simp: checked_add_def add.assoc)
  next
    case False
    then show ?thesis by (auto simp: checked_add_def)
  qed
qed auto

definition count_of :: "(virtual_path, nat) btree \<Rightarrow> virtual_path \<Rightarrow> nat" where
  "count_of m q = (case map_of m q of None \<Rightarrow> 0 | Some n \<Rightarrow> n)"

lemma child_count_loop_iff:
  assumes "\<forall>q. count_of counts q \<le> maximum_directory_entries lim"
  shows "child_count_loop lim counts paths = Inr () \<longleftrightarrow>
    [] \<notin> set paths \<and> (\<forall>q. count_of counts q + length (filter (\<lambda>p. path_parent p = Some q) paths)
       \<le> maximum_directory_entries lim)"
  using assms
proof (induction paths arbitrary: counts)
  case (Cons p paths)
  show ?case
  proof (cases p)
    case Nil
    then show ?thesis by (simp add: path_parent_def)
  next
    case (Cons c cs)
    then obtain q where q: "path_parent p = Some q" "p \<noteq> []" by (simp add: path_parent_def)
    let ?n = "count_of counts q + 1"
    let ?counts = "bt_insert q ?n counts"
    have cnt: "count_of ?counts r = count_of counts r + (if r = q then 1 else 0)" for r
      by (simp add: count_of_def)
    show ?thesis
    proof (cases "?n \<le> maximum_directory_entries lim")
      case True
      then have "\<forall>r. count_of ?counts r \<le> maximum_directory_entries lim"
        using Cons.prems cnt by auto
      from Cons.IH [OF this] have "child_count_loop lim ?counts paths = Inr () \<longleftrightarrow> [] \<notin> set paths \<and>
          (\<forall>r. count_of counts r + (if r = q then 1 else 0) +
            length (filter (\<lambda>p. path_parent p = Some r) paths) \<le> maximum_directory_entries lim)"
        by (simp only: cnt)
      with True q show ?thesis
        by (auto simp: count_of_def [symmetric] Let_def split: if_splits)
    next
      case False
      have "\<not> (\<forall>r. count_of counts r + length (filter (\<lambda>p. path_parent p = Some r) (p # paths))
         \<le> maximum_directory_entries lim)"
        using False q by (auto intro!: exI [of _ q])
      with False q show ?thesis by (simp add: count_of_def [symmetric])
    qed
  qed
qed auto

lemma length_filter_children:
  assumes "bt_ok m"
  shows "length (filter (\<lambda>p. path_parent p = Some q) (map fst m)) = card (ns_children (map_of m) q)"
proof -
  have "distinct (filter (\<lambda>p. path_parent p = Some q) (map fst m))"
    using bt_ok_distinct [OF assms] by simp
  moreover have "set (filter (\<lambda>p. path_parent p = Some q) (map fst m)) = ns_children (map_of m) q"
    by (auto simp: ns_children_def dom_map_of_conv_image_fst)
  ultimately show ?thesis by (metis distinct_card)
qed

lemma length_bt: "bt_ok m \<Longrightarrow> length m = card (dom (map_of m))"
  by (metis bt_ok_distinct distinct_card dom_map_of_conv_image_fst length_map list.set_map)

lemma sum_bt: "bt_ok m \<Longrightarrow> sum_list (map (f \<circ> snd) m) = (\<Sum>p\<in>dom (map_of m). f (the (map_of m p)))"
proof -
  assume ok: "bt_ok m"
  have "sum_list (map (f \<circ> snd) m) = sum_list (map (\<lambda>p. f (the (map_of m p))) (map fst m))"
    using bt_ok_distinct [OF ok] by (auto intro!: arg_cong [of _ _ sum_list] simp: map_of_is_SomeI)
  also have "\<dots> = (\<Sum>p\<in>set (map fst m). f (the (map_of m p)))"
    using bt_ok_distinct [OF ok] by (rule sum_list_distinct_conv_sum_set)
  finally show ?thesis by (simp add: dom_map_of_conv_image_fst)
qed

lemma validate_state_iff:
  assumes "rs_ok st"
  shows "validate_state st lim = Inr () \<longleftrightarrow> ns_within_limits lim (rs_ns st)"
proof -
  have ok: "bt_ok (rs_nodes st)" using assms by (simp add: rs_ok_def)
  have nonroot: "[] \<notin> set (map fst (rs_nodes st))"
    using assms by (fastforce simp: rs_ok_def ns_wf_def has_parent_def rs_ns_def bt_ok_map_of_iff)
  have loop: "child_count_loop lim [] (map fst (rs_nodes st)) = Inr () \<longleftrightarrow>
      (\<forall>q. card (ns_children (rs_ns st) q) \<le> maximum_directory_entries lim)"
    using nonroot length_filter_children [OF ok]
    by (subst child_count_loop_iff) (simp_all add: count_of_def rs_ns_def)
  have size: "sum_list (map (ck_size \<circ> snd) (rs_nodes st)) = ns_size (rs_ns st)"
    using sum_bt [OF ok] by (simp add: ns_size_def rs_ns_def)
  have empty: "rs_nodes st = [] \<Longrightarrow> ns_size (rs_ns st) = 0" using size by simp
  show ?thesis
    unfolding validate_state_def ns_within_limits_def
    using loop size length_bt [OF ok] empty
    by (auto simp: rbind_Inr_iff ok_or_iff checked_sum_iff rs_ns_def not_less)
qed

lemma validate_state_error: "validate_state st lim = Inl e \<or> validate_state st lim = Inr ()"
  by (cases "validate_state st lim") auto

subsection \<open>Path order and subtrees\<close>

lemma is_within_iff: "is_within p r \<longleftrightarrow> (\<exists>s. p = r @ s)"
  by (metis append_eq_conv_conj append_take_drop_id is_within_def)

lemma is_within_refl [simp]: "is_within p p"
  by (simp add: is_within_def)

lemma is_within_append [simp]: "is_within (r @ s) r"
  by (simp add: is_within_def)

lemma prefix_le: "r \<le> r @ s" for r s :: "'a :: linorder list"
  by (induction r) auto

lemma between_is_within:
  "r \<le> p \<Longrightarrow> p \<le> r @ s \<Longrightarrow> is_within p r" for r p s :: virtual_path
proof (induction r arbitrary: p)
  case Nil
  then show ?case by (simp add: is_within_def)
next
  case (Cons a r)
  then obtain b q where p: "p = b # q" by (cases p) auto
  with Cons.prems have "a = b" "r \<le> q" "q \<le> r @ s" by auto
  with Cons.IH [of q] p show ?case by (simp add: is_within_def)
qed

text \<open>The subtree of a path is an interval of the ordered map, so \<open>range\<close> followed by \<open>take_while\<close>
  finds all of it.\<close>

lemma takeWhile_subtree:
  fixes r :: virtual_path
  assumes "bt_ok m"
  shows "takeWhile (\<lambda>(p, _). is_within p r) (filter (\<lambda>(p, _). r \<le> p) m) =
    filter (\<lambda>(p, _). is_within p r) m"
  using assms
proof (induction m)
  case (Cons e m)
  obtain p v where e: "e = (p, v)" by (cases e)
  have ok: "bt_ok m" "\<forall>q\<in>fst ` set m. p < q" using Cons.prems e by (auto simp: bt_ok_Cons)
  show ?case
  proof (cases "r \<le> p")
    case False
    then have "\<not> is_within p r" using prefix_le by (auto simp: is_within_iff)
    with False e Cons.IH [OF ok(1)] show ?thesis by simp
  next
    case True
    show ?thesis
    proof (cases "is_within p r")
      case inside: True
      with True e Cons.IH [OF ok(1)] show ?thesis by simp
    next
      case outside: False
      have "\<not> is_within q r" if "q \<in> fst ` set m" for q
      proof
        assume "is_within q r"
        then obtain s where "q = r @ s" by (auto simp: is_within_iff)
        with that ok(2) have "p \<le> r @ s" by auto
        with between_is_within [OF True] outside show False by blast
      qed
      then have "filter (\<lambda>(p, _). is_within p r) m = []" by (force simp: filter_empty_conv)
      with True outside e show ?thesis by simp
    qed
  qed
qed simp

lemma display_home_iff: "display q = ascii ''/home'' \<longleftrightarrow> q = HOME"
proof (cases q)
  case Nil
  then show ?thesis by (simp add: ascii_def HOME_def)
next
  case (Cons a cs)
  show ?thesis
  proof (cases cs)
    case Nil
    with Cons show ?thesis by (auto simp: display_Cons join_tail_def ascii_def HOME_def)
  next
    case (Cons b ds)
    have "SLASH \<in> set (tl (display (a # b # ds)))" by (simp add: display_Cons join_tail_def)
    moreover have "SLASH \<notin> set (tl (ascii ''/home''))" by (simp add: ascii_def)
    ultimately have "display (a # b # ds) \<noteq> ascii ''/home''" by metis
    with \<open>q = a # cs\<close> Cons show ?thesis by (simp add: HOME_def)
  qed
qed

lemma path_parent_butlast: "path_parent p = (if p = [] then None else Some (butlast p))"
  by (simp add: path_parent_def butlast_conv_take)

lemma require_parent_iff:
  assumes "ns_wf (rs_ns st)"
  shows "require_parent st p = Inr () \<longleftrightarrow> has_parent (rs_ns st) p"
proof (cases "p = []")
  case True
  then show ?thesis by (simp add: require_parent_def path_parent_def has_parent_def)
next
  case False
  have dir: "(\<exists>n. rs_ns st q = Some n \<and> ck_is_directory n) \<longleftrightarrow>
      (\<exists>g. rs_ns st q = Some (CkDirectory q g))" for q
  proof
    assume "\<exists>n. rs_ns st q = Some n \<and> ck_is_directory n"
    then obtain n where n: "rs_ns st q = Some n" "ck_is_directory n" by blast
    moreover have "ck_path n = q" using assms n(1) by (simp add: ns_wf_def)
    ultimately show "\<exists>g. rs_ns st q = Some (CkDirectory q g)" by (cases n) auto
  qed auto
  have "require_parent st p = Inr () \<longleftrightarrow>
      butlast p = HOME \<or> (\<exists>n. rs_ns st (butlast p) = Some n \<and> ck_is_directory n)"
    using False
    by (auto simp: require_parent_def path_parent_butlast display_home_iff rs_ns_def
        split: option.splits)
  with False dir show ?thesis by (simp add: has_parent_def)
qed

lemma has_descendant_iff:
  "bt_ok (rs_nodes st) \<Longrightarrow> has_descendant st p \<longleftrightarrow> ns_has_descendant (rs_ns st) p"
  by (auto simp: has_descendant_def ns_has_descendant_def list_ex_iff rs_ns_def bt_ok_map_of_iff)

subsection \<open>Renaming in recovery\<close>

lemma display_append: "d \<noteq> [] \<Longrightarrow> display d @ concat (map (\<lambda>c. SLASH # c) r) = display (d @ r)"
  by (cases d) (simp_all add: display_Cons join_tail_def)

lemma path_plain_append [simp]: "path_plain (p @ q) \<longleftrightarrow> path_plain p \<and> path_plain q"
  by (simp add: path_plain_def)

lemma path_plain_Nil [simp]: "path_plain []"
  by (simp add: path_plain_def)

lemma path_plain_drop: "path_plain p \<Longrightarrow> path_plain (drop n p)"
  by (metis append_take_drop_id path_plain_append)

lemma path_wf_plain: "path_wf lim p \<Longrightarrow> path_plain p"
  by (auto simp: path_wf_def path_plain_def component_ok_def list_all_iff)

lemma display_inj: "path_plain p \<Longrightarrow> path_plain q \<Longrightarrow> display p = display q \<Longrightarrow> p = q"
proof -
  assume plain: "path_plain p" "path_plain q" and eq: "display p = display q"
  have sp: "split_on SLASH (drop 1 (display r)) = r" if "path_plain r" "r \<noteq> []" for r
  proof (cases r)
    case (Cons c cs)
    with that split_join [of c cs] show ?thesis by (simp add: display_Cons path_plain_def list_all_iff)
  qed (use that in simp)
  have nil: "display r = [SLASH] \<longleftrightarrow> r = []" if "path_plain r" for r
    using that by (cases r) (auto simp: display_Cons path_plain_def)
  show ?thesis
  proof (cases "p = []")
    case True
    with eq nil [OF plain(2)] show ?thesis by simp
  next
    case False
    then have "q \<noteq> []" using eq nil [OF plain(1)] by auto
    with False sp plain eq show ?thesis by metis
  qed
qed

lemma rebase_iff:
  assumes "dst \<noteq> []" "path_plain dst" "path_plain p"
  shows "rebase p src dst lim = Inr q \<longleftrightarrow>
    q = dst @ drop (length src) p \<and> path_wf lim (dst @ drop (length src) p)"
proof -
  let ?r = "dst @ drop (length src) p"
  have "rebase p src dst lim = Inr q \<longleftrightarrow> parse_utf8 (display ?r) lim = Inr q"
    by (simp add: rebase_def map_err_iff display_append [OF assms(1)])
  moreover have "parse_utf8 (display ?r) lim = Inr q \<longleftrightarrow> q = ?r \<and> path_wf lim ?r"
  proof
    assume "parse_utf8 (display ?r) lim = Inr q"
    then have q: "display ?r = display q" "path_wf lim q" using parse_utf8_sound by auto
    have "path_plain ?r" using assms by (simp add: path_plain_drop)
    with q display_inj path_wf_plain show "q = ?r \<and> path_wf lim ?r" by metis
  next
    assume "q = ?r \<and> path_wf lim ?r"
    then show "parse_utf8 (display ?r) lim = Inr q" using parse_utf8_display by simp
  qed
  ultimately show ?thesis by simp
qed

definition moved_node :: "virtual_path \<Rightarrow> virtual_path \<Rightarrow> nat \<Rightarrow> virtual_path \<times> checkpoint_node
    \<Rightarrow> virtual_path \<times> checkpoint_node" where
  "moved_node src dst g = (\<lambda>(p, n). (dst @ drop (length src) p,
     ck_with_path n (dst @ drop (length src) p) (if p = src then g else ck_generation n)))"

lemma insert_moving_iff:
  assumes "dst \<noteq> []" "path_plain dst" "\<forall>(p, n)\<in>set ms. path_plain p"
  shows "insert_moving ms src dst g lim nodes = Inr nodes' \<longleftrightarrow>
    (\<forall>(p, n)\<in>set ms. path_wf lim (dst @ drop (length src) p)) \<and>
    nodes' = fold (\<lambda>(q, n) m. bt_insert q n m) (map (moved_node src dst g) ms) nodes"
  using assms(3)
proof (induction ms arbitrary: nodes)
  case (Cons e ms)
  obtain p n where e: "e = (p, n)" by (cases e)
  let ?r = "dst @ drop (length src) p"
  have plain: "path_plain p" "\<forall>(p, n)\<in>set ms. path_plain p" using Cons.prems e by auto
  show ?case
  proof (cases "path_wf lim ?r")
    case True
    then have "rebase p src dst lim = Inr ?r" using rebase_iff [OF assms(1,2) plain(1)] by simp
    with True e Cons.IH [OF plain(2)] show ?thesis by (simp add: moved_node_def Let_def)
  next
    case False
    then have "rebase p src dst lim = Inl ()"
      using rebase_iff [OF assms(1,2) plain(1)] by (cases "rebase p src dst lim") auto
    with False e show ?thesis by simp
  qed
qed auto

lemma fold_bt_remove:
  "map_of (fold (\<lambda>(p, _) m. bt_remove p m) ms nodes) =
     (\<lambda>p. if p \<in> fst ` set ms then None else map_of nodes p)"
  "bt_ok nodes \<Longrightarrow> bt_ok (fold (\<lambda>(p, _) m. bt_remove p m) ms nodes)"
  by (induction ms arbitrary: nodes) (auto simp: fun_eq_iff)

lemma fold_bt_insert:
  "distinct (map fst ms) \<Longrightarrow> map_of (fold (\<lambda>(q, n) m. bt_insert q n m) ms nodes) =
     (\<lambda>p. case map_of ms p of Some n \<Rightarrow> Some n | None \<Rightarrow> map_of nodes p)"
  "bt_ok nodes \<Longrightarrow> bt_ok (fold (\<lambda>(q, n) m. bt_insert q n m) ms nodes)"
proof (induction ms arbitrary: nodes)
  case (Cons e ms)
  {
    case 1
    obtain q n where e: "e = (q, n)" by (cases e)
    with 1 have q: "map_of ms q = None" by (simp add: map_of_eq_None_iff)
    with 1 e Cons.IH(1) show ?case by (auto simp: fun_eq_iff split: option.splits)
  next
    case 2
    with Cons.IH(2) show ?case by (cases e) simp
  }
qed auto

lemma map_of_moved:
  assumes "bt_ok m"
  shows "map_of (map (moved_node src dst g) (filter (\<lambda>(p, _). is_within p src) m)) p =
    (if is_within p dst then
       map_option (\<lambda>n. ck_with_path n p (if src @ drop (length dst) p = src then g else ck_generation n))
         (map_of m (src @ drop (length dst) p))
     else None)"
  using assms
proof (induction m)
  case (Cons e m)
  obtain q n where e: "e = (q, n)" by (cases e)
  have IH: "map_of (map (moved_node src dst g) (filter (\<lambda>(p, _). is_within p src) m)) p =
    (if is_within p dst then
       map_option (\<lambda>n. ck_with_path n p (if src @ drop (length dst) p = src then g else ck_generation n))
         (map_of m (src @ drop (length dst) p))
     else None)" using Cons e by (simp add: bt_ok_Cons)
  show ?case
  proof (cases "is_within q src")
    case True
    then obtain r where "q = src @ r" by (auto simp: is_within_iff)
    with e IH show ?thesis by (auto simp: moved_node_def is_within_iff)
  next
    case False
    then have "q \<noteq> src @ drop (length dst) p" by (auto simp: is_within_iff)
    with False e IH show ?thesis by simp
  qed
qed simp

subsection \<open>Operations keep the namespace well-formed\<close>

lemma ns_wf_root: "ns_wf N \<Longrightarrow> N [] = None"
  by (metis has_parent_def not_None_eq ns_wf_def)

lemma has_parent_not_HOME: "ns_wf N \<Longrightarrow> has_parent N p \<Longrightarrow> p \<noteq> HOME \<and> p \<noteq> []"
  using ns_wf_root [of N] by (auto simp: has_parent_def HOME_def)

lemma ns_wf_put:
  assumes "ns_wf N" "path_plain p" "has_parent N p" "ck_path n = p"
    "N p = None \<or> \<not> ck_is_directory (the (N p)) \<or> ck_is_directory n"
  shows "ns_wf (N(p \<mapsto> n))"
proof -
  have "p \<noteq> HOME" using has_parent_not_HOME assms by blast
  moreover have "has_parent (N(p \<mapsto> n)) q" if "has_parent N q" for q
    using that assms(4,5) by (cases n) (auto simp: has_parent_def)
  ultimately show ?thesis using assms by (auto simp: ns_wf_def)
qed

lemma ns_wf_remove:
  assumes "ns_wf N" "N p = Some n" "\<not> (ck_is_directory n \<and> ns_has_descendant N p)"
  shows "ns_wf (N(p := None))"
proof -
  have "has_parent (N(p := None)) q" if q: "N q = Some m" "q \<noteq> p" for q m
  proof -
    have par: "has_parent N q" using assms(1) q by (simp add: ns_wf_def)
    have "butlast q \<noteq> p \<or> butlast q = HOME"
    proof (rule ccontr)
      assume "\<not> (butlast q \<noteq> p \<or> butlast q = HOME)"
      then have b: "butlast q = p" "p \<noteq> HOME" by auto
      with par assms(2) have "ck_is_directory n" "q \<noteq> []" by (auto simp: has_parent_def)
      moreover have "is_within q p"
        using b(1) \<open>q \<noteq> []\<close> by (metis append_butlast_last_id is_within_append)
      ultimately show False using assms(3) q unfolding ns_has_descendant_def by blast
    qed
    with par show ?thesis by (auto simp: has_parent_def)
  qed
  then show ?thesis using assms(1) by (auto simp: ns_wf_def)
qed

lemma butlast_within: "is_within (butlast p) r \<Longrightarrow> is_within p r"
  by (metis append_assoc append_butlast_last_id butlast.simps(1) is_within_iff)

lemma ns_rename_within:
  "ns_rename src dst g N (dst @ r) =
     map_option (\<lambda>n. ck_with_path n (dst @ r) (if r = [] then g else ck_generation n)) (N (src @ r))"
  by (simp add: ns_rename_def)

lemma ns_rename_outside:
  "\<not> is_within p dst \<Longrightarrow> \<not> is_within p src \<Longrightarrow> ns_rename src dst g N p = N p"
  by (simp add: ns_rename_def)

lemma ck_with_path_simps [simp]:
  "ck_path (ck_with_path n p g) = p" "ck_is_directory (ck_with_path n p g) = ck_is_directory n"
  "ck_generation (ck_with_path n p g) = g" "ck_size (ck_with_path n p g) = ck_size n"
  "ck_object (ck_with_path n p g) = ck_object n"
  by (cases n; simp add: ck_size_def)+

lemma ns_wf_rename:
  assumes wf: "ns_wf N" and out: "\<not> is_within dst src" and plain: "path_plain dst"
    and par: "has_parent N dst" and src: "N src \<noteq> None"
  shows "ns_wf (ns_rename src dst g N)"
proof -
  let ?N = "ns_rename src dst g N"
  have src_ne: "src \<noteq> []" "src \<noteq> HOME" using src ns_wf_root [OF wf] wf by (auto simp: ns_wf_def)
  have dst_ne: "dst \<noteq> []" "dst \<noteq> HOME" using has_parent_not_HOME [OF wf par] by auto
  have "dom ?N \<subseteq> dom N \<union> (\<lambda>q. dst @ drop (length src) q) ` dom N"
  proof
    fix p
    assume "p \<in> dom ?N"
    then obtain n where n: "?N p = Some n" by blast
    show "p \<in> dom N \<union> (\<lambda>q. dst @ drop (length src) q) ` dom N"
    proof (cases "is_within p dst")
      case True
      then obtain r where r: "p = dst @ r" by (auto simp: is_within_iff)
      with n have "src @ r \<in> dom N" by (auto simp: ns_rename_within)
      then have "dst @ drop (length src) (src @ r) \<in> (\<lambda>q. dst @ drop (length src) q) ` dom N"
        by (rule imageI)
      with r show ?thesis by simp
    next
      case False
      with n show ?thesis by (auto simp: ns_rename_def split: if_splits)
    qed
  qed
  then have fin: "finite (dom ?N)"
    using wf by (auto simp: ns_wf_def intro: finite_subset)
  have home: "?N HOME = None"
    using wf dst_ne by (cases "is_within HOME dst")
      (auto simp: ns_rename_def ns_wf_def HOME_def is_within_iff Cons_eq_append_conv)
  have keep: "?N (butlast p) = N (butlast p)" if "\<not> is_within p dst \<and> \<not> is_within p src" for p
    using that butlast_within ns_rename_outside by blast
  have "ck_path n = p \<and> path_plain p \<and> has_parent ?N p" if n: "?N p = Some n" for p n
  proof (cases "is_within p dst")
    case True
    then obtain r where r: "p = dst @ r" by (auto simp: is_within_iff)
    with n obtain m where m: "N (src @ r) = Some m"
      "n = ck_with_path m p (if r = [] then g else ck_generation m)"
      by (auto simp: ns_rename_within)
    have wfm: "path_plain (src @ r)" "has_parent N (src @ r)" using wf m(1) unfolding ns_wf_def by blast+
    have "has_parent ?N p"
    proof (cases "r = []")
      case True
      have "\<not> is_within (butlast dst) dst"
      proof
        assume "is_within (butlast dst) dst"
        then have "length (take (length dst) (butlast dst)) = length dst"
          unfolding is_within_def by (rule arg_cong)
        moreover have "0 < length dst" using dst_ne(1) by simp
        ultimately show False unfolding length_take length_butlast by linarith
      qed
      moreover have "\<not> is_within (butlast dst) src" using out butlast_within by blast
      ultimately have "?N (butlast dst) = N (butlast dst)" by (rule ns_rename_outside)
      with True r par show ?thesis by (simp add: has_parent_def)
    next
      case False
      then have "butlast (src @ r) = src @ butlast r" "butlast p = dst @ butlast r"
        using r by (simp_all add: butlast_append)
      moreover have "src @ butlast r \<noteq> HOME" using src_ne by (auto simp: HOME_def append_eq_Cons_conv)
      ultimately obtain gg where "N (src @ butlast r) = Some (CkDirectory (src @ butlast r) gg)"
        using wfm(2) by (auto simp: has_parent_def)
      then have "?N (dst @ butlast r) =
          Some (CkDirectory (dst @ butlast r) (if butlast r = [] then g else gg))"
        by (simp add: ns_rename_within)
      with \<open>butlast p = dst @ butlast r\<close> r dst_ne show ?thesis by (auto simp: has_parent_def)
    qed
    with m r plain wfm show ?thesis by simp
  next
    case False
    with n have out': "\<not> is_within p src" "N p = Some n" by (auto simp: ns_rename_def split: if_splits)
    with wf have "ck_path n = p" "path_plain p" "has_parent N p" by (auto simp: ns_wf_def)
    with keep [of p] False out' show ?thesis by (simp add: has_parent_def)
  qed
  with fin home show ?thesis by (simp add: ns_wf_def)
qed

lemma ns_apply_wf:
  assumes "ns_wf N" "ns_allowed op g N"
  shows "ns_wf (ns_apply op g N)"
proof (cases op)
  case (JCreateDirectory p ng)
  with assms show ?thesis by (auto simp: ns_apply_def ns_allowed_def intro!: ns_wf_put)
next
  case (JPutFile p ng n oid x)
  with assms show ?thesis
    by (auto simp: ns_apply_def ns_allowed_def intro!: ns_wf_put split: option.splits)
next
  case (JRemove p)
  with assms show ?thesis by (auto simp: ns_apply_def ns_allowed_def intro!: ns_wf_remove)
next
  case (JRename src dst replace)
  with assms show ?thesis by (auto simp: ns_apply_def ns_allowed_def intro!: ns_wf_rename)
qed

subsection \<open>Recovery implements the namespace\<close>

definition op_plain :: "journal_operation \<Rightarrow> bool" where
  "op_plain op =
     (case op of
        JCreateDirectory p _ \<Rightarrow> path_plain p
      | JPutFile p _ _ _ _ \<Rightarrow> path_plain p
      | JRemove p \<Rightarrow> True
      | JRename src dst _ \<Rightarrow> path_plain dst)"

text \<open>The extra demand of replay on a rename: every moved path must parse again under the limits.\<close>

definition op_moves_wf :: "filesystem_limits \<Rightarrow> journal_operation \<Rightarrow> namespace \<Rightarrow> bool" where
  "op_moves_wf lim op N =
     (case op of JRename src dst _ \<Rightarrow> moved_paths_wf lim src dst N | _ \<Rightarrow> True)"

definition is_rename :: "journal_operation \<Rightarrow> bool" where
  "is_rename op = (case op of JRename _ _ _ \<Rightarrow> True | _ \<Rightarrow> False)"

definition refines_to :: "recovered_state \<Rightarrow> namespace \<Rightarrow> recovered_state \<Rightarrow> bool" where
  "refines_to st N st' \<longleftrightarrow> rs_ok st' \<and> rs_ns st' = N \<and> rs_generation st' = rs_generation st"

lemma refines_to_update:
  assumes "bt_ok nodes" "map_of nodes = N" "ns_wf N"
  shows "refines_to st N st' \<longleftrightarrow> st' = st\<lparr>rs_nodes := nodes\<rparr>"
proof
  assume "refines_to st N st'"
  then have "bt_ok (rs_nodes st')" "map_of (rs_nodes st') = map_of nodes"
    "rs_generation st' = rs_generation st"
    using assms by (auto simp: refines_to_def rs_ok_def rs_ns_def)
  with bt_ok_ext assms(1) show "st' = st\<lparr>rs_nodes := nodes\<rparr>" by (metis recovered_state.surjective recovered_state.update_convs(2) old.unit.exhaust)
qed (use assms in \<open>simp add: refines_to_def rs_ok_def rs_ns_def\<close>)

lemma ancestor_is_directory:
  assumes "ns_wf N"
  shows "N (q @ r) = Some n \<Longrightarrow> r \<noteq> [] \<Longrightarrow> q \<noteq> [] \<Longrightarrow> q \<noteq> HOME \<Longrightarrow> \<exists>g. N q = Some (CkDirectory q g)"
proof (induction r arbitrary: n rule: rev_induct)
  case (snoc c r)
  have "has_parent N (q @ r @ [c])" using assms snoc.prems(1) unfolding ns_wf_def by blast
  then consider "q @ r = HOME" | g where "N (q @ r) = Some (CkDirectory (q @ r) g)"
    by (auto simp: has_parent_def butlast_append)
  then show ?case
  proof cases
    case 1
    then show ?thesis using snoc.prems by (auto simp: HOME_def append_eq_Cons_conv)
  next
    case 2
    then show ?thesis using snoc by (cases "r = []") auto
  qed
qed simp

lemma replaceable_no_descendants:
  assumes "ns_wf N" "has_parent N dst" "ns_replaceable N src dst replace" "is_within p dst" "p \<noteq> dst"
  shows "N p = None"
proof (rule ccontr)
  assume "N p \<noteq> None"
  then obtain n where n: "N p = Some n" by blast
  obtain r where r: "p = dst @ r" "r \<noteq> []" using assms(4,5) by (auto simp: is_within_iff)
  have "dst \<noteq> []" "dst \<noteq> HOME" using has_parent_not_HOME [OF assms(1,2)] by auto
  then obtain g where "N dst = Some (CkDirectory dst g)"
    using ancestor_is_directory [OF assms(1)] n r by blast
  with assms(3) have "\<not> ns_has_descendant N dst" by (simp add: ns_replaceable_def)
  with n assms(4,5) show False unfolding ns_has_descendant_def by blast
qed

lemma recovery_rename_iff:
  assumes ok: "rs_ok st" and plain: "path_plain dst"
  shows "recovery_rename st src dst replace g lim = Inr st' \<longleftrightarrow>
    ns_allowed (JRename src dst replace) g (rs_ns st) \<and> moved_paths_wf lim src dst (rs_ns st) \<and>
    refines_to st (ns_rename src dst g (rs_ns st)) st'"
proof -
  let ?N = "rs_ns st"
  let ?m = "filter (\<lambda>(p, _). is_within p src) (rs_nodes st)"
  let ?rest = "fold (\<lambda>(p, _) m. bt_remove p m) ?m (bt_remove dst (rs_nodes st))"
  let ?nodes = "fold (\<lambda>(q, n) m. bt_insert q n m) (map (moved_node src dst g) ?m) ?rest"
  have bt: "bt_ok (rs_nodes st)" and wf: "ns_wf ?N" using ok by (auto simp: rs_ok_def)
  have repl: "(case map_of (rs_nodes st) dst of None \<Rightarrow> Inr ()
      | Some existing \<Rightarrow>
          if \<not> replace \<or> ck_is_directory existing \<noteq> ck_is_directory n then Inl ()
          else if ck_is_directory existing \<and> has_descendant st dst then Inl () else Inr ()) = Inr ()
      \<longleftrightarrow> ns_replaceable ?N src dst replace" if "?N src = Some n" for n
    using that has_descendant_iff [OF bt]
    by (auto simp: ns_replaceable_def rs_ns_def split: option.splits)
  have moving: "takeWhile (\<lambda>(p, _). is_within p src) (filter (\<lambda>(p, _). src \<le> p) (rs_nodes st)) = ?m"
    using bt by (rule takeWhile_subtree)
  have nonempty: "?m \<noteq> []" if "?N src = Some n" for n
    using that bt by (force simp: rs_ns_def filter_empty_conv bt_ok_map_of_iff)
  have plain_m: "\<forall>(p, n)\<in>set ?m. path_plain p"
    using wf bt by (auto simp: ns_wf_def rs_ns_def bt_ok_map_of_iff)
  have wf_m: "(\<forall>(p, n)\<in>set ?m. path_wf lim (dst @ drop (length src) p)) \<longleftrightarrow>
      moved_paths_wf lim src dst ?N"
    using bt by (fastforce simp: moved_paths_wf_def rs_ns_def bt_ok_map_of_iff)
  have nodes_ok: "bt_ok ?nodes" using bt by (intro fold_bt_insert(2) fold_bt_remove(2)) simp
  have dist: "distinct (map fst (map (moved_node src dst g) ?m))"
  proof -
    have "inj_on (\<lambda>p. dst @ drop (length src) p) {p. is_within p src}"
      by (auto simp: inj_on_def is_within_iff)
    moreover have "distinct (map fst ?m)"
      using bt by (intro bt_ok_distinct bt_ok_filter)
    moreover have "map fst (map (moved_node src dst g) ?m) =
        map (\<lambda>p. dst @ drop (length src) p) (map fst ?m)"
      by (auto simp: moved_node_def)
    ultimately show ?thesis
      by (simp only: distinct_map) (auto intro: inj_on_subset)
  qed
  have ns: "map_of ?nodes = ns_rename src dst g ?N"
    if al: "ns_allowed (JRename src dst replace) g ?N"
  proof
    fix p
    have gone: "?N p = None" if "is_within p dst" "p \<noteq> dst"
      using replaceable_no_descendants [OF wf _ _ that] al by (auto simp: ns_allowed_def)
    have inm: "p \<in> fst ` set ?m \<longleftrightarrow> is_within p src \<and> ?N p \<noteq> None"
      using bt by (force simp: rs_ns_def bt_ok_map_of_iff)
    have rest: "map_of ?rest p = (if is_within p src \<or> p = dst then None else ?N p)"
      unfolding fold_bt_remove(1) inm by (auto simp: rs_ns_def)
    have mv: "map_of (map (moved_node src dst g) ?m) p =
      (if is_within p dst then
         map_option (\<lambda>n. ck_with_path n p (if src @ drop (length dst) p = src then g else ck_generation n))
           (?N (src @ drop (length dst) p))
       else None)"
      using map_of_moved [OF bt] by (simp only: rs_ns_def)
    show "map_of ?nodes p = ns_rename src dst g ?N p"
      unfolding fold_bt_insert(1) [OF dist] mv rest
      using gone by (auto simp: ns_rename_def Let_def split: option.splits)
  qed
  show ?thesis
  proof (cases "ns_allowed (JRename src dst replace) g ?N")
    case True
    then obtain n where n: "?N src = Some n" and dst: "dst \<noteq> []"
      using has_parent_not_HOME [OF wf] by (auto simp: ns_allowed_def)
    have "ns_wf (ns_rename src dst g ?N)"
      using True ns_apply_wf [OF wf True] by (simp add: ns_apply_def)
    note ref = refines_to_update [OF nodes_ok ns [OF True] this]
    have "recovery_rename st src dst replace g lim =
        rbind (insert_moving ?m src dst g lim ?rest) (\<lambda>nodes. Inr (st\<lparr>rs_nodes := nodes\<rparr>))"
      using True n repl [OF n] nonempty [OF n] require_parent_iff [OF wf, of dst]
      unfolding recovery_rename_def moving Let_def
      by (simp add: ns_allowed_def rs_ns_def)
    with True ref insert_moving_iff [OF dst plain plain_m] wf_m show ?thesis
      by (auto simp: rbind_Inr_iff)
  next
    case False
    then have "\<not> is_within dst src \<Longrightarrow> has_parent ?N dst \<Longrightarrow> ?N src = Some n \<Longrightarrow>
        \<not> ns_replaceable ?N src dst replace" for n
      using plain by (auto simp: ns_allowed_def)
    with False repl require_parent_iff [OF wf, of dst] show ?thesis
      by (auto simp: recovery_rename_def rbind_Inr_iff ok_or_iff rs_ns_def split: if_split_asm)
  qed
qed

lemma recovery_op_iff:
  assumes "rs_ok st" "op_plain op"
  shows "recovery_op st op g lim = Inr s1 \<longleftrightarrow> ns_allowed op g (rs_ns st) \<and>
    op_moves_wf lim op (rs_ns st) \<and> refines_to st (ns_apply op g (rs_ns st)) s1"
proof -
  let ?N = "rs_ns st"
  have bt: "bt_ok (rs_nodes st)" and wf: "ns_wf ?N" using assms(1) by (auto simp: rs_ok_def)
  have upd: "refines_to st N1 s1 \<longleftrightarrow> s1 = st\<lparr>rs_nodes := nodes\<rparr>"
    if "ns_allowed op g ?N" "ns_apply op g ?N = N1" "bt_ok nodes" "map_of nodes = N1" for N1 nodes
    using refines_to_update that ns_apply_wf [OF wf] by metis
  show ?thesis
  proof (cases "is_rename op \<or> \<not> ns_allowed op g ?N")
    case False
    then have al: "ns_allowed op g ?N" by simp
    note simps = recovery_op_def ns_allowed_def ns_apply_def op_moves_wf_def rs_ns_def rbind_Inr_iff
    show ?thesis
    proof (cases op)
      case (JCreateDirectory p ng)
      show ?thesis
        using al upd [OF al refl, of "bt_insert p (CkDirectory p g) (rs_nodes st)"]
          require_parent_iff [OF wf, of p] bt JCreateDirectory by (auto simp: simps)
    next
      case (JPutFile p ng n oid x)
      show ?thesis
        using al upd [OF al refl, of "bt_insert p (CkFile p g n oid x) (rs_nodes st)"]
          require_parent_iff [OF wf, of p] bt JPutFile by (auto simp: simps split: option.splits)
    next
      case (JRemove p)
      show ?thesis
        using al upd [OF al refl, of "bt_remove p (rs_nodes st)"]
          has_descendant_iff [OF bt] bt JRemove by (auto simp: simps)
    qed (use False in \<open>simp add: is_rename_def\<close>)
  next
    case True
    show ?thesis
    proof (cases op)
      case (JRename src dst replace)
      with assms(2) recovery_rename_iff [OF assms(1), of dst src replace g lim s1] show ?thesis
        by (simp add: recovery_op_def ns_apply_def op_moves_wf_def op_plain_def)
    qed (use True assms(2) require_parent_iff [OF wf] has_descendant_iff [OF bt] in
        \<open>auto simp: is_rename_def recovery_op_def ns_allowed_def op_plain_def rs_ns_def rbind_Inr_iff
           ok_or_iff split: if_split_asm option.split_asm\<close>)
  qed
qed

lemma recovery_apply_iff:
  assumes "rs_ok st" "op_plain op"
  shows "recovery_apply st op g lim = Inr st' \<longleftrightarrow>
    ns_allowed op g (rs_ns st) \<and> op_moves_wf lim op (rs_ns st) \<and>
    ns_within_limits lim (ns_apply op g (rs_ns st)) \<and>
    refines_to st (ns_apply op g (rs_ns st)) st'"
proof -
  have "recovery_apply st op g lim = Inr st' \<longleftrightarrow>
      recovery_op st op g lim = Inr st' \<and> validate_state st' lim = Inr ()"
    by (auto simp: recovery_apply_def rbind_Inr_iff)
  with recovery_op_iff [OF assms] validate_state_iff show ?thesis by (auto simp: refines_to_def)
qed

end
