(* ===== verification/Fs_Lookup.thy ===== *)
theory Fs_Lookup
  imports Fs_Tree Fs_Namespace
begin

text \<open>
  The directory tree seen through lookups. \<open>tlook\<close> reads what a path names (metadata and content
  object, not the children); its laws say what replacing one directory deep in the tree does to
  every other path, and \<open>tree_ns\<close> is the abstract namespace a home tree stands for.
\<close>

definition shallow :: "node \<Rightarrow> node_metadata \<times> object_id option" where
  "shallow n = (node_meta n, node_object_id n)"

definition tlook :: "directory \<Rightarrow> component list \<Rightarrow> (node_metadata \<times> object_id option) option" where
  "tlook d cs = (case find_node d cs of Inl _ \<Rightarrow> None | Inr n \<Rightarrow> Some (shallow n))"

definition entry_ck :: "virtual_path \<Rightarrow> node_metadata \<times> object_id option \<Rightarrow> checkpoint_node" where
  "entry_ck p e =
     (case snd e of
        None \<Rightarrow> CkDirectory p (nm_generation (fst e))
      | Some oid \<Rightarrow> CkFile p (nm_generation (fst e)) (nm_logical_size (fst e)) oid (nm_executable (fst e)))"

definition tree_ns :: "directory \<Rightarrow> namespace" where
  "tree_ns d p =
     (case p of
        [] \<Rightarrow> None
      | h # cs \<Rightarrow> if h = ascii ''home'' then map_option (entry_ck p) (tlook d cs) else None)"

abbreviation home_path :: "component list \<Rightarrow> virtual_path" where
  "home_path cs \<equiv> ascii ''home'' # cs"

subsection \<open>Lookup\<close>

lemma find_directory_Cons_iff:
  "find_directory d (c # cs) = Inr e \<longleftrightarrow>
     (\<exists>n ch. map_of d c = Some n \<and> node_contents n = CDir ch \<and> find_directory ch cs = Inr e)"
proof (cases "map_of d c")
  case (Some n)
  then show ?thesis by (cases "node_contents n") auto
qed simp

lemma find_directory_mut_Cons_iff:
  "find_directory_mut d (c # cs) f = Inr d' \<longleftrightarrow>
     (\<exists>n ch ch'. map_of d c = Some n \<and> node_contents n = CDir ch \<and>
        find_directory_mut ch cs f = Inr ch' \<and> d' = bt_insert c (Node (node_meta n) (CDir ch')) d)"
proof (cases "map_of d c")
  case (Some n)
  then show ?thesis by (cases "node_contents n") (auto simp: rbind_Inr_iff)
qed simp

lemma node_object_id_simps:
  "node_object_id n = None \<longleftrightarrow> (\<exists>e. node_contents n = CDir e)"
  "node_object_id n = Some oid \<longleftrightarrow> node_contents n = CFile oid"
  by (cases "node_contents n"; simp add: node_object_id_def)+

lemma tlook_Nil [simp]: "tlook d [] = None"
  by (simp add: tlook_def)

lemma tlook_single [simp]: "tlook d [c] = map_option shallow (map_of d c)"
  by (cases "map_of d c") (auto simp: tlook_def)

lemma tlook_Cons:
  "tlook d (c # cs) =
     (if cs = [] then map_option shallow (map_of d c)
      else case map_of d c of
             Some n \<Rightarrow> (case node_contents n of CDir e \<Rightarrow> tlook e cs | CFile _ \<Rightarrow> None)
           | None \<Rightarrow> None)"
  by (cases "map_of d c") (auto simp: tlook_def split: contents.splits)

lemma tlook_iff: "tlook d cs = Some e \<longleftrightarrow> (\<exists>n. find_node d cs = Inr n \<and> e = shallow n)"
  by (auto simp: tlook_def split: sum.splits)

lemma find_directory_append:
  "find_directory d (cs @ ds) = rbind (find_directory d cs) (\<lambda>e. find_directory e ds)"
  by (induction d cs rule: find_directory.induct)
    (auto simp: rbind_def ok_or_def split: sum.splits option.splits contents.splits)

lemma find_node_in:
  "find_node d (cs @ [c]) = rbind (find_directory d cs) (\<lambda>e. ok_or (map_of e c) NotFound)"
proof (induction cs arbitrary: d)
  case (Cons x cs)
  then show ?case by (auto simp: rbind_def ok_or_def split: sum.splits option.splits contents.splits)
qed (auto simp: rbind_def ok_or_def split: option.splits)

lemma find_directory_iff:
  "find_directory d cs = Inr e \<longleftrightarrow>
     (if cs = [] then e = d else \<exists>n. find_node d cs = Inr n \<and> node_contents n = CDir e)"
proof (induction cs arbitrary: d)
  case (Cons c cs)
  then show ?case by (cases "map_of d c") (auto simp: rbind_Inr_iff split: contents.splits)
qed auto

lemma tlook_append:
  "find_directory d cs = Inr e \<Longrightarrow> q \<noteq> [] \<Longrightarrow> tlook d (cs @ q) = tlook e q"
proof (induction cs arbitrary: d)
  case (Cons c cs)
  then show ?case by (auto simp: find_directory_Cons_iff tlook_Cons simp del: find_directory.simps)
qed simp

lemma tlook_below_leaf:
  assumes "\<nexists>e. find_directory d cs = Inr e" "q \<noteq> []"
  shows "tlook d (cs @ q) = None"
  using assms
proof (induction cs arbitrary: d)
  case (Cons c cs)
  show ?case
  proof (cases "map_of d c")
    case (Some n)
    show ?thesis
    proof (cases "node_contents n")
      case (CDir e)
      with Cons Some show ?thesis by (simp add: tlook_Cons)
    qed (use Some Cons.prems in \<open>simp add: tlook_Cons\<close>)
  qed (simp add: tlook_Cons)
qed simp

lemma tlook_is_directory:
  "cs \<noteq> [] \<Longrightarrow> (\<exists>e. find_directory d cs = Inr e) \<longleftrightarrow> (\<exists>m. tlook d cs = Some (m, None))"
  by (auto simp: find_directory_iff tlook_iff shallow_def node_object_id_simps eq_commute [of None])

subsection \<open>Replacing a directory\<close>

lemma find_directory_mut_error: "find_directory_mut d cs f = Inl x \<longleftrightarrow> find_directory d cs = Inl x"
proof (induction cs arbitrary: d)
  case (Cons c cs)
  show ?case
  proof (cases "map_of d c")
    case (Some n)
    with Cons show ?thesis by (cases "node_contents n") (auto simp: rbind_Inl_iff)
  qed simp
qed simp

lemma find_directory_mut_iff:
  "(\<exists>d'. find_directory_mut d cs f = Inr d') \<longleftrightarrow> (\<exists>e. find_directory d cs = Inr e)"
  by (metis find_directory_mut_error sum.exhaust sum.distinct(1))

lemma find_directory_mut_look:
  assumes "find_directory_mut d cs f = Inr d'" "find_directory d cs = Inr e"
  shows "tlook d' p =
    (if is_within p cs \<and> p \<noteq> cs then tlook (f e) (drop (length cs) p) else tlook d p)"
  using assms
proof (induction cs arbitrary: d d' p)
  case Nil
  then show ?case by (cases p) (simp_all add: is_within_def)
next
  case (Cons c cs)
  then obtain n ch ch' where n: "map_of d c = Some n" "node_contents n = CDir ch"
    "find_directory_mut ch cs f = Inr ch'" "d' = bt_insert c (Node (node_meta n) (CDir ch')) d"
    by (auto simp: find_directory_mut_Cons_iff simp del: find_directory_mut.simps)
  then have dir: "find_directory ch cs = Inr e" using Cons.prems by simp
  show ?case
  proof (cases p)
    case (Cons x q)
    then show ?thesis
      using n Cons.IH [OF n(3) dir, of q]
      by (cases "x = c") (auto simp: tlook_Cons is_within_def shallow_def node_object_id_def)
  qed (simp add: is_within_def)
qed

lemma find_directory_mut_directory:
  assumes "find_directory_mut d cs f = Inr d'" "find_directory d cs = Inr e"
  shows "find_directory d' (cs @ q) = find_directory (f e) q"
  using assms
proof (induction cs arbitrary: d d')
  case (Cons c cs)
  then show ?case by (auto simp: find_directory_mut_Cons_iff simp del: find_directory_mut.simps)
qed auto

text \<open>A directory elsewhere in the tree is kept, or is an ancestor whose entry for the next step is
  replaced by a node with the same metadata.\<close>

lemma find_directory_mut_elsewhere:
  assumes "find_directory_mut d cs f = Inr d'" "find_directory d cs = Inr e"
    and "find_directory d' q = Inr a'" "\<not> is_within q cs"
  shows "\<exists>a. find_directory d q = Inr a \<and> (a' = a \<or>
    (\<exists>x n ch. map_of a x = Some n \<and> is_within cs (q @ [x]) \<and> (\<exists>b. node_contents n = CDir b) \<and>
       a' = bt_insert x (Node (node_meta n) (CDir ch)) a))"
  using assms
proof (induction cs arbitrary: d d' q)
  case (Cons c cs)
  then obtain n ch ch' where n: "map_of d c = Some n" "node_contents n = CDir ch"
    "find_directory_mut ch cs f = Inr ch'" "d' = bt_insert c (Node (node_meta n) (CDir ch')) d"
    by (auto simp: find_directory_mut_Cons_iff simp del: find_directory_mut.simps)
  then have dir: "find_directory ch cs = Inr e" using Cons.prems by simp
  show ?case
  proof (cases q)
    case Nil
    with Cons.prems n show ?thesis by (auto simp: is_within_def)
  next
    case (Cons x r)
    show ?thesis
    proof (cases "x = c")
      case True
      with Cons Cons.prems n have "find_directory ch' r = Inr a'" "\<not> is_within r cs"
        by (auto simp: is_within_def)
      from Cons.IH [OF n(3) dir this] show ?thesis using Cons True n by (auto simp: is_within_def)
    qed (use Cons Cons.prems n in \<open>auto simp: find_directory_Cons_iff simp del: find_directory.simps\<close>)
  qed
qed (simp add: is_within_def)

text \<open>What a path below an entry of a directory names.\<close>

fun below :: "node \<Rightarrow> component list \<Rightarrow> (node_metadata \<times> object_id option) option" where
  "below n [] = Some (shallow n)"
| "below n (c # cs) = (case node_contents n of CDir ch \<Rightarrow> tlook ch (c # cs) | CFile _ \<Rightarrow> None)"

definition leaf :: "node \<Rightarrow> bool" where
  "leaf n \<longleftrightarrow> (case node_contents n of CDir ch \<Rightarrow> ch = [] | CFile _ \<Rightarrow> True)"

lemma leaf_below: "leaf n \<Longrightarrow> below n q = (if q = [] then Some (shallow n) else None)"
  by (cases q) (auto simp: leaf_def tlook_Cons split: contents.splits)

lemma tlook_entry: "tlook e (x # q) = (case map_of e x of None \<Rightarrow> None | Some n \<Rightarrow> below n q)"
  by (cases q) (auto simp: tlook_Cons split: option.splits contents.splits)

lemma tlook_child:
  assumes "find_directory d cs = Inr e"
  shows "tlook d (cs @ name # q) = (case map_of e name of None \<Rightarrow> None | Some n \<Rightarrow> below n q)"
  using tlook_append [OF assms, of "name # q"] by (simp add: tlook_entry)

lemma strictly_within:
  "is_within p cs \<and> p \<noteq> cs \<longleftrightarrow> (\<exists>x q. p = cs @ x # q)"
  by (auto simp: is_within_iff) (metis neq_Nil_conv)

lemma tlook_update:
  assumes "find_directory_mut d cs f = Inr d'" "find_directory d cs = Inr e"
    and upd: "map_of (f e) = (map_of e)(name := v)"
  shows "tlook d' p =
    (if is_within p (cs @ [name]) then Option.bind v (\<lambda>n. below n (drop (Suc (length cs)) p))
     else tlook d p)"
proof (cases "is_within p cs \<and> p \<noteq> cs")
  case True
  then obtain x q where p: "p = cs @ x # q" using strictly_within by blast
  then show ?thesis
    using find_directory_mut_look [OF assms(1,2), of p] tlook_child [OF assms(2), of x q] upd
    by (auto simp: tlook_entry is_within_iff split: option.split)
next
  case False
  then have "\<not> is_within p (cs @ [name])" by (auto simp: is_within_iff)
  with False find_directory_mut_look [OF assms(1,2), of p] show ?thesis by auto
qed

lemmas tlook_insert = tlook_update [where f = "bt_insert k n" and name = k and v = "Some n" for k n,
  simplified]
lemmas tlook_remove = tlook_update [where f = "bt_remove k" and name = k and v = None for k, simplified]

subsection \<open>The namespace of a tree\<close>

lemma tree_ns_home [simp]: "tree_ns d (home_path cs) = map_option (entry_ck (home_path cs)) (tlook d cs)"
  by (simp add: tree_ns_def)

lemma tree_ns_outside: "p = [] \<or> hd p \<noteq> ascii ''home'' \<Longrightarrow> tree_ns d p = None"
  by (auto simp: tree_ns_def split: list.splits)

lemma tree_ns_eqI:
  assumes "\<And>cs. N (home_path cs) = map_option (entry_ck (home_path cs)) (tlook d cs)"
    and "\<And>p. p = [] \<or> hd p \<noteq> ascii ''home'' \<Longrightarrow> N p = None"
  shows "tree_ns d = N"
proof
  fix p
  show "tree_ns d p = N p" using assms by (cases p) (auto simp: tree_ns_def)
qed

lemma HOME_home: "HOME = home_path []"
  by (simp add: HOME_def)

lemma entry_ck_simps [simp]:
  "ck_path (entry_ck p x) = p" "ck_is_directory (entry_ck p x) \<longleftrightarrow> snd x = None"
  "ck_generation (entry_ck p x) = nm_generation (fst x)"
  by (simp_all add: entry_ck_def split: option.splits)

lemma has_parent_tree:
  "has_parent (tree_ns d) (home_path (cs @ [name])) \<longleftrightarrow> (\<exists>e. find_directory d cs = Inr e)"
proof (cases "cs = []")
  case False
  then have "butlast (home_path (cs @ [name])) = home_path cs" "home_path cs \<noteq> HOME"
    by (simp_all add: butlast_append HOME_home)
  moreover have "(\<exists>g. tree_ns d (home_path cs) = Some (CkDirectory (home_path cs) g)) \<longleftrightarrow>
      (\<exists>m. tlook d cs = Some (m, None))"
    by (auto simp: entry_ck_def split: option.splits)
  ultimately show ?thesis using tlook_is_directory [OF False, of d] by (simp add: has_parent_def)
qed (simp add: has_parent_def HOME_home)

lemma tree_ns_insert:
  assumes "find_directory_mut d cs (bt_insert name n) = Inr d'" "find_directory d cs = Inr e"
    "leaf n" "case map_of e name of None \<Rightarrow> True | Some old \<Rightarrow> leaf old"
  shows "tree_ns d' = (tree_ns d)(home_path (cs @ [name]) \<mapsto> entry_ck (home_path (cs @ [name])) (shallow n))"
proof (rule tree_ns_eqI)
  fix p
  have "tlook d (cs @ name # q) = None" if "q \<noteq> []" for q
    using that assms(4) tlook_child [OF assms(2), of name q] by (auto simp: leaf_below split: option.splits)
  then show "((tree_ns d)(home_path (cs @ [name]) \<mapsto> entry_ck (home_path (cs @ [name])) (shallow n)))
      (home_path p) = map_option (entry_ck (home_path p)) (tlook d' p)"
    using assms(3) tlook_insert [OF assms(1,2), where p = p] by (auto simp: is_within_iff leaf_below)
qed (auto simp: tree_ns_outside)

lemma tree_ns_remove:
  assumes "find_directory_mut d cs (bt_remove name) = Inr d'" "find_directory d cs = Inr e"
    "map_of e name = Some n" "leaf n"
  shows "tree_ns d' = (tree_ns d)(home_path (cs @ [name]) := None)"
proof (rule tree_ns_eqI)
  fix p
  have below: "q = [] \<or> tlook d (cs @ name # q) = None" for q
    using assms(3,4) tlook_child [OF assms(2), of name q] by (simp add: leaf_below)
  show "((tree_ns d)(home_path (cs @ [name]) := None)) (home_path p) =
      map_option (entry_ck (home_path p)) (tlook d' p)"
    using tlook_remove [OF assms(1,2), where p = p] below [of "drop (Suc (length cs)) p"]
    by (auto simp: is_within_iff)
qed (auto simp: tree_ns_outside)

lemma ck_with_path_entry:
  "ck_with_path (entry_ck p x) q g = entry_ck q ((fst x)\<lparr>nm_generation := g\<rparr>, snd x)"
  by (simp add: entry_ck_def split: option.split)

lemma tree_ns_rename:
  assumes rm: "find_directory_mut d sp (bt_remove sn) = Inr d1" and se: "find_directory d sp = Inr se"
    and n: "map_of se sn = Some n" and out: "\<not> is_within (dp @ [dn]) (sp @ [sn])"
    and ins: "find_directory_mut d1 dp (bt_insert dn
        (Node ((node_meta n)\<lparr>nm_generation := g\<rparr>) (node_contents n)) \<circ> bt_remove dn) = Inr d2"
  shows "tree_ns d2 = ns_rename (home_path (sp @ [sn])) (home_path (dp @ [dn])) g (tree_ns d)"
proof (rule tree_ns_eqI)
  let ?n = "Node ((node_meta n)\<lparr>nm_generation := g\<rparr>) (node_contents n)"
  obtain de where de: "find_directory d1 dp = Inr de" using ins find_directory_mut_iff by blast
  have look: "tlook d2 p = (if is_within p (dp @ [dn]) then below ?n (drop (Suc (length dp)) p)
      else if is_within p (sp @ [sn]) then None else tlook d p)" for p
    using tlook_update [OF ins de, of dn "Some ?n" p] tlook_remove [OF rm se, where p = p] by simp
  have keep: "below ?n q = below n q" if "q \<noteq> []" for q
    using that by (cases q) (auto split: contents.split)
  have gen: "below ?n [] = Some ((node_meta n)\<lparr>nm_generation := g\<rparr>, node_object_id n)"
    by (simp add: shallow_def node_object_id_def)
  fix p
  show "ns_rename (home_path (sp @ [sn])) (home_path (dp @ [dn])) g (tree_ns d) (home_path p) =
      map_option (entry_ck (home_path p)) (tlook d2 p)"
  proof (cases "is_within p (dp @ [dn])")
    case True
    then obtain q where p: "p = dp @ dn # q" by (auto simp: is_within_iff)
    have lk: "tlook d (sp @ sn # q) = below n q" using tlook_child [OF se, of sn q] n by simp
    show ?thesis
      using p lk keep [of q] gen ns_rename_within [of _ "home_path (dp @ [dn])" g "tree_ns d" q]
      by (cases "q = []") (auto simp: look is_within_iff ck_with_path_entry shallow_def
          option.map_comp comp_def intro!: option.map_cong)
  next
    case False
    then show ?thesis by (auto simp: look ns_rename_def is_within_iff)
  qed
next
  fix p :: virtual_path
  assume "p = [] \<or> hd p \<noteq> ascii ''home''"
  then show "ns_rename (home_path (sp @ [sn])) (home_path (dp @ [dn])) g (tree_ns d) p = None"
    by (auto simp: ns_rename_def is_within_iff tree_ns_outside)
qed

subsection \<open>Updating through a node\<close>

lemma find_node_mut_const:
  "find_node_mut d (cs @ [c]) (\<lambda>_. v) =
     rbind (find_node d (cs @ [c])) (\<lambda>_. find_directory_mut d cs (bt_insert c v))"
proof (induction cs arbitrary: d)
  case Nil
  then show ?case by (cases "map_of d c") auto
next
  case (Cons x cs)
  show ?case
  proof (cases "map_of d x")
    case (Some n)
    with Cons show ?thesis
      by (cases "node_contents n") (auto simp: rbind_def split: sum.splits)
  qed simp
qed

subsection \<open>Ordered directories\<close>

definition dirs_ok :: "directory \<Rightarrow> bool" where
  "dirs_ok d \<longleftrightarrow> (\<forall>cs e. find_directory d cs = Inr e \<longrightarrow> bt_ok e)"

lemma dirs_ok_Nil [simp]: "dirs_ok []"
proof -
  have "e = []" if "find_directory [] cs = Inr e" for cs e using that by (cases cs) auto
  then show ?thesis unfolding dirs_ok_def using bt_ok_Nil by metis
qed

lemma dirs_okD: "dirs_ok d \<Longrightarrow> find_directory d cs = Inr e \<Longrightarrow> bt_ok e \<and> dirs_ok e"
  by (auto simp: dirs_ok_def) (metis find_directory_append rbind_simps(2))

lemma dirs_ok_mut:
  assumes "dirs_ok d" "find_directory_mut d cs f = Inr d'" "find_directory d cs = Inr e" "dirs_ok (f e)"
  shows "dirs_ok d'"
  unfolding dirs_ok_def
proof (intro allI impI)
  fix q a
  assume a: "find_directory d' q = Inr a"
  show "bt_ok a"
  proof (cases "is_within q cs")
    case True
    then obtain r where "q = cs @ r" by (auto simp: is_within_iff)
    with a assms(4) find_directory_mut_directory [OF assms(2,3), of r] show ?thesis
      by (auto simp: dirs_ok_def)
  next
    case False
    with find_directory_mut_elsewhere [OF assms(2,3) a] assms(1) show ?thesis
      by (auto simp: dirs_ok_def)
  qed
qed

lemma dirs_ok_ConsI:
  assumes "bt_ok e"
    and "\<And>x n ch q a. map_of e x = Some n \<Longrightarrow> node_contents n = CDir ch \<Longrightarrow>
      find_directory ch q = Inr a \<Longrightarrow> bt_ok a"
  shows "dirs_ok e"
  unfolding dirs_ok_def
proof (intro allI impI)
  fix q a
  assume "find_directory e q = Inr a"
  then show "bt_ok a"
  proof (cases q)
    case (Cons x r)
    with \<open>find_directory e q = Inr a\<close> show ?thesis
      using assms(2) find_directory_Cons_iff by metis
  qed (use assms(1) in simp)
qed

lemma dirs_ok_entry_dir:
  "dirs_ok e \<Longrightarrow> map_of e x = Some n \<Longrightarrow> node_contents n = CDir ch \<Longrightarrow> find_directory ch q = Inr a \<Longrightarrow>
     bt_ok a"
  using find_directory_Cons_iff [of e x q a] unfolding dirs_ok_def by blast

lemma dirs_ok_bt: "dirs_ok e \<Longrightarrow> bt_ok e"
  using find_directory.simps(1) unfolding dirs_ok_def by blast

lemma dirs_ok_insert:
  assumes "dirs_ok e" "case node_contents n of CDir ch \<Rightarrow> dirs_ok ch | CFile _ \<Rightarrow> True"
  shows "dirs_ok (bt_insert name n e)"
proof (rule dirs_ok_ConsI)
  fix x m ch q a
  assume a: "map_of (bt_insert name n e) x = Some m" "node_contents m = CDir ch"
    "find_directory ch q = Inr a"
  show "bt_ok a"
  proof (cases "x = name")
    case True
    with a assms(2) show ?thesis by (auto simp: dirs_ok_def)
  next
    case False
    with a(1) have "map_of e x = Some m" by simp
    from dirs_ok_entry_dir [OF assms(1) this a(2,3)] show ?thesis .
  qed
qed (use dirs_ok_bt [OF assms(1)] in simp)

lemma dirs_ok_remove:
  assumes "dirs_ok e"
  shows "dirs_ok (bt_remove name e)"
proof (rule dirs_ok_ConsI)
  fix x m ch q a
  assume a: "map_of (bt_remove name e) x = Some m" "node_contents m = CDir ch"
    "find_directory ch q = Inr a"
  then have "map_of e x = Some m" by (simp split: if_splits)
  from dirs_ok_entry_dir [OF assms(1) this a(2,3)] show "bt_ok a" .
qed (use dirs_ok_bt [OF assms(1)] in simp)

lemma dirs_ok_entry:
  "dirs_ok e \<Longrightarrow> map_of e name = Some n \<Longrightarrow>
     (case node_contents n of CDir ch \<Rightarrow> dirs_ok ch | CFile _ \<Rightarrow> True)"
  using dirs_okD [of e "[name]"] by (auto split: contents.splits)

text \<open>The entries of a directory are the children of its path in the namespace.\<close>

lemma ns_children_tree:
  assumes "dirs_ok d" "find_directory d cs = Inr e"
  shows "card (ns_children (tree_ns d) (home_path cs)) = length e"
proof -
  have "bt_ok e" using dirs_okD [OF assms] by simp
  have "ns_children (tree_ns d) (home_path cs) = (\<lambda>name. home_path (cs @ [name])) ` dom (map_of e)"
    (is "?C = ?I")
  proof (intro subset_antisym subsetI)
    fix p
    assume "p \<in> ?C"
    then have p: "p \<in> dom (tree_ns d)" "p \<noteq> []" "butlast p = home_path cs"
      by (auto simp: ns_children_def path_parent_butlast split: if_splits)
    obtain name where name: "p = home_path (cs @ [name])"
      using p(2,3) append_butlast_last_id [of p] by (metis append_Cons)
    have "map_of e name \<noteq> None"
    proof
      assume "map_of e name = None"
      then have "tlook d (cs @ [name]) = None" using tlook_child [OF assms(2), of name "[]"] by simp
      with p(1) name show False by (simp add: domIff)
    qed
    then show "p \<in> ?I" using name by (simp add: domIff image_iff)
  next
    fix p
    assume "p \<in> ?I"
    then obtain name n where n: "map_of e name = Some n" "p = home_path (cs @ [name])" by blast
    with tlook_child [OF assms(2), of name "[]"] show "p \<in> ?C"
      by (simp add: ns_children_def path_parent_butlast butlast_append domIff)
  qed
  moreover have "inj_on (\<lambda>name. home_path (cs @ [name])) (dom (map_of e))" by (auto intro: inj_onI)
  ultimately show ?thesis using length_bt [OF \<open>bt_ok e\<close>] by (simp add: card_image)
qed

end
