(* ===== verification/Fs_Accounting.thy ===== *)
theory Fs_Accounting
  imports Fs_Namespace
begin

text \<open>
  Accounting over a namespace: any weight of its nodes that renaming keeps (the number of nodes, the
  logical bytes, the references to one content object) changes under a journaled operation exactly
  by the node put and the node displaced; and the number of children of every directory stays bounded
  when the one directory that gains an entry has room.
\<close>

definition ns_weight :: "(checkpoint_node \<Rightarrow> nat) \<Rightarrow> namespace \<Rightarrow> nat" where
  "ns_weight w N = (\<Sum>p\<in>dom N. w (the (N p)))"

definition weight_at :: "(checkpoint_node \<Rightarrow> nat) \<Rightarrow> namespace \<Rightarrow> virtual_path \<Rightarrow> nat" where
  "weight_at w N p = (case N p of None \<Rightarrow> 0 | Some n \<Rightarrow> w n)"

text \<open>The weight that an operation puts into the namespace, and the weight that it displaces.\<close>

definition op_gain :: "(checkpoint_node \<Rightarrow> nat) \<Rightarrow> journal_operation \<Rightarrow> nat \<Rightarrow> nat" where
  "op_gain w op g =
     (case op of
        JCreateDirectory p _ \<Rightarrow> w (CkDirectory p g)
      | JPutFile p _ n oid x \<Rightarrow> w (CkFile p g n oid x)
      | _ \<Rightarrow> 0)"

definition op_target :: "journal_operation \<Rightarrow> virtual_path" where
  "op_target op =
     (case op of JCreateDirectory p _ \<Rightarrow> p | JPutFile p _ _ _ _ \<Rightarrow> p | JRemove p \<Rightarrow> p | JRename _ dst _ \<Rightarrow> dst)"

lemma ns_weight_remove:
  assumes "finite (dom N)"
  shows "ns_weight w N = ns_weight w (N(p := None)) + weight_at w N p"
proof (cases "N p")
  case (Some n)
  then have "ns_weight w N = w n + (\<Sum>q\<in>dom N - {p}. w (the (N q)))"
    unfolding ns_weight_def using assms by (subst sum.remove [of _ p]) auto
  moreover have "dom (N(p := None)) = dom N - {p}" by auto
  ultimately show ?thesis using Some by (simp add: ns_weight_def weight_at_def)
next
  case None
  then have "N(p := None) = N" by (simp add: fun_upd_idem)
  with None show ?thesis by (simp add: weight_at_def)
qed

lemma ns_weight_put:
  assumes "finite (dom N)"
  shows "ns_weight w (N(p \<mapsto> n)) + weight_at w N p = ns_weight w N + w n"
proof -
  have "finite (dom (N(p \<mapsto> n)))" using assms by simp
  from ns_weight_remove [OF this, of w p] have
    "ns_weight w (N(p \<mapsto> n)) = ns_weight w (N(p := None)) + w n"
    by (simp add: weight_at_def)
  with ns_weight_remove [OF assms, of w p] show ?thesis by simp
qed

text \<open>Nothing lies strictly below the destination of an allowed rename.\<close>

lemma rename_destination_clear:
  assumes "ns_wf N" "ns_allowed (JRename src dst replace) g N" "N (dst @ r) = Some n"
  shows "r = []"
proof (rule ccontr)
  assume r: "r \<noteq> []"
  have par: "has_parent N dst" and rep: "ns_replaceable N src dst replace"
    using assms(2) by (auto simp: ns_allowed_def)
  have "dst \<noteq> []" "dst \<noteq> HOME" using has_parent_not_HOME [OF assms(1) par] by auto
  with ancestor_is_directory [OF assms(1,3) r] obtain h where h: "N dst = Some (CkDirectory dst h)" by auto
  moreover have "ns_has_descendant N dst"
    using assms(3) r unfolding ns_has_descendant_def by (metis is_within_append self_append_conv)
  ultimately show False using rep by (simp add: ns_replaceable_def)
qed

lemma ns_weight_rename:
  assumes wf: "ns_wf N" and al: "ns_allowed (JRename src dst replace) g N"
    and inv: "\<And>n p h. w (ck_with_path n p h) = w n"
  shows "ns_weight w (ns_rename src dst g N) + weight_at w N dst = ns_weight w N"
proof -
  let ?M = "N(dst := None)" and ?R = "ns_rename src dst g N"
  let ?f = "\<lambda>p. if is_within p src then dst @ drop (length src) p else p"
  let ?b = "\<lambda>p. if is_within p dst then src @ drop (length dst) p else p"
  have out: "\<not> is_within dst src" using al by (auto simp: ns_allowed_def)
  have clear: "\<not> is_within p dst" if "p \<in> dom ?M" for p
    using that rename_destination_clear [OF wf al] by (auto simp: is_within_iff split: if_splits)
  have look: "?R (?f p) = map_option (\<lambda>n. if is_within p src
      then ck_with_path n (?f p) (if p = src then g else ck_generation n) else n) (N p)"
    if "\<not> is_within p dst" for p
    using that by (auto simp: is_within_iff ns_rename_within ns_rename_outside option.map_ident)
  have keep: "weight_at w ?R (?f p) = weight_at w N p" if "\<not> is_within p dst" for p
    using look [OF that] inv by (cases "N p") (auto simp: weight_at_def)
  have present: "?M q = N q \<and> N q \<noteq> None" if "q \<in> dom ?M" for q
    using that by (auto simp: domIff split: if_splits)
  have "ns_weight w ?R = ns_weight w ?M"
    unfolding ns_weight_def
  proof (rule sum.reindex_bij_witness [of _ ?f ?b])
    fix p
    assume p: "p \<in> dom ?R"
    show fb: "?f (?b p) = p"
      using p by (auto simp: is_within_iff ns_rename_def split: if_splits)
    show b: "?b p \<in> dom ?M"
    proof (cases "is_within p dst")
      case True
      then obtain r where r: "p = dst @ r" by (auto simp: is_within_iff)
      with p have "src @ r \<in> dom N" by (auto simp: ns_rename_within)
      moreover have "src @ r \<noteq> dst" using out by auto
      ultimately show ?thesis using r by auto
    next
      case False
      with p show ?thesis by (auto simp: ns_rename_def split: if_splits)
    qed
    have "weight_at w ?R p = weight_at w N (?b p)"
      using keep [OF clear [OF b]] unfolding fb .
    then show "w (the (?M (?b p))) = w (the (?R p))"
      using p present [OF b] by (auto simp only: weight_at_def domIff option.sel split: option.splits)
  next
    fix p
    assume p: "p \<in> dom ?M"
    have c: "\<not> is_within p dst" using clear [OF p] .
    show "?b (?f p) = p" using c by (auto simp: is_within_iff)
    show "?f p \<in> dom ?R" using look [OF c] p by (auto simp: domIff split: if_splits)
  qed
  with ns_weight_remove [of N w dst] wf show ?thesis by (simp add: ns_wf_def)
qed

lemma ns_weight_apply:
  assumes "ns_wf N" "ns_allowed op g N" "\<And>n p h. w (ck_with_path n p h) = w n"
  shows "ns_weight w (ns_apply op g N) + weight_at w N (op_target op) = ns_weight w N + op_gain w op g"
proof -
  have fin: "finite (dom N)" using assms(1) by (simp add: ns_wf_def)
  show ?thesis
  proof (cases op)
    case (JRename src dst replace)
    with ns_weight_rename [OF assms(1) _ assms(3)] assms(2) show ?thesis
      by (simp add: ns_apply_def op_target_def op_gain_def)
  qed (use ns_weight_put [OF fin, of w] ns_weight_remove [OF fin, of w] in
      \<open>simp_all add: ns_apply_def op_target_def op_gain_def\<close>)
qed

lemma card_is_weight: "card (dom N) = ns_weight (\<lambda>_. 1) N"
  by (simp add: ns_weight_def)

lemma size_is_weight: "ns_size N = ns_weight ck_size N"
  by (simp add: ns_size_def ns_weight_def)

subsection \<open>Children\<close>

definition child_names :: "namespace \<Rightarrow> virtual_path \<Rightarrow> component set" where
  "child_names N q = {x. N (q @ [x]) \<noteq> None}"

lemma card_children: "card (ns_children N q) = card (child_names N q)"
proof -
  have "ns_children N q = (\<lambda>x. q @ [x]) ` child_names N q"
    by (auto simp: ns_children_def child_names_def path_parent_butlast image_iff split: if_splits)
      (metis append_butlast_last_id option.distinct(1))
  then show ?thesis by (simp add: card_image inj_on_def)
qed

lemma finite_child_names: "finite (dom N) \<Longrightarrow> finite (child_names N q)"
proof -
  assume "finite (dom N)"
  moreover have "(\<lambda>x. q @ [x]) ` child_names N q \<subseteq> dom N" by (auto simp: child_names_def)
  ultimately have "finite ((\<lambda>x. q @ [x]) ` child_names N q)" by (rule rev_finite_subset)
  then show ?thesis by (rule finite_imageD) (simp add: inj_on_def)
qed

definition op_has_room :: "nat \<Rightarrow> journal_operation \<Rightarrow> namespace \<Rightarrow> bool" where
  "op_has_room k op N \<longleftrightarrow>
     (case op of JRemove _ \<Rightarrow> True
      | _ \<Rightarrow> N (op_target op) = None \<longrightarrow> card (ns_children N (butlast (op_target op))) < k)"

lemma child_names_apply:
  assumes "ns_wf N" "ns_allowed op g N"
  shows "\<exists>r. child_names (ns_apply op g N) q \<subseteq>
    (if op_target op \<noteq> [] \<and> q = butlast (op_target op) \<and> \<not> (\<exists>p. op = JRemove p)
     then insert (last (op_target op)) (child_names N q) else child_names N r)"
proof (cases op)
  case (JRename src dst replace)
  have dst: "dst \<noteq> []" using assms JRename has_parent_not_HOME [OF assms(1)] by (auto simp: ns_allowed_def)
  have new: "x = last dst \<and> q = butlast dst" if inside: "is_within (q @ [x]) dst" "\<not> is_within q dst" for x
  proof -
    obtain r where r: "q @ [x] = dst @ r" using inside(1) by (auto simp: is_within_iff)
    with inside(2) have "r = []" by (cases r rule: rev_cases) (auto simp: is_within_iff)
    with r show ?thesis by (metis append_Nil2 butlast_snoc last_snoc)
  qed
  show ?thesis
  proof (cases "is_within q dst")
    case True
    then obtain r where q: "q = dst @ r" by (auto simp: is_within_iff)
    have "q \<noteq> butlast dst" using q dst
      by (metis append_butlast_last_id append_is_Nil_conv append_self_conv append_assoc not_Cons_self2)
    moreover have "child_names (ns_apply op g N) q \<subseteq> child_names N (src @ r)"
      using q JRename ns_rename_within [of src dst g N "r @ [x]" for x]
      by (auto simp: child_names_def ns_apply_def)
    ultimately show ?thesis using JRename by (auto simp: op_target_def)
  next
    case False
    have "N (q @ [x]) \<noteq> None \<or> (x = last dst \<and> q = butlast dst)"
      if "ns_rename src dst g N (q @ [x]) \<noteq> None" for x
      using that new [OF _ False, of x] by (auto simp: ns_rename_def split: if_splits)
    then show ?thesis using JRename dst
      by (auto simp: child_names_def ns_apply_def op_target_def)
  qed
qed (auto simp: child_names_def ns_apply_def op_target_def snoc_eq_iff_butlast split: if_splits)

lemma ns_children_apply:
  assumes "ns_wf N" "ns_allowed op g N" "op_has_room k op N"
    and "\<And>q. card (ns_children N q) \<le> k"
  shows "card (ns_children (ns_apply op g N) q) \<le> k"
proof -
  have fin: "finite (child_names N r)" for r using assms(1) finite_child_names by (auto simp: ns_wf_def)
  have bound: "card (child_names N r) \<le> k" for r using assms(4) [of r] by (simp add: card_children)
  let ?t = "op_target op"
  from child_names_apply [OF assms(1,2), of q] obtain r where
    sub: "child_names (ns_apply op g N) q \<subseteq>
      (if ?t \<noteq> [] \<and> q = butlast ?t \<and> \<not> (\<exists>p. op = JRemove p)
       then insert (last ?t) (child_names N q) else child_names N r)" ..
  show ?thesis
  proof (cases "?t \<noteq> [] \<and> q = butlast ?t \<and> \<not> (\<exists>p. op = JRemove p) \<and> N ?t = None")
    case True
    with assms(3) have "card (child_names N q) < k"
      by (auto simp: op_has_room_def card_children split: journal_operation.splits)
    moreover have "card (child_names (ns_apply op g N) q) \<le> card (insert (last ?t) (child_names N q))"
      using sub True fin by (auto intro!: card_mono)
    moreover have "card (insert (last ?t) (child_names N q)) \<le> Suc (card (child_names N q))"
      by (simp add: card_insert_if fin)
    ultimately show ?thesis by (simp add: card_children)
  next
    case False
    then have "last ?t \<in> child_names N q" if "?t \<noteq> []" "q = butlast ?t" "\<not> (\<exists>p. op = JRemove p)"
      using that by (simp add: child_names_def)
    then have "\<exists>r. child_names (ns_apply op g N) q \<subseteq> child_names N r"
      using sub by (auto split: if_splits)
    then obtain r' where "child_names (ns_apply op g N) q \<subseteq> child_names N r'" ..
    from card_mono [OF fin this] bound [of r'] show ?thesis by (simp add: card_children)
  qed
qed

end
