(* ===== verification/Fs_Transactions.thy ===== *)
theory Fs_Transactions
  imports Fs_Lookup Fs_Accounting
begin

text \<open>
  Every mutation of the live filesystem is a transaction: a run of checks that read the state, the
  reservation of a place in the persistence queue, the update, and the publication of the journal
  record. \<open>tx\<close> is a small Hoare logic for that shape: a failing run leaves the state as it was and
  never panics. The reservation, the drop on error and the publication are summarised by
  \<open>persist_result\<close>, and the reference counts of the object store by \<open>obj_ok\<close>.
\<close>

subsection \<open>Reservation and publication\<close>

definition queue_append :: "command \<Rightarrow> queue_state \<Rightarrow> queue_state" where
  "queue_append c q = q\<lparr>
     qs_queued_bytes := qs_queued_bytes q + byte_cost c,
     qs_admitted := (case c of
         CmdMutation m \<Rightarrow> bt_insert (mc_computer_id m) (mc_generation m) (qs_admitted q)
       | _ \<Rightarrow> qs_admitted q),
     qs_queue := qs_queue q @ [c]\<rparr>"

lemma publish_reserved:
  assumes "queue_reserve (byte_cost c) q = (Inr r, q')"
  shows "queue_publish r c q' = queue_append c q"
  using assms by (auto simp: queue_reserve_iff queue_publish_def queue_append_def split: command.split)

lemma release_reserved:
  assumes "queue_reserve cost q = (Inr r, q')"
  shows "queue_release r q' = q"
  using assms by (auto simp: queue_reserve_iff queue_release_def)

definition mutation_bytes ::
  "sha256 \<Rightarrow> nat \<Rightarrow> journal_operation \<Rightarrow> computer_persistence \<Rightarrow> codec_error + bytes" where
  "mutation_bytes sha g op c =
     rbind (journal_record_new (cp_computer_id c) g (g - 1) op) (\<lambda>r. record_encode sha r (cp_limits c))"

definition mutation_of ::
  "nat \<Rightarrow> (object_id \<times> bytes) option \<Rightarrow> bytes \<Rightarrow> computer_persistence \<Rightarrow> command" where
  "mutation_of g object journal c = CmdMutation \<lparr>mc_computer_id = cp_computer_id c,
     mc_generation = g, mc_object = object, mc_journal = journal\<rparr>"

definition persist_result ::
  "sha256 \<Rightarrow> nat \<Rightarrow> (object_id \<times> bytes) option \<Rightarrow> journal_operation \<Rightarrow> computer_persistence option
    \<Rightarrow> filesystem_error + computer_persistence option" where
  "persist_result sha g object op p =
     (case p of
        None \<Rightarrow> Inr None
      | Some c \<Rightarrow>
          rbind (map_err codec_to_filesystem (mutation_bytes sha g op c)) (\<lambda>journal.
          rbind (fst (queue_reserve (byte_cost (mutation_of g object journal c)) (cp_gate c))) (\<lambda>_.
          Inr (Some (c\<lparr>cp_gate := queue_append (mutation_of g object journal c) (cp_gate c)\<rparr>)))))"

lemma persistence_prepare_eq:
  "persistence_prepare sha g object op c =
     (case map_err codec_to_filesystem (mutation_bytes sha g op c) of
        Inl e \<Rightarrow> (Inl e, c)
      | Inr journal \<Rightarrow>
          (case queue_reserve (byte_cost (mutation_of g object journal c)) (cp_gate c) of
             (Inl e, q) \<Rightarrow> (Inl e, c\<lparr>cp_gate := q\<rparr>)
           | (Inr k, q) \<Rightarrow>
               (Inr \<lparr>pm_reservation = k, pm_command = mutation_of g object journal c\<rparr>, c\<lparr>cp_gate := q\<rparr>)))"
  unfolding persistence_prepare_def mutation_bytes_def mutation_of_def Let_def ..

lemma persistence_update_self: "s\<lparr>cfs_persistence := cfs_persistence s\<rparr> = s"
  by simp

lemma transaction_eq:
  assumes frame: "\<And>p. body (s\<lparr>cfs_persistence := p\<rparr>) = (fst (body s), (snd (body s))\<lparr>cfs_persistence := p\<rparr>)"
  shows "sbind (prepare_persistence sha g object op) (\<lambda>m. sseq (drop_on_error m body) (publish m)) s =
    (case persist_result sha g object op (cfs_persistence s) of
       Inl e \<Rightarrow> (Inl e, s)
     | Inr p \<Rightarrow> (case body s of
         (Inl e, t) \<Rightarrow> (Inl e, t\<lparr>cfs_persistence := cfs_persistence s\<rparr>)
       | (Inr x, t) \<Rightarrow> (Inr (), t\<lparr>cfs_persistence := p\<rparr>)))"
proof (cases "cfs_persistence s")
  case None
  obtain r t where body: "body s = (r, t)" by fastforce
  have "(r, t) = (r, t\<lparr>cfs_persistence := cfs_persistence s\<rparr>)"
    using frame [of "cfs_persistence s"] unfolding persistence_update_self body fst_conv snd_conv .
  then have t: "t\<lparr>cfs_persistence := None\<rparr> = t" unfolding None by simp
  have "prepare_persistence sha g object op s = (Inr None, s)"
    "persist_result sha g object op None = Inr None"
    using None by (simp_all add: prepare_persistence_def persist_result_def)
  with None body t show ?thesis
    by (cases r) (simp_all add: sbind_def sseq_def drop_on_error_def publish_def)
next
  case (Some c)
  note defs = sbind_def prepare_persistence_def persist_result_def persistence_prepare_eq
  show ?thesis
  proof (cases "mutation_bytes sha g op c")
    case (Inl e)
    with Some show ?thesis by (auto simp: defs)
  next
    case (Inr journal)
    let ?c = "mutation_of g object journal c"
    obtain r q where r: "queue_reserve (byte_cost ?c) (cp_gate c) = (r, q)" by fastforce
    show ?thesis
    proof (cases r)
      case (Inl e)
      with r queue_reserve_error have "q = cp_gate c" by blast
      with Some Inr Inl r show ?thesis by (auto simp: defs Let_def)
    next
      case (Inr k)
      let ?p = "c\<lparr>cp_gate := q\<rparr>"
      have prep: "prepare_persistence sha g object op s =
          (Inr (Some \<lparr>pm_reservation = k, pm_command = ?c\<rparr>), s\<lparr>cfs_persistence := Some ?p\<rparr>)"
        using Some \<open>mutation_bytes sha g op c = Inr journal\<close> r Inr by (simp add: defs Let_def)
      have res: "persist_result sha g object op (Some c) =
          Inr (Some (c\<lparr>cp_gate := queue_append ?c (cp_gate c)\<rparr>))"
        using \<open>mutation_bytes sha g op c = Inr journal\<close> r Inr by (simp add: persist_result_def)
      have pub: "queue_publish k ?c q = queue_append ?c (cp_gate c)"
        and rel: "queue_release k q = cp_gate c"
        using publish_reserved release_reserved r Inr by blast+
      show ?thesis
        using frame [of "Some ?p"] Some
        by (cases "body s"; cases "fst (body s)")
          (auto simp: sbind_def prep res sseq_def drop_on_error_def publish_def mutation_publish_def
            mutation_drop_def pub rel)
    qed
  qed
qed

subsection \<open>A logic for transactions\<close>

definition tx :: "computer_fs \<Rightarrow> 'a fs_op \<Rightarrow> ('a \<Rightarrow> computer_fs \<Rightarrow> bool) \<Rightarrow> bool" where
  "tx s m Q \<longleftrightarrow> (case m s of (Inl e, t) \<Rightarrow> t = s \<and> e \<noteq> Panicked | (Inr x, t) \<Rightarrow> Q x t)"

named_theorems tx_intros

lemma tx_read [tx_intros]:
  "(\<And>e. f s = Inl e \<Longrightarrow> e \<noteq> Panicked) \<Longrightarrow> (\<And>x. f s = Inr x \<Longrightarrow> tx s (k x) Q) \<Longrightarrow> tx s (sbind (sread f) k) Q"
  by (cases "f s") (auto simp: tx_def sbind_def)

lemma tx_read_last [tx_intros]:
  "(\<And>e. f s = Inl e \<Longrightarrow> e \<noteq> Panicked) \<Longrightarrow> (\<And>x. f s = Inr x \<Longrightarrow> Q x s) \<Longrightarrow> tx s (sread f) Q"
  by (cases "f s") (auto simp: tx_def)

lemma tx_seq_read [tx_intros]:
  "(\<And>e. f s = Inl e \<Longrightarrow> e \<noteq> Panicked) \<Longrightarrow> (\<And>x. f s = Inr x \<Longrightarrow> tx s m Q) \<Longrightarrow> tx s (sseq (sread f) m) Q"
  unfolding sseq_def by (rule tx_read)

lemma tx_bind [tx_intros]:
  "tx s m (\<lambda>x t. t = s \<and> tx s (k x) Q) \<Longrightarrow> tx s (sbind m k) Q"
  by (cases "m s"; cases "fst (m s)") (auto simp: tx_def sbind_def)

lemma tx_weaken: "tx s m Q \<Longrightarrow> (\<And>x t. Q x t \<Longrightarrow> R x t) \<Longrightarrow> tx s m R"
  by (auto simp: tx_def split: prod.splits sum.splits)

lemma tx_guard:
  "tx s m (\<lambda>_ t. t = s \<and> G) \<Longrightarrow> (\<And>x. G \<Longrightarrow> tx s (k x) Q) \<Longrightarrow> tx s (sbind m k) Q"
  by (rule tx_bind) (auto elim: tx_weaken)

lemma tx_seq_ret: "tx s m (\<lambda>_ t. Q x t) \<Longrightarrow> tx s (sseq m (sret x)) Q"
  by (auto simp: tx_def sseq_def sbind_def split: prod.splits sum.splits)

lemma tx_fail [tx_intros]: "e \<noteq> Panicked \<Longrightarrow> tx s (sfail e) Q"
  by (simp add: tx_def)

lemma tx_ret [tx_intros]: "Q x s \<Longrightarrow> tx s (sret x) Q"
  by (simp add: tx_def)

lemma tx_if [tx_intros]: "(b \<Longrightarrow> tx s m Q) \<Longrightarrow> (\<not> b \<Longrightarrow> tx s n Q) \<Longrightarrow> tx s (if b then m else n) Q"
  by simp

lemma tx_split [tx_intros]: "(\<And>a b. x = (a, b) \<Longrightarrow> tx s (k a b) Q) \<Longrightarrow> tx s (case x of (a, b) \<Rightarrow> k a b) Q"
  by (cases x) simp

lemma tx_let [tx_intros]: "tx s (k x) Q \<Longrightarrow> tx s (let y = x in k y) Q"
  by simp

lemma persist_result_error: "persist_result sha g object op p = Inl e \<Longrightarrow> e \<noteq> Panicked"
proof -
  have "e \<noteq> Panicked" if "fst (queue_reserve c q) = Inl e" for c q
    using that by (auto simp: queue_reserve_def require_active_filesystem_def
        split: store_health.splits option.splits if_splits)
  moreover have "Panicked \<noteq> codec_to_filesystem x" for x
    by (cases x) (simp_all add: codec_to_filesystem_def)
  ultimately show "persist_result sha g object op p = Inl e \<Longrightarrow> e \<noteq> Panicked"
    by (auto simp: persist_result_def rbind_Inl_iff map_err_iff split: option.splits)
qed

lemma tx_transaction:
  assumes "\<And>p. body (s\<lparr>cfs_persistence := p\<rparr>) = (Inr x, t\<lparr>cfs_persistence := p\<rparr>)"
    and "\<And>p. persist_result sha g object op (cfs_persistence s) = Inr p \<Longrightarrow> Q () (t\<lparr>cfs_persistence := p\<rparr>)"
  shows "tx s (sbind (prepare_persistence sha g object op)
    (\<lambda>m. sseq (drop_on_error m body) (publish m))) Q"
proof -
  have self: "body s = (Inr x, t\<lparr>cfs_persistence := cfs_persistence s\<rparr>)"
    using assms(1) [of "cfs_persistence s"] by simp
  have "sbind (prepare_persistence sha g object op) (\<lambda>m. sseq (drop_on_error m body) (publish m)) s =
    (case persist_result sha g object op (cfs_persistence s) of
       Inl e \<Rightarrow> (Inl e, s) | Inr p \<Rightarrow> (Inr (), t\<lparr>cfs_persistence := p\<rparr>))"
    by (subst transaction_eq) (auto simp: assms(1) self split: sum.split)
  then show ?thesis
    using assms(2) persist_result_error [of sha g object op "cfs_persistence s"]
    by (auto simp: tx_def split: sum.splits)
qed

subsection \<open>Reference counts\<close>

definition obj_ok :: "sha256 \<Rightarrow> (object_id \<Rightarrow> nat) \<Rightarrow> object_store \<Rightarrow> bool" where
  "obj_ok sha r st \<longleftrightarrow> (\<forall>oid.
     case map_of st oid of
       None \<Rightarrow> r oid = 0
     | Some stored \<Rightarrow> so_references stored = r oid \<and> 0 < r oid \<and> sha (so_bytes stored) = oid)"

definition obj_bytes :: "object_store \<Rightarrow> object_id \<Rightarrow> bytes option" where
  "obj_bytes st oid = map_option so_bytes (map_of st oid)"

lemma obj_okD:
  assumes "obj_ok sha r st" "0 < r oid"
  obtains stored where "map_of st oid = Some stored" "so_references stored = r oid"
    "sha (so_bytes stored) = oid"
  using assms(1) [unfolded obj_ok_def, rule_format, of oid] assms(2) by (cases "map_of st oid") auto

lemma objects_remove_ok:
  assumes ok: "obj_ok sha r st" and r': "\<And>i. r' i + (if i = oid then 1 else 0) = r i"
  shows "\<exists>st'. objects_remove oid st = Inr st' \<and> obj_ok sha r' st' \<and>
    (\<forall>i. 0 < r' i \<longrightarrow> obj_bytes st' i = obj_bytes st i)"
proof -
  have pos: "0 < r oid" using r' [of oid] by simp
  obtain stored where st: "map_of st oid = Some stored" "so_references stored = r oid"
    "sha (so_bytes stored) = oid"
    using obj_okD [OF ok pos] .
  have sub: "wrapping_sub 32 (r oid) 1 = r' oid" using pos r' [of oid] by simp
  have other: "r' i = r i" if "i \<noteq> oid" for i using r' [of i] that by simp
  define st' where "st' = (if r' oid = 0 then bt_remove oid st
    else bt_insert oid (stored\<lparr>so_references := r' oid\<rparr>) st)"
  have "objects_remove oid st = Inr st'"
    using st sub by (simp add: objects_remove_def st'_def)
  moreover have "obj_ok sha r' st'"
    unfolding obj_ok_def
  proof
    fix i
    show "case map_of st' i of None \<Rightarrow> r' i = 0
      | Some stored \<Rightarrow> so_references stored = r' i \<and> 0 < r' i \<and> sha (so_bytes stored) = i"
      using ok [unfolded obj_ok_def, rule_format, of i] st other [of i]
      by (cases "i = oid") (auto simp: st'_def split: option.splits)
  qed
  moreover have "obj_bytes st' i = obj_bytes st i" if "0 < r' i" for i
    using that st by (auto simp: st'_def obj_bytes_def)
  ultimately show ?thesis by blast
qed

lemma objects_replace_ok:
  assumes ok: "obj_ok sha r st" and bs: "sha bs = nxt"
    and r': "\<And>i. r' i + (if previous = Some i then 1 else 0) = r i + (if i = nxt then 1 else 0)"
    and room: "r nxt + 1 < 2 ^ 32" and prev: "\<And>p. previous = Some p \<Longrightarrow> 0 < r p"
  shows "\<exists>st'. objects_replace previous nxt bs st = Inr st' \<and> obj_ok sha r' st' \<and>
    obj_bytes st' nxt = Some (case obj_bytes st nxt of None \<Rightarrow> bs | Some old \<Rightarrow> old) \<and>
    (\<forall>i. 0 < r' i \<longrightarrow> i \<noteq> nxt \<longrightarrow> obj_bytes st' i = obj_bytes st i)"
proof (cases "previous = Some nxt")
  case True
  have "r' i = r i" for i using r' [of i] True by (simp split: if_splits)
  then have "r' = r" by (rule ext)
  moreover obtain stored where "map_of st nxt = Some stored" using obj_okD [OF ok prev [OF True]] .
  ultimately show ?thesis using True ok by (auto simp: objects_replace_def obj_bytes_def)
next
  case False
  define stored where "stored = (case map_of st nxt of
    Some stored \<Rightarrow> stored | None \<Rightarrow> \<lparr>so_bytes = bs, so_references = 0\<rparr>)"
  define st1 where "st1 = bt_insert nxt (stored\<lparr>so_references := r nxt + 1\<rparr>) st"
  define r1 where "r1 = r(nxt := r nxt + 1)"
  have refs: "so_references stored = r nxt" "sha (so_bytes stored) = nxt"
    "so_bytes stored = (case obj_bytes st nxt of None \<Rightarrow> bs | Some old \<Rightarrow> old)"
    using ok [unfolded obj_ok_def, rule_format, of nxt] bs
    by (auto simp: stored_def obj_bytes_def split: option.splits)
  have ok1: "obj_ok sha r1 st1"
    unfolding obj_ok_def
  proof
    fix i
    show "case map_of st1 i of None \<Rightarrow> r1 i = 0
      | Some stored \<Rightarrow> so_references stored = r1 i \<and> 0 < r1 i \<and> sha (so_bytes stored) = i"
      using ok [unfolded obj_ok_def, rule_format, of i] refs
      by (cases "i = nxt") (auto simp: st1_def r1_def split: option.splits)
  qed
  have bytes1: "obj_bytes st1 nxt = Some (case obj_bytes st nxt of None \<Rightarrow> bs | Some old \<Rightarrow> old)"
    "\<And>i. i \<noteq> nxt \<Longrightarrow> obj_bytes st1 i = obj_bytes st i"
    using refs by (auto simp: st1_def obj_bytes_def)
  have step: "objects_replace previous nxt bs st =
      (case previous of None \<Rightarrow> Inr st1 | Some p \<Rightarrow> objects_remove p st1)"
    using False refs(1) room by (simp add: objects_replace_def stored_def [symmetric] st1_def
        checked_add_def Let_def split: option.split)
  show ?thesis
  proof (cases previous)
    case None
    then have "r' i = r1 i" for i using r' [of i] by (simp add: r1_def)
    then have "r' = r1" by (rule ext)
    with None step ok1 bytes1 show ?thesis by simp
  next
    case (Some p)
    with False have p: "p \<noteq> nxt" by simp
    have "r' i + (if i = p then 1 else 0) = r1 i" for i
      using r' [of i] Some by (auto simp: r1_def split: if_splits)
    from objects_remove_ok [OF ok1 this] obtain st' where st': "objects_remove p st1 = Inr st'"
      "obj_ok sha r' st'" "\<forall>i. 0 < r' i \<longrightarrow> obj_bytes st' i = obj_bytes st1 i" by blast
    moreover have "0 < r' nxt" using r' [of nxt] Some p by simp
    ultimately show ?thesis using step Some bytes1 by auto
  qed
qed

end
