(* ===== verification/Fs_Refinement.thy ===== *)
theory Fs_Refinement
  imports Fs_Transactions
begin

text \<open>
  The live filesystem implements the abstract namespace. \<open>fs_inv\<close> is the invariant of a computer's
  filesystem: ordered directories, a well-formed namespace, consistent metadata, a quota ledger that
  counts exactly the nodes and bytes of the namespace, bounded directories, and reference counts that
  count exactly the file nodes of both trees. \<open>commits\<close> says that one journaled operation happened.
\<close>

definition fs_ns :: "computer_fs \<Rightarrow> namespace" where
  "fs_ns s = tree_ns (cfs_home s)"

definition ref_weight :: "object_id \<Rightarrow> checkpoint_node \<Rightarrow> nat" where
  "ref_weight oid n = (if map_option fst (ck_object n) = Some oid then 1 else 0)"

definition rom_refs :: "computer_fs \<Rightarrow> object_id \<Rightarrow> nat" where
  "rom_refs s oid = ns_weight (ref_weight oid) (tree_ns (cfs_rom s))"

definition ns_refs :: "namespace \<Rightarrow> object_id \<Rightarrow> nat" where
  "ns_refs N oid = ns_weight (ref_weight oid) N"

definition entry_ok :: "node_metadata \<times> object_id option \<Rightarrow> bool" where
  "entry_ok x \<longleftrightarrow> (nm_kind (fst x) = KindDirectory \<longleftrightarrow> snd x = None) \<and>
     (snd x = None \<longrightarrow> nm_logical_size (fst x) = 0)"

definition entries_ok :: "directory \<Rightarrow> bool" where
  "entries_ok d \<longleftrightarrow> (\<forall>cs x. tlook d cs = Some x \<longrightarrow> entry_ok x)"

definition books_ok :: "filesystem_limits \<Rightarrow> namespace \<Rightarrow> quota_ledger \<Rightarrow> bool" where
  "books_ok lim N q \<longleftrightarrow>
     ql_maximum_nodes q = maximum_nodes lim \<and> ql_maximum_logical_bytes q = maximum_logical_bytes lim \<and>
     ql_nodes q = 2 + card (dom N) \<and> ql_nodes q \<le> maximum_nodes lim \<and>
     ql_logical_bytes q = ns_size N \<and> ns_size N \<le> maximum_logical_bytes lim \<and> ns_size N < 2 ^ 64"

definition fs_inv :: "sha256 \<Rightarrow> computer_fs \<Rightarrow> bool" where
  "fs_inv sha s \<longleftrightarrow>
     dirs_ok (cfs_home s) \<and> entries_ok (cfs_home s) \<and> ns_wf (fs_ns s) \<and>
     books_ok (cfs_limits s) (fs_ns s) (cfs_quota s) \<and>
     (\<forall>q. card (ns_children (fs_ns s) q) \<le> maximum_directory_entries (cfs_limits s)) \<and>
     obj_ok sha (\<lambda>oid. ns_refs (fs_ns s) oid + rom_refs s oid) (cfs_objects s) \<and>
     finite (dom (tree_ns (cfs_rom s))) \<and>
     (\<forall>oid. maximum_nodes (cfs_limits s) + rom_refs s oid < 2 ^ 32)"

definition commits ::
  "sha256 \<Rightarrow> journal_operation \<Rightarrow> (object_id \<times> bytes) option \<Rightarrow> computer_fs \<Rightarrow> computer_fs \<Rightarrow> bool" where
  "commits sha op object s s' \<longleftrightarrow>
     (let g = cfs_generation s + 1 in
      g < 2 ^ 64 \<and> ns_allowed op g (fs_ns s) \<and> fs_ns s' = ns_apply op g (fs_ns s) \<and>
      cfs_generation s' = g \<and> cfs_rom s' = cfs_rom s \<and> cfs_handles s' = cfs_handles s \<and>
      cfs_limits s' = cfs_limits s \<and>
      persist_result sha g object op (cfs_persistence s) = Inr (cfs_persistence s') \<and>
      (\<forall>oid. 0 < ns_refs (fs_ns s') oid + rom_refs s oid \<longrightarrow>
         obj_bytes (cfs_objects s') oid =
           (case obj_bytes (cfs_objects s) oid of
              Some bytes \<Rightarrow> Some bytes
            | None \<Rightarrow> map_option snd object)) \<and>
      fs_inv sha s')"

lemma ref_weight_with_path [simp]: "ref_weight oid (ck_with_path n p g) = ref_weight oid n"
  by (simp add: ref_weight_def)

lemma entry_weights:
  "ck_size (entry_ck p x) = (if snd x = None then 0 else nm_logical_size (fst x))"
  "ref_weight oid (entry_ck p x) = (if snd x = Some oid then 1 else 0)"
  "ck_is_directory (entry_ck p x) \<longleftrightarrow> snd x = None"
  by (auto simp: entry_ck_def ref_weight_def ck_size_def split: option.splits)

lemma fs_inv_within_limits: "fs_inv sha s \<Longrightarrow> ns_within_limits (cfs_limits s) (fs_ns s)"
  by (auto simp: fs_inv_def books_ok_def ns_within_limits_def)

text \<open>References are counted per node, so there are at most as many as nodes.\<close>

lemma ns_refs_le: "ns_refs N oid \<le> card (dom N)"
  unfolding ns_refs_def card_is_weight ns_weight_def
  by (rule sum_mono) (simp add: ref_weight_def)

lemma ns_refs_pos:
  "finite (dom N) \<Longrightarrow> N p = Some n \<Longrightarrow> map_option fst (ck_object n) = Some oid \<Longrightarrow> 0 < ns_refs N oid"
  using ns_weight_remove [of N "ref_weight oid" p]
  by (simp add: ns_refs_def weight_at_def ref_weight_def)

lemma entries_okD: "entries_ok d \<Longrightarrow> tlook d cs = Some x \<Longrightarrow> entry_ok x"
  unfolding entries_ok_def by blast

lemma entries_ok_update:
  assumes "entries_ok d" "find_directory_mut d cs f = Inr d'" "find_directory d cs = Inr e"
    "map_of (f e) = (map_of e)(name := v)"
    and "\<And>n q x. v = Some n \<Longrightarrow> below n q = Some x \<Longrightarrow> entry_ok x"
  shows "entries_ok d'"
  unfolding entries_ok_def
proof (intro allI impI)
  fix p x
  assume x: "tlook d' p = Some x"
  show "entry_ok x"
  proof (cases "is_within p (cs @ [name])")
    case True
    with x tlook_update [OF assms(2-4), of p] obtain n where
      "v = Some n" "below n (drop (Suc (length cs)) p) = Some x"
      by (cases v) auto
    then show ?thesis by (rule assms(5))
  next
    case False
    with x tlook_update [OF assms(2-4), of p] have "tlook d p = Some x" by simp
    with assms(1) show ?thesis unfolding entries_ok_def by blast
  qed
qed

text \<open>The invariant after one operation, from what the operation did to each part of the state.\<close>

lemma commit_inv:
  assumes inv: "fs_inv sha s" and al: "ns_allowed op g (fs_ns s)"
    and ns: "tree_ns d' = ns_apply op g (fs_ns s)" and dirs: "dirs_ok d'" "entries_ok d'"
    and room: "op_has_room (maximum_directory_entries (cfs_limits s)) op (fs_ns s)"
    and obj: "obj_ok sha (\<lambda>oid. ns_refs (tree_ns d') oid + rom_refs s oid) st'"
    and books: "books_ok (cfs_limits s) (tree_ns d') q'"
  shows "fs_inv sha (s\<lparr>cfs_home := d', cfs_objects := st', cfs_quota := q', cfs_generation := g,
    cfs_persistence := p\<rparr>)" (is "fs_inv sha ?s")
proof -
  have wf: "ns_wf (fs_ns s)" using inv by (simp add: fs_inv_def)
  have ns': "fs_ns ?s = tree_ns d'" by (simp add: fs_ns_def)
  have "ns_wf (fs_ns ?s)" using ns_apply_wf [OF wf al] ns ns' by simp
  moreover have "card (ns_children (fs_ns ?s) q) \<le> maximum_directory_entries (cfs_limits s)" for q
    using ns_children_apply [OF wf al room, of q] inv ns ns' by (simp add: fs_inv_def)
  ultimately show ?thesis using inv dirs obj books ns' by (simp add: fs_inv_def rom_refs_def)
qed

text \<open>What an operation does to the counts.\<close>

lemma counts_apply:
  assumes "ns_wf N" "ns_allowed op g N"
  shows "card (dom (ns_apply op g N)) + weight_at (\<lambda>_. 1) N (op_target op) = card (dom N) + op_gain (\<lambda>_. 1) op g"
    and "ns_size (ns_apply op g N) + weight_at ck_size N (op_target op) = ns_size N + op_gain ck_size op g"
    and "ns_refs (ns_apply op g N) oid + weight_at (ref_weight oid) N (op_target op) =
      ns_refs N oid + op_gain (ref_weight oid) op g"
  using ns_weight_apply [OF assms, of "\<lambda>_. 1"] ns_weight_apply [OF assms, of ck_size]
    ns_weight_apply [OF assms, of "ref_weight oid"]
  by (simp_all add: card_is_weight size_is_weight ns_refs_def)

subsection \<open>Checks\<close>

lemma home_not_rom [simp]: "ascii ''home'' \<noteq> ascii ''rom''" "ascii ''rom'' \<noteq> ascii ''home''"
  by (simp_all add: ascii_def)

lemma writable_path_iff: "writable_path path = Inr (m, cs) \<longleftrightarrow> m = Home \<and> path = home_path cs"
  by (auto simp: writable_path_def split_mount_def rbind_Inr_iff split: list.splits if_splits)

lemma mutable_target_iff:
  "mutable_target cap path r = Inr (m, cs) \<longleftrightarrow> m = Home \<and> path = home_path cs \<and> permits cap path r"
  by (auto simp: mutable_target_def rbind_Inr_iff writable_path_iff require_def rguard_iff)

lemma split_name_iff: "split_name cs = Inr (name, parent) \<longleftrightarrow> cs = parent @ [name]"
  by (auto simp: split_name_def)

lemma split_mount_error: "split_mount path = Inl e \<Longrightarrow> e \<noteq> Panicked"
  by (auto simp: split_mount_def split: list.splits if_splits)

lemma writable_path_error: "writable_path path = Inl e \<Longrightarrow> e \<noteq> Panicked"
  by (auto simp: writable_path_def rbind_Inl_iff split_mount_error split: if_splits)

lemma require_error: "require cap path r = Inl e \<Longrightarrow> e \<noteq> Panicked"
  by (auto simp: require_def rguard_iff)

lemma mutable_target_error: "mutable_target cap path r = Inl e \<Longrightarrow> e \<noteq> Panicked"
  by (auto simp: mutable_target_def rbind_Inl_iff dest: writable_path_error require_error)

lemma split_name_error: "split_name cs = Inl e \<Longrightarrow> e \<noteq> Panicked"
  by (auto simp: split_name_def split: if_splits)

lemma find_directory_error: "find_directory d cs = Inl e \<Longrightarrow> e \<noteq> Panicked"
proof (induction cs arbitrary: d)
  case (Cons c cs)
  show ?case
  proof (cases "map_of d c")
    case (Some n)
    with Cons show ?thesis by (cases "node_contents n") auto
  qed (use Cons.prems in auto)
qed simp

lemma find_node_error: "find_node d cs = Inl e \<Longrightarrow> e \<noteq> Panicked"
proof (induction cs arbitrary: d)
  case (Cons c cs)
  show ?case
  proof (cases "map_of d c")
    case (Some n)
    with Cons show ?thesis by (cases "node_contents n") (auto split: if_splits)
  qed (use Cons.prems in auto)
qed auto

lemma small_check_errors:
  "check_directory_entry_limit n s = Inl e \<Longrightarrow> e \<noteq> Panicked"
  "check_file_size n s = Inl e \<Longrightarrow> e \<noteq> Panicked"
  "next_generation s = Inl e \<Longrightarrow> e \<noteq> Panicked"
  "quota_reserve q cost = Inl e \<Longrightarrow> e \<noteq> Panicked"
  "handle_get h k = Inl e \<Longrightarrow> e \<noteq> Panicked"
  by (auto simp: check_directory_entry_limit_def check_file_size_def next_generation_def rguard_iff
      ok_or_iff handle_get_def rbind_Inl_iff Let_def dest: quota_reserve_error split: if_splits option.splits)

lemmas no_panic = writable_path_error mutable_target_error split_name_error split_mount_error
  find_directory_error find_node_error require_error small_check_errors

lemma check_iffs:
  "check_directory_entry_limit n s = Inr u \<longleftrightarrow> n < maximum_directory_entries (cfs_limits s)"
  "check_file_size n s = Inr u \<longleftrightarrow> n \<le> maximum_file_bytes (cfs_limits s)"
  "next_generation s = Inr g \<longleftrightarrow> g = cfs_generation s + 1 \<and> cfs_generation s + 1 < 2 ^ 64"
  "require cap path r = Inr u \<longleftrightarrow> permits cap path r"
  by (auto simp: check_directory_entry_limit_def check_file_size_def next_generation_def rguard_iff
      require_def ok_or_iff checked_add_def)

subsection \<open>Creating a directory\<close>

lemma leaf_directory [simp]: "leaf (node_directory g)"
  by (simp add: leaf_def node_directory_def)

lemma leaf_file [simp]: "leaf (node_file oid n g x)"
  by (simp add: leaf_def node_file_def)

lemma entry_directory: "entry_ck p (shallow (node_directory g)) = CkDirectory p g"
  by (simp add: entry_ck_def shallow_def node_directory_def node_object_id_def)

lemma entry_file: "entry_ck p (shallow (node_file oid n g x)) = CkFile p g n oid x"
  by (simp add: entry_ck_def shallow_def node_file_def node_object_id_def)

lemma entry_ok_new [simp]:
  "entry_ok (shallow (node_directory g))" "entry_ok (shallow (node_file oid n g x))"
  by (simp_all add: entry_ok_def shallow_def node_directory_def node_file_def node_object_id_def)

lemma dirs_ok_new:
  "case node_contents (node_directory g) of CDir ch \<Rightarrow> dirs_ok ch | CFile _ \<Rightarrow> True"
  "case node_contents (node_file oid n g x) of CDir ch \<Rightarrow> dirs_ok ch | CFile _ \<Rightarrow> True"
  by (simp_all add: node_directory_def node_file_def)

text \<open>Inserting a leaf where nothing, or another leaf, was.\<close>

lemma insert_leaf:
  assumes inv: "fs_inv sha s" and e: "find_directory (cfs_home s) cs = Inr e"
    and old: "case map_of e name of None \<Rightarrow> True | Some old \<Rightarrow> leaf old"
    and n: "leaf n" "entry_ok (shallow n)"
      "case node_contents n of CDir ch \<Rightarrow> dirs_ok ch | CFile _ \<Rightarrow> True"
  obtains d' where "find_directory_mut (cfs_home s) cs (bt_insert name n) = Inr d'"
    "tree_ns d' = (fs_ns s)(home_path (cs @ [name]) \<mapsto> entry_ck (home_path (cs @ [name])) (shallow n))"
    "dirs_ok d'" "entries_ok d'"
proof -
  obtain d' where d': "find_directory_mut (cfs_home s) cs (bt_insert name n) = Inr d'"
    using e find_directory_mut_iff by blast
  have "dirs_ok d'"
    using dirs_ok_mut [OF _ d' e dirs_ok_insert] inv n(3) dirs_okD e by (auto simp: fs_inv_def)
  moreover have "entries_ok d'"
  proof (rule entries_ok_update [OF _ d' e, of name "Some n"])
    show "entry_ok x" if "Some n = Some k" "below k q = Some x" for k q x
      using that n(1,2) leaf_below [of n q] by (auto split: if_splits)
  qed (use inv in \<open>simp_all add: fs_inv_def\<close>)
  ultimately show thesis using that d' tree_ns_insert [OF d' e n(1) old] by (simp add: fs_ns_def)
qed

lemma fs_ns_at:
  assumes "find_directory (cfs_home s) cs = Inr e"
  shows "fs_ns s (home_path (cs @ [name])) =
    map_option (\<lambda>n. entry_ck (home_path (cs @ [name])) (shallow n)) (map_of e name)"
  using tlook_child [OF assms, of name "[]"] by (auto simp: fs_ns_def split: option.splits)

lemma has_parent_at:
  "find_directory (cfs_home s) cs = Inr e \<Longrightarrow> has_parent (fs_ns s) (home_path (cs @ [name]))"
  using has_parent_tree unfolding fs_ns_def by blast

lemma children_at:
  assumes "fs_inv sha s" "find_directory (cfs_home s) cs = Inr e"
  shows "card (ns_children (fs_ns s) (home_path cs)) = length e"
  using ns_children_tree assms by (auto simp: fs_inv_def fs_ns_def)

text \<open>The end of every transaction.\<close>

lemma tx_commit:
  assumes inv: "fs_inv sha s" and g: "g = cfs_generation s + 1" "g < 2 ^ 64"
    and al: "ns_allowed op g (fs_ns s)"
    and ns: "tree_ns d' = ns_apply op g (fs_ns s)" and dirs: "dirs_ok d'" "entries_ok d'"
    and room: "op_has_room (maximum_directory_entries (cfs_limits s)) op (fs_ns s)"
    and obj: "obj_ok sha (\<lambda>oid. ns_refs (tree_ns d') oid + rom_refs s oid) st'"
    and bytes: "\<And>oid. 0 < ns_refs (tree_ns d') oid + rom_refs s oid \<Longrightarrow> obj_bytes st' oid =
      (case obj_bytes (cfs_objects s) oid of Some b \<Rightarrow> Some b | None \<Rightarrow> map_option snd object)"
    and books: "books_ok (cfs_limits s) (tree_ns d') q'"
    and body: "\<And>p. body (s\<lparr>cfs_persistence := p\<rparr>) = (Inr x, s\<lparr>cfs_home := d', cfs_objects := st',
      cfs_quota := q', cfs_generation := g, cfs_persistence := p\<rparr>)"
  shows "tx s (sbind (prepare_persistence sha g object op)
    (\<lambda>m. sseq (drop_on_error m body) (publish m))) (\<lambda>_. commits sha op object s)"
proof (rule tx_transaction [of body s x "s\<lparr>cfs_home := d', cfs_objects := st', cfs_quota := q',
    cfs_generation := g\<rparr>"])
  fix p
  let ?s = "s\<lparr>cfs_home := d', cfs_objects := st', cfs_quota := q', cfs_generation := g, cfs_persistence := p\<rparr>"
  assume p: "persist_result sha g object op (cfs_persistence s) = Inr p"
  have ns': "fs_ns ?s = tree_ns d'" by (simp add: fs_ns_def)
  have inv': "fs_inv sha ?s" by (rule commit_inv [OF inv al ns dirs room obj books])
  show "commits sha op object s ?s"
    unfolding commits_def Let_def using g al ns ns' p inv' bytes by simp
qed (use body in simp)

lemma create_directory_tx:
  assumes inv: "fs_inv sha s" and plain: "path_plain path"
  shows "tx s (create_directory sha cap path)
    (\<lambda>_. commits sha (JCreateDirectory path (cfs_generation s + 1)) None s)"
  unfolding create_directory_def
proof (intro tx_read tx_split tx_if tx_fail, goal_cases)
  case (8 x m cs x' name parent e u r g)
  then have path: "m = Home" "path = home_path (parent @ [name])" and e: "find_directory (cfs_home s) parent = Inr e"
    and none: "map_of e name = None" and len: "length e < maximum_directory_entries (cfs_limits s)"
    and q: "quota_reserve (cfs_quota s) (default_cost\<lparr>nodes_added := 1\<rparr>) = Inr r"
    and g: "g = cfs_generation s + 1" "g < 2 ^ 64"
    by (auto simp: mutable_target_iff split_name_iff check_iffs)
  let ?op = "JCreateDirectory path g"
  have N: "fs_ns s path = None" "has_parent (fs_ns s) path"
    using fs_ns_at [OF e, of name] has_parent_at [OF e] none path by auto
  have al: "ns_allowed ?op g (fs_ns s)" using N plain by (simp add: ns_allowed_def)
  obtain d' where d': "find_directory_mut (cfs_home s) parent (bt_insert name (node_directory g)) = Inr d'"
    "tree_ns d' = ns_apply ?op g (fs_ns s)" "dirs_ok d'" "entries_ok d'"
    using insert_leaf [OF inv e, of name "node_directory g"] none path dirs_ok_new
    by (auto simp: entry_directory ns_apply_def)
  have wf: "ns_wf (fs_ns s)" using inv by (simp add: fs_inv_def)
  note counts = counts_apply [OF wf al]
  have w: "weight_at f (fs_ns s) (op_target ?op) = 0" for f using N by (simp add: weight_at_def op_target_def)
  have refs: "ns_refs (tree_ns d') oid = ns_refs (fs_ns s) oid" for oid
    using counts(3) [of oid] w by (simp add: d'(2) op_gain_def ref_weight_def)
  have "tx s (sbind (prepare_persistence sha g None ?op) (\<lambda>p. sseq (drop_on_error p
      (sseq (modify_directory Home parent (bt_insert name (node_directory g)))
        (sseq (modify_quota (quota_commit r)) (set_generation g)))) (publish p)))
    (\<lambda>_. commits sha ?op None s)"
  proof (rule tx_commit [OF inv g al d'(2-4)])
    show "op_has_room (maximum_directory_entries (cfs_limits s)) ?op (fs_ns s)"
      using len children_at [OF inv e] path by (simp add: op_has_room_def op_target_def butlast_append)
    show "obj_ok sha (\<lambda>oid. ns_refs (tree_ns d') oid + rom_refs s oid) (cfs_objects s)"
      using inv by (simp add: refs fs_inv_def)
    show "obj_bytes (cfs_objects s) oid = (case obj_bytes (cfs_objects s) oid of
        Some b \<Rightarrow> Some b | None \<Rightarrow> map_option snd None)" for oid by (simp split: option.split)
    show "books_ok (cfs_limits s) (tree_ns d') (quota_commit r (cfs_quota s))"
      using counts(1,2) w q inv
      by (auto simp: d'(2) op_gain_def ck_size_def quota_reserve_iff quota_commit_def fs_inv_def
          books_ok_def default_cost_def)
    show "sseq (modify_directory Home parent (bt_insert name (node_directory g)))
        (sseq (modify_quota (quota_commit r)) (set_generation g)) (s\<lparr>cfs_persistence := p\<rparr>) =
      (Inr (), s\<lparr>cfs_home := d', cfs_objects := cfs_objects s, cfs_quota := quota_commit r (cfs_quota s),
        cfs_generation := g, cfs_persistence := p\<rparr>)" for p
      using d'(1) by (simp add: sseq_def sbind_def modify_directory_def modify_quota_def set_generation_def)
  qed
  then show ?case using g path by simp
qed (auto dest: no_panic)

subsection \<open>Writing a file\<close>

definition previous_size :: "node option \<Rightarrow> nat" where
  "previous_size previous = (case previous of None \<Rightarrow> 0 | Some n \<Rightarrow> nm_logical_size (node_meta n))"

text \<open>The weights of what stands at a path.\<close>

lemma weights_at:
  assumes inv: "fs_inv sha s" and e: "find_directory (cfs_home s) cs = Inr e"
  shows "weight_at (\<lambda>_. 1) (fs_ns s) (home_path (cs @ [name])) = (if map_of e name = None then 0 else 1)"
    and "weight_at ck_size (fs_ns s) (home_path (cs @ [name])) = previous_size (map_of e name)"
    and "weight_at (ref_weight oid) (fs_ns s) (home_path (cs @ [name])) =
      (if Option.bind (map_of e name) node_object_id = Some oid then 1 else 0)"
proof -
  have ok: "entry_ok (shallow n)" if "map_of e name = Some n" for n
    using inv tlook_child [OF e, of name "[]"] that
    by (intro entries_okD [of "cfs_home s" "cs @ [name]"]) (simp_all add: fs_inv_def)
  show "weight_at (\<lambda>_. 1) (fs_ns s) (home_path (cs @ [name])) = (if map_of e name = None then 0 else 1)"
    "weight_at ck_size (fs_ns s) (home_path (cs @ [name])) = previous_size (map_of e name)"
    "weight_at (ref_weight oid) (fs_ns s) (home_path (cs @ [name])) =
      (if Option.bind (map_of e name) node_object_id = Some oid then 1 else 0)"
    unfolding weight_at_def fs_ns_at [OF e] previous_size_def
    by (cases "map_of e name"; use ok in \<open>auto simp: entry_weights shallow_def entry_ok_def\<close>)+
qed

lemma refs_room:
  assumes "fs_inv sha s"
  shows "ns_refs (fs_ns s) oid + rom_refs s oid + 1 < 2 ^ 32"
proof -
  have "2 + card (dom (fs_ns s)) \<le> maximum_nodes (cfs_limits s)"
    "maximum_nodes (cfs_limits s) + rom_refs s oid < 2 ^ 32"
    using assms by (auto simp: fs_inv_def books_ok_def)
  with ns_refs_le [of "fs_ns s" oid] show ?thesis by linarith
qed

lemma obj_present:
  assumes "obj_ok sha r st" "0 < r oid"
  shows "obj_bytes st oid \<noteq> None"
  using obj_okD [OF assms] by (metis obj_bytes_def option.map_disc_iff option.distinct(1))

lemma put_objects:
  assumes inv: "fs_inv sha s" and e: "find_directory (cfs_home s) cs = Inr e"
    and refs: "\<And>oid. ns_refs N' oid + weight_at (ref_weight oid) (fs_ns s) (home_path (cs @ [name])) =
      ns_refs (fs_ns s) oid + (if oid = sha bs then 1 else 0)"
  obtains st' where
    "objects_replace (Option.bind (map_of e name) node_object_id) (sha bs) bs (cfs_objects s) = Inr st'"
    "obj_ok sha (\<lambda>oid. ns_refs N' oid + rom_refs s oid) st'"
    "\<And>oid. 0 < ns_refs N' oid + rom_refs s oid \<Longrightarrow> obj_bytes st' oid =
      (case obj_bytes (cfs_objects s) oid of Some b \<Rightarrow> Some b | None \<Rightarrow> Some bs)"
proof -
  let ?prev = "Option.bind (map_of e name) node_object_id"
  let ?r = "\<lambda>oid. ns_refs (fs_ns s) oid + rom_refs s oid" and ?r' = "\<lambda>oid. ns_refs N' oid + rom_refs s oid"
  have ok: "obj_ok sha ?r (cfs_objects s)" using inv by (simp add: fs_inv_def)
  have step: "?r' i + (if ?prev = Some i then 1 else 0) = ?r i + (if i = sha bs then 1 else 0)" for i
    using refs [of i] weights_at(3) [OF inv e, of i name] by simp
  have pos: "0 < ?r p" if "?prev = Some p" for p
  proof -
    have "weight_at (ref_weight p) (fs_ns s) (home_path (cs @ [name])) \<le> ns_refs (fs_ns s) p"
      using ns_weight_remove [of "fs_ns s" "ref_weight p" "home_path (cs @ [name])"] inv
      by (simp add: ns_refs_def fs_inv_def ns_wf_def)
    with that weights_at(3) [OF inv e, of p name] show ?thesis by simp
  qed
  from objects_replace_ok [OF ok HOL.refl step refs_room [OF inv] pos] obtain st' where
    st': "objects_replace ?prev (sha bs) bs (cfs_objects s) = Inr st'" "obj_ok sha ?r' st'"
    "obj_bytes st' (sha bs) = Some (case obj_bytes (cfs_objects s) (sha bs) of None \<Rightarrow> bs | Some old \<Rightarrow> old)"
    "\<forall>i. 0 < ?r' i \<longrightarrow> i \<noteq> sha bs \<longrightarrow> obj_bytes st' i = obj_bytes (cfs_objects s) i"
    by blast
  have "obj_bytes st' oid = (case obj_bytes (cfs_objects s) oid of Some b \<Rightarrow> Some b | None \<Rightarrow> Some bs)"
    if "0 < ns_refs N' oid + rom_refs s oid" for oid
  proof (cases "oid = sha bs")
    case False
    with step [of oid] that have "0 < ?r oid" by (simp split: if_splits)
    from obj_present [OF ok this] st'(4) that False show ?thesis by (auto split: option.split)
  qed (use st'(3) in \<open>simp split: option.split\<close>)
  with st'(1,2) that show thesis by blast
qed

lemma put_file_tx:
  assumes inv: "fs_inv sha s" and e: "find_directory (cfs_home s) cs = Inr e"
    and path: "path = home_path (cs @ [name])" "path_plain path"
    and prev: "case map_of e name of None \<Rightarrow> length e < maximum_directory_entries (cfs_limits s)
      | Some n \<Rightarrow> node_object_id n \<noteq> None"
    and q: "quota_reserve (cfs_quota s) (default_cost\<lparr>
      logical_bytes_added := length bs - previous_size (map_of e name),
      nodes_added := (if map_of e name = None then 1 else 0)\<rparr>) = Inr r"
    and g: "g = cfs_generation s + 1" "g < 2 ^ 64"
    and body: "\<And>p d' st'. find_directory_mut (cfs_home s) cs
        (bt_insert name (node_file (sha bs) (length bs) g x)) = Inr d' \<Longrightarrow>
      objects_replace (Option.bind (map_of e name) node_object_id) (sha bs) bs (cfs_objects s) = Inr st' \<Longrightarrow>
      body (s\<lparr>cfs_persistence := p\<rparr>) = (Inr (), s\<lparr>cfs_home := d', cfs_objects := st',
        cfs_quota := quota_release (previous_size (map_of e name) - length bs) 0 (quota_commit r (cfs_quota s)),
        cfs_generation := g, cfs_persistence := p\<rparr>)"
  shows "tx s (sbind (prepare_persistence sha g (Some (sha bs, bs)) (JPutFile path g (length bs) (sha bs) x))
      (\<lambda>m. sseq (drop_on_error m body) (publish m)))
    (\<lambda>_. commits sha (JPutFile path g (length bs) (sha bs) x) (Some (sha bs, bs)) s)"
proof -
  let ?op = "JPutFile path g (length bs) (sha bs) x"
  have leaf: "case map_of e name of None \<Rightarrow> True | Some old \<Rightarrow> leaf old"
    using prev by (auto simp: leaf_def node_object_id_simps split: option.splits contents.splits)
  have al: "ns_allowed ?op g (fs_ns s)"
    using path prev has_parent_at [OF e] fs_ns_at [OF e, of name]
    by (auto simp: ns_allowed_def shallow_def split: option.splits)
  obtain d' where d': "find_directory_mut (cfs_home s) cs
      (bt_insert name (node_file (sha bs) (length bs) g x)) = Inr d'"
    "tree_ns d' = ns_apply ?op g (fs_ns s)" "dirs_ok d'" "entries_ok d'"
    using insert_leaf [OF inv e leaf, of "node_file (sha bs) (length bs) g x"] path dirs_ok_new
    by (auto simp: entry_file ns_apply_def)
  have wf: "ns_wf (fs_ns s)" using inv by (simp add: fs_inv_def)
  note counts = counts_apply [OF wf al, unfolded op_target_def journal_operation.case path(1)]
  have "ns_refs (tree_ns d') oid + weight_at (ref_weight oid) (fs_ns s) (home_path (cs @ [name])) =
      ns_refs (fs_ns s) oid + (if oid = sha bs then 1 else 0)" for oid
    using counts(3) [of oid] path(1) by (simp add: d'(2) op_gain_def ref_weight_def)
  from put_objects [OF inv e this] obtain st' where st':
    "objects_replace (Option.bind (map_of e name) node_object_id) (sha bs) bs (cfs_objects s) = Inr st'"
    "obj_ok sha (\<lambda>oid. ns_refs (tree_ns d') oid + rom_refs s oid) st'"
    "\<And>oid. 0 < ns_refs (tree_ns d') oid + rom_refs s oid \<Longrightarrow> obj_bytes st' oid =
      (case obj_bytes (cfs_objects s) oid of Some b \<Rightarrow> Some b | None \<Rightarrow> Some bs)"
    by blast
  show ?thesis
  proof (rule tx_commit [OF inv g al d'(2-4)])
    show "op_has_room (maximum_directory_entries (cfs_limits s)) ?op (fs_ns s)"
      using prev children_at [OF inv e] path fs_ns_at [OF e, of name]
      by (auto simp: op_has_room_def op_target_def butlast_append split: option.splits)
    show "books_ok (cfs_limits s) (tree_ns d')
        (quota_release (previous_size (map_of e name) - length bs) 0 (quota_commit r (cfs_quota s)))"
      using counts(1,2) q inv weights_at(1,2) [OF inv e, of name] path(1)
      by (auto simp: d'(2) op_gain_def ck_size_def quota_reserve_iff quota_commit_def quota_release_def
          fs_inv_def books_ok_def default_cost_def split: if_splits)
    show "body (s\<lparr>cfs_persistence := p\<rparr>) = (Inr (), s\<lparr>cfs_home := d', cfs_objects := st',
        cfs_quota := quota_release (previous_size (map_of e name) - length bs) 0 (quota_commit r (cfs_quota s)),
        cfs_generation := g, cfs_persistence := p\<rparr>)" for p
      by (rule body [OF d'(1) st'(1)])
  qed (use st' in \<open>simp_all split: option.split\<close>)
qed

text \<open>A commit that stores a file of admissible size at a path.\<close>

definition puts :: "sha256 \<Rightarrow> virtual_path \<Rightarrow> bytes \<Rightarrow> bool \<Rightarrow> computer_fs \<Rightarrow> computer_fs \<Rightarrow> bool" where
  "puts sha path bs x s s' \<longleftrightarrow> length bs \<le> maximum_file_bytes (cfs_limits s) \<and>
     commits sha (JPutFile path (cfs_generation s + 1) (length bs) (sha bs) x) (Some (sha bs, bs)) s s'"

lemma write_file_tx:
  assumes inv: "fs_inv sha s" and plain: "path_plain path"
  shows "tx s (write_file sha cap path bs x) (\<lambda>_. puts sha path bs x s)"
  unfolding write_file_def Let_def
proof (intro tx_read tx_split, goal_cases)
  case (4 x' m cs x'' name parent e)
  then have path: "m = Home" "path = home_path (parent @ [name])"
    and e: "find_directory (cfs_home s) parent = Inr e"
    by (auto simp: writable_path_iff split_name_iff)
  show ?case
  proof (rule tx_guard [where G = "map_of e name = None \<longrightarrow> length e < maximum_directory_entries (cfs_limits s)"],
      goal_cases)
    case 1
    show ?case by (intro tx_if tx_read_last tx_seq_read) (auto dest: no_panic simp: check_iffs)
  next
    case (2 u)
    note room = this
    show ?case
    proof (intro tx_read tx_if tx_fail, goal_cases)
      case (5 u1 r g)
      then have prev: "case map_of e name of None \<Rightarrow> length e < maximum_directory_entries (cfs_limits s)
          | Some n \<Rightarrow> node_object_id n \<noteq> None"
        using room by (auto simp: node_object_id_simps split: option.splits contents.splits)
      show ?case
        unfolding object_id_of_def
        by (insert 5, rule tx_weaken [OF put_file_tx [OF inv e path(2) plain prev, of bs r g]])
          (auto simp: check_iffs path sseq_def sbind_def modify_directory_def modify_objects_def
            modify_quota_def set_generation_def previous_size_def puts_def)
    qed (auto dest: no_panic)
  qed
qed (auto dest: no_panic)

lemma find_node_split:
  assumes "find_node d cs = Inr n"
  obtains parent name e where "cs = parent @ [name]" "find_directory d parent = Inr e" "map_of e name = Some n"
proof (cases cs rule: rev_cases)
  case (snoc parent name)
  with assms that show thesis by (auto simp: find_node_in rbind_Inr_iff ok_or_iff)
qed (use assms in simp)

lemma path_plain_existing:
  assumes "fs_inv sha s" "find_node (cfs_home s) cs = Inr n"
  shows "path_plain (home_path cs)"
proof -
  have "fs_ns s (home_path cs) \<noteq> None" using assms(2) by (simp add: fs_ns_def tlook_def)
  with assms(1) show ?thesis unfolding fs_inv_def ns_wf_def by blast
qed

text \<open>The contents and the executable flag of the file at a path, in either mount.\<close>

definition file_at :: "computer_fs \<Rightarrow> virtual_path \<Rightarrow> (bytes \<times> bool) option" where
  "file_at s path =
     (case split_mount path of
        Inl _ \<Rightarrow> None
      | Inr (m, cs) \<Rightarrow>
          (case tlook (cfs_directory m s) cs of
             Some (e, Some oid) \<Rightarrow> map_option (\<lambda>b. (b, nm_executable e)) (obj_bytes (cfs_objects s) oid)
           | _ \<Rightarrow> None))"

lemma file_at_iff:
  "file_at s path = Some (b, x) \<longleftrightarrow> (\<exists>m cs e oid. split_mount path = Inr (m, cs) \<and>
     tlook (cfs_directory m s) cs = Some (e, Some oid) \<and> obj_bytes (cfs_objects s) oid = Some b \<and> x = nm_executable e)"
  by (auto simp: file_at_def split: sum.splits option.splits)

lemma file_bytes_at: "file_bytes path s = Inr b \<Longrightarrow> \<exists>x. file_at s path = Some (b, x)"
proof -
  assume "file_bytes path s = Inr b"
  then obtain m cs n where n: "split_mount path = Inr (m, cs)" "find_node (cfs_directory m s) cs = Inr n"
    "(case node_contents n of CFile object \<Rightarrow> objects_bytes (cfs_objects s) object | CDir _ \<Rightarrow> Inl IsDirectory) = Inr b"
    by (auto simp: file_bytes_def rbind_Inr_iff)
  then show ?thesis
    by (cases "node_contents n") (auto simp: file_at_def tlook_def shallow_def node_object_id_def objects_bytes_def obj_bytes_def ok_or_iff)
qed

lemma file_at_executable:
  "split_mount path = Inr (m, cs) \<Longrightarrow> find_node (cfs_directory m s) cs = Inr n \<Longrightarrow> file_at s path = Some (b, x) \<Longrightarrow>
    x = nm_executable (node_meta n)"
  by (auto simp: file_at_iff tlook_iff shallow_def)

lemma replace_existing_tx:
  assumes inv: "fs_inv sha s" and held: "file_at s path = Some (old, x)"
  shows "tx s (replace_existing sha path bs) (\<lambda>_. puts sha path bs x s)"
  unfolding replace_existing_def Let_def object_id_of_def
proof (intro tx_read tx_split, goal_cases)
  case (7 p m cs n oid u r g)
  then have path: "m = Home" "path = home_path cs" and n: "find_node (cfs_home s) cs = Inr n"
    and oid: "node_object_id n = Some oid"
    by (auto simp: writable_path_iff ok_or_iff)
  obtain parent name e where e: "cs = parent @ [name]" "find_directory (cfs_home s) parent = Inr e"
    "map_of e name = Some n"
    using find_node_split [OF n] .
  have plain: "path_plain path" using path_plain_existing [OF inv n] path by simp
  have "split_mount path = Inr (Home, cs)" using 7 path by (auto simp: writable_path_def rbind_Inr_iff split: if_splits)
  then have x: "nm_executable (node_meta n) = x" using file_at_executable [OF _ _ held] n by simp
  have node: "find_node_mut (cfs_home s) cs (\<lambda>_. v) = find_directory_mut (cfs_home s) parent (bt_insert name v)" for v
    using n e(1) by (simp add: find_node_mut_const)
  have prev: "case map_of e name of None \<Rightarrow> length e < maximum_directory_entries (cfs_limits s)
      | Some n \<Rightarrow> node_object_id n \<noteq> None"
    using e(3) oid by simp
  show ?case
    by (insert 7, rule tx_weaken [OF put_file_tx [OF inv e(2) _ plain prev, of bs r g]])
      (auto simp: check_iffs path e oid x node [unfolded e(1)] sseq_def sbind_def modify_node_def modify_objects_def
        modify_quota_def set_generation_def previous_size_def default_cost_def puts_def)
qed (auto dest: no_panic simp: ok_or_iff)

end
