(* ===== verification/Fs_Live.thy ===== *)
theory Fs_Live
  imports Fs_Refinement
begin

text \<open>
  The remaining mutations of the live filesystem (removal, renaming, writes through handles), and the
  filesystem as a state machine over all its calls: every call keeps the invariant, never panics,
  leaves the state alone when it fails, and otherwise commits one journaled operation of the abstract
  namespace or touches the handle table only. The file that a write or a truncation through a handle leaves is stated byte by
  byte.
\<close>

subsection \<open>Removal\<close>

lemma leaf_no_descendant:
  assumes e: "find_directory (cfs_home s) cs = Inr e" "map_of e name = Some n" and leaf: "leaf n"
  shows "\<not> ns_has_descendant (fs_ns s) (home_path (cs @ [name]))"
proof
  assume "ns_has_descendant (fs_ns s) (home_path (cs @ [name]))"
  then obtain r m where r: "fs_ns s (home_path (cs @ name # r)) = Some m" "r \<noteq> []"
    by (auto simp: ns_has_descendant_def is_within_iff)
  with tlook_child [OF e(1), of name r] e(2) leaf_below [OF leaf, of r] show False
    by (simp add: fs_ns_def)
qed

text \<open>Dropping the content of a displaced node.\<close>

definition displace :: "node option \<Rightarrow> object_store \<Rightarrow> filesystem_error + object_store" where
  "displace previous st =
     (case Option.bind previous node_object_id of None \<Rightarrow> Inr st | Some oid \<Rightarrow> objects_remove oid st)"

lemma displace_objects:
  assumes inv: "fs_inv sha s" and e: "find_directory (cfs_home s) cs = Inr e"
    and refs: "\<And>oid. ns_refs N' oid + weight_at (ref_weight oid) (fs_ns s) (home_path (cs @ [name])) =
      ns_refs (fs_ns s) oid"
  obtains st' where "displace (map_of e name) (cfs_objects s) = Inr st'"
    "obj_ok sha (\<lambda>oid. ns_refs N' oid + rom_refs s oid) st'"
    "\<And>oid. 0 < ns_refs N' oid + rom_refs s oid \<Longrightarrow> obj_bytes st' oid =
      (case obj_bytes (cfs_objects s) oid of Some b \<Rightarrow> Some b | None \<Rightarrow> None)"
proof (cases "Option.bind (map_of e name) node_object_id")
  case None
  then have "ns_refs N' = ns_refs (fs_ns s)"
    using refs weights_at(3) [OF inv e, of _ name] by (auto simp: fun_eq_iff)
  with None inv that [of "cfs_objects s"] show thesis
    by (auto simp: displace_def fs_inv_def split: option.split)
next
  case (Some p)
  let ?r = "\<lambda>oid. ns_refs (fs_ns s) oid + rom_refs s oid" and ?r' = "\<lambda>oid. ns_refs N' oid + rom_refs s oid"
  have ok: "obj_ok sha ?r (cfs_objects s)" using inv by (simp add: fs_inv_def)
  have "?r' i + (if i = p then 1 else 0) = ?r i" for i
    using refs [of i] weights_at(3) [OF inv e, of i name] Some by auto
  from objects_remove_ok [OF ok this] obtain st' where st': "objects_remove p (cfs_objects s) = Inr st'"
    "obj_ok sha ?r' st'" "\<forall>i. 0 < ?r' i \<longrightarrow> obj_bytes st' i = obj_bytes (cfs_objects s) i" by blast
  show thesis
    by (rule that [of st']) (use st' Some in \<open>auto simp: displace_def split: option.split\<close>)
qed

lemma displaced_books:
  assumes inv: "fs_inv sha s" and e: "find_directory (cfs_home s) cs = Inr e"
    and counts: "card (dom N') + weight_at (\<lambda>_. 1) (fs_ns s) (home_path (cs @ [name])) = card (dom (fs_ns s))"
      "ns_size N' + weight_at ck_size (fs_ns s) (home_path (cs @ [name])) = ns_size (fs_ns s)"
  shows "books_ok (cfs_limits s) N' (case map_of e name of None \<Rightarrow> cfs_quota s
    | Some n \<Rightarrow> quota_release (nm_logical_size (node_meta n)) 1 (cfs_quota s))"
  using counts inv weights_at(1,2) [OF inv e, of name]
  by (auto simp: fs_inv_def books_ok_def quota_release_def previous_size_def split: option.splits)

lemma fs_remove_tx:
  assumes inv: "fs_inv sha s"
  shows "tx s (fs_remove sha cap path) (\<lambda>_. commits sha (JRemove path) None s)"
  unfolding fs_remove_def
proof (intro tx_read tx_split tx_if tx_fail, goal_cases)
  case (6 x m cs x' name parent n g)
  then obtain e where path: "m = Home" "path = home_path (parent @ [name])"
    and e: "find_directory (cfs_home s) parent = Inr e" "map_of e name = Some n"
    and leaf: "leaf n" and g: "g = cfs_generation s + 1" "g < 2 ^ 64"
    by (auto simp: mutable_target_iff split_name_iff check_iffs rbind_Inr_iff ok_or_iff leaf_def
        split: contents.splits)
  let ?op = "JRemove path"
  have al: "ns_allowed ?op g (fs_ns s)"
    using fs_ns_at [OF e(1), of name] leaf_no_descendant [OF e leaf] e(2) path by (simp add: ns_allowed_def)
  obtain d' where d': "find_directory_mut (cfs_home s) parent (bt_remove name) = Inr d'"
    using e(1) find_directory_mut_iff by blast
  have ns: "tree_ns d' = ns_apply ?op g (fs_ns s)"
    using tree_ns_remove [OF d' e leaf] path by (simp add: ns_apply_def fs_ns_def)
  have dirs: "dirs_ok d'" "entries_ok d'"
    using dirs_ok_mut [OF _ d' e(1) dirs_ok_remove] entries_ok_update [OF _ d' e(1), of name None]
      inv dirs_okD e(1) by (auto simp: fs_inv_def)
  have wf: "ns_wf (fs_ns s)" using inv by (simp add: fs_inv_def)
  note counts = counts_apply [OF wf al, unfolded op_target_def op_gain_def journal_operation.case path(2)
      add_0_right, folded path(2), folded ns, unfolded path(2)]
  obtain st' where st': "displace (map_of e name) (cfs_objects s) = Inr st'"
    "obj_ok sha (\<lambda>oid. ns_refs (tree_ns d') oid + rom_refs s oid) st'"
    "\<And>oid. 0 < ns_refs (tree_ns d') oid + rom_refs s oid \<Longrightarrow> obj_bytes st' oid =
      (case obj_bytes (cfs_objects s) oid of Some b \<Rightarrow> Some b | None \<Rightarrow> None)"
    by (rule displace_objects [OF inv e(1) counts(3)]) blast
  have books: "books_ok (cfs_limits s) (tree_ns d') (quota_release (nm_logical_size (node_meta n)) 1 (cfs_quota s))"
    using displaced_books [OF inv e(1) counts(1,2)] e(2) by simp
  show ?case
    unfolding path(1)
  proof (rule tx_commit [OF inv g al ns dirs _ st'(2) _ books])
    show "sseq (modify_directory Home parent (bt_remove name))
        (sseq (case node_object_id n of None \<Rightarrow> sret () | Some object \<Rightarrow> modify_objects (objects_remove object))
        (sseq (modify_quota (quota_release (nm_logical_size (node_meta n)) 1)) (set_generation g)))
        (s\<lparr>cfs_persistence := p\<rparr>) =
      (Inr (), s\<lparr>cfs_home := d', cfs_objects := st',
        cfs_quota := quota_release (nm_logical_size (node_meta n)) 1 (cfs_quota s),
        cfs_generation := g, cfs_persistence := p\<rparr>)" for p
      using d' st'(1) e(2) by (auto simp: sseq_def sbind_def modify_directory_def modify_quota_def
          set_generation_def modify_objects_def displace_def split: option.splits)
  qed (use st'(3) in \<open>auto simp: op_has_room_def split: option.splits\<close>)
qed (auto dest: no_panic simp: rbind_Inl_iff ok_or_iff)

subsection \<open>Renaming\<close>

text \<open>The two updates of a rename, as one change of the home tree.\<close>

lemma rename_tree:
  assumes inv: "fs_inv sha s" and se: "find_directory (cfs_home s) sp = Inr se" "map_of se sn = Some n"
    and de: "find_directory (cfs_home s) dp = Inr de"
    and out: "\<not> is_within (dp @ [dn]) (sp @ [sn])"
  obtains d1 d2 where "find_directory_mut (cfs_home s) sp (bt_remove sn) = Inr d1"
    "find_directory_mut d1 dp (bt_insert dn
        (Node ((node_meta n)\<lparr>nm_generation := g\<rparr>) (node_contents n)) \<circ> bt_remove dn) = Inr d2"
    "tree_ns d2 = ns_rename (home_path (sp @ [sn])) (home_path (dp @ [dn])) g (fs_ns s)"
    "dirs_ok d2" "entries_ok d2"
proof -
  let ?d = "cfs_home s" and ?n = "Node ((node_meta n)\<lparr>nm_generation := g\<rparr>) (node_contents n)"
  let ?f = "bt_insert dn ?n \<circ> bt_remove dn"
  have ok: "dirs_ok ?d" "entries_ok ?d" using inv by (simp_all add: fs_inv_def)
  obtain d1 where d1: "find_directory_mut ?d sp (bt_remove sn) = Inr d1"
    using se(1) find_directory_mut_iff by blast
  have look: "tlook d1 p = (if is_within p (sp @ [sn]) then None else tlook ?d p)" for p
    using tlook_remove [OF d1 se(1), where p = p] by simp
  have "\<exists>e. find_directory d1 dp = Inr e"
  proof (cases "dp = []")
    case False
    moreover have "\<not> is_within dp (sp @ [sn])" using out by (auto simp: is_within_iff)
    ultimately show ?thesis using look [of dp] de tlook_is_directory [OF False] by metis
  qed simp
  then obtain e1 where e1: "find_directory d1 dp = Inr e1" ..
  then obtain d2 where d2: "find_directory_mut d1 dp ?f = Inr d2" using find_directory_mut_iff by blast
  have ok1: "dirs_ok d1" "entries_ok d1"
    using dirs_ok_mut [OF ok(1) d1 se(1) dirs_ok_remove] dirs_okD [OF ok(1) se(1)]
      entries_ok_update [OF ok(2) d1 se(1), of sn None] by auto
  have "case node_contents ?n of CDir ch \<Rightarrow> dirs_ok ch | CFile _ \<Rightarrow> True"
    using dirs_ok_entry [OF _ se(2)] dirs_okD [OF ok(1) se(1)] by simp
  from dirs_ok_insert [OF dirs_ok_remove this] have "dirs_ok (?f e1)"
    using dirs_okD [OF ok1(1) e1] by simp
  then have dirs2: "dirs_ok d2" using dirs_ok_mut [OF ok1(1) d2 e1] by simp
  have "entry_ok x" if "below n q = Some x" for q x
    using that se(2) tlook_child [OF se(1), of sn q] by (intro entries_okD [OF ok(2), of "sp @ sn # q"]) simp
  then have "entry_ok x" if "below ?n q = Some x" for q x
  proof (cases q)
    case Nil
    with that \<open>\<And>x q. below n q = Some x \<Longrightarrow> entry_ok x\<close> [of "[]" "shallow n"] show ?thesis
      by (auto simp: shallow_def entry_ok_def node_object_id_def)
  next
    case (Cons c cs)
    with that have "below n q = Some x" by simp
    then show ?thesis by (rule \<open>\<And>x q. below n q = Some x \<Longrightarrow> entry_ok x\<close>)
  qed
  then have "entries_ok d2" using entries_ok_update [OF ok1(2) d2 e1, of dn "Some ?n"] by auto
  with that d1 d2 dirs2 tree_ns_rename [OF d1 se out d2] show thesis by (simp add: fs_ns_def)
qed

lemma rename_allowed:
  assumes inv: "fs_inv sha s" and plain: "path_plain (home_path (dp @ [dn]))"
    and se: "find_directory (cfs_home s) sp = Inr se" "map_of se sn = Some n"
    and de: "find_directory (cfs_home s) dp = Inr de"
    and out: "\<not> is_within (home_path (dp @ [dn])) (home_path (sp @ [sn]))"
    and rep: "\<And>m. map_of de dn = Some m \<Longrightarrow> replace \<and> leaf m \<and> nm_kind (node_meta m) = nm_kind (node_meta n)"
  shows "ns_allowed (JRename (home_path (sp @ [sn])) (home_path (dp @ [dn])) replace) g (fs_ns s)"
proof -
  have kind: "nm_kind (node_meta k) = KindDirectory \<longleftrightarrow> node_object_id k = None"
    if "find_directory (cfs_home s) cs = Inr e" "map_of e name = Some k" for cs e name k
    using inv tlook_child [OF that(1), of name "[]"] that(2)
      entries_okD [of "cfs_home s" "cs @ [name]" "shallow k"]
    by (simp add: fs_inv_def entry_ok_def shallow_def)
  have same: "(node_object_id m = None) = (node_object_id n = None)" if "map_of de dn = Some m" for m
    using kind [OF se] kind [OF de that] rep [OF that] by simp
  have "\<not> ns_has_descendant (fs_ns s) (home_path (dp @ [dn]))" if "map_of de dn = Some m" for m
    using leaf_no_descendant [OF de that] rep [OF that] by simp
  with same rep show ?thesis
    using out plain has_parent_at [OF de] fs_ns_at [OF se(1), of sn] fs_ns_at [OF de, of dn] se(2)
    by (cases "map_of de dn") (auto simp: ns_allowed_def ns_replaceable_def shallow_def)
qed

lemma fs_rename_tx:
  assumes inv: "fs_inv sha s" and plain: "path_plain dst"
  shows "tx s (fs_rename sha cap src dst replace)
    (\<lambda>_ s'. if src = dst then s' = s else commits sha (JRename src dst replace) None s s')"
  unfolding fs_rename_def Let_def
proof (intro tx_read tx_split tx_if tx_fail tx_ret, goal_cases)
  case (10 x sm sc x1 dm dc x2 sn sp x3 dn dp n de)
  then obtain se where path: "sm = Home" "dm = Home" "src = home_path (sp @ [sn])" "dst = home_path (dp @ [dn])"
    and se: "find_directory (cfs_home s) sp = Inr se" "map_of se sn = Some n"
    and de: "find_directory (cfs_home s) dp = Inr de"
    and out: "\<not> is_within dst src"
    by (auto simp: mutable_target_iff split_name_iff rbind_Inr_iff ok_or_iff)
  have ne: "src \<noteq> dst" using 10 by simp
  let ?op = "JRename src dst replace"
  show ?case
  proof (rule tx_guard [where G = "case map_of de dn of
        None \<Rightarrow> length de < maximum_directory_entries (cfs_limits s)
      | Some m \<Rightarrow> replace \<and> leaf m \<and> nm_kind (node_meta m) = nm_kind (node_meta n)"], goal_cases)
    case 1
    then show ?case
      by (cases "map_of de dn") (auto intro!: tx_if tx_read_last tx_fail tx_ret dest: no_panic
          simp: check_iffs leaf_def split: node_kind.splits contents.splits)
  next
    case (2 u)
    note guard = this
    show ?case
    proof (intro tx_read, goal_cases)
      case (2 g)
      then have g: "g = cfs_generation s + 1" "g < 2 ^ 64" by (auto simp: check_iffs)
      have al: "ns_allowed ?op g (fs_ns s)"
        unfolding path(3,4) using guard plain out
        by (intro rename_allowed [OF inv _ se de]) (simp_all add: path)
      obtain d1 d2 where d: "find_directory_mut (cfs_home s) sp (bt_remove sn) = Inr d1"
        "find_directory_mut d1 dp (bt_insert dn
          (Node ((node_meta n)\<lparr>nm_generation := g\<rparr>) (node_contents n)) \<circ> bt_remove dn) = Inr d2"
        "tree_ns d2 = ns_apply ?op g (fs_ns s)" "dirs_ok d2" "entries_ok d2"
        using rename_tree [OF inv se de, of dn g] out path by (auto simp: ns_apply_def is_within_def)
      have wf: "ns_wf (fs_ns s)" using inv by (simp add: fs_inv_def)
      note counts = counts_apply [OF wf al, folded d(3), unfolded op_target_def op_gain_def
          journal_operation.case add_0_right path(4)]
      obtain st' where st': "displace (map_of de dn) (cfs_objects s) = Inr st'"
        "obj_ok sha (\<lambda>oid. ns_refs (tree_ns d2) oid + rom_refs s oid) st'"
        "\<And>oid. 0 < ns_refs (tree_ns d2) oid + rom_refs s oid \<Longrightarrow> obj_bytes st' oid =
          (case obj_bytes (cfs_objects s) oid of Some b \<Rightarrow> Some b | None \<Rightarrow> None)"
        by (rule displace_objects [OF inv de counts(3)]) blast
      let ?q = "case map_of de dn of None \<Rightarrow> cfs_quota s
        | Some m \<Rightarrow> quota_release (nm_logical_size (node_meta m)) 1 (cfs_quota s)"
      have books: "books_ok (cfs_limits s) (tree_ns d2) ?q" by (rule displaced_books [OF inv de counts(1,2)])
      have room: "op_has_room (maximum_directory_entries (cfs_limits s)) ?op (fs_ns s)"
        using guard children_at [OF inv de] fs_ns_at [OF de, of dn]
        by (auto simp: op_has_room_def op_target_def path butlast_append split: option.splits)
      show ?case
        unfolding path(1,2)
      proof (rule tx_weaken, rule tx_commit [OF inv g al d(3-5) room st'(2) _ books, where x = "()"], goal_cases)
        case (1 oid)
        then show ?case using st'(3) by (simp split: option.split)
      next
        case (2 p)
        then show ?case
          using d st'(1) se by (cases "map_of de dn"; cases "Option.bind (map_of de dn) node_object_id")
            (auto simp: sseq_def sbind_def modify_directory_def modify_quota_def set_generation_def
              modify_objects_def displace_def)
      qed (simp add: ne)
    qed (auto dest: no_panic)
  qed
qed (auto dest: no_panic simp: rbind_Inl_iff ok_or_iff)

subsection \<open>Contents\<close>

lemma content_present:
  assumes inv: "fs_inv sha s" and n: "find_node (cfs_directory m s) cs = Inr n" "node_object_id n = Some oid"
  shows "\<exists>b. objects_bytes (cfs_objects s) oid = Inr b \<and> sha b = oid"
proof -
  have pos: "0 < ns_refs (tree_ns (cfs_directory m s)) oid"
  proof (rule ns_refs_pos)
    show "finite (dom (tree_ns (cfs_directory m s)))"
      using inv by (cases m) (auto simp: fs_inv_def fs_ns_def ns_wf_def)
    show "tree_ns (cfs_directory m s) (home_path cs) = Some (entry_ck (home_path cs) (shallow n))"
      using n(1) by (simp add: tlook_def)
    show "map_option fst (ck_object (entry_ck (home_path cs) (shallow n))) = Some oid"
      using n(2) by (simp add: entry_ck_def shallow_def)
  qed
  then have refs: "0 < ns_refs (fs_ns s) oid + rom_refs s oid"
    by (cases m) (simp_all add: fs_ns_def rom_refs_def ns_refs_def)
  have ok: "obj_ok sha (\<lambda>oid. ns_refs (fs_ns s) oid + rom_refs s oid) (cfs_objects s)"
    using inv by (simp add: fs_inv_def)
  show ?thesis by (rule obj_okD [OF ok refs]) (simp add: objects_bytes_def)
qed

lemma file_bytes_error:
  assumes "fs_inv sha s" "file_bytes path s = Inl e"
  shows "e \<noteq> Panicked"
proof -
  have "e \<noteq> Panicked" if "find_node (cfs_directory m s) cs = Inr n"
    "(case node_contents n of CFile object \<Rightarrow> objects_bytes (cfs_objects s) object
      | CDir _ \<Rightarrow> Inl IsDirectory) = Inl e" for m cs n
    using content_present [OF assms(1) that(1)] that(2)
    by (cases "node_contents n") (auto simp: node_object_id_def)
  with assms(2) show ?thesis
    by (auto simp: file_bytes_def rbind_Inl_iff dest: split_mount_error find_node_error)
qed

lemma fs_read_error: "fs_inv sha s \<Longrightarrow> fs_read h k n s = Inl e \<Longrightarrow> e \<noteq> Panicked"
  using file_bytes_error [of sha s]
  by (auto simp: fs_read_def rbind_Inl_iff Let_def dest: small_check_errors(5) split: if_splits)

lemma read_chunks_error: "fs_inv sha s \<Longrightarrow> read_chunks s h len k acc = Inl e \<Longrightarrow> e \<noteq> Panicked"
proof (induction s h len k acc rule: read_chunks.induct)
  case (1 s h len k acc)
  from 1(3) show ?case
    unfolding read_chunks.simps [of s h len k acc]
    using fs_read_error [OF 1(2)] 1(1)[OF _ _ _ _ 1(2)]
    by (auto simp: rbind_Inl_iff ok_or_iff split: if_splits) blast
qed

subsection \<open>Writes through handles\<close>

text \<open>A file of bytes written at an offset, and set to a length: bytes that are not given are kept, or zero
  behind the old end.\<close>

definition overlay :: "nat \<Rightarrow> bytes \<Rightarrow> bytes \<Rightarrow> bytes" where
  "overlay k new old =
     map (\<lambda>i. if k \<le> i \<and> i < k + length new then new ! (i - k) else if i < length old then old ! i else 0)
       [0..<max (length old) (k + length new)]"

definition sized :: "nat \<Rightarrow> bytes \<Rightarrow> bytes" where
  "sized n old = map (\<lambda>i. if i < length old then old ! i else 0) [0..<n]"

lemma resize_sized: "resize old n = sized n old"
  by (rule nth_equalityI) (auto simp: resize_def sized_def nth_append)

lemma splice_overlay:
  assumes "stop = k + length new"
  shows "take k (resize old (max (length old) stop)) @ new @ drop stop (resize old (max (length old) stop)) = overlay k new old"
  unfolding resize_sized
  by (rule nth_equalityI) (use assms in \<open>auto simp: overlay_def sized_def nth_append min_def max_def\<close>)

lemma fs_write_tx:
  assumes inv: "fs_inv sha s"
  shows "tx s (fs_write sha h k bs) (\<lambda>_ s'. if min (length bs) (maximum_io_bytes (cfs_limits s)) = 0 then s' = s
    else \<exists>f old x. handle_get (cfs_handles s) h = Inr f \<and> file_at s (of_path f) = Some (old, x) \<and>
      puts sha (of_path f) (overlay k (take (maximum_io_bytes (cfs_limits s)) bs) old) x s s')"
  unfolding fs_write_def Let_def
proof (intro tx_read tx_if tx_fail tx_ret tx_seq_ret, goal_cases)
  case (4 opened accepted)
  then have "min (length bs) (maximum_io_bytes (cfs_limits s)) = 0" by simp
  then show ?case by (simp only: if_True simp_thms)
next
  case (8 opened accepted stop u old)
  then have stop: "stop = k + length (take accepted bs)" by (auto simp: ok_or_iff checked_add_def split: if_splits)
  have acc: "take accepted bs = take (maximum_io_bytes (cfs_limits s)) bs" using 8 by (auto simp: min_def)
  obtain x where x: "file_at s (of_path opened) = Some (old, x)" using file_bytes_at 8 by blast
  have get: "handle_get (cfs_handles s) h = Inr opened" and nz: "min (length bs) (maximum_io_bytes (cfs_limits s)) \<noteq> 0" using 8 by auto
  show ?case
    unfolding splice_overlay [OF stop] if_not_P [OF nz] unfolding acc
    by (rule tx_weaken [OF replace_existing_tx [OF inv x]]) (use get x in blast)
qed (auto dest: no_panic file_bytes_error [OF inv] simp: ok_or_iff)

lemma fs_truncate_tx:
  assumes inv: "fs_inv sha s"
  shows "tx s (fs_truncate sha h n) (\<lambda>_ s'. \<exists>f old x. handle_get (cfs_handles s) h = Inr f \<and> file_at s (of_path f) = Some (old, x) \<and>
      (if length old = n then s' = s else puts sha (of_path f) (sized n old) x s s'))"
  unfolding fs_truncate_def Let_def
proof (intro tx_read tx_if tx_fail tx_ret, goal_cases)
  case (5 opened u old)
  obtain x where "file_at s (of_path opened) = Some (old, x)" using file_bytes_at 5 by blast
  then show ?case using 5 by (intro exI conjI) (assumption | simp)+
next
  case (6 opened u old)
  obtain x where x: "file_at s (of_path opened) = Some (old, x)" using file_bytes_at 6 by blast
  have get: "handle_get (cfs_handles s) h = Inr opened" and ne: "length old \<noteq> n" using 6 by auto
  have "if length old = n then t = s else puts sha (of_path opened) (sized n old) x s t" if "puts sha (of_path opened) (sized n old) x s t" for t
    using that unfolding if_not_P [OF ne] .
  with get x show ?case unfolding resize_sized by (intro tx_weaken [OF replace_existing_tx [OF inv x]]) blast
qed (auto dest: no_panic file_bytes_error [OF inv])

end
