(* ===== verification/Fs_Calls.thy ===== *)
theory Fs_Calls
  imports Fs_Live
begin

text \<open>
  The filesystem as a state machine. A call is one public method of \<open>ComputerFileSystem\<close> that takes
  \<open>&mut self\<close>; \<open>fs_exec\<close> runs it and drops its value. Every call refines the abstract namespace, and
  so does every run of calls.
\<close>

datatype fs_call =
    CallCreateDirectory file_capability virtual_path
  | CallWriteFile file_capability virtual_path bytes bool
  | CallReplaceIfRevision file_capability virtual_path bytes executable_revision bool
  | CallInstallFromRom file_capability virtual_path virtual_path
  | CallReadExecutable file_capability virtual_path
  | CallOpen file_capability virtual_path open_mode
  | CallClose file_handle
  | CallWrite file_handle nat bytes
  | CallTruncate file_handle nat
  | CallRemove file_capability virtual_path
  | CallRename file_capability virtual_path virtual_path bool

definition forget :: "'a fs_op \<Rightarrow> unit fs_op" where
  "forget m = sseq m (sret ())"

fun fs_exec :: "sha256 \<Rightarrow> fs_call \<Rightarrow> unit fs_op" where
  "fs_exec sha (CallCreateDirectory cap path) = create_directory sha cap path"
| "fs_exec sha (CallWriteFile cap path bs x) = write_file sha cap path bs x"
| "fs_exec sha (CallReplaceIfRevision cap path bs revision x) = replace_file_if_revision sha cap path bs revision x"
| "fs_exec sha (CallInstallFromRom cap src dst) = install_executable_from_rom sha cap src dst"
| "fs_exec sha (CallReadExecutable cap path) = forget (read_executable cap path)"
| "fs_exec sha (CallOpen cap path mode) = forget (fs_open cap path mode)"
| "fs_exec sha (CallClose h) = fs_close h"
| "fs_exec sha (CallWrite h k bs) = forget (fs_write sha h k bs)"
| "fs_exec sha (CallTruncate h n) = fs_truncate sha h n"
| "fs_exec sha (CallRemove cap path) = fs_remove sha cap path"
| "fs_exec sha (CallRename cap src dst replace) = fs_rename sha cap src dst replace"

text \<open>Paths that a caller supplies come from the parser, so their components are plain.\<close>

fun call_plain :: "fs_call \<Rightarrow> bool" where
  "call_plain (CallCreateDirectory cap path) \<longleftrightarrow> path_plain path"
| "call_plain (CallWriteFile cap path bs x) \<longleftrightarrow> path_plain path"
| "call_plain (CallReplaceIfRevision cap path bs revision x) \<longleftrightarrow> path_plain path"
| "call_plain (CallInstallFromRom cap src dst) \<longleftrightarrow> path_plain dst"
| "call_plain (CallRename cap src dst replace) \<longleftrightarrow> path_plain dst"
| "call_plain _ \<longleftrightarrow> True"

text \<open>The files that a handle table has open, and a change of the handle table alone that opens no path
  outside \<open>X\<close>.\<close>

definition open_files :: "handle_table \<Rightarrow> open_file set" where
  "open_files t = {f. \<exists>slot\<in>set (ht_slots t). hs_file slot = Some f}"

definition handles_only :: "virtual_path set \<Rightarrow> computer_fs \<Rightarrow> computer_fs \<Rightarrow> bool" where
  "handles_only X s s' \<longleftrightarrow> (\<exists>h. s' = s\<lparr>cfs_handles := h\<rparr> \<and>
     (\<forall>f\<in>open_files h. f \<in> open_files (cfs_handles s) \<or> of_path f \<in> X))"

fun call_opens :: "fs_call \<Rightarrow> virtual_path set" where
  "call_opens (CallOpen cap path mode) = {path}"
| "call_opens (CallReadExecutable cap path) = {path}"
| "call_opens _ = {}"

text \<open>
  The specification of a mutating call. \<open>call_file\<close> is the file that a writing call leaves, with its exact bytes and
  executable flag; \<open>call_journals\<close> the one operation that the call commits, with the contents stored for it;
  \<open>call_idle\<close> tells the calls that succeed without a change: a write that takes no bytes, a truncation to the present length and
  a rename of a path to itself.
\<close>

fun call_mutates :: "fs_call \<Rightarrow> bool" where
  "call_mutates (CallReadExecutable cap path) \<longleftrightarrow> False"
| "call_mutates (CallOpen cap path mode) \<longleftrightarrow> False"
| "call_mutates (CallClose h) \<longleftrightarrow> False"
| "call_mutates _ \<longleftrightarrow> True"

definition opened_file :: "computer_fs \<Rightarrow> file_handle \<Rightarrow> (virtual_path \<times> bytes \<times> bool) option" where
  "opened_file s h =
     (case handle_get (cfs_handles s) h of
        Inl _ \<Rightarrow> None
      | Inr f \<Rightarrow> map_option (\<lambda>(old, x). (of_path f, old, x)) (file_at s (of_path f)))"

fun call_idle :: "computer_fs \<Rightarrow> fs_call \<Rightarrow> bool" where
  "call_idle s (CallWrite h k bs) \<longleftrightarrow> bs = [] \<or> maximum_io_bytes (cfs_limits s) = 0"
| "call_idle s (CallTruncate h n) \<longleftrightarrow> (case opened_file s h of Some (_, old, _) \<Rightarrow> length old = n | None \<Rightarrow> False)"
| "call_idle s (CallRename cap src dst replace) \<longleftrightarrow> src = dst"
| "call_idle s _ \<longleftrightarrow> False"

fun call_file :: "computer_fs \<Rightarrow> fs_call \<Rightarrow> (virtual_path \<times> bytes \<times> bool) option" where
  "call_file s (CallWriteFile cap path bs x) = Some (path, bs, x)"
| "call_file s (CallReplaceIfRevision cap path bs revision x) = Some (path, bs, x)"
| "call_file s (CallInstallFromRom cap src dst) = map_option (\<lambda>(bs, _). (dst, bs, True)) (file_at s src)"
| "call_file s (CallWrite h k bs) =
     map_option (\<lambda>(path, old, x). (path, overlay k (take (maximum_io_bytes (cfs_limits s)) bs) old, x)) (opened_file s h)"
| "call_file s (CallTruncate h n) = map_option (\<lambda>(path, old, x). (path, sized n old, x)) (opened_file s h)"
| "call_file s _ = None"

fun call_journals ::
  "sha256 \<Rightarrow> computer_fs \<Rightarrow> fs_call \<Rightarrow> journal_operation \<Rightarrow> (object_id \<times> bytes) option \<Rightarrow> bool" where
  "call_journals sha s (CallCreateDirectory cap path) op object \<longleftrightarrow>
     op = JCreateDirectory path (cfs_generation s + 1) \<and> object = None"
| "call_journals sha s (CallRemove cap path) op object \<longleftrightarrow> op = JRemove path \<and> object = None"
| "call_journals sha s (CallRename cap src dst replace) op object \<longleftrightarrow> op = JRename src dst replace \<and> object = None"
| "call_journals sha s call op object \<longleftrightarrow>
     (case call_file s call of
        None \<Rightarrow> False
      | Some (path, bs, x) \<Rightarrow> length bs \<le> maximum_file_bytes (cfs_limits s) \<and>
          op = JPutFile path (cfs_generation s + 1) (length bs) (sha bs) x \<and> object = Some (sha bs, bs))"

text \<open>What every call guarantees.\<close>

definition call_ok :: "sha256 \<Rightarrow> fs_call \<Rightarrow> computer_fs \<Rightarrow> filesystem_error + 'a \<Rightarrow> computer_fs \<Rightarrow> bool" where
  "call_ok sha call s r s' \<longleftrightarrow> r \<noteq> Inl Panicked \<and>
     (if \<not> call_mutates call then handles_only (call_opens call) s s'
      else if is_ok r \<and> \<not> call_idle s call then \<exists>op object. call_journals sha s call op object \<and> commits sha op object s s'
      else s' = s)"

lemma handles_only_refl [simp]: "handles_only X s s"
  unfolding handles_only_def by (rule exI [of _ "cfs_handles s"]) simp

lemma handles_only_trans: "handles_only X s t \<Longrightarrow> handles_only X t u \<Longrightarrow> handles_only X s u"
  by (fastforce simp: handles_only_def)

lemma handles_only_mono: "handles_only {} s t \<Longrightarrow> handles_only X s t"
  by (auto simp: handles_only_def)

lemma handle_open_files:
  "handle_open f t = (r, t') \<Longrightarrow> g \<in> open_files t' \<Longrightarrow> g \<in> open_files t \<or> g = f"
  by (auto simp: handle_open_def open_files_def dest!: set_update_subset_insert [THEN subsetD]
      split: option.splits if_splits)

lemma handle_close_files: "handle_close h t = (r, t') \<Longrightarrow> g \<in> open_files t' \<Longrightarrow> g \<in> open_files t"
  by (auto simp: handle_close_def open_files_def Let_def dest!: set_update_subset_insert [THEN subsetD]
      split: option.splits if_splits)

lemma handle_get_open: "handle_get t h = Inr f \<Longrightarrow> f \<in> open_files t"
  by (auto simp: handle_get_def open_files_def Let_def ok_or_iff split: if_splits intro!: bexI nth_mem)

lemma fs_inv_handles: "handles_only X s s' \<Longrightarrow> fs_inv sha s \<Longrightarrow> fs_inv sha s'"
  by (auto simp: handles_only_def fs_inv_def fs_ns_def rom_refs_def)

lemma tx_call:
  assumes "call_mutates call"
    "tx s m (\<lambda>_ s'. if call_idle s call then s' = s else \<exists>op object. call_journals sha s call op object \<and> commits sha op object s s')"
  shows "call_ok sha call s (fst (m s)) (snd (m s))"
  using assms by (cases "m s"; cases "fst (m s)") (auto simp: tx_def call_ok_def)

lemma forget_call:
  "call_ok sha call s (fst (m s)) (snd (m s)) \<Longrightarrow> call_ok sha call s (fst (forget m s)) (snd (forget m s))"
  by (cases "m s"; cases "fst (m s)") (auto simp: forget_def sseq_def sbind_def call_ok_def)

lemma handles_call:
  "\<not> call_mutates call \<Longrightarrow> (\<And>r s'. m s = (r, s') \<Longrightarrow> handles_only (call_opens call) s s' \<and> r \<noteq> Inl Panicked) \<Longrightarrow>
     call_ok sha call s (fst (m s)) (snd (m s))"
  by (cases "m s") (auto simp: call_ok_def)

lemma handle_open_error: "handle_open f t = (Inl e, t') \<Longrightarrow> e \<noteq> Panicked"
  by (auto simp: handle_open_def split: option.splits if_splits)

lemma handle_close_error: "handle_close h t = (Inl e, t') \<Longrightarrow> e \<noteq> Panicked"
  by (auto simp: handle_close_def Let_def split: option.splits if_splits)

lemma fs_open_handles:
  assumes "fs_open cap path mode s = (r, s')"
  shows "handles_only {path} s s' \<and> r \<noteq> Inl Panicked"
proof -
  let ?f = "\<lparr>of_path = path, of_mode = mode\<rparr>"
  have "handles_only {path} s s' \<and> r \<noteq> Inl Panicked" if "(if cap_handle_limit cap \<le> handle_open_count (cfs_handles s)
      then (Inl QuotaExceeded, s)
      else (case handle_open ?f (cfs_handles s) of (r, h) \<Rightarrow> (r, s\<lparr>cfs_handles := h\<rparr>))) = (r, s')"
  proof (cases "cap_handle_limit cap \<le> handle_open_count (cfs_handles s)")
    case False
    obtain r0 h where r0: "handle_open ?f (cfs_handles s) = (r0, h)" by fastforce
    with that False have "r = r0" "s' = s\<lparr>cfs_handles := h\<rparr>" by simp_all
    with handle_open_files [OF r0] handle_open_error [of ?f "cfs_handles s" _ h] r0 show ?thesis
      by (fastforce simp: handles_only_def intro!: exI [of _ h])
  qed (use that in auto)
  moreover have "e \<noteq> Panicked" if
    "(case node_contents n of CFile _ \<Rightarrow> Inr () | CDir _ \<Rightarrow> Inl IsDirectory) = Inl e" for n e
    using that by (cases "node_contents n") auto
  ultimately show ?thesis
    using assms
    by (auto simp: fs_open_def Let_def sbind_def rbind_Inl_iff dest: no_panic
        split: sum.splits prod.splits)
qed

lemma fs_close_handles: "fs_close h s = (r, s') \<Longrightarrow> handles_only X s s' \<and> r \<noteq> Inl Panicked"
proof -
  assume run: "fs_close h s = (r, s')"
  obtain r0 t where r0: "handle_close h (cfs_handles s) = (r0, t)" by fastforce
  with run have "r = r0" "s' = s\<lparr>cfs_handles := t\<rparr>" by (simp_all add: fs_close_def)
  with handle_close_files [OF r0] handle_close_error [of h "cfs_handles s" _ t] r0 show ?thesis
    by (fastforce simp: handles_only_def intro!: exI [of _ t])
qed

lemma fs_stat_error: "fs_stat cap path s = Inl e \<Longrightarrow> e \<noteq> Panicked"
  by (auto simp: fs_stat_def rbind_Inl_iff dest: no_panic split: if_splits)

lemma read_executable_handles:
  assumes inv: "fs_inv sha s" and run: "read_executable cap path s = (r, s')"
  shows "handles_only {path} s s' \<and> r \<noteq> Inl Panicked"
proof -
  let ?k = "\<lambda>len h s. (case read_chunks s h len 0 [] of
      Inl e \<Rightarrow> (Inl e, snd (fs_close h s))
    | Inr bytes \<Rightarrow> (case fs_close h s of (Inl e, t) \<Rightarrow> (Inl e, t) | (Inr _, t) \<Rightarrow> (Inr bytes, t)))"
  have k: "handles_only {path} t u \<and> r' \<noteq> Inl Panicked" if "fs_inv sha t" "?k len h t = (r', u)" for len h t r' u
    using that(2) read_chunks_error [OF that(1), of h len 0 "[]"] fs_close_handles [of h t "fst (fs_close h t)" "snd (fs_close h t)"]
    by (cases "fs_close h t"; cases "fst (fs_close h t)") (auto split: sum.splits)
  have open_k: "handles_only {path} s u \<and> r' \<noteq> Inl Panicked"
    if o: "sbind (fs_open cap path ModeRead) (?k len) s = (r', u)" for len r' u
  proof -
    obtain ro t where ro: "fs_open cap path ModeRead s = (ro, t)" by fastforce
    note oh = fs_open_handles [OF this]
    show ?thesis
    proof (cases ro)
      case (Inr h)
      with o ro have "?k len h t = (r', u)" by (simp add: sbind_def)
      with k fs_inv_handles oh inv handles_only_trans show ?thesis by blast
    qed (use o ro oh in \<open>auto simp: sbind_def\<close>)
  qed
  show ?thesis
    using run open_k
    by (auto simp: read_executable_def sbind_def [of "sread _"] dest: no_panic fs_stat_error
        split: sum.splits if_splits)
qed

lemma replace_if_revision_tx:
  assumes inv: "fs_inv sha s" and plain: "path_plain path"
  shows "tx s (replace_file_if_revision sha cap path bs revision x)
    (\<lambda>_. puts sha path bs x s)"
  unfolding replace_file_if_revision_def
proof (intro tx_read tx_if tx_fail, goal_cases)
  case (1 e)
  then show ?case
    by (auto simp: replacement_revision_def rbind_Inl_iff dest: no_panic
        split: option.splits if_splits)
next
  case (3 actual)
  show ?case by (rule write_file_tx [OF inv plain])
qed simp

lemma install_from_rom_tx:
  assumes inv: "fs_inv sha s" and plain: "path_plain dst"
  shows "tx s (install_executable_from_rom sha cap src dst)
    (\<lambda>_ s'. \<exists>bs x. file_at s src = Some (bs, x) \<and> puts sha dst bs True s s')"
  unfolding install_executable_from_rom_def
proof (intro tx_read tx_split tx_if tx_fail, goal_cases)
  case (5 x m cs n e)
  then show ?case
    using content_present [OF inv, of m cs n]
    by (cases "node_contents n") (auto simp: node_object_id_def)
next
  case (10 x m cs n b x' dm dcs x'' name parent d)
  then have "file_bytes src s = Inr b"
    by (cases "node_contents n") (simp_all add: file_bytes_def)
  then obtain y where "file_at s src = Some (b, y)" using file_bytes_at by blast
  then show ?case by (intro tx_weaken [OF write_file_tx [OF inv plain]]) blast
qed (auto dest: no_panic)

lemma puts_journals:
  assumes "puts sha path bs x s s'" "call_file s call = Some (path, bs, x)"
  shows "\<exists>op object. call_journals sha s call op object \<and> commits sha op object s s'"
  using assms unfolding puts_def by (cases call) auto

lemma opened_file_iff:
  "opened_file s h = Some (path, old, x) \<longleftrightarrow> (\<exists>f. handle_get (cfs_handles s) h = Inr f \<and> path = of_path f \<and> file_at s path = Some (old, x))"
  by (auto simp: opened_file_def split: sum.splits)

lemma fs_exec_ok:
  assumes inv: "fs_inv sha s" and plain: "call_plain call"
  shows "call_ok sha call s (fst (fs_exec sha call s)) (snd (fs_exec sha call s))"
proof (cases call)
  case (CallCreateDirectory cap path)
  with plain show ?thesis
    using tx_call [of call s "create_directory sha cap path" sha] create_directory_tx [OF inv, of path cap] by (auto elim!: tx_weaken)
next
  case (CallWriteFile cap path bs x)
  with plain show ?thesis
    using tx_call [of call s "write_file sha cap path bs x" sha] tx_weaken [OF write_file_tx [OF inv, of path cap bs x]] puts_journals [of sha path bs x s _ call] by simp
next
  case (CallReplaceIfRevision cap path bs revision x)
  with plain show ?thesis
    using tx_call [of call s "replace_file_if_revision sha cap path bs revision x" sha]
      tx_weaken [OF replace_if_revision_tx [OF inv, of path cap bs revision x]] puts_journals [of sha path bs x s _ call] by simp
next
  case (CallInstallFromRom cap src dst)
  have "tx s (install_executable_from_rom sha cap src dst)
    (\<lambda>_ s'. if call_idle s call then s' = s else \<exists>op object. call_journals sha s call op object \<and> commits sha op object s s')"
    by (rule tx_weaken [OF install_from_rom_tx [OF inv]]) (use plain CallInstallFromRom puts_journals [of sha dst _ True s _ call] in auto)
  with CallInstallFromRom show ?thesis using tx_call [of call s "install_executable_from_rom sha cap src dst" sha] by simp
next
  case (CallReadExecutable cap path)
  then have "call_ok sha call s (fst (read_executable cap path s)) (snd (read_executable cap path s))"
    by (intro handles_call) (use read_executable_handles [OF inv] in auto)
  then show ?thesis using CallReadExecutable forget_call [of sha call s "read_executable cap path"] by simp
next
  case (CallOpen cap path mode)
  then have "call_ok sha call s (fst (fs_open cap path mode s)) (snd (fs_open cap path mode s))"
    by (intro handles_call) (use fs_open_handles in auto)
  then show ?thesis using CallOpen forget_call [of sha call s "fs_open cap path mode"] by simp
next
  case (CallClose h)
  then show ?thesis using handles_call [of call "fs_close h" s sha] fs_close_handles by simp
next
  case (CallWrite h k bs)
  have none: "(min (length bs) m = 0) = (bs = [] \<or> m = 0)" for m by (auto simp: min_def)
  have "tx s (fs_write sha h k bs)
    (\<lambda>_ s'. if call_idle s call then s' = s else \<exists>op object. call_journals sha s call op object \<and> commits sha op object s s')"
    by (rule tx_weaken [OF fs_write_tx [OF inv, of h k bs, unfolded none]])
      (use CallWrite in \<open>auto simp: opened_file_def puts_def split: if_splits\<close>)
  with CallWrite show ?thesis using forget_call [of sha call s "fs_write sha h k bs"] tx_call [of call s "fs_write sha h k bs" sha] by simp
next
  case (CallTruncate h n)
  have "tx s (fs_truncate sha h n)
    (\<lambda>_ s'. if call_idle s call then s' = s else \<exists>op object. call_journals sha s call op object \<and> commits sha op object s s')"
    by (rule tx_weaken [OF fs_truncate_tx [OF inv]])
      (use CallTruncate in \<open>auto simp: opened_file_def puts_def split: if_splits\<close>)
  with CallTruncate show ?thesis using tx_call [of call s "fs_truncate sha h n" sha] by simp
next
  case (CallRemove cap path)
  then show ?thesis
    using tx_call [of call s "fs_remove sha cap path" sha] fs_remove_tx [OF inv, of cap path] by (auto elim!: tx_weaken)
next
  case (CallRename cap src dst replace)
  have "tx s (fs_rename sha cap src dst replace)
    (\<lambda>_ s'. if call_idle s call then s' = s else \<exists>op object. call_journals sha s call op object \<and> commits sha op object s s')"
    by (rule tx_weaken [OF fs_rename_tx [OF inv]]) (use plain CallRename in \<open>auto split: if_splits\<close>)
  with CallRename show ?thesis using tx_call [of call s "fs_rename sha cap src dst replace" sha] by simp
qed

end
