(* ===== verification/Fs_Contents.thy ===== *)
theory Fs_Contents
  imports Fs_Calls
begin

text \<open>
  The theorems about the live filesystem that a client relies on: every call refines the abstract
  namespace, and file contents read back as written while every other file keeps its contents.
\<close>

lemma tlook_empty [simp]: "tlook [] cs = None"
  by (cases cs) (auto simp: tlook_def)

lemma tree_ns_empty [simp]: "tree_ns [] = Map.empty"
  by (auto simp: tree_ns_def fun_eq_iff split: list.splits)

lemma fs_inv_with_limits:
  assumes "2 \<le> maximum_nodes lim" "maximum_nodes lim < 2 ^ 32"
  shows "fs_inv sha (with_limits lim)"
proof -
  have w: "ns_weight f Map.empty = 0" for f by (simp add: ns_weight_def)
  have "entries_ok []" by (simp add: entries_ok_def)
  then show ?thesis
    using assms by (simp add: fs_inv_def with_limits_def fs_ns_def rom_refs_def ns_refs_def w ns_wf_def
        books_ok_def quota_new_def ns_size_def ns_children_def obj_ok_def)
qed

text \<open>
  C2. Every call refines the abstract namespace. On a state that satisfies the filesystem invariant, a
  call whose paths come from the parser keeps the invariant, never hits a panic, and never touches the
  ROM tree. Opening, closing and reading an executable change nothing but the handle table. A mutating call that fails
  changes nothing, and neither does one of the three that have nothing to do (a write that takes no bytes, a truncation to the
  present length, a rename of a path to itself). Every other mutating call that succeeds commits exactly one
  operation of the namespace specification at the next generation: the operation of that call, for a written file with the
  exact bytes and executable flag it must have; it is allowed in the state before, its effect on the namespace is that
  of the specification, and its journal record with the contents is what is published.
\<close>

theorem fs_call_refines:
  assumes "fs_inv sha s" "call_plain call" "fs_exec sha call s = (r, s')"
  shows "fs_inv sha s' \<and> r \<noteq> Inl Panicked \<and> cfs_rom s' = cfs_rom s \<and>
    (if \<not> call_mutates call then handles_only (call_opens call) s s'
     else if r = Inr () \<and> \<not> call_idle s call then
       (\<exists>op object. call_journals sha s call op object \<and> ns_allowed op (cfs_generation s + 1) (fs_ns s) \<and>
          fs_ns s' = ns_apply op (cfs_generation s + 1) (fs_ns s) \<and> cfs_generation s' = cfs_generation s + 1 \<and>
          cfs_handles s' = cfs_handles s \<and>
          persist_result sha (cfs_generation s + 1) object op (cfs_persistence s) = Inr (cfs_persistence s'))
     else s' = s)"
proof -
  have ok: "call_ok sha call s r s'" using fs_exec_ok [OF assms(1,2)] assms(3) by simp
  have fin: "is_ok r \<longleftrightarrow> r = Inr ()" by (cases r) auto
  consider (handles) "\<not> call_mutates call" "handles_only (call_opens call) s s'"
    | (commit) op object where "call_mutates call" "r = Inr ()" "\<not> call_idle s call" "call_journals sha s call op object" "commits sha op object s s'"
    | (same) "call_mutates call" "\<not> (r = Inr () \<and> \<not> call_idle s call)" "s' = s"
    using ok by (auto simp: call_ok_def fin split: if_splits)
  then show ?thesis
  proof cases
    case handles
    with ok fs_inv_handles [OF handles(2) assms(1)] show ?thesis by (auto simp: call_ok_def handles_only_def)
  next
    case commit
    then show ?thesis unfolding commits_def Let_def by auto
  next
    case same
    with ok assms(1) show ?thesis by (auto simp: call_ok_def)
  qed
qed

text \<open>A directory created below the home directory of an empty filesystem.\<close>

theorem fs_call_refines_witness:
  "fs_ns (snd (fs_exec (\<lambda>_. replicate 32 0)
     (CallCreateDirectory (capability_new [] OWNER) [ascii ''home'', ascii ''a'']) (with_limits testing_limits)))
     [ascii ''home'', ascii ''a''] = Some (CkDirectory [ascii ''home'', ascii ''a''] 1)"
proof -
  let ?sha = "\<lambda>_. replicate 32 (0 :: u8)" and ?s = "with_limits testing_limits"
  let ?c = "CallCreateDirectory (capability_new [] OWNER) [ascii ''home'', ascii ''a'']"
  have inv: "fs_inv ?sha ?s" by (rule fs_inv_with_limits) (simp_all add: testing_limits_def)
  have plain: "call_plain ?c" by (simp add: path_plain_def ascii_def)
  have "fst (fs_exec ?sha ?c ?s) = Inr ()"
    by (simp add: create_directory_def sbind_def sseq_def mutable_target_def writable_path_def split_mount_def split_name_def
        require_def permits_def is_within_def rights_contains_def capability_new_def OWNER_def CREATE_def
        check_directory_entry_limit_def with_limits_def testing_limits_def
        quota_reserve_def quota_new_def default_cost_def next_generation_def checked_add_def Let_def
        prepare_persistence_def drop_on_error_def modify_directory_def modify_quota_def set_generation_def publish_def)
  then have run: "fs_exec ?sha ?c ?s = (Inr (), snd (fs_exec ?sha ?c ?s))" by (metis prod.collapse)
  have "cfs_generation ?s = 0" by (simp add: with_limits_def)
  then show ?thesis using fs_call_refines [OF inv plain run] by (auto simp: ns_apply_def)
qed

subsection \<open>Contents\<close>

lemma read_snapshot_iff:
  "read_snapshot cap path s = Inr c \<longleftrightarrow> permits cap path READ \<and>
     (\<exists>m cs e oid. split_mount path = Inr (m, cs) \<and> tlook (cfs_directory m s) cs = Some (e, Some oid) \<and>
        obj_bytes (cfs_objects s) oid = Some c)"
proof -
  have "read_snapshot cap path s = Inr c \<longleftrightarrow> permits cap path READ \<and> path \<noteq> [] \<and>
     (\<exists>m cs. split_mount path = Inr (m, cs) \<and> cs \<noteq> [] \<and> (\<exists>n. find_node (cfs_directory m s) cs = Inr n \<and>
       (\<exists>oid. node_object_id n = Some oid \<and> objects_bytes (cfs_objects s) oid = Inr c)))"
    by (auto simp: read_snapshot_def rbind_Inr_iff ok_or_iff require_def rguard_iff)
  moreover have "objects_bytes st oid = Inr c \<longleftrightarrow> obj_bytes st oid = Some c" for st oid
    by (simp add: objects_bytes_def obj_bytes_def ok_or_iff)
  moreover have "path \<noteq> []" if "split_mount path = Inr x" for x using that by (auto simp: split_mount_def)
  moreover have "cs \<noteq> []" if "find_node d cs = Inr n" for d cs n using that by auto
  ultimately show ?thesis by (auto simp: tlook_iff shallow_def)
qed

lemma split_mount_iff:
  "split_mount path = Inr (m, cs) \<longleftrightarrow>
     (case m of Home \<Rightarrow> path = home_path cs | Rom \<Rightarrow> path = ascii ''rom'' # cs)"
  by (auto simp: split_mount_def split: list.splits mount.splits if_splits)

lemma refs_of_look:
  assumes inv: "fs_inv sha s" and e: "tlook (cfs_directory m s) cs = Some (e, Some oid)"
  shows "0 < ns_refs (fs_ns s) oid + rom_refs s oid"
proof -
  have "0 < ns_refs (tree_ns (cfs_directory m s)) oid"
  proof (rule ns_refs_pos)
    show "finite (dom (tree_ns (cfs_directory m s)))"
      using inv by (cases m) (auto simp: fs_inv_def fs_ns_def ns_wf_def)
    show "tree_ns (cfs_directory m s) (home_path cs) = Some (entry_ck (home_path cs) (e, Some oid))"
      using e by simp
  qed (simp add: entry_ck_def)
  then show ?thesis by (cases m) (simp_all add: fs_ns_def rom_refs_def ns_refs_def)
qed

text \<open>
  C4. Files read back what was written. After \<open>write_file\<close> succeeds, reading the path returns the bytes
  written, unless the object store already held different bytes under the same digest (a SHA-256
  collision); and every other file that could be read before, in the home tree or in the ROM, still
  reads the same, however contents are shared between files.
\<close>

theorem write_then_read:
  assumes "fs_inv sha s" "path_plain path" "write_file sha cap path bs x s = (Inr (), s')"
    "permits cap path READ" "obj_bytes (cfs_objects s) (sha bs) \<in> {None, Some bs}"
  shows "read_snapshot cap path s' = Inr bs \<and>
    (\<forall>cap' q c. q \<noteq> path \<longrightarrow> read_snapshot cap' q s = Inr c \<longrightarrow> read_snapshot cap' q s' = Inr c)"
proof -
  let ?n = "CkFile path (cfs_generation s + 1) (length bs) (sha bs) x"
  have cm: "commits sha (JPutFile path (cfs_generation s + 1) (length bs) (sha bs) x) (Some (sha bs, bs)) s s'"
    using write_file_tx [OF assms(1,2), of cap bs x] assms(3) by (simp add: tx_def puts_def)
  then have c: "fs_ns s' = (fs_ns s)(path \<mapsto> ?n)" "cfs_rom s' = cfs_rom s" "fs_inv sha s'"
    by (simp_all add: commits_def Let_def ns_apply_def)
  have stored: "obj_bytes (cfs_objects s') oid =
      (case obj_bytes (cfs_objects s) oid of Some b \<Rightarrow> Some b | None \<Rightarrow> map_option snd (Some (sha bs, bs)))"
    if "0 < ns_refs (fs_ns s') oid + rom_refs s oid" for oid
    using cm that unfolding commits_def Let_def by metis
  have bytes: "obj_bytes (cfs_objects s') oid =
      (case obj_bytes (cfs_objects s) oid of Some b \<Rightarrow> Some b | None \<Rightarrow> Some bs)"
    if "tlook (cfs_directory m s') cs = Some (e, Some oid)" for m cs e oid
    using stored [of oid] c(2) refs_of_look [OF c(3) that] by (simp add: rom_refs_def split: option.split)
  have home: "fs_ns t (home_path cs) = Some (CkFile (home_path cs) g n oid y) \<longleftrightarrow>
      (\<exists>e. tlook (cfs_home t) cs = Some (e, Some oid) \<and> g = nm_generation e \<and> n = nm_logical_size e \<and>
        y = nm_executable e)" for t cs g n oid y
    by (auto simp: fs_ns_def entry_ck_def split: option.splits)
  have "\<exists>cs. path = home_path cs"
    using assms(3) by (auto simp: write_file_def sbind_Inr_iff writable_path_iff)
  then obtain cs where cs: "path = home_path cs" ..
  then obtain e where e: "tlook (cfs_home s') cs = Some (e, Some (sha bs))"
    using c(1) home [of s' cs "cfs_generation s + 1" "length bs" "sha bs" x] by auto
  have "read_snapshot cap path s' = Inr bs"
    using e cs assms(4,5) bytes [of Home cs e "sha bs"]
    by (auto simp: read_snapshot_iff split_mount_iff intro!: exI [of _ Home])
  moreover have "read_snapshot cap' q s' = Inr d" if q: "q \<noteq> path" "read_snapshot cap' q s = Inr d" for cap' q d
  proof -
    from q(2) obtain m ds e oid where m: "permits cap' q READ" "split_mount q = Inr (m, ds)"
      "tlook (cfs_directory m s) ds = Some (e, Some oid)" "obj_bytes (cfs_objects s) oid = Some d"
      by (auto simp: read_snapshot_iff)
    have "\<exists>e'. tlook (cfs_directory m s') ds = Some (e', Some oid)"
    proof (cases m)
      case Home
      with m(2) have qd: "q = home_path ds" by (simp add: split_mount_iff)
      with Home m(3) home [of s ds] have "fs_ns s q = Some (CkFile q (nm_generation e) (nm_logical_size e) oid (nm_executable e))"
        by simp
      with c(1) q(1) have "fs_ns s' q = Some (CkFile q (nm_generation e) (nm_logical_size e) oid (nm_executable e))"
        by simp
      with qd home [of s' ds] Home show ?thesis by auto
    qed (use m(3) c(2) in simp)
    then obtain e' where "tlook (cfs_directory m s') ds = Some (e', Some oid)" ..
    with m bytes [OF this] show ?thesis by (auto simp: read_snapshot_iff)
  qed
  ultimately show ?thesis by blast
qed

theorem write_then_read_witness:
  "read_snapshot (capability_new [] OWNER) [ascii ''home'', ascii ''a'']
     (snd (write_file (\<lambda>_. replicate 32 0) (capability_new [] OWNER) [ascii ''home'', ascii ''a''] [1, 2] False
       (with_limits testing_limits))) = Inr [1, 2]"
proof -
  let ?sha = "\<lambda>_. replicate 32 (0 :: u8)" and ?s = "with_limits testing_limits"
  let ?cap = "capability_new [] OWNER" and ?p = "[ascii ''home'', ascii ''a'']"
  let ?w = "write_file ?sha ?cap ?p [1, 2] False ?s"
  have inv: "fs_inv ?sha ?s" by (rule fs_inv_with_limits) (simp_all add: testing_limits_def)
  have plain: "path_plain ?p" by (simp add: path_plain_def ascii_def)
  have "fst ?w = Inr ()"
    by (simp add: write_file_def sbind_def sseq_def writable_path_def split_mount_def split_name_def
        require_def permits_def is_within_def rights_contains_def capability_new_def OWNER_def CREATE_def
        WRITE_def check_directory_entry_limit_def check_file_size_def with_limits_def testing_limits_def
        quota_reserve_def quota_new_def default_cost_def next_generation_def checked_add_def Let_def
        prepare_persistence_def drop_on_error_def modify_directory_def modify_objects_def
        objects_replace_def object_id_of_def modify_quota_def set_generation_def publish_def)
  then have run: "?w = (Inr (), snd ?w)" by (metis prod.collapse)
  have may: "permits ?cap ?p READ"
    by (simp add: permits_def is_within_def rights_contains_def capability_new_def OWNER_def READ_def)
  have "obj_bytes (cfs_objects ?s) (?sha [1, 2]) \<in> {None, Some [1, 2]}"
    by (simp add: with_limits_def obj_bytes_def)
  from write_then_read [OF inv plain run may this] show ?thesis by blast
qed

end
