(* ===== verification/Fs_Replay.thy ===== *)
theory Fs_Replay
  imports Fs_Contents
begin

text \<open>
  The contract shared by the live filesystem and by crash recovery: both are stores that apply
  journaled operations to an abstract namespace, one per generation. The locale states the contract
  and proves once what a run of operations does; the two interpretations then agree on every log that
  both of them accept.
\<close>

fun ns_replay :: "nat \<Rightarrow> journal_operation list \<Rightarrow> namespace \<Rightarrow> namespace" where
  "ns_replay g [] N = N"
| "ns_replay g (op # ops) N = ns_replay (g + 1) ops (ns_apply op (g + 1) N)"

fun run_steps :: "('s \<Rightarrow> 'op \<Rightarrow> 's \<Rightarrow> bool) \<Rightarrow> 's \<Rightarrow> 'op list \<Rightarrow> 's \<Rightarrow> bool" where
  "run_steps step s [] t \<longleftrightarrow> t = s"
| "run_steps step s (op # ops) t \<longleftrightarrow> (\<exists>u. step s op u \<and> run_steps step u ops t)"

lemma run_steps_append:
  "run_steps step s (xs @ ys) t \<longleftrightarrow> (\<exists>u. run_steps step s xs u \<and> run_steps step u ys t)"
  by (induction xs arbitrary: s) auto

lemma ns_replay_append:
  "ns_replay g (xs @ ys) N = ns_replay (g + length xs) ys (ns_replay g xs N)"
  by (induction xs arbitrary: g N) auto

locale namespace_store =
  fixes view :: "'s \<Rightarrow> namespace" and good :: "'s \<Rightarrow> bool" and gen :: "'s \<Rightarrow> nat"
    and step :: "'s \<Rightarrow> journal_operation \<Rightarrow> 's \<Rightarrow> bool"
  assumes good_wf: "good s \<Longrightarrow> ns_wf (view s)"
    and step_good: "good s \<Longrightarrow> step s op s' \<Longrightarrow> good s'"
    and step_view: "good s \<Longrightarrow> step s op s' \<Longrightarrow>
      ns_allowed op (gen s + 1) (view s) \<and> view s' = ns_apply op (gen s + 1) (view s)"
    and step_gen: "good s \<Longrightarrow> step s op s' \<Longrightarrow> gen s' = gen s + 1"
begin

lemma run_view:
  "good s \<Longrightarrow> run_steps step s ops t \<Longrightarrow>
     good t \<and> gen t = gen s + length ops \<and> view t = ns_replay (gen s) ops (view s)"
proof (induction ops arbitrary: s)
  case (Cons op ops)
  then obtain u where u: "step s op u" "run_steps step u ops t" by auto
  note su = step_good [OF Cons.prems(1) u(1)] step_view [OF Cons.prems(1) u(1)] step_gen [OF Cons.prems(1) u(1)]
  from Cons.IH [OF su(1) u(2)] su show ?case by simp
qed simp

lemma run_allowed:
  "good s \<Longrightarrow> run_steps step s ops t \<Longrightarrow> i < length ops \<Longrightarrow>
     ns_allowed (ops ! i) (gen s + i + 1) (ns_replay (gen s) (take i ops) (view s))"
proof (induction ops arbitrary: s i)
  case (Cons op ops)
  then obtain u where u: "step s op u" "run_steps step u ops t" by auto
  note su = step_good [OF Cons.prems(1) u(1)] step_view [OF Cons.prems(1) u(1)] step_gen [OF Cons.prems(1) u(1)]
  show ?case
  proof (cases i)
    case (Suc j)
    with Cons.IH [OF su(1) u(2), of j] Cons.prems(3) su show ?thesis by simp
  qed (use su in simp)
qed simp

end

definition live_step :: "sha256 \<Rightarrow> computer_fs \<Rightarrow> journal_operation \<Rightarrow> computer_fs \<Rightarrow> bool" where
  "live_step sha s op s' \<longleftrightarrow> (\<exists>object. commits sha op object s s')"

definition recovery_step ::
  "filesystem_limits \<Rightarrow> recovered_state \<Rightarrow> journal_operation \<Rightarrow> recovered_state \<Rightarrow> bool" where
  "recovery_step lim st op st' \<longleftrightarrow> op_plain op \<and>
     (\<exists>nxt. recovery_apply st op (rs_generation st + 1) lim = Inr nxt \<and>
        st' = nxt\<lparr>rs_generation := rs_generation st + 1\<rparr>)"

interpretation live: namespace_store fs_ns "fs_inv sha" cfs_generation "live_step sha" for sha
  by unfold_locales (auto simp: live_step_def commits_def Let_def fs_inv_def)

interpretation rec: namespace_store rs_ns rs_ok rs_generation "recovery_step lim" for lim
  by unfold_locales (auto simp: recovery_step_def recovery_apply_iff refines_to_def rs_ok_def rs_ns_def)

text \<open>
  C6. Replay implements the abstract namespace: on a well-formed recovered state, applying a journaled
  operation succeeds exactly when the specification allows it there, every path that a rename moves is
  still within the path limits, and the resulting namespace is within the node, byte and directory
  limits; the new state then holds exactly the namespace of the specification.
\<close>

theorem recovery_apply_refines:
  assumes "rs_ok st" "op_plain op"
  shows "recovery_apply st op g lim = Inr st' \<longleftrightarrow>
    ns_allowed op g (rs_ns st) \<and> op_moves_wf lim op (rs_ns st) \<and>
    ns_within_limits lim (ns_apply op g (rs_ns st)) \<and> refines_to st (ns_apply op g (rs_ns st)) st'"
  by (rule recovery_apply_iff [OF assms])

theorem recovery_apply_refines_witness:
  "recovery_apply \<lparr>rs_generation = 0, rs_nodes = []\<rparr> (JCreateDirectory [ascii ''home'', ascii ''a''] 1) 1 testing_limits
     = Inr \<lparr>rs_generation = 0, rs_nodes = [([ascii ''home'', ascii ''a''], CkDirectory [ascii ''home'', ascii ''a''] 1)]\<rparr>"
proof -
  let ?p = "[ascii ''home'', ascii ''a'']" and ?st = "\<lparr>rs_generation = 0, rs_nodes = []\<rparr>"
  let ?N = "Map.empty(?p \<mapsto> CkDirectory ?p 1)"
  have plain: "path_plain ?p" by (simp add: path_plain_def ascii_def)
  have par: "has_parent N ?p" for N by (simp add: has_parent_def HOME_def)
  have wf: "ns_wf ?N" using plain par by (auto simp: ns_wf_def HOME_def)
  have ok: "rs_ok ?st" by (simp add: rs_ok_def rs_ns_def ns_wf_def)
  have "card (ns_children ?N q) \<le> card {?p}" for q
    by (rule card_mono) (auto simp: ns_children_def)
  then have "card (ns_children ?N q) \<le> 256" for q by (rule order_trans) simp
  then have lim: "ns_within_limits testing_limits ?N"
    by (simp add: ns_within_limits_def testing_limits_def ns_size_def ck_size_def)
  from recovery_apply_refines [OF ok, of "JCreateDirectory ?p 1" 1 testing_limits] plain par wf lim show ?thesis
    by (simp add: op_plain_def ns_allowed_def op_moves_wf_def ns_apply_def rs_ns_def refines_to_def
        rs_ok_def bt_ok_def)
qed

end
