(* ===== verification/Fs_Crash.thy ===== *)
theory Fs_Crash
  imports Fs_Replay
begin

text \<open>
  Crash recovery as a whole. A validated checkpoint is a well-formed namespace; \<open>recover\<close> returns
  exactly the replay of an unbroken run of stored records on top of it, never less than the confirmed
  generation; and a complete journal is replayed to its end.
\<close>

subsection \<open>The base state\<close>

lemma validate_nodes_loopD:
  assumes "validate_nodes_loop previous dirs gen nodes = Inr ()"
  shows "sorted_wrt (<) ((case previous of None \<Rightarrow> [] | Some n \<Rightarrow> [ck_path n]) @ map ck_path nodes)"
    and "\<And>n. n \<in> set nodes \<Longrightarrow> home_descendant (ck_path n) \<and> ck_generation n \<le> gen \<and>
      (butlast (ck_path n) = HOME \<or> butlast (ck_path n) \<in> set dirs \<or>
       (\<exists>d\<in>set nodes. ck_is_directory d \<and> ck_path d = butlast (ck_path n)))"
proof -
  have "sorted_wrt (<) ((case previous of None \<Rightarrow> [] | Some n \<Rightarrow> [ck_path n]) @ map ck_path nodes) \<and>
    (\<forall>n\<in>set nodes. home_descendant (ck_path n) \<and> ck_generation n \<le> gen \<and>
      (butlast (ck_path n) = HOME \<or> butlast (ck_path n) \<in> set dirs \<or>
       (\<exists>d\<in>set nodes. ck_is_directory d \<and> ck_path d = butlast (ck_path n))))"
    using assms
  proof (induction previous dirs gen nodes rule: validate_nodes_loop.induct)
    case (1 previous dirs gen)
    then show ?case by (simp split: option.split)
  next
    case (2 previous dirs gen node nodes)
    let ?dirs = "if ck_is_directory node then ck_path node # dirs else dirs"
    from 2(2) have chk: "home_descendant (ck_path node)" "ck_generation node \<le> gen"
      "case previous of None \<Rightarrow> True | Some n \<Rightarrow> ck_path n < ck_path node"
      "butlast (ck_path node) = HOME \<or> butlast (ck_path node) \<in> set dirs"
      and rest: "validate_nodes_loop (Some node) ?dirs gen nodes = Inr ()"
      by (auto simp: rbind_Inr_iff ok_or_iff path_parent_butlast display_home_iff split: if_splits option.splits)
    have "path_parent (ck_path node) = Some (butlast (ck_path node))"
      using chk(1) by (auto simp: path_parent_butlast home_descendant_def)
    with 2(1) rest 2(2) have ih: "sorted_wrt (<) (ck_path node # map ck_path nodes)"
      "\<forall>n\<in>set nodes. home_descendant (ck_path n) \<and> ck_generation n \<le> gen \<and>
        (butlast (ck_path n) = HOME \<or> butlast (ck_path n) \<in> set ?dirs \<or>
         (\<exists>d\<in>set nodes. ck_is_directory d \<and> ck_path d = butlast (ck_path n)))"
      by (auto split: if_splits)
    from ih(1) chk(3) have "sorted_wrt (<)
      ((case previous of None \<Rightarrow> [] | Some n \<Rightarrow> [ck_path n]) @ map ck_path (node # nodes))"
      by (auto split: option.splits)
    moreover have "home_descendant (ck_path n) \<and> ck_generation n \<le> gen \<and>
      (butlast (ck_path n) = HOME \<or> butlast (ck_path n) \<in> set dirs \<or>
       (\<exists>d\<in>set (node # nodes). ck_is_directory d \<and> ck_path d = butlast (ck_path n)))"
      if "n \<in> set (node # nodes)" for n
      using that ih(2) chk by (auto split: if_splits)
    ultimately show ?case by blast
  qed
  then show "sorted_wrt (<) ((case previous of None \<Rightarrow> [] | Some n \<Rightarrow> [ck_path n]) @ map ck_path nodes)"
    "\<And>n. n \<in> set nodes \<Longrightarrow> home_descendant (ck_path n) \<and> ck_generation n \<le> gen \<and>
      (butlast (ck_path n) = HOME \<or> butlast (ck_path n) \<in> set dirs \<or>
       (\<exists>d\<in>set nodes. ck_is_directory d \<and> ck_path d = butlast (ck_path n)))" by blast+
qed

lemma checkpoint_state_ok:
  assumes "checkpoint_storable lim ck"
  shows "rs_ok \<lparr>rs_generation = g, rs_nodes = bt_collect (map (\<lambda>n. (ck_path n, n)) (ckp_nodes ck))\<rparr>"
proof -
  let ?kv = "map (\<lambda>n. (ck_path n, n)) (ckp_nodes ck)" and ?N = "map_of (map (\<lambda>n. (ck_path n, n)) (ckp_nodes ck))"
  have val: "validate_nodes_loop None [] (ckp_generation ck) (ckp_nodes ck) = Inr ()"
    and plain: "\<And>n. n \<in> set (ckp_nodes ck) \<Longrightarrow> path_plain (ck_path n)"
    using assms path_wf_plain
    by (auto simp: checkpoint_storable_def validate_nodes_def list_all_iff ck_node_storable_def path_storable_def)
  note v = validate_nodes_loopD [OF val]
  have dist: "distinct (map fst ?kv)" using v(1) by (simp add: comp_def strict_sorted_iff)
  have look: "?N p = Some n \<longleftrightarrow> n \<in> set (ckp_nodes ck) \<and> ck_path n = p" for p n
    using dist by (auto simp: map_of_eq_Some_iff)
  have "ns_wf ?N"
    unfolding ns_wf_def
  proof (intro conjI allI impI)
    show "finite (dom ?N)" by (rule finite_dom_map_of)
    show "?N HOME = None"
    proof (rule ccontr)
      assume "?N HOME \<noteq> None"
      then obtain n where "n \<in> set (ckp_nodes ck)" "ck_path n = HOME" using look by auto
      with v(2) [of n] show False by (simp add: HOME_def home_descendant_def)
    qed
    fix p n
    assume n: "?N p = Some n"
    then show "ck_path n = p" "path_plain p" using look plain by auto
    have "has_parent ?N (ck_path n)"
      using v(2) [of n] n look
      by (auto simp: has_parent_def home_descendant_def) (metis ck_is_directory.elims(2) ck_path.simps(1))
    with n look show "has_parent ?N p" by auto
  qed
  moreover have "map_of (bt_collect ?kv) = ?N"
    using fold_bt_insert(1) [OF dist, of "[]"] by (auto simp: bt_collect_def fun_eq_iff split: option.splits)
  ultimately show ?thesis
    using fold_bt_insert(2) [of "[]" ?kv] by (simp add: rs_ok_def rs_ns_def bt_collect_def)
qed

lemma recovery_base_ok:
  assumes sha: "sha256_length sha" and len: "\<forall>c\<in>set (ri_checkpoints input). length (rc_bytes c) < 2 ^ 64"
    and base: "recovery_base sha input lim = Inr st"
  shows "rs_ok st"
proof -
  let ?cs = "sort_key rc_claimed_generation (filter (\<lambda>c. rc_claimed_generation c \<le> ri_confirmed_generation input)
    (ri_checkpoints input))"
  show ?thesis
  proof (cases "?cs = []")
    case True
    with base show ?thesis
      by (auto simp: recovery_base_def Let_def rs_ok_def rs_ns_def ns_wf_def split: if_splits)
  next
    case False
    with base obtain ck where ck: "checkpoint_decode sha (rc_bytes (last ?cs)) lim = Inr ck"
      "st = \<lparr>rs_generation = ckp_generation ck, rs_nodes = bt_collect (map (\<lambda>n. (ck_path n, n)) (ckp_nodes ck))\<rparr>"
      by (auto simp: recovery_base_def Let_def rbind_Inr_iff map_err_iff split: if_splits)
    have "last ?cs \<in> set (ri_checkpoints input)" using last_in_set [OF False] by simp
    with len have "length (rc_bytes (last ?cs)) < 2 ^ 64" by blast
    from checkpoint_decode_iff [OF sha this] ck checkpoint_state_ok show ?thesis by auto
  qed
qed

subsection \<open>Replaying stored records\<close>

text \<open>A stored record that holds operation \<open>op\<close> of computer \<open>cid\<close> as its \<open>g\<close>-th mutation, and an unbroken
  run of such records.\<close>

definition stores ::
  "sha256 \<Rightarrow> filesystem_limits \<Rightarrow> computer_id \<Rightarrow> nat \<Rightarrow> journal_operation \<Rightarrow> recovery_journal_record \<Rightarrow> bool" where
  "stores sha lim cid g op stored \<longleftrightarrow> rj_claimed_sequence stored = g \<and>
     record_decode sha (rj_bytes stored) lim = Inr \<lparr>jr_computer_id = cid, jr_sequence = g,
       jr_previous_sequence = g - 1, jr_operation = op\<rparr>"

fun journal_of ::
  "sha256 \<Rightarrow> filesystem_limits \<Rightarrow> computer_id \<Rightarrow> nat \<Rightarrow> journal_operation list
    \<Rightarrow> recovery_journal_record list \<Rightarrow> bool" where
  "journal_of sha lim cid g [] recs \<longleftrightarrow> recs = []"
| "journal_of sha lim cid g (op # ops) recs \<longleftrightarrow>
     (\<exists>r rs. recs = r # rs \<and> stores sha lim cid (g + 1) op r \<and> journal_of sha lim cid (g + 1) ops rs)"

lemma path_storable_plain: "path_storable lim p \<Longrightarrow> path_plain p"
  unfolding path_storable_def using path_wf_plain by blast

lemma op_storable_plain: "op_storable lim op \<Longrightarrow> op_plain op"
  by (auto simp: op_storable_def op_plain_def dest: path_storable_plain split: journal_operation.splits)

lemma recover_loop_step:
  assumes "stores sha lim cid (rs_generation st + 1) op stored" "rs_generation st + 1 < 2 ^ 64"
    "recovery_step lim st op st'"
  shows "recover_loop sha lim cid confirmed st (stored # recs) = recover_loop sha lim cid confirmed st' recs"
  using assms by (auto simp: stores_def recovery_step_def checked_add_def)

lemma recover_loop_replay:
  assumes "rs_ok st" "journal_of sha lim cid (rs_generation st) ops recs"
    "run_steps (recovery_step lim) st ops st'" "rs_generation st + length ops < 2 ^ 64"
  shows "recover_loop sha lim cid confirmed st (recs @ rest) = recover_loop sha lim cid confirmed st' rest"
  using assms
proof (induction ops arbitrary: st recs)
  case (Cons op ops)
  from Cons.prems obtain r rs u where r: "recs = r # rs" "stores sha lim cid (rs_generation st + 1) op r"
    "journal_of sha lim cid (rs_generation st + 1) ops rs" and u: "recovery_step lim st op u"
    "run_steps (recovery_step lim) u ops st'" by auto
  have gu: "rs_generation u = rs_generation st + 1" "rs_ok u"
    using rec.step_gen [OF Cons.prems(1) u(1)] rec.step_good [OF Cons.prems(1) u(1)] by auto
  have "recover_loop sha lim cid confirmed st (r # rs @ rest) = recover_loop sha lim cid confirmed u (rs @ rest)"
    using recover_loop_step [OF r(2) _ u(1)] Cons.prems(4) by simp
  with Cons.IH [OF gu(2) _ u(2)] r gu(1) Cons.prems(4) show ?case by simp
qed simp

lemma recover_loop_sound:
  assumes "rs_ok st" "sha256_length sha" "\<forall>r\<in>set recs. length (rj_bytes r) < 2 ^ 64"
    "recover_loop sha lim cid confirmed st recs = Inr st'"
  shows "\<exists>ops used. run_steps (recovery_step lim) st ops st' \<and>
    journal_of sha lim cid (rs_generation st) ops used \<and> set used \<subseteq> set recs"
  using assms
proof (induction recs arbitrary: st)
  case Nil
  then show ?case by (intro exI [of _ "[]"]) simp
next
  case (Cons stored recs)
  let ?stop = "st' = st"
  have stop: ?case if ?stop using that by (intro exI [of _ "[]"]) simp
  show ?case
  proof (cases "rj_claimed_sequence stored \<le> rs_generation st")
    case True
    with Cons.prems Cons.IH [of st] show ?thesis by (simp, blast)
  next
    case False
    show ?thesis
    proof (cases ?stop)
      case go: False
      let ?g = "rs_generation st + 1"
      from Cons.prems(4) False go obtain r nxt where r: "rj_claimed_sequence stored = ?g"
        "record_decode sha (rj_bytes stored) lim = Inr r" "jr_computer_id r = cid" "jr_sequence r = ?g"
        "jr_previous_sequence r = rs_generation st" "recovery_apply st (jr_operation r) ?g lim = Inr nxt"
        and rest: "recover_loop sha lim cid confirmed (nxt\<lparr>rs_generation := ?g\<rparr>) recs = Inr st'"
        by (auto simp: Let_def checked_add_def split: option.splits sum.splits if_splits)
      have st: "stores sha lim cid ?g (jr_operation r) stored" using r by (simp add: stores_def)
      have "record_storable lim r"
        using record_decode_iff [OF Cons.prems(2), of "rj_bytes stored" lim r] r(2) Cons.prems(3) by auto
      then have step: "recovery_step lim st (jr_operation r) (nxt\<lparr>rs_generation := ?g\<rparr>)"
        using r(6) by (auto simp: recovery_step_def record_storable_def dest: op_storable_plain)
      from Cons.IH [OF rec.step_good [OF Cons.prems(1) step] Cons.prems(2) _ rest] Cons.prems(3)
      obtain ops used where u: "run_steps (recovery_step lim) (nxt\<lparr>rs_generation := ?g\<rparr>) ops st'"
        "journal_of sha lim cid ?g ops used" "set used \<subseteq> set recs" by auto
      show ?thesis
        by (rule exI [of _ "jr_operation r # ops"], rule exI [of _ "stored # used"]) (use u step st in auto)
    qed (rule stop)
  qed
qed

subsection \<open>Recovery\<close>

definition input_bytes_u64 :: "recovery_input \<Rightarrow> bool" where
  "input_bytes_u64 input \<longleftrightarrow>
     list_all (\<lambda>c. length (rc_bytes c) < 2 ^ 64) (ri_checkpoints input) \<and>
     list_all (\<lambda>r. length (rj_bytes r) < 2 ^ 64) (ri_journal_records input)"

lemma recovery_records_set:
  "recovery_records input = Inr recs \<Longrightarrow> set recs \<subseteq> set (ri_journal_records input)"
  by (auto simp: recovery_records_def Let_def split: option.splits if_splits)

text \<open>
  C3. Recovery invents nothing and loses nothing confirmed. Whatever files are on disk, when \<open>recover\<close>
  returns a state, that state is at least at the confirmed generation, its namespace is well-formed and
  within the limits, and it is exactly the base checkpoint (or the empty namespace) followed by an
  unbroken run of operations, each decoded from a stored record of this computer with the right sequence
  number.
\<close>

theorem recover_sound:
  assumes "sha256_length sha" "input_bytes_u64 input" "recover sha input lim = Inr st"
  shows "ri_confirmed_generation input \<le> rs_generation st \<and> ns_wf (rs_ns st) \<and>
    ns_within_limits lim (rs_ns st) \<and>
    (\<exists>base ops used. recovery_base sha input lim = Inr base \<and> set used \<subseteq> set (ri_journal_records input) \<and>
       journal_of sha lim (ri_computer_id input) (rs_generation base) ops used \<and>
       rs_generation st = rs_generation base + length ops \<and>
       rs_ns st = ns_replay (rs_generation base) ops (rs_ns base))"
proof -
  from assms(3) obtain base recs where base: "recovery_base sha input lim = Inr base"
    and val: "validate_state base lim = Inr ()" and recs: "recovery_records input = Inr recs"
    and loop: "recover_loop sha lim (ri_computer_id input) (ri_confirmed_generation input) base recs = Inr st"
    and conf: "ri_confirmed_generation input \<le> rs_generation st"
    by (auto simp: recover_def rbind_Inr_iff map_err_iff not_less split: if_splits)
  have ok: "rs_ok base"
    using recovery_base_ok [OF assms(1) _ base] assms(2) by (simp add: input_bytes_u64_def list_all_iff)
  have "\<forall>r\<in>set recs. length (rj_bytes r) < 2 ^ 64"
    using recovery_records_set [OF recs] assms(2) by (auto simp: input_bytes_u64_def list_all_iff)
  from recover_loop_sound [OF ok assms(1) this loop] obtain ops used where
    run: "run_steps (recovery_step lim) base ops st"
    and used: "journal_of sha lim (ri_computer_id input) (rs_generation base) ops used" "set used \<subseteq> set recs"
    by blast
  have lims: "ns_within_limits lim (rs_ns st)"
  proof (cases ops rule: rev_cases)
    case Nil
    with run val validate_state_iff ok show ?thesis by (auto simp: rs_ok_def)
  next
    case (snoc xs op)
    with run obtain u where u: "run_steps (recovery_step lim) base xs u" "recovery_step lim u op st"
      by (auto simp: run_steps_append)
    then show ?thesis
      using rec.run_view [OF ok u(1)]
      by (auto simp: recovery_step_def recovery_apply_iff refines_to_def rs_ns_def)
  qed
  from rec.run_view [OF ok run] have view: "rs_ok st" "rs_generation st = rs_generation base + length ops"
    "rs_ns st = ns_replay (rs_generation base) ops (rs_ns base)" by blast+
  have "set used \<subseteq> set (ri_journal_records input)" using used(2) recovery_records_set [OF recs] by blast
  with conf lims view used(1) base show ?thesis unfolding rs_ok_def by blast
qed

theorem recover_sound_witness:
  "recover (\<lambda>_. replicate 32 0) \<lparr>ri_computer_id = replicate 16 7, ri_confirmed_generation = 0, ri_checkpoints = [],
       ri_journal_records = [\<lparr>rj_claimed_sequence = 1, rj_bytes = [1, 2, 3]\<rparr>]\<rparr> testing_limits
     = Inr \<lparr>rs_generation = 0, rs_nodes = []\<rparr> \<and>
   ns_within_limits testing_limits (rs_ns \<lparr>rs_generation = 0, rs_nodes = []\<rparr>)"
proof -
  let ?sha = "\<lambda>_. replicate 32 (0 :: u8)" and ?st = "\<lparr>rs_generation = 0, rs_nodes = []\<rparr>"
  let ?in = "\<lparr>ri_computer_id = replicate 16 7, ri_confirmed_generation = 0, ri_checkpoints = [],
       ri_journal_records = [\<lparr>rj_claimed_sequence = 1, rj_bytes = [1, 2, 3]\<rparr>]\<rparr> :: recovery_input"
  have run: "recover ?sha ?in testing_limits = Inr ?st"
    by (simp add: recover_def bound_work_def checked_add_def testing_limits_def recovery_base_def validate_state_def
        recovery_records_def record_decode_def pc_verified_def DIGEST_BYTES_def)
  have "sha256_length ?sha" "input_bytes_u64 ?in" by (simp_all add: sha256_length_def input_bytes_u64_def)
  from recover_sound [OF this run] run show ?thesis by simp
qed

lemma sort_key_unique:
  assumes "set xs = set ys" "distinct (map f xs)" "sorted_wrt (<) (map f ys)"
  shows "sort_key f xs = ys"
proof (rule map_sorted_distinct_set_unique)
  have "distinct (map f (sort_key f xs)) \<longleftrightarrow> distinct (map f xs)"
    by (simp add: distinct_map)
  then show "distinct (map f (sort_key f xs))" using assms(2) by simp
  show "inj_on f (set (sort_key f xs) \<union> set ys)"
    using assms(1,2) by (simp add: distinct_map)
qed (use assms in \<open>simp_all add: strict_sorted_iff\<close>)

lemma journal_of_sequences:
  assumes "journal_of sha lim cid g ops recs"
  shows "map rj_claimed_sequence recs = [Suc g..<Suc g + length ops]"
  using assms
proof (induction ops arbitrary: g recs)
  case (Cons op ops)
  then obtain r rs where r: "recs = r # rs" "rj_claimed_sequence r = Suc g"
    "journal_of sha lim cid (Suc g) ops rs" by (auto simp: stores_def)
  with Cons.IH [OF r(3)] show ?case by (simp add: upt_conv_Cons del: upt_Suc)
qed simp

lemma adjacent_duplicate_None: "sorted_wrt (<) xs \<Longrightarrow> adjacent_duplicate xs = None"
  by (induction xs rule: adjacent_duplicate.induct) auto

lemma recovery_records_journal:
  assumes "sorted_wrt (<) (map rj_claimed_sequence recs)" "set (ri_journal_records input) = set recs"
    "distinct (map rj_claimed_sequence (ri_journal_records input))"
  shows "recovery_records input = Inr recs"
  using adjacent_duplicate_None [OF assms(1)] sort_key_unique [OF assms(2,3,1)]
  by (simp add: recovery_records_def)

text \<open>A file that a crash may leave behind after \<open>n\<close> stored mutations: a later record, or the next one with
  bytes that do not decode.\<close>

definition left_over :: "sha256 \<Rightarrow> filesystem_limits \<Rightarrow> nat \<Rightarrow> recovery_journal_record \<Rightarrow> bool" where
  "left_over sha lim n r \<longleftrightarrow> n + 1 < rj_claimed_sequence r \<or>
     rj_claimed_sequence r = n + 1 \<and> (\<exists>e. record_decode sha (rj_bytes r) lim = Inl e)"

lemma recover_loop_left_over:
  assumes "list_all (left_over sha lim (rs_generation st)) recs" "confirmed \<le> rs_generation st"
    "rs_generation st < 2 ^ 64 - 1"
  shows "recover_loop sha lim cid confirmed st recs = Inr st"
  using assms by (cases recs) (auto simp: left_over_def checked_add_def)

text \<open>Recovery of a computer without checkpoints whose records, in whatever order the directory lists
  them, are an unbroken journal that replays, besides files that a crash left behind.\<close>

lemma recover_complete:
  assumes "journal_of sha lim (ri_computer_id input) 0 ops recs" "ri_checkpoints input = []"
    "set (ri_journal_records input) = set recs \<union> set extra" "list_all (left_over sha lim (length ops)) extra"
    "distinct (map rj_claimed_sequence (ri_journal_records input))"
    "run_steps (recovery_step lim) \<lparr>rs_generation = 0, rs_nodes = []\<rparr> ops st"
    "bound_work input lim = Inr ()" "ri_confirmed_generation input \<le> length ops" "length ops < 2 ^ 64 - 1"
  shows "recover sha input lim = Inr st"
proof -
  let ?st = "\<lparr>rs_generation = 0, rs_nodes = []\<rparr>"
  define tail where "tail = filter (\<lambda>r. length ops < rj_claimed_sequence r)
    (sort_key rj_claimed_sequence (ri_journal_records input))"
  let ?all = "recs @ tail"
  note seq = journal_of_sequences [OF assms(1)]
  have low: "rj_claimed_sequence r \<le> length ops" if "r \<in> set recs" for r
  proof -
    from that have "rj_claimed_sequence r \<in> set [Suc 0..<Suc 0 + length ops]" unfolding seq [symmetric] by simp
    then show ?thesis by auto
  qed
  have high: "length ops < rj_claimed_sequence r" if "r \<in> set extra" for r
    using that assms(4) by (auto simp: list_all_iff left_over_def)
  have dist: "distinct (map rj_claimed_sequence (sort_key rj_claimed_sequence (ri_journal_records input)))"
    using assms(5) by (simp add: distinct_map)
  have sorted: "sorted_wrt (<) (map rj_claimed_sequence ?all)"
  proof -
    have "sorted_wrt (<) (map rj_claimed_sequence recs)" unfolding seq by (rule sorted_wrt_upt)
    moreover have "sorted_wrt (<) (map rj_claimed_sequence (sort_key rj_claimed_sequence (ri_journal_records input)))"
      using dist by (simp add: strict_sorted_iff)
    then have "sorted_wrt (<) (map rj_claimed_sequence tail)"
      by (simp add: tail_def sorted_wrt_map sorted_wrt_filter)
    ultimately show ?thesis using low by (fastforce simp: sorted_wrt_append tail_def)
  qed
  have set: "set (ri_journal_records input) = set ?all"
    using assms(3) low high by (auto simp: tail_def)
  note recs = recovery_records_journal [OF sorted set assms(5)]
  have rest: "list_all (left_over sha lim (length ops)) tail"
    using assms(3,4) low by (fastforce simp: list_all_iff tail_def)
  have ok: "rs_ok ?st" by (simp add: rs_ok_def rs_ns_def ns_wf_def)
  have base: "recovery_base sha input lim = Inr ?st" using assms(2) by (simp add: recovery_base_def)
  have val: "validate_state ?st lim = Inr ()" by (simp add: validate_state_def)
  have gen: "rs_generation st = length ops" using rec.run_view [OF ok assms(6)] by simp
  have "recover_loop sha lim (ri_computer_id input) (ri_confirmed_generation input) ?st ?all = Inr st"
    using recover_loop_replay [OF ok _ assms(6), of sha "ri_computer_id input" recs] assms(1,8,9)
      recover_loop_left_over [of sha lim st] rest gen by simp
  with gen show ?thesis
    using assms(7,8) base val recs by (simp add: recover_def)
qed

end
