(* ===== verification/Fs_Durability.thy ===== *)
theory Fs_Durability
  imports Fs_Crash
begin

text \<open>
  The whole persistence path. \<open>live sha s0 J s\<close> says that calls on a computer took it from \<open>s0\<close> to \<open>s\<close>
  while it published the commands in \<open>J\<close>; between calls the persistence gate may change in any way (the
  worker drains the queue, other computers use it, the store drains or faults). Each published command carries a flag
  that tells whether its call moved only paths within the limits; only a rename can do otherwise, since the code does not
  check the paths below a renamed directory. Recovery from journal records whose flags are all set gives back the namespace of
  the computer.
\<close>

definition queue_of :: "computer_fs \<Rightarrow> command list" where
  "queue_of s = (case cfs_persistence s of None \<Rightarrow> [] | Some c \<Rightarrow> qs_queue (cp_gate c))"

text \<open>The paths of a call were parsed under the limits.\<close>

fun call_parsed :: "filesystem_limits \<Rightarrow> fs_call \<Rightarrow> bool" where
  "call_parsed lim (CallCreateDirectory cap path) \<longleftrightarrow> path_storable lim path"
| "call_parsed lim (CallWriteFile cap path bs x) \<longleftrightarrow> path_storable lim path"
| "call_parsed lim (CallReplaceIfRevision cap path bs revision x) \<longleftrightarrow> path_storable lim path"
| "call_parsed lim (CallInstallFromRom cap src dst) \<longleftrightarrow> path_storable lim dst"
| "call_parsed lim (CallReadExecutable cap path) \<longleftrightarrow> path_storable lim path"
| "call_parsed lim (CallOpen cap path mode) \<longleftrightarrow> path_storable lim path"
| "call_parsed lim (CallRemove cap path) \<longleftrightarrow> path_storable lim path"
| "call_parsed lim (CallRename cap src dst replace) \<longleftrightarrow> path_storable lim src \<and> path_storable lim dst"
| "call_parsed lim _ \<longleftrightarrow> True"

text \<open>The call moves no path beyond the limits.\<close>

fun call_within :: "computer_fs \<Rightarrow> fs_call \<Rightarrow> bool" where
  "call_within s (CallRename cap src dst replace) \<longleftrightarrow> moved_paths_wf (cfs_limits s) src dst (fs_ns s)"
| "call_within s _ \<longleftrightarrow> True"

definition published :: "computer_fs \<Rightarrow> fs_call \<Rightarrow> computer_fs \<Rightarrow> (command \<times> bool) list" where
  "published s call s' = map (\<lambda>c. (c, call_within s call)) (drop (length (queue_of s)) (queue_of s'))"

inductive live :: "sha256 \<Rightarrow> computer_fs \<Rightarrow> (command \<times> bool) list \<Rightarrow> computer_fs \<Rightarrow> bool" for sha s0 where
  live_start: "live sha s0 [] s0"
| live_call: "live sha s0 J s \<Longrightarrow> call_parsed (cfs_limits s) call \<Longrightarrow> fs_exec sha call s = (r, s') \<Longrightarrow>
    live sha s0 (J @ published s call s') s'"
| live_gate: "live sha s0 J s \<Longrightarrow> cfs_persistence s = Some c \<Longrightarrow>
    live sha s0 J (s\<lparr>cfs_persistence := Some (c\<lparr>cp_gate := q\<rparr>)\<rparr>)"

text \<open>What is stored of a command: a journal file named by the generation.\<close>

fun journal_file :: "command \<Rightarrow> recovery_journal_record" where
  "journal_file (CmdMutation m) = \<lparr>rj_claimed_sequence = mc_generation m, rj_bytes = mc_journal m\<rparr>"
| "journal_file _ = \<lparr>rj_claimed_sequence = 0, rj_bytes = []\<rparr>"

text \<open>A computer as it is attached to a store.\<close>

definition attached :: "computer_id \<Rightarrow> computer_fs \<Rightarrow> bool" where
  "attached cid s \<longleftrightarrow> length cid = 16 \<and> maximum_file_bytes (cfs_limits s) < 2 ^ 64 \<and>
     (\<exists>c. cfs_persistence s = Some c \<and> cp_computer_id c = cid \<and> cp_limits c = cfs_limits s) \<and>
     (\<forall>f\<in>open_files (cfs_handles s). path_storable (cfs_limits s) (of_path f))"

lemma call_parsed_plain: "call_parsed lim call \<Longrightarrow> call_plain call"
  by (cases call) (auto dest: path_storable_plain)

lemma persist_published:
  assumes "persist_result sha g object op (Some c) = Inr p"
  obtains journal where "mutation_bytes sha g op c = Inr journal"
    "p = Some (c\<lparr>cp_gate := queue_append (mutation_of g object journal c) (cp_gate c)\<rparr>)"
  using assms by (auto simp: persist_result_def rbind_Inr_iff map_err_iff)

lemma mutation_stores:
  assumes sha: "sha256_length sha" and cid: "length (cp_computer_id c) = 16" and g: "g < 2 ^ 64"
    and op: "op_storable (cp_limits c) op" and enc: "mutation_bytes sha g op c = Inr journal"
  shows "stores sha (cp_limits c) (cp_computer_id c) g op (journal_file (mutation_of g object journal c))"
proof -
  let ?r = "\<lparr>jr_computer_id = cp_computer_id c, jr_sequence = g, jr_previous_sequence = g - 1,
    jr_operation = op\<rparr>"
  from enc have new: "journal_record_new (cp_computer_id c) g (g - 1) op = Inr ?r"
    and e: "record_encode sha ?r (cp_limits c) = Inr journal"
    by (auto simp: mutation_bytes_def rbind_Inr_iff journal_record_new_def split: if_splits)
  have st: "record_storable (cp_limits c) ?r" using cid g op new by (simp add: record_storable_def)
  from record_encode_iff [OF sha st, of journal] e have "length journal < 2 ^ 64" by auto
  from record_decode_iff [OF sha this, of "cp_limits c" ?r] record_encode_iff [OF sha st, of journal] e st
  have "record_decode sha journal (cp_limits c) = Inr ?r" by blast
  then show ?thesis by (simp add: stores_def mutation_of_def)
qed

lemma opened_storable: "attached cid s \<Longrightarrow> opened_file s h = Some (path, old, x) \<Longrightarrow> path_storable (cfs_limits s) path"
  by (auto simp: opened_file_iff attached_def dest: handle_get_open)

lemma journaled_storable:
  assumes "sha256_length sha" "attached cid s" "call_parsed (cfs_limits s) call"
    "call_journals sha s call op object" "cfs_generation s + 1 < 2 ^ 64"
  shows "op_storable (cfs_limits s) op \<and> (call_within s call \<longrightarrow> op_moves_wf (cfs_limits s) op (fs_ns s))"
  using assms opened_storable [OF assms(2)]
  by (cases call) (auto simp: op_storable_def op_moves_wf_def sha256_length_def attached_def split: option.splits)

subsection \<open>Recovery follows the live filesystem\<close>

text \<open>The recovered state that stands for a live state.\<close>

definition tracks :: "recovered_state \<Rightarrow> computer_fs \<Rightarrow> bool" where
  "tracks st s \<longleftrightarrow> rs_ok st \<and> rs_ns st = fs_ns s \<and> rs_generation st = cfs_generation s"

lemma finite_map_bt:
  fixes N :: "'a :: linorder \<Rightarrow> 'b option"
  assumes "finite (dom N)"
  obtains nodes where "bt_ok nodes" "map_of nodes = N"
proof -
  let ?nodes = "map (\<lambda>p. (p, the (N p))) (sorted_list_of_set (dom N))"
  have "bt_ok ?nodes" using assms by (simp add: bt_ok_def comp_def)
  moreover have "map_of ?nodes = N"
    using assms by (auto simp: map_of_map_restrict restrict_map_def fun_eq_iff domIff)
  ultimately show thesis by (rule that)
qed

lemma tracks_commit:
  assumes st: "tracks st s" and cm: "commits sha op object s s'"
    and op: "op_plain op" "op_moves_wf (cfs_limits s) op (fs_ns s)"
  obtains st' where "recovery_step (cfs_limits s) st op st'" "tracks st' s'"
proof -
  let ?g = "cfs_generation s + 1"
  from cm have c: "ns_allowed op ?g (fs_ns s)" "fs_ns s' = ns_apply op ?g (fs_ns s)" "cfs_generation s' = ?g"
    "cfs_limits s' = cfs_limits s" "fs_inv sha s'" by (simp_all add: commits_def Let_def)
  have wf: "ns_wf (fs_ns s')" using c(5) by (simp add: fs_inv_def)
  then obtain nodes where nodes: "bt_ok nodes" "map_of nodes = fs_ns s'"
    using finite_map_bt [of "fs_ns s'"] by (auto simp: ns_wf_def)
  let ?st = "st\<lparr>rs_nodes := nodes\<rparr>"
  have ref: "refines_to st (ns_apply op ?g (fs_ns s)) ?st"
    using nodes wf c(2) by (simp add: refines_to_def rs_ok_def rs_ns_def)
  have "recovery_apply st op ?g (cfs_limits s) = Inr ?st"
    using st recovery_apply_iff [of st op ?g "cfs_limits s" ?st] op c ref fs_inv_within_limits [OF c(5)]
    by (auto simp: tracks_def)
  then have step: "recovery_step (cfs_limits s) st op (?st\<lparr>rs_generation := ?g\<rparr>)"
    using st op(1) by (simp add: recovery_step_def tracks_def)
  have "tracks (?st\<lparr>rs_generation := ?g\<rparr>) s'"
    using nodes wf c(2,3) by (simp add: tracks_def rs_ok_def rs_ns_def)
  with step show thesis by (rule that)
qed

lemma journal_of_snoc:
  assumes "journal_of sha lim cid g ops recs" "stores sha lim cid (g + length ops + 1) op r"
  shows "journal_of sha lim cid g (ops @ [op]) (recs @ [r])"
  using assms by (induction ops arbitrary: g recs) auto

lemma queue_of_published:
  assumes "cfs_persistence s = Some c"
    "cfs_persistence s' = Some (c\<lparr>cp_gate := queue_append cmd (cp_gate c)\<rparr>)"
  shows "drop (length (queue_of s)) (queue_of s') = [cmd]"
  using assms by (simp add: queue_of_def queue_append_def)

lemma commit_publishes:
  assumes sha: "sha256_length sha" and att: "attached cid s" and cm: "commits sha op object s s'"
    and op: "op_storable (cfs_limits s) op"
  obtains cmd where "drop (length (queue_of s)) (queue_of s') = [cmd]"
    "stores sha (cfs_limits s) cid (cfs_generation s + 1) op (journal_file cmd)" "attached cid s'"
proof -
  have c: "cfs_generation s + 1 < 2 ^ 64" "cfs_handles s' = cfs_handles s" "cfs_limits s' = cfs_limits s"
    "persist_result sha (cfs_generation s + 1) object op (cfs_persistence s) = Inr (cfs_persistence s')"
    using cm by (simp_all add: commits_def Let_def)
  obtain k where k: "cfs_persistence s = Some k" "cp_computer_id k = cid" "cp_limits k = cfs_limits s"
    using att by (auto simp: attached_def)
  obtain journal where j: "mutation_bytes sha (cfs_generation s + 1) op k = Inr journal"
    "cfs_persistence s' = Some (k\<lparr>cp_gate := queue_append
       (mutation_of (cfs_generation s + 1) object journal k) (cp_gate k)\<rparr>)"
    using persist_published c(4) k(1) by metis
  have "stores sha (cfs_limits s) cid (cfs_generation s + 1) op
      (journal_file (mutation_of (cfs_generation s + 1) object journal k))"
    using mutation_stores [OF sha _ c(1) _ j(1), of object] k op att by (simp add: attached_def)
  moreover have "attached cid s'" using att j(2) k c(2,3) by (auto simp: attached_def)
  ultimately show thesis using queue_of_published [OF k(1) j(2)] that by blast
qed

text \<open>What a call publishes.\<close>

lemma call_publishes:
  assumes sha: "sha256_length sha" and inv: "fs_inv sha s" and att: "attached cid s"
    and call: "call_parsed (cfs_limits s) call" and run: "fs_exec sha call s = (r, s')"
  shows "fs_inv sha s' \<and> attached cid s' \<and> cfs_limits s' = cfs_limits s \<and>
    (published s call s' = [] \<and> fs_ns s' = fs_ns s \<and> cfs_generation s' = cfs_generation s \<or>
     (\<exists>op object cmd. published s call s' = [(cmd, call_within s call)] \<and> commits sha op object s s' \<and>
        stores sha (cfs_limits s) cid (cfs_generation s + 1) op (journal_file cmd) \<and> op_plain op \<and>
        (call_within s call \<longrightarrow> op_moves_wf (cfs_limits s) op (fs_ns s))))"
proof -
  have ok: "call_ok sha call s r s'" using fs_exec_ok [OF inv call_parsed_plain [OF call]] run by simp
  then consider (handles) "handles_only (call_opens call) s s'"
    | (commit) op object where "call_journals sha s call op object" "commits sha op object s s'"
    by (auto simp: call_ok_def split: if_splits)
  then show ?thesis
  proof cases
    case handles
    then obtain h where h: "s' = s\<lparr>cfs_handles := h\<rparr>"
      "\<forall>f\<in>open_files h. f \<in> open_files (cfs_handles s) \<or> of_path f \<in> call_opens call"
      by (auto simp: handles_only_def)
    have "path_storable (cfs_limits s) p" if "p \<in> call_opens call" for p
      using that call by (cases call) auto
    with h att have "attached cid s'" by (auto simp: attached_def)
    then show ?thesis using fs_inv_handles [OF handles inv] h(1) by (simp add: published_def queue_of_def fs_ns_def)
  next
    case commit
    then have c: "cfs_generation s + 1 < 2 ^ 64" "cfs_limits s' = cfs_limits s" "fs_inv sha s'"
      by (simp_all add: commits_def Let_def)
    have stor: "op_storable (cfs_limits s) op" "call_within s call \<longrightarrow> op_moves_wf (cfs_limits s) op (fs_ns s)"
      using journaled_storable [OF sha att call commit(1) c(1)] by auto
    obtain cmd where "drop (length (queue_of s)) (queue_of s') = [cmd]"
      "stores sha (cfs_limits s) cid (cfs_generation s + 1) op (journal_file cmd)" "attached cid s'"
      by (rule commit_publishes [OF sha att commit(2) stor(1)])
    then show ?thesis using c(2,3) commit(2) op_storable_plain [OF stor(1)] stor(2) by (auto simp: published_def)
  qed
qed

text \<open>A list of published commands that recovery can replay.\<close>

definition replayable :: "(command \<times> bool) list \<Rightarrow> bool" where
  "replayable J \<longleftrightarrow> list_all snd J"

abbreviation journal_files :: "(command \<times> bool) list \<Rightarrow> recovery_journal_record list" where
  "journal_files J \<equiv> map (\<lambda>(c, _). journal_file c) J"

lemma live_tracks:
  assumes "live sha s0 J s" "sha256_length sha" "fs_inv sha s0" "attached cid s0" "tracks st0 s0"
  shows "fs_inv sha s \<and> attached cid s \<and> cfs_limits s = cfs_limits s0 \<and>
    (replayable J \<longrightarrow> (\<exists>ops st. run_steps (recovery_step (cfs_limits s0)) st0 ops st \<and> tracks st s \<and>
       journal_of sha (cfs_limits s0) cid (cfs_generation s0) ops (journal_files J)))"
  using assms
proof (induction rule: live.induct)
  case live_start
  then show ?case by (auto intro!: exI [of _ "[]"])
next
  case (live_call J s call r s')
  then have ih: "fs_inv sha s" "attached cid s" "cfs_limits s = cfs_limits s0" by blast+
  note pub = call_publishes [OF live_call.prems(1) ih(1,2) live_call.hyps(2,3)]
  have "\<exists>ops st. run_steps (recovery_step (cfs_limits s0)) st0 ops st \<and> tracks st s' \<and>
     journal_of sha (cfs_limits s0) cid (cfs_generation s0) ops (journal_files (J @ published s call s'))"
    if all: "replayable (J @ published s call s')"
  proof -
    have ok0: "rs_ok st0" "rs_generation st0 = cfs_generation s0" using live_call.prems by (auto simp: tracks_def)
    obtain ops st where st: "run_steps (recovery_step (cfs_limits s0)) st0 ops st" "tracks st s"
      "journal_of sha (cfs_limits s0) cid (cfs_generation s0) ops (journal_files J)"
      using live_call.IH live_call.prems all by (auto simp: replayable_def)
    have gen: "cfs_generation s = cfs_generation s0 + length ops"
      using rec.run_view [OF ok0(1) st(1)] st(2) ok0(2) by (simp add: tracks_def)
    from pub consider (quiet) "published s call s' = []" "tracks st s'"
      | (put) op object cmd where "published s call s' = [(cmd, call_within s call)]" "commits sha op object s s'"
        "stores sha (cfs_limits s) cid (cfs_generation s + 1) op (journal_file cmd)" "op_plain op"
        "call_within s call \<longrightarrow> op_moves_wf (cfs_limits s) op (fs_ns s)"
      using st(2) by (auto simp: tracks_def)
    then show ?thesis
    proof cases
      case quiet
      with st show ?thesis by auto
    next
      case put
      then have "op_moves_wf (cfs_limits s) op (fs_ns s)" using all by (simp add: replayable_def)
      from tracks_commit [OF st(2) put(2,4) this] obtain st' where "recovery_step (cfs_limits s0) st op st'" "tracks st' s'"
        using ih(3) by auto
      moreover from this(1) st(1) have "run_steps (recovery_step (cfs_limits s0)) st0 (ops @ [op]) st'"
        by (auto simp: run_steps_append)
      moreover have "journal_of sha (cfs_limits s0) cid (cfs_generation s0) (ops @ [op]) (journal_files (J @ published s call s'))"
        using journal_of_snoc [OF st(3), of op "journal_file cmd"] put(1,3) gen ih(3) by simp
      ultimately show ?thesis by blast
    qed
  qed
  with pub ih(3) show ?case by auto
next
  case (live_gate J s c q)
  then have ih: "fs_inv sha s" "attached cid s" "cfs_limits s = cfs_limits s0"
    "replayable J \<longrightarrow> (\<exists>ops st. run_steps (recovery_step (cfs_limits s0)) st0 ops st \<and> tracks st s \<and>
       journal_of sha (cfs_limits s0) cid (cfs_generation s0) ops (journal_files J))" by blast+
  moreover have "fs_inv sha (s\<lparr>cfs_persistence := Some (c\<lparr>cp_gate := q\<rparr>)\<rparr>)"
    using ih(1) by (simp add: fs_inv_def fs_ns_def rom_refs_def)
  moreover have "attached cid (s\<lparr>cfs_persistence := Some (c\<lparr>cp_gate := q\<rparr>)\<rparr>)"
    using ih(2) live_gate.hyps(2) by (auto simp: attached_def)
  ultimately show ?case by (auto simp: tracks_def fs_ns_def)
qed

text \<open>Each call publishes at most one command, so every prefix of the published commands is itself what
  some earlier state had published.\<close>

lemma live_prefix:
  assumes "live sha s0 J s" "sha256_length sha" "fs_inv sha s0" "attached cid s0" "tracks st0 s0" "n \<le> length J"
  shows "\<exists>t. live sha s0 (take n J) t \<and> (n = length J \<longrightarrow> t = s)"
  using assms
proof (induction arbitrary: n rule: live.induct)
  case live_start
  then show ?case by (auto intro: live.live_start)
next
  case (live_call J s call r s')
  let ?new = "published s call s'"
  have now: "live sha s0 (J @ ?new) s'" by (rule live.live_call [OF live_call.hyps])
  have st: "fs_inv sha s" "attached cid s" using live_tracks [OF live_call.hyps(1) live_call.prems(1-4)] by blast+
  have "length ?new \<le> 1" using call_publishes [OF live_call.prems(1) st live_call.hyps(2,3)] by auto
  with live_call.prems(5) consider "n < length (J @ ?new)" "n \<le> length J" | "n = length (J @ ?new)"
    by fastforce
  then show ?case
  proof cases
    case 1
    with live_call.IH [OF live_call.prems(1-4), of n] show ?thesis by auto
  next
    case 2
    with now show ?thesis by auto
  qed
next
  case (live_gate J s c q)
  have now: "live sha s0 J (s\<lparr>cfs_persistence := Some (c\<lparr>cp_gate := q\<rparr>)\<rparr>)"
    by (rule live.live_gate [OF live_gate.hyps])
  show ?case
  proof (cases "n = length J")
    case False
    with live_gate.IH [OF live_gate.prems(1-5)] show ?thesis by blast
  qed (use now in auto)
qed

text \<open>A computer that has never been mutated.\<close>

definition fresh :: "computer_fs \<Rightarrow> bool" where
  "fresh s \<longleftrightarrow> fs_ns s = Map.empty \<and> cfs_generation s = 0"

lemma fresh_tracks: "fresh s \<Longrightarrow> tracks \<lparr>rs_generation = 0, rs_nodes = []\<rparr> s"
  by (simp add: fresh_def tracks_def rs_ok_def rs_ns_def ns_wf_def)

lemma live_recovers:
  assumes sha: "sha256_length sha" and live: "live sha s0 J s" "replayable J" and s0: "fs_inv sha s0" "attached cid s0" "fresh s0"
    and input: "ri_computer_id input = cid" "ri_checkpoints input = []" "ri_confirmed_generation input \<le> length J"
      "set (ri_journal_records input) = set (journal_files J) \<union> set extra"
      "distinct (map rj_claimed_sequence (ri_journal_records input))"
      "bound_work input (cfs_limits s0) = Inr ()"
    and extra: "list_all (left_over sha (cfs_limits s0) (length J)) extra" and len: "length J < 2 ^ 64 - 1"
  shows "\<exists>st. recover sha input (cfs_limits s0) = Inr st \<and> tracks st s \<and> rs_generation st = length J"
proof -
  from live_tracks [OF live(1) sha s0(1,2) fresh_tracks [OF s0(3)]] obtain ops st where
    run: "run_steps (recovery_step (cfs_limits s0)) \<lparr>rs_generation = 0, rs_nodes = []\<rparr> ops st" "tracks st s"
    and jo: "journal_of sha (cfs_limits s0) cid 0 ops (journal_files J)"
    using s0(3) live(2) by (auto simp: fresh_def)
  have n: "length ops = length J" using arg_cong [OF journal_of_sequences [OF jo], of length] by (simp del: upt_Suc)
  have "recover sha input (cfs_limits s0) = Inr st"
    using recover_complete [of sha "cfs_limits s0" input ops "journal_files J" extra st] jo input extra run n len
    by simp
  moreover have "rs_generation st = length ops"
    using rec.run_view [OF _ run(1)] by (simp add: rs_ok_def rs_ns_def ns_wf_def)
  ultimately show ?thesis using run(2) n by auto
qed

text \<open>
  C1. Crash recovery returns to a state the computer was in. Let a computer run calls whose paths were
  parsed under its limits, from a fresh filesystem, whatever happens to its persistence gate in between, and
  let a crash leave on disk the journal records of the first \<open>n\<close> published mutations, in any order, together
  with later records or a torn next record, and no filesystem checkpoint. If none of those \<open>n\<close> mutations is a
  rename that moved a path below its source beyond the path limits, at most \<open>n\<close> of them are confirmed and the
  files are within the recovery limits, \<open>recover\<close> succeeds, and the recovered namespace and generation are those of a state \<open>t\<close> that the computer had
  reached after exactly those \<open>n\<close> mutations, namely the last state when none is missing.
\<close>

theorem crash_recovery:
  assumes "sha256_length sha" "live sha s0 J s" "fs_inv sha s0" "attached cid s0" "fresh s0"
    "n \<le> length J" "n < 2 ^ 64 - 1" "replayable (take n J)"
    "ri_computer_id input = cid" "ri_checkpoints input = []" "ri_confirmed_generation input \<le> n"
    "set (ri_journal_records input) = set (journal_files (take n J)) \<union> set extra"
    "list_all (left_over sha (cfs_limits s0) n) extra"
    "distinct (map rj_claimed_sequence (ri_journal_records input))"
    "bound_work input (cfs_limits s0) = Inr ()"
  shows "\<exists>st t. recover sha input (cfs_limits s0) = Inr st \<and> live sha s0 (take n J) t \<and>
    rs_ns st = fs_ns t \<and> rs_generation st = n \<and> cfs_generation t = n \<and> (n = length J \<longrightarrow> t = s)"
proof -
  from live_prefix [OF assms(2,1,3,4) fresh_tracks [OF assms(5)] assms(6)] obtain t where
    t: "live sha s0 (take n J) t" "n = length J \<longrightarrow> t = s" by blast
  have "\<exists>st. recover sha input (cfs_limits s0) = Inr st \<and> tracks st t \<and> rs_generation st = n"
    using live_recovers [OF assms(1) t(1) assms(8,3-5), of input extra] assms(6,7,9-15) by simp
  with t show ?thesis by (auto simp: tracks_def)
qed

text \<open>Evaluation of calls on a concrete attached computer.\<close>

definition attached_fs :: "filesystem_limits \<Rightarrow> computer_fs" where
  "attached_fs lim = (with_limits lim)\<lparr>cfs_persistence := Some \<lparr>cp_computer_id = replicate 16 7,
     cp_gate = queue_start lim, cp_limits = lim\<rparr>\<rparr>"

lemmas monad_eval = sbind_def sseq_def sret_def sread_def sfail_def smodify_def map_err_def Let_def
  checked_add_def wrapping_sub_def wrapping_add_def

lemmas call_eval = create_directory_def fs_rename_def mutable_target_def writable_path_def split_mount_def
  split_name_def require_def permits_def is_within_def rights_contains_def capability_new_def OWNER_def
  CREATE_def RENAME_def WRITE_def check_directory_entry_limit_def check_file_size_def attached_fs_def
  with_limits_def quota_reserve_def quota_new_def quota_commit_def default_cost_def next_generation_def
  prepare_persistence_def persistence_prepare_def drop_on_error_def modify_directory_def modify_objects_def
  objects_replace_def object_id_of_def modify_quota_def set_generation_def publish_def node_directory_def

lemmas journal_eval = journal_record_new_def record_encode_def op_encode_def op_encoded_len_def add_path_len_def
  path_record_len_def encoded_len_def ascii_def op_bytes_def w_path_def w_u16_def w_u32_def w_u64_def
  finish_checked_def DIGEST_BYTES_def JOURNAL_MAGIC_def paths_are_home_descendants_def home_descendant_def
  generation_is_canonical_def queue_reserve_def queue_start_def byte_cost_def saturating_add_def
  require_active_filesystem_def mutation_publish_def queue_publish_def queue_of_def

lemma attached_fs_ok:
  assumes "maximum_file_bytes lim < 2 ^ 64" "2 \<le> maximum_nodes lim" "maximum_nodes lim < 2 ^ 32"
  shows "fs_inv sha (attached_fs lim)" "attached (replicate 16 7) (attached_fs lim)" "fresh (attached_fs lim)"
    "cfs_limits (attached_fs lim) = lim"
proof -
  show "fs_inv sha (attached_fs lim)"
    using fs_inv_with_limits [of lim sha] assms by (simp add: attached_fs_def fs_inv_def fs_ns_def rom_refs_def)
  show "attached (replicate 16 7) (attached_fs lim)"
    using assms by (simp add: attached_def attached_fs_def with_limits_def open_files_def handle_table_new_def)
  show "fresh (attached_fs lim)"
    using tree_ns_empty by (simp add: fresh_def attached_fs_def fs_ns_def with_limits_def)
qed (simp add: attached_fs_def with_limits_def)

theorem crash_recovery_witness:
  "\<exists>st. recover (\<lambda>_. replicate 32 0) \<lparr>ri_computer_id = replicate 16 7, ri_confirmed_generation = 1, ri_checkpoints = [],
       ri_journal_records = \<lparr>rj_claimed_sequence = 2, rj_bytes = [1, 2, 3]\<rparr> #
         map journal_file (queue_of (snd (fs_exec (\<lambda>_. replicate 32 0)
           (CallCreateDirectory (capability_new [] OWNER) [ascii ''home'', ascii ''a'']) (attached_fs testing_limits))))\<rparr>
       testing_limits = Inr st \<and> rs_generation st = 1"
proof -
  let ?sha = "\<lambda>_. replicate 32 (0 :: u8)" and ?s = "attached_fs testing_limits"
  let ?p = "[ascii ''home'', ascii ''a'']"
  let ?call = "CallCreateDirectory (capability_new [] OWNER) ?p"
  let ?s' = "snd (fs_exec ?sha ?call ?s)" and ?torn = "\<lparr>rj_claimed_sequence = 2, rj_bytes = [1, 2, 3]\<rparr>"
  let ?in = "\<lparr>ri_computer_id = replicate 16 7, ri_confirmed_generation = 1, ri_checkpoints = [],
       ri_journal_records = ?torn # map journal_file (queue_of ?s')\<rparr> :: recovery_input"
  have lim: "cfs_limits ?s = testing_limits" by (simp add: attached_fs_def with_limits_def)
  have "path_storable testing_limits ?p"
    by (simp add: path_storable_def path_wf_def component_ok_def testing_limits_def ascii_def encoded_len_def display_def)
  then have "live ?sha ?s ([] @ published ?s ?call ?s') ?s'"
    by (intro live_call [OF live_start, where call = ?call and r = "fst (fs_exec ?sha ?call ?s)"]) (simp_all add: lim)
  moreover have "queue_of ?s = []" by (simp add: attached_fs_def queue_of_def queue_start_def)
  ultimately have live: "live ?sha ?s (map (\<lambda>c. (c, True)) (queue_of ?s')) ?s'" by (simp add: published_def)
  have q: "map (\<lambda>c. (rj_claimed_sequence (journal_file c), length (rj_bytes (journal_file c)))) (queue_of ?s') = [(1, 103)]"
    by (simp add: call_eval monad_eval journal_eval testing_limits_def)
  then obtain cmd where cmd: "queue_of ?s' = [cmd]" "rj_claimed_sequence (journal_file cmd) = 1"
    "length (rj_bytes (journal_file cmd)) = 103" by auto
  have "bound_work ?in (cfs_limits ?s) = Inr ()"
    unfolding lim cmd(1) using cmd(3) by (simp add: bound_work_def checked_add_def testing_limits_def)
  moreover have "list_all (left_over ?sha (cfs_limits ?s) 1) [?torn]"
    by (simp add: left_over_def record_decode_def pc_verified_def DIGEST_BYTES_def)
  moreover have "fs_inv ?sha ?s" "attached (replicate 16 7) ?s" "fresh ?s"
    by (rule attached_fs_ok; simp add: testing_limits_def)+
  ultimately show ?thesis
    using crash_recovery [OF _ live, where n = 1 and input = ?in and extra = "[?torn]"] cmd
    by (auto simp: sha256_length_def lim replayable_def)
qed

subsection \<open>A rename that recovery refuses\<close>

text \<open>
  C7. The live rename checks the limits of the destination path only, recovery those of every moved
  path. When a successful rename of a directory pushes a path below it over the path limits, the
  computer can no longer be recovered once the rename is confirmed: \<open>recover\<close> reports confirmed
  corruption although every file on disk is intact.
\<close>

theorem rename_unrecoverable:
  assumes sha: "sha256_length sha" and live: "live sha s0 J s" "replayable J"
    and s0: "fs_inv sha s0" "attached cid s0" "fresh s0"
    and paths: "path_storable (cfs_limits s0) src" "path_storable (cfs_limits s0) dst" "src \<noteq> dst"
      "\<not> moved_paths_wf (cfs_limits s0) src dst (fs_ns s)"
    and run: "fs_rename sha cap src dst replace s = (Inr (), s')"
    and input: "ri_computer_id input = cid" "ri_checkpoints input = []" "ri_confirmed_generation input = length J + 1"
      "set (ri_journal_records input) = set (journal_files J @ map journal_file (drop (length (queue_of s)) (queue_of s')))"
      "distinct (map rj_claimed_sequence (ri_journal_records input))" "bound_work input (cfs_limits s0) = Inr ()"
    and len: "length J < 2 ^ 64 - 1"
  shows "recover sha input (cfs_limits s0) = Inl ConfirmedCorruption"
proof -
  let ?st = "\<lparr>rs_generation = 0, rs_nodes = []\<rparr>" and ?lim = "cfs_limits s0" and ?op = "JRename src dst replace"
  have ok: "rs_ok ?st" by (simp add: rs_ok_def rs_ns_def ns_wf_def)
  from live_tracks [OF live(1) sha s0(1,2) fresh_tracks [OF s0(3)]] obtain ops st where
    inv: "fs_inv sha s" "attached cid s" "cfs_limits s = ?lim" and st: "run_steps (recovery_step ?lim) ?st ops st" "tracks st s"
    and jo: "journal_of sha ?lim cid 0 ops (journal_files J)"
    using s0(3) live(2) by (auto simp: fresh_def)
  have n: "length ops = length J" using arg_cong [OF journal_of_sequences [OF jo], of length] by (simp del: upt_Suc)
  have gen: "rs_generation st = length J" using rec.run_view [OF ok st(1)] n by simp
  have op: "op_storable (cfs_limits s) ?op" using paths inv(3) by (simp add: op_storable_def)
  have "commits sha ?op None s s'"
    using fs_rename_tx [OF inv(1) path_storable_plain [OF paths(2)], of cap src replace] run paths(3) by (simp add: tx_def)
  from commit_publishes [OF sha inv(2) this op] obtain cmd where
    cmd: "drop (length (queue_of s)) (queue_of s') = [cmd]" "stores sha ?lim cid (length J + 1) ?op (journal_file cmd)"
    using inv(3) st(2) gen by (auto simp: tracks_def)
  let ?recs = "journal_files J @ [journal_file cmd]"
  have "journal_of sha ?lim cid 0 (ops @ [?op]) ?recs" using journal_of_snoc [OF jo] cmd(2) n by simp
  then have "sorted_wrt (<) (map rj_claimed_sequence ?recs)" by (simp only: journal_of_sequences sorted_wrt_upt)
  then have recs: "recovery_records input = Inr ?recs"
    by (rule recovery_records_journal) (use input(4,5) cmd(1) in auto)
  have "\<exists>e. recovery_apply st ?op (length J + 1) ?lim = Inl e"
    using recovery_apply_iff [of st ?op "length J + 1" ?lim] st(2) op_storable_plain [OF op] paths(4)
    by (cases "recovery_apply st ?op (length J + 1) ?lim") (auto simp: tracks_def op_moves_wf_def)
  then have "recover_loop sha ?lim cid (length J + 1) st [journal_file cmd] = Inl ConfirmedCorruption"
    using cmd(2) gen len by (auto simp: stores_def checked_add_def)
  then have "recover_loop sha ?lim cid (length J + 1) ?st ?recs = Inl ConfirmedCorruption"
    using recover_loop_replay [OF ok _ st(1)] jo n len by simp
  then show ?thesis
    using input recs by (simp add: recover_def recovery_base_def validate_state_def)
qed

definition shallow_limits :: filesystem_limits where
  "shallow_limits = testing_limits\<lparr>maximum_components := 3\<rparr>"

fun mkdirs :: "sha256 \<Rightarrow> virtual_path list \<Rightarrow> computer_fs \<Rightarrow> (command \<times> bool) list \<times> computer_fs" where
  "mkdirs sha [] s = ([], s)"
| "mkdirs sha (p # ps) s =
     (let s' = snd (create_directory sha (capability_new [] OWNER) p s); (J, t) = mkdirs sha ps s' in
      (published s (CallCreateDirectory (capability_new [] OWNER) p) s' @ J, t))"

lemma live_mkdirs:
  assumes "live sha s0 J s" "sha256_length sha" "fs_inv sha s0" "attached cid s0" "fresh s0"
    "list_all (path_storable (cfs_limits s0)) ps"
  shows "live sha s0 (J @ fst (mkdirs sha ps s)) (snd (mkdirs sha ps s))"
  using assms
proof (induction ps arbitrary: J s)
  case (Cons p ps)
  let ?call = "CallCreateDirectory (capability_new [] OWNER) p"
  have "cfs_limits s = cfs_limits s0"
    using live_tracks [OF Cons.prems(1-4) fresh_tracks [OF Cons.prems(5)]] by blast
  with Cons.prems(6) have "live sha s0 (J @ published s ?call (snd (fs_exec sha ?call s)))
      (snd (fs_exec sha ?call s))"
    by (intro live_call [OF Cons.prems(1), where call = ?call and r = "fst (fs_exec sha ?call s)"]) simp_all
  from Cons.IH [OF this Cons.prems(2-5)] Cons.prems(6) show ?case
    by (simp add: Let_def case_prod_unfold)
qed simp

lemma mkdirs_replayable: "replayable (fst (mkdirs sha ps s))"
  by (induction ps arbitrary: s) (auto simp: replayable_def published_def Let_def case_prod_unfold list_all_iff)

theorem rename_unrecoverable_witness:
  "let sha = \<lambda>_. replicate 32 0; a = [ascii ''home'', ascii ''a'']; d = [ascii ''home'', ascii ''d''];
       (J, s) = mkdirs sha [a, a @ [ascii ''b''], d] (attached_fs shallow_limits);
       (r, s') = fs_rename sha (capability_new [] OWNER) a (d @ [ascii ''a'']) False s;
       stored = journal_files J @ map journal_file (drop (length (queue_of s)) (queue_of s')) in
     r = Inr () \<and> recover sha \<lparr>ri_computer_id = replicate 16 7, ri_confirmed_generation = 4, ri_checkpoints = [],
       ri_journal_records = stored\<rparr> shallow_limits = Inl ConfirmedCorruption"
proof -
  let ?sha = "\<lambda>_. replicate 32 (0 :: u8)" and ?fs = "attached_fs shallow_limits"
  let ?a = "[ascii ''home'', ascii ''a'']" and ?ab = "[ascii ''home'', ascii ''a'', ascii ''b'']"
    and ?d = "[ascii ''home'', ascii ''d'']" and ?da = "[ascii ''home'', ascii ''d'', ascii ''a'']"
  let ?run = "mkdirs ?sha [?a, ?ab, ?d] ?fs"
  let ?J = "fst ?run" and ?s = "snd ?run"
  let ?mv = "fs_rename ?sha (capability_new [] OWNER) ?a ?da False ?s"
  let ?all = "journal_files ?J @ map journal_file (drop (length (queue_of ?s)) (queue_of (snd ?mv)))"
  let ?in = "\<lparr>ri_computer_id = replicate 16 7, ri_confirmed_generation = 4, ri_checkpoints = [],
       ri_journal_records = ?all\<rparr> :: recovery_input"
  note eval = call_eval monad_eval journal_eval shallow_limits_def testing_limits_def
  have sha: "sha256_length ?sha" by (simp add: sha256_length_def)
  have lim: "cfs_limits ?fs = shallow_limits" by (simp add: attached_fs_def with_limits_def)
  have s0: "fs_inv ?sha ?fs" "attached (replicate 16 7) ?fs" "fresh ?fs"
    by (rule attached_fs_ok; simp add: shallow_limits_def testing_limits_def)+
  have paths: "list_all (path_storable shallow_limits) [?a, ?ab, ?d, ?da]"
    by (simp add: path_storable_def path_wf_def component_ok_def shallow_limits_def testing_limits_def ascii_def
        encoded_len_def display_def)
  have live: "live ?sha ?fs ?J ?s"
    using live_mkdirs [OF live_start sha s0, of "[?a, ?ab, ?d]"] paths lim by simp
  have ran: "fst ?mv = Inr ()" by (simp add: eval)
  have sizes: "map (\<lambda>(c, _). (rj_claimed_sequence (journal_file c), length (rj_bytes (journal_file c)))) ?J
      = [(1, 103), (2, 105), (3, 103)]"
    by (simp add: eval published_def)
  have size4: "map (\<lambda>c. (rj_claimed_sequence (journal_file c), length (rj_bytes (journal_file c))))
      (drop (length (queue_of ?s)) (queue_of (snd ?mv))) = [(4, 108)]" by (simp add: eval)
  have "fs_ns ?s ?ab \<noteq> None" by (simp add: eval fs_ns_def tree_ns_def tlook_def shallow_def)
  moreover have "\<not> path_wf shallow_limits (?da @ drop (length ?a) ?ab)"
    by (simp add: path_wf_def shallow_limits_def)
  moreover have "is_within ?ab ?a" by (simp add: is_within_def)
  ultimately have moved: "\<not> moved_paths_wf shallow_limits ?a ?da (fs_ns ?s)"
    unfolding moved_paths_wf_def by blast
  obtain c1 c2 c3 c4 where c: "?J = [c1, c2, c3]" "drop (length (queue_of ?s)) (queue_of (snd ?mv)) = [c4]"
    using sizes size4 by auto
  have dist: "distinct (map rj_claimed_sequence (ri_journal_records ?in))"
    using sizes size4 unfolding c by (simp add: case_prod_unfold)
  have work: "bound_work ?in shallow_limits = Inr ()"
    using sizes size4 unfolding c
    by (simp add: case_prod_unfold bound_work_def checked_add_def shallow_limits_def testing_limits_def)
  have "recover ?sha ?in (cfs_limits ?fs) = Inl ConfirmedCorruption"
  proof (rule rename_unrecoverable [OF sha live mkdirs_replayable s0])
    show "fs_rename ?sha (capability_new [] OWNER) ?a ?da False ?s = (Inr (), snd ?mv)"
      using ran by (metis prod.collapse)
    show "ri_confirmed_generation ?in = length ?J + 1" "length ?J < 2 ^ 64 - 1" unfolding c by simp_all
  qed (use paths moved dist work lim in \<open>auto simp: ascii_def\<close>)
  with ran lim show ?thesis by (simp add: Let_def case_prod_unfold del: mkdirs.simps)
qed

end
