(* ===== verification/Vm_Values.thy ===== *)
theory Vm_Values
  imports Prelude
begin

unbundle bit_operations_syntax

text \<open>
  Guest values (\<open>src/src/execution/value.rs\<close>): tagged 32-bit references, whose two top bits name the
  domain and whose 30 lower bits carry the payload, and the runtime values of the interpreter.
\<close>

subsection \<open>References\<close>

datatype reference_domain = Managed | Image | External | Reserved

definition domain_code :: "reference_domain \<Rightarrow> u32" where
  "domain_code d = (case d of Managed \<Rightarrow> 0 | Image \<Rightarrow> 1 | External \<Rightarrow> 2 | Reserved \<Rightarrow> 3)"

text \<open>A \<open>Ref32\<close> is its bit pattern; the constructors never build the zero pattern, which stands for null.\<close>

type_synonym ref32 = u32

definition DOMAIN_SHIFT :: nat where "DOMAIN_SHIFT = 30"

definition MAX_PAYLOAD :: u32 where "MAX_PAYLOAD = push_bit DOMAIN_SHIFT 1 - 1"

definition ref32_new :: "reference_domain \<Rightarrow> u32 \<Rightarrow> ref32 option" where
  "ref32_new d payload =
     (if MAX_PAYLOAD < payload then None
      else
        (let bits = push_bit DOMAIN_SHIFT (domain_code d) OR payload in
         if bits = 0 then None else Some bits))"

definition ref32_managed :: "u32 \<Rightarrow> ref32 option" where
  "ref32_managed object_header_offset = ref32_new Managed object_header_offset"

definition ref32_image :: "u32 \<Rightarrow> ref32 option" where
  "ref32_image index = ref32_new Image index"

definition ref32_external :: "u32 \<Rightarrow> ref32 option" where
  "ref32_external slot = ref32_new External slot"

definition ref32_reserved :: "u32 \<Rightarrow> ref32 option" where
  "ref32_reserved payload = ref32_new Reserved payload"

definition ref32_domain :: "ref32 \<Rightarrow> reference_domain" where
  "ref32_domain r =
     (let d = drop_bit DOMAIN_SHIFT r in
      if d = 0 then Managed else if d = 1 then Image else if d = 2 then External else Reserved)"

definition ref32_payload :: "ref32 \<Rightarrow> u32" where
  "ref32_payload r = r AND MAX_PAYLOAD"

definition ref32_from_bits :: "u32 \<Rightarrow> ref32 option" where
  "ref32_from_bits bits = (if bits = 0 then None else Some bits)"

subsection \<open>Runtime values\<close>

datatype runtime_value =
    VI32 u32 | VI64 u64 | VF32 u32 | VF64 u64 | VBool bool | VChar u16 | VNull | VReference ref32

definition f32_is_nan :: "u32 \<Rightarrow> bool" where
  "f32_is_nan bits \<longleftrightarrow> 0x7f800000 < (bits AND 0x7fffffff)"

definition f64_is_nan :: "u64 \<Rightarrow> bool" where
  "f64_is_nan bits \<longleftrightarrow> 0x7ff0000000000000 < (bits AND 0x7fffffffffffffff)"

definition fold64 :: "u64 \<Rightarrow> u32" where
  "fold64 x = ucast (x XOR drop_bit 32 x)"

definition hash_code :: "u8 \<Rightarrow> runtime_value \<Rightarrow> u32 option" where
  "hash_code form v =
     (case v of
        VI32 x \<Rightarrow> if form = 1 then Some x else None
      | VI64 x \<Rightarrow> if form = 2 then Some (fold64 x) else None
      | VF32 b \<Rightarrow> if form = 3 then Some (if f32_is_nan b then 0x7fc00000 else b) else None
      | VF64 b \<Rightarrow> if form = 4 then Some (fold64 (if f64_is_nan b then 0x7ff8000000000000 else b)) else None
      | VBool b \<Rightarrow> if form = 5 then Some (if b then 1231 else 1237) else None
      | VChar c \<Rightarrow> if form = 6 then Some (ucast c) else None
      | VNull \<Rightarrow> if form = 7 then Some 0 else None
      | VReference r \<Rightarrow> if form = 7 then Some r else None)"

definition trace_bits_u64 :: "runtime_value \<Rightarrow> u64" where
  "trace_bits_u64 v =
     (case v of
        VI32 x \<Rightarrow> ucast x | VI64 x \<Rightarrow> x | VF32 b \<Rightarrow> ucast b | VF64 b \<Rightarrow> b
      | VBool b \<Rightarrow> (if b then 1 else 0) | VChar c \<Rightarrow> ucast c | VNull \<Rightarrow> 0
      | VReference r \<Rightarrow> ucast (ref32_payload r))"

definition trace_tag :: "runtime_value \<Rightarrow> u8" where
  "trace_tag v =
     (case v of VI32 _ \<Rightarrow> 1 | VI64 _ \<Rightarrow> 2 | VF32 _ \<Rightarrow> 3 | VF64 _ \<Rightarrow> 4 | VBool _ \<Rightarrow> 5 | VChar _ \<Rightarrow> 6
      | VNull \<Rightarrow> 7 | VReference _ \<Rightarrow> 8)"

definition trace_payload_len :: "runtime_value \<Rightarrow> nat" where
  "trace_payload_len v =
     (case v of VI32 _ \<Rightarrow> 4 | VF32 _ \<Rightarrow> 4 | VChar _ \<Rightarrow> 2 | VI64 _ \<Rightarrow> 8 | VF64 _ \<Rightarrow> 8 | VBool _ \<Rightarrow> 1
      | VNull \<Rightarrow> 0 | VReference _ \<Rightarrow> 12)"

subsection \<open>Properties\<close>

lemma MAX_PAYLOAD_mask: "MAX_PAYLOAD = mask 30"
  by (simp add: MAX_PAYLOAD_def DOMAIN_SHIFT_def mask_eq_exp_minus_1 push_bit_of_1)

lemma payload_fits_iff: "payload \<le> MAX_PAYLOAD \<longleftrightarrow> take_bit 30 payload = payload"
proof -
  have "payload \<le> MAX_PAYLOAD \<longleftrightarrow> payload < 2 ^ 30"
    by (simp add: MAX_PAYLOAD_def DOMAIN_SHIFT_def push_bit_of_1 word_le_nat_alt word_less_nat_alt) linarith
  also have "\<dots> \<longleftrightarrow> unat payload mod 2 ^ 30 = unat payload"
    by (simp add: word_less_nat_alt) (metis mod_less mod_less_divisor zero_less_numeral)
  also have "\<dots> \<longleftrightarrow> take_bit 30 payload = payload"
    by (simp only: word_unat_eq_iff unsigned_take_bit_eq) (simp add: take_bit_eq_mod)
  finally show ?thesis .
qed

lemma domain_code_domain: "domain_code (ref32_domain r) = drop_bit 30 r"
proof -
  have "unat (drop_bit 30 r) < 4"
    unfolding unat_drop_bit_eq unfolding drop_bit_eq_div by (rule less_mult_imp_div_less) simp
  then consider "unat (drop_bit 30 r) = 0" | "unat (drop_bit 30 r) = 1" | "unat (drop_bit 30 r) = 2"
    | "unat (drop_bit 30 r) = 3" by linarith
  then show ?thesis
    by cases (auto simp: ref32_domain_def domain_code_def DOMAIN_SHIFT_def Let_def word_unat_eq_iff)
qed

lemma domain_code_inject: "domain_code d = domain_code e \<longleftrightarrow> d = e"
  by (cases d; cases e) (simp_all add: domain_code_def)

lemma ref32_split:
  assumes "take_bit 30 p = p"
  shows "push_bit 30 (domain_code d) OR p = r \<longleftrightarrow> domain_code d = drop_bit 30 r \<and> p = r AND mask 30"
proof
  assume r: "push_bit 30 (domain_code d) OR p = r"
  have "drop_bit 30 p = 0" using assms by (metis drop_bit_take_bit less_irrefl_nat diff_self_eq_0 take_bit_0)
  moreover have "drop_bit 30 (push_bit 30 (domain_code d)) = domain_code d"
    by (cases d) (simp_all add: domain_code_def)
  moreover have "push_bit 30 (domain_code d) AND mask 30 = 0"
    by (auto simp: bit_eq_iff bit_simps)
  ultimately show "domain_code d = drop_bit 30 r \<and> p = r AND mask 30"
    using assms unfolding r [symmetric]
    by (simp add: bit.conj_disj_distrib2 take_bit_eq_mask)
next
  assume "domain_code d = drop_bit 30 r \<and> p = r AND mask 30"
  then show "push_bit 30 (domain_code d) OR p = r"
    by (auto simp: bit_eq_iff bit_simps)
qed

text \<open>
  C24. A reference is exactly a domain and a payload: \<open>ref32_new\<close> builds a reference for a domain and a
  payload that fits 30 bits, except for the pair whose pattern is null; reading the domain and the payload
  of the result gives back the pair, and every non-zero bit pattern is the reference of the pair read
  from it.
\<close>

theorem ref32_new_iff:
  "ref32_new d payload = Some r \<longleftrightarrow> r \<noteq> 0 \<and> ref32_domain r = d \<and> ref32_payload r = payload"
proof -
  have fits: "take_bit 30 (r AND mask 30) = r AND mask 30" by (simp add: take_bit_eq_mask and.assoc)
  have "ref32_new d payload = Some r \<longleftrightarrow>
      take_bit 30 payload = payload \<and> push_bit 30 (domain_code d) OR payload = r \<and> r \<noteq> 0"
    by (auto simp: ref32_new_def Let_def DOMAIN_SHIFT_def payload_fits_iff [symmetric] not_less)
  also have "\<dots> \<longleftrightarrow> take_bit 30 payload = payload \<and> domain_code d = drop_bit 30 r \<and> payload = r AND mask 30 \<and> r \<noteq> 0"
    using ref32_split by blast
  also have "\<dots> \<longleftrightarrow> r \<noteq> 0 \<and> ref32_domain r = d \<and> ref32_payload r = payload"
    unfolding domain_code_domain [symmetric] domain_code_inject ref32_payload_def MAX_PAYLOAD_mask
    using fits by auto
  finally show ?thesis .
qed

end
