(* ===== verification/Vm_Roots.thy ===== *)
theory Vm_Roots
  imports Generation_Tables Vm_Values
begin

text \<open>
  The external root table (\<open>src/src/execution/external_roots.rs\<close>): slots that keep guest references alive
  for the host, addressed by generation-checked handles. A slot whose generation overflows gets
  generation 0 and is never used again.
\<close>

record external_handle =
  eh_slot :: nat
  eh_generation :: nat

record external_root_entry =
  re_generation :: nat
  re_value :: "ref32 option"

record external_root_table =
  rt_entries :: "external_root_entry list"

definition root_table_new :: "nat \<Rightarrow> external_root_table" where
  "root_table_new capacity =
     \<lparr>rt_entries = replicate capacity \<lparr>re_generation = 1, re_value = None\<rparr>\<rparr>"

definition root_retain :: "external_root_table \<Rightarrow> ref32 \<Rightarrow> (external_handle \<times> external_root_table) option" where
  "root_retain t value =
     (case find_index (\<lambda>e. re_value e = None \<and> re_generation e \<noteq> 0) (rt_entries t) of
        None \<Rightarrow> None
      | Some slot \<Rightarrow>
          (let e = rt_entries t ! slot in
           Some (\<lparr>eh_slot = slot, eh_generation = re_generation e\<rparr>,
             t\<lparr>rt_entries := (rt_entries t)[slot := e\<lparr>re_value := Some value\<rparr>]\<rparr>)))"

definition root_get :: "external_root_table \<Rightarrow> external_handle \<Rightarrow> ref32 option" where
  "root_get t h =
     (if eh_slot h < length (rt_entries t)
      then (let e = rt_entries t ! eh_slot h in
            if re_generation e = eh_generation h then re_value e else None)
      else None)"

definition root_release :: "external_root_table \<Rightarrow> external_handle \<Rightarrow> (ref32 \<times> external_root_table) option" where
  "root_release t h =
     (if eh_slot h < length (rt_entries t)
      then
        (let e = rt_entries t ! eh_slot h in
         if re_generation e \<noteq> eh_generation h then None
         else
           (case re_value e of
              None \<Rightarrow> None
            | Some value \<Rightarrow>
                Some (value, t\<lparr>rt_entries := (rt_entries t)[eh_slot h :=
                  \<lparr>re_generation = (case checked_add 32 (re_generation e) 1 of None \<Rightarrow> 0 | Some g \<Rightarrow> g),
                   re_value = None\<rparr>]\<rparr>)))
      else None)"

definition root_at :: "external_root_table \<Rightarrow> nat \<Rightarrow> ref32 option" where
  "root_at t index =
     (if index < length (rt_entries t) then re_value (rt_entries t ! index) else None)"

subsection \<open>The generation-table contract\<close>

definition root_close :: "external_root_table \<Rightarrow> external_handle \<Rightarrow> external_root_table option" where
  "root_close t h = map_option snd (root_release t h)"

text \<open>Live slots have a generation, and generation 0 marks an exhausted slot.\<close>

definition root_table_inv :: "external_root_table \<Rightarrow> bool" where
  "root_table_inv t \<longleftrightarrow> list_all (\<lambda>e. re_generation e < 2 ^ 32 \<and>
     (re_value e \<noteq> None \<longrightarrow> re_generation e \<noteq> 0)) (rt_entries t)"

definition root_dead :: "external_root_table \<Rightarrow> external_handle \<Rightarrow> bool" where
  "root_dead t h \<longleftrightarrow> eh_slot h < length (rt_entries t) \<and> 0 < eh_generation h \<and>
     (re_generation (rt_entries t ! eh_slot h) = 0 \<or> eh_generation h < re_generation (rt_entries t ! eh_slot h))"

lemma root_table_new_inv: "root_table_inv (root_table_new n)"
  by (simp add: root_table_inv_def root_table_new_def list_all_iff)

lemma external_handle_eqI:
  "eh_slot h = eh_slot k \<Longrightarrow> eh_generation h = eh_generation k \<Longrightarrow> h = (k :: external_handle)"
  by simp

interpretation er: generation_table root_table_inv root_retain root_get root_close root_dead
proof
  fix t v h t' k
  assume inv: "root_table_inv t" and op: "root_retain t v = Some (h, t')"
  from op obtain slot where slot: "slot < length (rt_entries t)" "re_value (rt_entries t ! slot) = None"
    "re_generation (rt_entries t ! slot) \<noteq> 0"
    and h: "h = \<lparr>eh_slot = slot, eh_generation = re_generation (rt_entries t ! slot)\<rparr>"
    and t': "t' = t\<lparr>rt_entries := (rt_entries t)[slot := (rt_entries t ! slot)\<lparr>re_value := Some v\<rparr>]\<rparr>"
    by (auto simp: root_retain_def Let_def dest: find_index_SomeD split: option.splits)
  show "root_table_inv t'"
    using inv slot by (auto simp: root_table_inv_def t' list_all_length nth_list_update)
  show "root_get t' h = Some v" using slot by (simp add: root_get_def h t')
  show "root_get t h = None \<and> \<not> root_dead t h" using slot by (simp add: root_get_def root_dead_def h)
  show "root_get t' k = root_get t k" if "k \<noteq> h"
    using that slot external_handle_eqI [of k h] by (auto simp: root_get_def Let_def h t' nth_list_update)
  show "root_dead t' k" if "root_dead t k"
    using that slot by (auto simp: root_dead_def t' nth_list_update)
next
  fix t h t' k
  assume inv: "root_table_inv t" and op: "root_close t h = Some t'"
  let ?e = "rt_entries t ! eh_slot h"
  from op obtain v where h: "eh_slot h < length (rt_entries t)" "re_generation ?e = eh_generation h"
    "re_value ?e = Some v" and t': "t' = t\<lparr>rt_entries := (rt_entries t)[eh_slot h :=
      \<lparr>re_generation = (case checked_add 32 (re_generation ?e) 1 of None \<Rightarrow> 0 | Some g \<Rightarrow> g), re_value = None\<rparr>]\<rparr>"
    by (auto simp: root_close_def root_release_def Let_def split: if_splits option.splits)
  have g: "0 < eh_generation h" using inv h by (auto simp: root_table_inv_def list_all_length)
  show "root_table_inv t'"
    using inv h by (auto simp: root_table_inv_def t' list_all_length nth_list_update checked_simps split: option.split)
  show "root_get t h \<noteq> None" using h by (simp add: root_get_def)
  show "root_get t' k = root_get t k" if "k \<noteq> h"
    using that h g external_handle_eqI [of k h]
    by (auto simp: root_get_def Let_def t' nth_list_update)
  show "root_dead t' k" if "root_dead t k \<or> k = h"
    using that h g by (auto simp: root_dead_def t' nth_list_update checked_simps split: option.split)
next
  fix t h
  assume "root_table_inv t" "root_dead t h"
  then show "root_get t h = None"
    by (auto simp: root_get_def root_dead_def root_table_inv_def list_all_length Let_def)
qed

text \<open>
  C23. External roots are exact: a reference retained in a table reached from a new one by any sequence of
  retains and releases stays readable under its handle until that handle is released; once released,
  the handle never resolves again and is never handed out again, also when the slot's generation
  counter runs out.
\<close>

theorem external_root_lifetime:
  assumes "t = foldl (table_apply root_retain root_close) (root_table_new n) before" "root_retain t v = Some (h, u)"
  shows "(TClose h \<notin> set later \<longrightarrow> root_get (foldl (table_apply root_retain root_close) u later) h = Some v) \<and>
    (\<forall>w t1 t2. t1 = foldl (table_apply root_retain root_close) u later \<longrightarrow> root_release t1 h = Some (w, t2) \<longrightarrow>
       root_get (foldl (table_apply root_retain root_close) t2 after) h = None \<and>
       (\<forall>x k t3. root_retain (foldl (table_apply root_retain root_close) t2 after) x = Some (k, t3) \<longrightarrow> k \<noteq> h))"
proof -
  have inv: "root_table_inv t" unfolding assms(1) by (rule er.foldl_inv [OF root_table_new_inv])
  note inv_u = er.open_inv [OF inv assms(2)]
  have "root_get (foldl er.apply_op u later) h = Some v" if "TClose h \<notin> set later"
    by (rule er.live_until_closed [OF inv_u er.open_get [OF inv assms(2)]]) (use that in auto)
  moreover have "root_get (foldl er.apply_op t2 after) h = None \<and>
      (\<forall>x k t3. root_retain (foldl er.apply_op t2 after) x = Some (k, t3) \<longrightarrow> k \<noteq> h)"
    if "root_release (foldl er.apply_op u later) h = Some (w, t2)" for w t2
  proof -
    have c: "root_close (foldl er.apply_op u later) h = Some t2" using that by (simp add: root_close_def)
    note i = er.foldl_inv [OF inv_u, of later]
    from er.closed_never_resolves [OF i c] er.closed_never_reissued [OF i c] show ?thesis by blast
  qed
  ultimately show ?thesis by blast
qed

theorem external_root_lifetime_witness:
  "root_get \<lparr>rt_entries = [\<lparr>re_generation = 2, re_value = None\<rparr>]\<rparr> \<lparr>eh_slot = 0, eh_generation = 1\<rparr> = None"
  using external_root_lifetime [of "root_table_new 1" 1 "[]" 5 "\<lparr>eh_slot = 0, eh_generation = 1\<rparr>"
      "\<lparr>rt_entries = [\<lparr>re_generation = 1, re_value = Some 5\<rparr>]\<rparr>" "[]" "[]"]
  by (simp add: root_retain_def root_table_new_def root_release_def checked_add_def) (simp add: numeral_2_eq_2)

end
