(* ===== verification/Fifo.thy ===== *)
theory Fifo
  imports Prelude
begin

text \<open>
  First-in first-out queues. \<open>ring f cap head len\<close> reads a ring buffer of \<open>cap\<close> slots; the locale
  \<open>fifo\<close> is the contract of a queue that a client pops: whatever is pushed later, the items waiting in
  front are served first and in order.
\<close>

definition usize_max :: nat where "usize_max = 2 ^ 64 - 1"

definition ring :: "(nat \<Rightarrow> 'a) \<Rightarrow> nat \<Rightarrow> nat \<Rightarrow> nat \<Rightarrow> 'a list" where
  "ring f cap head len = map (\<lambda>i. f ((head + i) mod cap)) [0..<len]"

lemma length_ring [simp]: "length (ring f cap head len) = len"
  by (simp add: ring_def)

lemma ring_0 [simp]: "ring f cap head 0 = []"
  by (simp add: ring_def)

lemma ring_cong: "(\<And>i. i < cap \<Longrightarrow> f i = g i) \<Longrightarrow> 0 < cap \<Longrightarrow> ring f cap head len = ring g cap head len"
  by (simp add: ring_def)

lemma ring_slot_inj:
  assumes "i < cap" "j < cap" "(head + i) mod cap = (head + j) mod (cap :: nat)"
  shows "i = j"
proof -
  have "x = y" if "x \<le> y" "y < cap" "(head + y) mod cap = (head + x) mod cap" for x y
  proof -
    have "cap dvd (head + y) - (head + x)" using that mod_eq_dvd_iff_nat [of "head + x" "head + y" cap] by simp
    with that show ?thesis by (metis diff_add_inverse diff_diff_left diff_is_0_eq dvd_imp_le le_antisym
        less_imp_diff_less not_le not_gr_zero)
  qed
  with assms show ?thesis by (metis nat_le_linear)
qed

lemma ring_push:
  assumes "len < cap" "\<And>i. i < cap \<Longrightarrow> g i = (if i = (head + len) mod cap then x else f i)"
  shows "ring g cap head (Suc len) = ring f cap head len @ [x]"
proof -
  have "g ((head + i) mod cap) = f ((head + i) mod cap)" if "i < len" for i
    using assms that ring_slot_inj [of i cap len head] by fastforce
  moreover have "g ((head + len) mod cap) = x" using assms by simp
  ultimately show ?thesis by (simp add: ring_def)
qed

lemma ring_pop:
  assumes "0 < len" "head < cap"
  shows "ring f cap head len = f head # ring f cap ((head + 1) mod cap) (len - 1)"
proof -
  from assms(1) obtain n where n: "len = Suc n" by (cases len) auto
  have "f ((Suc head mod cap + i) mod cap) = f ((head + Suc i) mod cap)" for i
    by (simp add: mod_add_left_eq)
  then show ?thesis
    using assms(2) by (simp add: ring_def n upt_conv_Cons map_Suc_upt [symmetric] del: upt_Suc)
qed

text \<open>What is stored in the slot just popped does not matter.\<close>

lemma ring_unread:
  assumes "0 < len" "len \<le> cap" "head < cap" "\<And>i. i < cap \<Longrightarrow> i \<noteq> head \<Longrightarrow> g i = f i"
  shows "ring g cap (Suc head mod cap) (len - Suc 0) = ring f cap (Suc head mod cap) (len - Suc 0)"
proof -
  have "g ((Suc head mod cap + i) mod cap) = f ((Suc head mod cap + i) mod cap)" if "i < len - Suc 0" for i
  proof -
    have slot: "(Suc head mod cap + i) mod cap = (head + Suc i) mod cap" by (simp add: mod_add_left_eq)
    have "Suc i < cap" using that assms(2) by linarith
    then have "(head + Suc i) mod cap \<noteq> (head + 0) mod cap"
      using ring_slot_inj [of "Suc i" cap 0 head] by auto
    with assms(3) have "(head + Suc i) mod cap \<noteq> head" by simp
    moreover have "(head + Suc i) mod cap < cap" using assms(3) by simp
    ultimately show ?thesis unfolding slot by (intro assms(4))
  qed
  then show ?thesis by (simp add: ring_def)
qed

text \<open>Runs in which pops alternate with any other steps; the list collects what is popped.\<close>

inductive served :: "('s \<Rightarrow> ('a \<times> 's) option) \<Rightarrow> ('s \<Rightarrow> 's \<Rightarrow> bool) \<Rightarrow> 's \<Rightarrow> 'a list \<Rightarrow> 's \<Rightarrow> bool"
  for pop other s
where
  served_start: "served pop other s [] s"
| served_other: "served pop other s out t \<Longrightarrow> other t u \<Longrightarrow> served pop other s out u"
| served_pop: "served pop other s out t \<Longrightarrow> pop t = Some (x, u) \<Longrightarrow> served pop other s (out @ [x]) u"

locale fifo =
  fixes items :: "'s \<Rightarrow> 'a list" and good :: "'s \<Rightarrow> bool"
    and pop :: "'s \<Rightarrow> ('a \<times> 's) option" and other :: "'s \<Rightarrow> 's \<Rightarrow> bool"
  assumes pop_head: "good s \<Longrightarrow> pop s = Some (x, s') \<Longrightarrow> good s' \<and> items s = x # items s'"
    and other_keeps: "good s \<Longrightarrow> other s s' \<Longrightarrow> good s' \<and> (\<exists>new. items s' = items s @ new)"
begin

lemma served_in_order:
  assumes "served pop other s out t" "good s"
  shows "good t \<and> (\<exists>new. out @ items t = items s @ new)"
  using assms
proof (induction rule: served.induct)
  case (served_other out t u)
  then obtain new where "good t" "out @ items t = items s @ new" by blast
  with other_keeps [OF _ served_other.hyps(2)] show ?case by (metis append.assoc)
next
  case (served_pop out t x u)
  then obtain new where "good t" "out @ items t = items s @ new" by blast
  with pop_head [OF _ served_pop.hyps(2)] show ?case by auto
qed simp

text \<open>What waits at position \<open>k\<close> is the \<open>k\<close>-th item served.\<close>

lemma served_nth:
  assumes "served pop other s out t" "good s" "k < length (items s)" "k < length out"
  shows "out ! k = items s ! k"
  using served_in_order [OF assms(1,2)] assms(3,4) by (metis nth_append)

end

end
