(* ===== verification/Vm_Task.thy ===== *)
theory Vm_Task
  imports Fifo
begin

text \<open>
  The cooperative task scheduler (\<open>src/src/execution/task.rs\<close>): a table of task records, a ring buffer of
  the slots that are ready, and the running slot. An index out of range is the error \<open>TaskPanicked\<close>.
  \<open>sched_inv\<close> is the invariant of every reachable scheduler.
\<close>

type_synonym task_id = nat

definition TASK_ROOT :: task_id where "TASK_ROOT = 1"

definition task_id_new :: "nat \<Rightarrow> task_id option" where
  "task_id_new v = (if v = 0 then None else Some v)"

datatype task_wait = WaitHost nat | WaitJoin task_id | WaitChannel nat

datatype task_state = Vacant | Ready | Running | Waiting task_wait | Completed

datatype task_error =
    AlreadyStarted | NotStarted | NoCapacity | IdExhausted | NoRunningTask | UnknownTask | WrongWait
  | SelfJoin | JoinCycle | CorruptQueue | TaskPanicked

record task_snapshot =
  tsn_capacity :: nat
  tsn_live :: nat
  tsn_runnable :: nat
  tsn_suspended :: nat
  tsn_completed :: nat

record task_record =
  tr_id :: "task_id option"
  tr_state :: task_state

definition EMPTY_TASK :: task_record where
  "EMPTY_TASK = \<lparr>tr_id = None, tr_state = Vacant\<rparr>"

record task_scheduler =
  ts_tasks :: "task_record list"
  ts_ready :: "nat list"
  ts_ready_head :: nat
  ts_ready_len :: nat
  ts_active :: "nat option"
  ts_next_id :: nat

type_synonym 'a sched_op = "(task_scheduler, task_error, 'a) smonad"

definition scheduler_new :: "nat \<Rightarrow> task_error + task_scheduler" where
  "scheduler_new capacity =
     (if capacity = 0 then Inl NoCapacity
      else Inr \<lparr>ts_tasks = replicate capacity EMPTY_TASK, ts_ready = replicate capacity usize_max,
        ts_ready_head = 0, ts_ready_len = 0, ts_active = None, ts_next_id = TASK_ROOT + 1\<rparr>)"

definition task_at :: "nat \<Rightarrow> task_scheduler \<Rightarrow> task_error + task_record" where
  "task_at slot s = (if slot < length (ts_tasks s) then Inr (ts_tasks s ! slot) else Inl TaskPanicked)"

definition with_state :: "task_record list \<Rightarrow> nat \<Rightarrow> task_state \<Rightarrow> task_record list" where
  "with_state ts slot st = ts[slot := (ts ! slot)\<lparr>tr_state := st\<rparr>]"

definition set_state :: "nat \<Rightarrow> task_state \<Rightarrow> unit sched_op" where
  "set_state slot st = smodify (\<lambda>s. s\<lparr>ts_tasks := with_state (ts_tasks s) slot st\<rparr>)"

definition enqueue :: "nat \<Rightarrow> unit sched_op" where
  "enqueue slot s =
     (if ts_ready_len s = length (ts_ready s) then (Inl CorruptQueue, s)
      else
        (let tail = (ts_ready_head s + ts_ready_len s) mod length (ts_ready s) in
         (Inr (), s\<lparr>ts_ready := (ts_ready s)[tail := slot], ts_ready_len := ts_ready_len s + 1\<rparr>)))"

definition task_slot :: "task_id \<Rightarrow> task_scheduler \<Rightarrow> nat option" where
  "task_slot tid s = find_index (\<lambda>t. tr_id t = Some tid) (ts_tasks s)"

definition start_root :: "unit sched_op" where
  "start_root =
     sbind (sread (\<lambda>s. if ts_active s \<noteq> None then Inl AlreadyStarted else task_at 0 s)) (\<lambda>t.
     if tr_state t \<noteq> Vacant then sfail AlreadyStarted
     else smodify (\<lambda>s. s\<lparr>ts_tasks := (ts_tasks s)[0 := \<lparr>tr_id = Some TASK_ROOT, tr_state = Running\<rparr>],
       ts_active := Some 0\<rparr>))"

definition I32_MAX :: nat where "I32_MAX = 2 ^ 31 - 1"

definition spawn :: "task_id sched_op" where
  "spawn =
     sbind (sread (\<lambda>s. ok_or (ts_active s) NoRunningTask)) (\<lambda>_.
     sbind (sread (\<lambda>s. ok_or (find_index (\<lambda>t. tr_state t = Vacant) (ts_tasks s)) NoCapacity)) (\<lambda>slot.
     sbind (sread (\<lambda>s. rguard (ts_next_id s \<le> I32_MAX) IdExhausted)) (\<lambda>_.
     sbind (sread (\<lambda>s. ok_or (task_id_new (ts_next_id s)) IdExhausted)) (\<lambda>tid.
     sbind (sread (\<lambda>s. ok_or (checked_add 32 (ts_next_id s) 1) IdExhausted)) (\<lambda>next_id.
     sseq (smodify (\<lambda>s. s\<lparr>ts_next_id := next_id,
       ts_tasks := (ts_tasks s)[slot := \<lparr>tr_id = Some tid, tr_state = Ready\<rparr>]\<rparr>))
     (sseq (enqueue slot) (sret tid)))))))"

definition current :: "task_scheduler \<Rightarrow> task_error + task_id" where
  "current s =
     rbind (ok_or (ts_active s) NoRunningTask) (\<lambda>slot.
     rbind (task_at slot s) (\<lambda>t. ok_or (tr_id t) NoRunningTask))"

definition suspend :: "task_wait \<Rightarrow> task_id sched_op" where
  "suspend wait =
     sbind (sread (\<lambda>s. ok_or (ts_active s) NoRunningTask)) (\<lambda>slot.
     sseq (smodify (\<lambda>s. s\<lparr>ts_active := None\<rparr>))
     (sbind (sread (\<lambda>s. rbind (task_at slot s) (\<lambda>t. ok_or (tr_id t) NoRunningTask))) (\<lambda>tid.
     sseq (set_state slot (Waiting wait)) (sret tid))))"

definition suspend_host :: "nat \<Rightarrow> task_id sched_op" where
  "suspend_host request = suspend (WaitHost request)"

definition suspend_channel :: "nat \<Rightarrow> task_id sched_op" where
  "suspend_channel channel = suspend (WaitChannel channel)"

text \<open>The loop of \<open>join\<close>, with the number of iterations left.\<close>

fun join_loop :: "task_id \<Rightarrow> task_id \<Rightarrow> nat \<Rightarrow> task_id \<Rightarrow> bool sched_op" where
  "join_loop cur target 0 cursor = sfail JoinCycle"
| "join_loop cur target (Suc n) cursor =
     sbind (sread (\<lambda>s. rbind (ok_or (task_slot cursor s) UnknownTask) (\<lambda>slot. task_at slot s))) (\<lambda>t.
     (case tr_state t of
        Waiting (WaitJoin nxt) \<Rightarrow> if nxt = cur then sfail JoinCycle else join_loop cur target n nxt
      | _ \<Rightarrow> sseq (suspend (WaitJoin target)) (sret True)))"

definition join :: "task_id \<Rightarrow> bool sched_op" where
  "join target =
     sbind (sread current) (\<lambda>cur.
     if cur = target then sfail SelfJoin
     else
       sbind (sread (\<lambda>s. rbind (ok_or (task_slot target s) UnknownTask) (\<lambda>slot. task_at slot s))) (\<lambda>t.
       if tr_state t = Completed then sret False
       else (\<lambda>s. join_loop cur target (length (ts_tasks s)) target s)))"

fun wake_joiners :: "task_id \<Rightarrow> nat list \<Rightarrow> unit sched_op" where
  "wake_joiners completed [] = sret ()"
| "wake_joiners completed (w # ws) =
     sbind (sread (task_at w)) (\<lambda>t.
     if tr_state t = Waiting (WaitJoin completed)
     then sseq (set_state w Ready) (sseq (enqueue w) (wake_joiners completed ws))
     else wake_joiners completed ws)"

definition complete_current :: "task_id sched_op" where
  "complete_current =
     sbind (sread (\<lambda>s. ok_or (ts_active s) NoRunningTask)) (\<lambda>slot.
     sseq (smodify (\<lambda>s. s\<lparr>ts_active := None\<rparr>))
     (sbind (sread (\<lambda>s. rbind (task_at slot s) (\<lambda>t. ok_or (tr_id t) NoRunningTask))) (\<lambda>completed.
     sseq (set_state slot Completed)
     (sseq (\<lambda>s. wake_joiners completed [0..<length (ts_tasks s)] s) (sret completed)))))"

definition complete_wait :: "task_wait \<Rightarrow> task_id \<Rightarrow> unit sched_op" where
  "complete_wait wait task =
     sbind (sread (\<lambda>s. ok_or (task_slot task s) UnknownTask)) (\<lambda>slot.
     sbind (sread (task_at slot)) (\<lambda>t.
     if tr_state t \<noteq> Waiting wait then sfail WrongWait
     else sseq (set_state slot Ready) (enqueue slot)))"

definition complete_host :: "task_id \<Rightarrow> nat \<Rightarrow> unit sched_op" where
  "complete_host task request = complete_wait (WaitHost request) task"

definition complete_channel :: "task_id \<Rightarrow> nat \<Rightarrow> unit sched_op" where
  "complete_channel task channel = complete_wait (WaitChannel channel) task"

definition activate_next :: "task_id option sched_op" where
  "activate_next s =
     (if ts_active s \<noteq> None then (Inl NoRunningTask, s)
      else if ts_ready_len s = 0 then (Inr None, s)
      else if length (ts_ready s) \<le> ts_ready_head s then (Inl TaskPanicked, s)
      else
        (let slot = ts_ready s ! ts_ready_head s;
             s' = s\<lparr>ts_ready := (ts_ready s)[ts_ready_head s := usize_max],
                    ts_ready_head := (ts_ready_head s + 1) mod length (ts_ready s),
                    ts_ready_len := ts_ready_len s - 1\<rparr> in
         if length (ts_tasks s') \<le> slot then (Inl CorruptQueue, s')
         else if tr_state (ts_tasks s' ! slot) \<noteq> Ready then (Inl CorruptQueue, s')
         else
           (Inr (tr_id (ts_tasks s' ! slot)),
            s'\<lparr>ts_tasks := with_state (ts_tasks s') slot Running,
               ts_active := Some slot\<rparr>)))"

definition task_state_of :: "task_id \<Rightarrow> task_scheduler \<Rightarrow> task_state option" where
  "task_state_of task s = map_option (\<lambda>slot. tr_state (ts_tasks s ! slot)) (task_slot task s)"

fun count_task :: "task_snapshot \<Rightarrow> task_record \<Rightarrow> task_snapshot" where
  "count_task n t =
     (case tr_state t of
        Vacant \<Rightarrow> n
      | Ready \<Rightarrow> n\<lparr>tsn_live := tsn_live n + 1, tsn_runnable := tsn_runnable n + 1\<rparr>
      | Running \<Rightarrow> n\<lparr>tsn_live := tsn_live n + 1, tsn_runnable := tsn_runnable n + 1\<rparr>
      | Waiting _ \<Rightarrow> n\<lparr>tsn_live := tsn_live n + 1, tsn_suspended := tsn_suspended n + 1\<rparr>
      | Completed \<Rightarrow> n\<lparr>tsn_completed := tsn_completed n + 1\<rparr>)"

definition task_snapshot_of :: "task_scheduler \<Rightarrow> task_snapshot" where
  "task_snapshot_of s = foldl count_task
     \<lparr>tsn_capacity = length (ts_tasks s), tsn_live = 0, tsn_runnable = 0, tsn_suspended = 0, tsn_completed = 0\<rparr>
     (ts_tasks s)"

definition cancel_all :: "unit sched_op" where
  "cancel_all = smodify (\<lambda>s. s\<lparr>ts_tasks := map (\<lambda>_. EMPTY_TASK) (ts_tasks s),
     ts_ready := map (\<lambda>_. usize_max) (ts_ready s), ts_ready_head := 0, ts_ready_len := 0, ts_active := None\<rparr>)"

subsection \<open>The invariant\<close>

definition ready_list :: "task_scheduler \<Rightarrow> nat list" where
  "ready_list s = ring ((!) (ts_ready s)) (length (ts_ready s)) (ts_ready_head s) (ts_ready_len s)"

text \<open>Which task waits for which.\<close>

definition joins :: "task_record list \<Rightarrow> (task_id \<times> task_id) set" where
  "joins ts = {(a, b). \<exists>i<length ts. tr_id (ts ! i) = Some a \<and> tr_state (ts ! i) = Waiting (WaitJoin b)}"

text \<open>The ring is in shape, and what it holds, the table and the running slot fit together: exactly the
  ready slots are queued, once each; at most one task runs; task ids are unique and below the next id; no
  task waits, directly or not, for itself or for a completed task; while the root slot is vacant, all are.\<close>

definition ring_ok :: "task_scheduler \<Rightarrow> bool" where
  "ring_ok s \<longleftrightarrow> 0 < length (ts_tasks s) \<and> length (ts_ready s) = length (ts_tasks s) \<and>
     ts_ready_head s < length (ts_tasks s) \<and> ts_ready_len s \<le> length (ts_tasks s)"

definition table_ok :: "task_record list \<Rightarrow> nat \<Rightarrow> bool" where
  "table_ok ts next \<longleftrightarrow> next \<le> 2 ^ 31 \<and> 1 < next \<and>
     (tr_state (ts ! 0) = Vacant \<longrightarrow> (\<forall>i<length ts. tr_state (ts ! i) = Vacant)) \<and>
     (\<forall>i<length ts. tr_id (ts ! i) = None \<longleftrightarrow> tr_state (ts ! i) = Vacant) \<and>
     (\<forall>i<length ts. \<forall>k. tr_id (ts ! i) = Some k \<longrightarrow> 0 < k \<and> k < next) \<and>
     (\<forall>i<length ts. \<forall>j<length ts. \<forall>k. tr_id (ts ! i) = Some k \<longrightarrow> tr_id (ts ! j) = Some k \<longrightarrow> i = j)"

definition queue_ok :: "task_record list \<Rightarrow> nat list \<Rightarrow> nat option \<Rightarrow> bool" where
  "queue_ok ts q active \<longleftrightarrow> distinct q \<and> set q = {i. i < length ts \<and> tr_state (ts ! i) = Ready} \<and>
     (\<forall>i. active = Some i \<longleftrightarrow> i < length ts \<and> tr_state (ts ! i) = Running)"

definition joins_ok :: "task_record list \<Rightarrow> bool" where
  "joins_ok ts \<longleftrightarrow> acyclic (joins ts) \<and>
     (\<forall>(a, b)\<in>joins ts. \<exists>j<length ts. tr_id (ts ! j) = Some b \<and> tr_state (ts ! j) \<noteq> Completed)"

definition base_inv :: "task_scheduler \<Rightarrow> bool" where
  "base_inv s \<longleftrightarrow> ring_ok s \<and> table_ok (ts_tasks s) (ts_next_id s) \<and>
     queue_ok (ts_tasks s) (ready_list s) (ts_active s)"

definition sched_inv :: "task_scheduler \<Rightarrow> bool" where
  "sched_inv s \<longleftrightarrow> base_inv s \<and> joins_ok (ts_tasks s)"

lemma table_okD:
  assumes "table_ok ts n"
  shows "n \<le> 2 ^ 31" "1 < n" "i < length ts \<Longrightarrow> tr_id (ts ! i) = None \<longleftrightarrow> tr_state (ts ! i) = Vacant"
    "i < length ts \<Longrightarrow> tr_id (ts ! i) = Some k \<Longrightarrow> 0 < k \<and> k < n"
    "i < length ts \<Longrightarrow> j < length ts \<Longrightarrow> tr_id (ts ! i) = Some k \<Longrightarrow> tr_id (ts ! j) = Some k \<Longrightarrow> i = j"
    "i < length ts \<Longrightarrow> tr_state (ts ! 0) = Vacant \<Longrightarrow> tr_state (ts ! i) = Vacant"
  using assms unfolding table_ok_def by blast+

lemma queue_okI:
  assumes "distinct q" "\<And>i. i \<in> set q \<longleftrightarrow> i < length ts \<and> tr_state (ts ! i) = Ready"
    "\<And>i. active = Some i \<longleftrightarrow> i < length ts \<and> tr_state (ts ! i) = Running"
  shows "queue_ok ts q active"
  using assms unfolding queue_ok_def by blast

lemma queue_okD:
  assumes "queue_ok ts q active"
  shows "distinct q" "i \<in> set q \<longleftrightarrow> i < length ts \<and> tr_state (ts ! i) = Ready"
    "active = Some i \<longleftrightarrow> i < length ts \<and> tr_state (ts ! i) = Running"
  using assms unfolding queue_ok_def by blast+

lemma vacant_table_ok:
  assumes "\<And>i. i < length ts \<Longrightarrow> ts ! i = EMPTY_TASK" "1 < next" "next \<le> 2 ^ 31"
  shows "table_ok ts next \<and> queue_ok ts [] None \<and> joins_ok ts"
proof -
  have "joins ts = {}" using assms(1) by (auto simp: joins_def EMPTY_TASK_def)
  then show ?thesis using assms by (auto simp: table_ok_def queue_ok_def joins_ok_def EMPTY_TASK_def acyclic_def)
qed

lemma scheduler_new_inv: "scheduler_new n = Inr s \<Longrightarrow> sched_inv s"
  using vacant_table_ok [of "replicate n EMPTY_TASK" "Suc (Suc 0)"]
  by (auto simp: scheduler_new_def sched_inv_def base_inv_def ring_ok_def ready_list_def TASK_ROOT_def split: if_splits)

subsection \<open>The ready queue\<close>

lemma queue_room:
  assumes "queue_ok ts q active" "w < length ts" "tr_state (ts ! w) \<noteq> Ready"
  shows "length q < length ts"
proof -
  have "distinct (w # q)" "set (w # q) \<subseteq> {..<length ts}" using assms by (auto simp: queue_ok_def)
  then have "length (w # q) \<le> card {..<length ts}"
    by (metis card_mono distinct_card finite_lessThan)
  then show ?thesis by simp
qed

lemma enqueue_ok:
  assumes "ring_ok s" "length (ready_list s) < length (ts_tasks s)"
  obtains s' where "enqueue w s = (Inr (), s')" "ring_ok s'" "ready_list s' = ready_list s @ [w]"
    "ts_tasks s' = ts_tasks s" "ts_active s' = ts_active s" "ts_next_id s' = ts_next_id s"
proof -
  let ?n = "length (ts_ready s)" and ?tail = "(ts_ready_head s + ts_ready_len s) mod length (ts_ready s)"
  let ?s = "s\<lparr>ts_ready := (ts_ready s)[?tail := w], ts_ready_len := ts_ready_len s + 1\<rparr>"
  have n: "0 < ?n" "ts_ready_len s < ?n" using assms by (auto simp: ring_ok_def ready_list_def)
  then have "enqueue w s = (Inr (), ?s)" by (simp add: enqueue_def Let_def)
  moreover have "ring ((!) ((ts_ready s)[?tail := w])) ?n (ts_ready_head s) (Suc (ts_ready_len s)) =
      ring ((!) (ts_ready s)) ?n (ts_ready_head s) (ts_ready_len s) @ [w]"
    using n by (intro ring_push) (auto simp: nth_list_update)
  ultimately show thesis
    using assms(1) n by (intro that [of ?s]) (auto simp: ring_ok_def ready_list_def)
qed

subsection \<open>Changing the state of one slot\<close>

lemma length_with_state [simp]: "length (with_state ts i st) = length ts"
  by (simp add: with_state_def)

lemma with_state_id [simp]: "tr_id (with_state ts i st ! j) = tr_id (ts ! j)"
  by (cases "i < length ts"; cases "i = j") (simp_all add: with_state_def list_update_beyond)

lemma with_state_state [simp]:
  "j < length ts \<Longrightarrow> tr_state (with_state ts i st ! j) = (if j = i then st else tr_state (ts ! j))"
  by (simp add: with_state_def nth_list_update)

lemma table_ok_state:
  assumes "table_ok ts n" "i < length ts" "tr_state (ts ! i) \<noteq> Vacant" "st \<noteq> Vacant"
  shows "table_ok (with_state ts i st) n"
proof -
  have "\<forall>j<length ts. tr_id (ts ! j) = None \<longleftrightarrow> tr_state (with_state ts i st ! j) = Vacant"
    using assms(2-4) table_okD(3) [OF assms(1)] by auto
  moreover have "tr_state (ts ! 0) \<noteq> Vacant" using assms(2,3) table_okD(6) [OF assms(1), of i] by blast
  then have "tr_state (with_state ts i st ! 0) \<noteq> Vacant" using assms(2,4) by (cases "i = 0") (auto simp: with_state_def)
  then have "tr_state (with_state ts i st ! 0) = Vacant \<longrightarrow> (\<forall>j<length ts. tr_state (with_state ts i st ! j) = Vacant)"
    by blast
  ultimately show ?thesis using assms(1)
    unfolding table_ok_def length_with_state with_state_id by (elim conjE, intro conjI) assumption+
qed

lemma queue_ok_ready:
  assumes "queue_ok ts q a" "i < length ts" "tr_state (ts ! i) \<notin> {Ready, Running}"
  shows "queue_ok (with_state ts i Ready) (q @ [i]) a"
proof (rule queue_okI)
  show "distinct (q @ [i])" using queue_okD(1,2) [OF assms(1)] assms(2,3) by auto
  show "j \<in> set (q @ [i]) \<longleftrightarrow> j < length (with_state ts i Ready) \<and> tr_state (with_state ts i Ready ! j) = Ready" for j
    using queue_okD(2) [OF assms(1), of j] assms(2) by auto
  show "a = Some j \<longleftrightarrow> j < length (with_state ts i Ready) \<and> tr_state (with_state ts i Ready ! j) = Running" for j
    using queue_okD(3) [OF assms(1), of j] assms(2,3) by (auto split: if_splits)
qed

lemma joins_with_state:
  "i < length ts \<Longrightarrow> \<forall>b. st \<noteq> Waiting (WaitJoin b) \<Longrightarrow> joins (with_state ts i st) \<subseteq> joins ts"
  unfolding joins_def by (clarsimp split: if_splits) blast

lemma joins_okD:
  assumes "joins_ok ts"
  shows "acyclic (joins ts)"
    "(a, b) \<in> joins ts \<Longrightarrow> \<exists>j<length ts. tr_id (ts ! j) = Some b \<and> tr_state (ts ! j) \<noteq> Completed"
  using assms unfolding joins_ok_def by blast+

lemma joins_ok_shrink:
  assumes ok: "joins_ok ts" and sub: "joins ts' \<subseteq> joins ts"
    and keep: "\<And>a b j. (a, b) \<in> joins ts' \<Longrightarrow> j < length ts \<Longrightarrow> tr_id (ts ! j) = Some b \<Longrightarrow>
      tr_state (ts ! j) \<noteq> Completed \<Longrightarrow> j < length ts' \<and> tr_id (ts' ! j) = Some b \<and> tr_state (ts' ! j) \<noteq> Completed"
  shows "joins_ok ts'"
proof -
  have "acyclic (joins ts')" by (rule acyclic_subset [OF joins_okD(1) [OF ok] sub])
  moreover have "\<exists>j<length ts'. tr_id (ts' ! j) = Some b \<and> tr_state (ts' ! j) \<noteq> Completed" if "(a, b) \<in> joins ts'" for a b
    using keep [OF that] joins_okD(2) [OF ok, of a b] sub that by blast
  ultimately show ?thesis unfolding joins_ok_def by blast
qed

lemma joins_ok_state:
  assumes "joins_ok ts" "i < length ts" "\<And>b. st \<noteq> Waiting (WaitJoin b)" "st \<noteq> Completed"
  shows "joins_ok (with_state ts i st)"
proof (rule joins_ok_shrink [OF assms(1) joins_with_state])
  fix a b j
  assume "j < length ts" "tr_id (ts ! j) = Some b" "tr_state (ts ! j) \<noteq> Completed"
  with assms(4) show "j < length (with_state ts i st) \<and> tr_id (with_state ts i st ! j) = Some b \<and>
      tr_state (with_state ts i st ! j) \<noteq> Completed" by simp
qed (use assms in auto)

lemma queue_ok_stop:
  assumes "queue_ok ts q (Some i)" "st \<noteq> Ready" "st \<noteq> Running"
  shows "queue_ok (with_state ts i st) q None"
proof -
  have i: "i < length ts" "tr_state (ts ! i) = Running" using queue_okD(3) [OF assms(1), of i] by auto
  show ?thesis
  proof (rule queue_okI)
    show "distinct q" by (rule queue_okD(1) [OF assms(1)])
    show "j \<in> set q \<longleftrightarrow> j < length (with_state ts i st) \<and> tr_state (with_state ts i st ! j) = Ready" for j
      using queue_okD(2) [OF assms(1), of j] assms(2) i by (auto split: if_splits)
    show "None = Some j \<longleftrightarrow> j < length (with_state ts i st) \<and> tr_state (with_state ts i st ! j) = Running" for j
      using queue_okD(3) [OF assms(1), of j] assms(3) by (auto split: if_splits)
  qed
qed

lemma queue_ok_run:
  assumes "queue_ok ts (i # q) None"
  shows "i < length ts" "tr_state (ts ! i) = Ready" "queue_ok (with_state ts i Running) q (Some i)"
proof -
  show i: "i < length ts" "tr_state (ts ! i) = Ready" using queue_okD(2) [OF assms, of i] by auto
  show "queue_ok (with_state ts i Running) q (Some i)"
  proof (rule queue_okI)
    show "distinct q" using queue_okD(1) [OF assms] by simp
    show "j \<in> set q \<longleftrightarrow> j < length (with_state ts i Running) \<and> tr_state (with_state ts i Running ! j) = Ready" for j
      using queue_okD(1) [OF assms] queue_okD(2) [OF assms, of j] by (auto split: if_splits)
    show "Some i = Some j \<longleftrightarrow> j < length (with_state ts i Running) \<and> tr_state (with_state ts i Running ! j) = Running" for j
      using queue_okD(3) [OF assms, of j] i by (auto split: if_splits)
  qed
qed

lemma active_slot:
  assumes "base_inv s" "ts_active s = Some i"
  obtains a where "i < length (ts_tasks s)" "tr_state (ts_tasks s ! i) = Running" "tr_id (ts_tasks s ! i) = Some a"
proof -
  have i: "i < length (ts_tasks s)" "tr_state (ts_tasks s ! i) = Running"
    using assms queue_okD(3) [of "ts_tasks s" "ready_list s" "ts_active s" i] by (auto simp: base_inv_def)
  moreover have "tr_id (ts_tasks s ! i) \<noteq> None"
    using assms(1) i table_okD(3) [of "ts_tasks s" "ts_next_id s" i] by (simp add: base_inv_def)
  ultimately show thesis using that by blast
qed

text \<open>A waiting slot becomes ready and is queued.\<close>

lemma make_ready_ok:
  assumes inv: "base_inv s" and w: "w < length (ts_tasks s)" "tr_state (ts_tasks s ! w) = Waiting wait"
  obtains s' where "sseq (set_state w Ready) (enqueue w) s = (Inr (), s')" "base_inv s'"
    "ready_list s' = ready_list s @ [w]" "ts_active s' = ts_active s" "ts_next_id s' = ts_next_id s"
    "ts_tasks s' = with_state (ts_tasks s) w Ready"
proof -
  let ?ts = "with_state (ts_tasks s) w Ready"
  let ?s = "s\<lparr>ts_tasks := ?ts\<rparr>"
  note i = inv [unfolded base_inv_def]
  have r: "ring_ok ?s" "ready_list ?s = ready_list s" using i by (auto simp: ring_ok_def ready_list_def)
  have "length (ready_list ?s) < length (ts_tasks ?s)"
    using queue_room [of "ts_tasks s" "ready_list s" "ts_active s" w] i w r(2) by auto
  from enqueue_ok [OF r(1) this, of w] obtain s' where
    s': "enqueue w ?s = (Inr (), s')" "ring_ok s'" "ready_list s' = ready_list s @ [w]"
    "ts_tasks s' = ?ts" "ts_active s' = ts_active s" "ts_next_id s' = ts_next_id s" unfolding r(2) by auto
  have "queue_ok ?ts (ready_list s @ [w]) (ts_active s)" using i w by (intro queue_ok_ready) auto
  moreover have "table_ok ?ts (ts_next_id s)" using i w by (intro table_ok_state) auto
  ultimately have "base_inv s'" using s' by (simp add: base_inv_def)
  with s' show thesis by (intro that [of s']) (simp_all add: set_state_def sseq_def sbind_def)
qed

lemma wake_joiners_ok:
  assumes "base_inv s" "distinct ws" "set ws \<subseteq> {..<length (ts_tasks s)}"
  shows "\<exists>s'. wake_joiners c ws s = (Inr (), s') \<and> base_inv s' \<and> ts_active s' = ts_active s \<and>
    ts_next_id s' = ts_next_id s \<and> length (ts_tasks s') = length (ts_tasks s) \<and>
    ready_list s' = ready_list s @ filter (\<lambda>j. tr_state (ts_tasks s ! j) = Waiting (WaitJoin c)) ws \<and>
    (\<forall>j<length (ts_tasks s). tr_id (ts_tasks s' ! j) = tr_id (ts_tasks s ! j) \<and> tr_state (ts_tasks s' ! j) =
       (if j \<in> set ws \<and> tr_state (ts_tasks s ! j) = Waiting (WaitJoin c) then Ready else tr_state (ts_tasks s ! j)))"
  using assms
proof (induction ws arbitrary: s)
  case (Cons w ws)
  let ?n = "length (ts_tasks s)"
  have w: "w < ?n" "w \<notin> set ws" "distinct ws" "set ws \<subseteq> {..<?n}" using Cons.prems by auto
  show ?case
  proof (cases "tr_state (ts_tasks s ! w) = Waiting (WaitJoin c)")
    case True
    from make_ready_ok [OF Cons.prems(1) w(1) True] obtain u where
      u: "sseq (set_state w Ready) (enqueue w) s = (Inr (), u)" "base_inv u"
      "ready_list u = ready_list s @ [w]" "ts_active u = ts_active s" "ts_next_id u = ts_next_id s"
      "ts_tasks u = with_state (ts_tasks s) w Ready" .
    from Cons.IH [OF u(2) w(3)] w(4) obtain s' where s': "wake_joiners c ws u = (Inr (), s')" "base_inv s'"
      "ts_active s' = ts_active u" "ts_next_id s' = ts_next_id u" "length (ts_tasks s') = length (ts_tasks u)"
      "ready_list s' = ready_list u @ filter (\<lambda>j. tr_state (ts_tasks u ! j) = Waiting (WaitJoin c)) ws"
      "\<forall>j<length (ts_tasks u). tr_id (ts_tasks s' ! j) = tr_id (ts_tasks u ! j) \<and> tr_state (ts_tasks s' ! j) =
       (if j \<in> set ws \<and> tr_state (ts_tasks u ! j) = Waiting (WaitJoin c) then Ready else tr_state (ts_tasks u ! j))"
      using u(6) by auto
    have "wake_joiners c (w # ws) s = (Inr (), s')"
      using True w(1) u(1) s'(1) by (simp add: sbind_def sseq_def task_at_def split: prod.splits sum.splits)
    moreover have "filter (\<lambda>j. tr_state (ts_tasks u ! j) = Waiting (WaitJoin c)) ws =
        filter (\<lambda>j. tr_state (ts_tasks s ! j) = Waiting (WaitJoin c)) ws"
      by (rule filter_cong) (use w u(6) in \<open>auto simp: subset_iff\<close>)
    moreover have "tr_id (ts_tasks s' ! j) = tr_id (ts_tasks s ! j) \<and> tr_state (ts_tasks s' ! j) =
       (if j \<in> set (w # ws) \<and> tr_state (ts_tasks s ! j) = Waiting (WaitJoin c) then Ready else tr_state (ts_tasks s ! j))"
      if "j < ?n" for j
      using s'(7) [rule_format, of j] that w(2) u(6) True by (cases "j = w") auto
    ultimately show ?thesis using True s' u by auto
  next
    case False
    have step: "wake_joiners c (w # ws) s = wake_joiners c ws s"
      using False w(1) by (simp add: sbind_def task_at_def)
    have same: "j \<in> set (w # ws) \<and> tr_state (ts_tasks s ! j) = Waiting (WaitJoin c) \<longleftrightarrow>
        j \<in> set ws \<and> tr_state (ts_tasks s ! j) = Waiting (WaitJoin c)" for j using False by auto
    from Cons.IH [OF Cons.prems(1) w(3,4)] show ?thesis unfolding step same using False by simp
  qed
qed simp

subsection \<open>Suspending and completing the running task\<close>

lemma joins_wait:
  assumes "i < length ts" "tr_id (ts ! i) = Some a"
  shows "joins (with_state ts i (Waiting (WaitJoin b))) \<subseteq> insert (a, b) (joins ts)"
  using assms unfolding joins_def by (clarsimp split: if_splits) blast

lemma joins_ok_wait:
  assumes "joins_ok ts" "i < length ts" "tr_id (ts ! i) = Some a"
    and join: "\<And>b. w = WaitJoin b \<Longrightarrow> (b, a) \<notin> (joins ts)\<^sup>* \<and>
      (\<exists>j<length ts. tr_id (ts ! j) = Some b \<and> tr_state (ts ! j) \<noteq> Completed)"
  shows "joins_ok (with_state ts i (Waiting w))"
proof (cases "\<exists>b. w = WaitJoin b")
  case False
  then show ?thesis using assms(1,2) by (intro joins_ok_state) auto
next
  case True
  then obtain b where b: "w = WaitJoin b" ..
  let ?ts = "with_state ts i (Waiting w)"
  have sub: "joins ?ts \<subseteq> insert (a, b) (joins ts)" unfolding b by (rule joins_wait [OF assms(2,3)])
  have "acyclic (insert (a, b) (joins ts))"
    using assms(1) join [OF b] by (simp add: acyclic_insert joins_ok_def)
  then have "acyclic (joins ?ts)" using sub by (rule acyclic_subset)
  moreover have "\<exists>j<length ?ts. tr_id (?ts ! j) = Some y \<and> tr_state (?ts ! j) \<noteq> Completed" if "(x, y) \<in> joins ?ts" for x y
  proof -
    have "(x, y) \<in> insert (a, b) (joins ts)" using sub that by blast
    then obtain j where "j < length ts" "tr_id (ts ! j) = Some y" "tr_state (ts ! j) \<noteq> Completed"
      using join [OF b] assms(1) unfolding joins_ok_def by blast
    then show ?thesis by (intro exI [of _ j]) auto
  qed
  ultimately show ?thesis unfolding joins_ok_def by blast
qed

lemma suspend_ok:
  assumes inv: "sched_inv s" and act: "ts_active s = Some i" "tr_id (ts_tasks s ! i) = Some a"
    and join: "\<And>b. w = WaitJoin b \<Longrightarrow> (b, a) \<notin> (joins (ts_tasks s))\<^sup>* \<and>
      (\<exists>j<length (ts_tasks s). tr_id (ts_tasks s ! j) = Some b \<and> tr_state (ts_tasks s ! j) \<noteq> Completed)"
  shows "suspend w s = (Inr a, s\<lparr>ts_active := None, ts_tasks := with_state (ts_tasks s) i (Waiting w)\<rparr>)"
    "sched_inv (s\<lparr>ts_active := None, ts_tasks := with_state (ts_tasks s) i (Waiting w)\<rparr>)"
proof -
  have base: "base_inv s" and j: "joins_ok (ts_tasks s)" using inv by (simp_all add: sched_inv_def)
  obtain i: "i < length (ts_tasks s)" "tr_state (ts_tasks s ! i) = Running"
    using active_slot [OF base act(1)] by blast
  show "suspend w s = (Inr a, s\<lparr>ts_active := None, ts_tasks := with_state (ts_tasks s) i (Waiting w)\<rparr>)"
    using act i by (simp add: suspend_def sbind_def sseq_def task_at_def set_state_def)
  have "table_ok (with_state (ts_tasks s) i (Waiting w)) (ts_next_id s)"
    using base i by (intro table_ok_state) (auto simp: base_inv_def)
  moreover have "queue_ok (with_state (ts_tasks s) i (Waiting w)) (ready_list s) None"
    using base act by (intro queue_ok_stop) (auto simp: base_inv_def)
  moreover have "joins_ok (with_state (ts_tasks s) i (Waiting w))"
    by (rule joins_ok_wait [OF j i(1) act(2) join])
  ultimately show "sched_inv (s\<lparr>ts_active := None, ts_tasks := with_state (ts_tasks s) i (Waiting w)\<rparr>)"
    using base by (simp add: sched_inv_def base_inv_def ring_ok_def ready_list_def)
qed

lemma complete_current_ok:
  assumes inv: "sched_inv s" and act: "ts_active s = Some i" "tr_id (ts_tasks s ! i) = Some a"
  obtains s' where "complete_current s = (Inr a, s')" "sched_inv s'" "ts_active s' = None"
    "ts_next_id s' = ts_next_id s" "length (ts_tasks s') = length (ts_tasks s)"
    "ready_list s' = ready_list s @
       filter (\<lambda>j. tr_state (ts_tasks s ! j) = Waiting (WaitJoin a)) [0..<length (ts_tasks s)]"
    "\<And>j. j < length (ts_tasks s) \<Longrightarrow> tr_id (ts_tasks s' ! j) = tr_id (ts_tasks s ! j) \<and> tr_state (ts_tasks s' ! j) =
       (if j = i then Completed else if tr_state (ts_tasks s ! j) = Waiting (WaitJoin a) then Ready
        else tr_state (ts_tasks s ! j))"
proof -
  have base: "base_inv s" and j: "joins_ok (ts_tasks s)" using inv by (simp_all add: sched_inv_def)
  obtain i: "i < length (ts_tasks s)" "tr_state (ts_tasks s ! i) = Running"
    using active_slot [OF base act(1)] by blast
  let ?ts = "with_state (ts_tasks s) i Completed" and ?n = "length (ts_tasks s)"
  let ?s = "s\<lparr>ts_active := None, ts_tasks := ?ts\<rparr>"
  have "table_ok ?ts (ts_next_id s)" using base i by (intro table_ok_state) (auto simp: base_inv_def)
  moreover have "queue_ok ?ts (ready_list s) None"
    using base act by (intro queue_ok_stop) (auto simp: base_inv_def)
  ultimately have base1: "base_inv ?s" using base by (simp add: base_inv_def ring_ok_def ready_list_def)
  have slots: "distinct [0..<?n]" "set [0..<?n] \<subseteq> {..<length (ts_tasks ?s)}" by auto
  from wake_joiners_ok [OF base1 slots, of a] obtain s' where
    s': "wake_joiners a [0..<?n] ?s = (Inr (), s')" "base_inv s'" "ts_active s' = None" "ts_next_id s' = ts_next_id s"
      "length (ts_tasks s') = ?n"
      "ready_list s' = ready_list ?s @ filter (\<lambda>j. tr_state (?ts ! j) = Waiting (WaitJoin a)) [0..<?n]"
    and st0: "\<forall>j<?n. tr_id (ts_tasks s' ! j) = tr_id (?ts ! j) \<and> tr_state (ts_tasks s' ! j) =
       (if j \<in> set [0..<?n] \<and> tr_state (?ts ! j) = Waiting (WaitJoin a) then Ready else tr_state (?ts ! j))"
    by auto
  have st: "tr_id (ts_tasks s' ! j) = tr_id (ts_tasks s ! j) \<and> tr_state (ts_tasks s' ! j) =
       (if j = i then Completed else if tr_state (ts_tasks s ! j) = Waiting (WaitJoin a) then Ready
        else tr_state (ts_tasks s ! j))" if "j < ?n" for j
    using st0 [rule_format, OF that] that by simp
  have run: "complete_current s = (Inr a, s')"
    using act i s'(1) by (simp add: complete_current_def sbind_def sseq_def task_at_def set_state_def)
  have filter: "filter (\<lambda>j. tr_state (?ts ! j) = Waiting (WaitJoin a)) [0..<?n] =
      filter (\<lambda>j. tr_state (ts_tasks s ! j) = Waiting (WaitJoin a)) [0..<?n]"
    by (rule filter_cong) (use i in auto)
  have sub: "(x, y) \<in> joins (ts_tasks s) \<and> y \<noteq> a" if "(x, y) \<in> joins (ts_tasks s')" for x y
    using that st unfolding joins_def s'(5) by (auto split: if_splits)
  have "joins_ok (ts_tasks s')"
  proof (rule joins_ok_shrink [OF j])
    show "joins (ts_tasks s') \<subseteq> joins (ts_tasks s)" using sub by auto
    fix x y k
    assume xy: "(x, y) \<in> joins (ts_tasks s')" and k: "k < ?n" "tr_id (ts_tasks s ! k) = Some y"
      "tr_state (ts_tasks s ! k) \<noteq> Completed"
    from sub [OF xy] k(2) act(2) have "k \<noteq> i" by auto
    with k st [OF k(1)] s'(5) show "k < length (ts_tasks s') \<and> tr_id (ts_tasks s' ! k) = Some y \<and>
        tr_state (ts_tasks s' ! k) \<noteq> Completed" by auto
  qed
  with s'(2) have "sched_inv s'" by (simp add: sched_inv_def)
  then show thesis
    using that [OF run] s' st filter by (simp add: ready_list_def)
qed

subsection \<open>New tasks\<close>

lemma nth_install:
  "slot < length ts \<Longrightarrow> ts[slot := t] ! j = (if j = slot then t else ts ! j)"
  by (simp add: nth_list_update)

lemma install_table_ok:
  assumes ok: "table_ok ts n" and slot: "slot < length ts" "slot = 0 \<or> tr_state (ts ! 0) \<noteq> Vacant"
    and k: "\<And>j. j < length ts \<Longrightarrow> tr_id (ts ! j) \<noteq> Some k" "0 < k" "k < m" "n \<le> m" "m \<le> 2 ^ 31" "st \<noteq> Vacant"
  shows "table_ok (ts[slot := \<lparr>tr_id = Some k, tr_state = st\<rparr>]) m"
  unfolding table_ok_def
proof (intro conjI allI impI)
  let ?ts = "ts[slot := \<lparr>tr_id = Some k, tr_state = st\<rparr>]"
  show "m \<le> 2 ^ 31" by (rule k(5))
  show "1 < m" using table_okD(2) [OF ok] k(4) by linarith
  fix i
  assume "i < length ?ts"
  then have i: "i < length ts" by simp
  show "tr_state (?ts ! i) = Vacant" if "tr_state (?ts ! 0) = Vacant"
    using that slot k(6) by (auto simp: nth_install split: if_splits)
  show "tr_id (?ts ! i) = None \<longleftrightarrow> tr_state (?ts ! i) = Vacant"
    using table_okD(3) [OF ok i] slot(1) k(6) by (simp add: nth_install)
  fix x
  assume x: "tr_id (?ts ! i) = Some x"
  show "0 < x" "x < m"
    using table_okD(4) [OF ok i, of x] x slot(1) k(2-4) by (auto simp: nth_install split: if_splits)
next
  let ?ts = "ts[slot := \<lparr>tr_id = Some k, tr_state = st\<rparr>]"
  fix i j x
  assume "i < length ?ts" "j < length ?ts" "tr_id (?ts ! i) = Some x" "tr_id (?ts ! j) = Some x"
  then show "i = j"
    using table_okD(5) [OF ok, of i j x] slot(1) k(1) by (auto simp: nth_install split: if_splits)
qed

lemma install_joins_ok:
  assumes ok: "table_ok ts n" "joins_ok ts" and slot: "slot < length ts" "tr_state (ts ! slot) = Vacant"
    and st: "\<forall>w. st \<noteq> Waiting w"
  shows "joins_ok (ts[slot := \<lparr>tr_id = Some k, tr_state = st\<rparr>])"
proof -
  let ?ts = "ts[slot := \<lparr>tr_id = Some k, tr_state = st\<rparr>]"
  have none: "tr_id (ts ! slot) = None" using table_okD(3) [OF ok(1) slot(1)] slot(2) by simp
  have sub: "joins ?ts \<subseteq> joins ts"
    using slot(1) st unfolding joins_def by (auto simp: nth_install split: if_splits)
  show ?thesis
  proof (rule joins_ok_shrink [OF ok(2) sub])
    fix a b j
    assume j: "j < length ts" "tr_id (ts ! j) = Some b" "tr_state (ts ! j) \<noteq> Completed"
    with none have "j \<noteq> slot" by auto
    with j slot(1) show "j < length ?ts \<and> tr_id (?ts ! j) = Some b \<and> tr_state (?ts ! j) \<noteq> Completed"
      by (simp add: nth_install)
  qed
qed

lemma install_ready_queue_ok:
  assumes "queue_ok ts q a" "slot < length ts" "tr_state (ts ! slot) = Vacant"
  shows "queue_ok (ts[slot := \<lparr>tr_id = k, tr_state = Ready\<rparr>]) (q @ [slot]) a"
proof (rule queue_okI)
  let ?ts = "ts[slot := \<lparr>tr_id = k, tr_state = Ready\<rparr>]"
  show "distinct (q @ [slot])" using queue_okD(1,2) [OF assms(1)] assms(3) by auto
  show "j \<in> set (q @ [slot]) \<longleftrightarrow> j < length ?ts \<and> tr_state (?ts ! j) = Ready" for j
    using queue_okD(2) [OF assms(1), of j] assms(2) by (auto simp: nth_install)
  show "a = Some j \<longleftrightarrow> j < length ?ts \<and> tr_state (?ts ! j) = Running" for j
    using queue_okD(3) [OF assms(1), of j] assms(2,3) by (auto simp: nth_install split: if_splits)
qed

lemma spawn_ok:
  assumes inv: "sched_inv s" and run: "spawn s = (r, s')"
  shows "(\<exists>e. r = Inl e \<and> e \<in> {NoRunningTask, NoCapacity, IdExhausted} \<and> s' = s) \<or>
    (\<exists>slot. r = Inr (ts_next_id s) \<and> sched_inv s' \<and> slot < length (ts_tasks s) \<and>
       tr_state (ts_tasks s ! slot) = Vacant \<and> ready_list s' = ready_list s @ [slot] \<and> ts_active s' = ts_active s \<and>
       ts_next_id s' = ts_next_id s + 1 \<and>
       ts_tasks s' = (ts_tasks s)[slot := \<lparr>tr_id = Some (ts_next_id s), tr_state = Ready\<rparr>])"
proof (cases "(\<exists>i. ts_active s = Some i) \<and> (\<exists>slot. find_index (\<lambda>t. tr_state t = Vacant) (ts_tasks s) = Some slot) \<and>
    ts_next_id s \<le> I32_MAX")
  case False
  with run show ?thesis
    by (cases "ts_active s"; cases "find_index (\<lambda>t. tr_state t = Vacant) (ts_tasks s)")
      (auto simp: spawn_def sbind_def)
next
  case True
  then obtain i slot where i: "ts_active s = Some i"
    and f: "find_index (\<lambda>t. tr_state t = Vacant) (ts_tasks s) = Some slot" and n: "ts_next_id s \<le> I32_MAX" by blast
  from find_index_SomeD [OF f] have slot: "slot < length (ts_tasks s)" "tr_state (ts_tasks s ! slot) = Vacant" by auto
  have base: "base_inv s" and j: "joins_ok (ts_tasks s)" using inv by (simp_all add: sched_inv_def)
  have tab: "table_ok (ts_tasks s) (ts_next_id s)" and q: "queue_ok (ts_tasks s) (ready_list s) (ts_active s)"
    using base by (simp_all add: base_inv_def)
  let ?k = "ts_next_id s"
  let ?ts = "(ts_tasks s)[slot := \<lparr>tr_id = Some ?k, tr_state = Ready\<rparr>]"
  let ?s = "s\<lparr>ts_next_id := ?k + 1, ts_tasks := ?ts\<rparr>"
  obtain "i < length (ts_tasks s)" "tr_state (ts_tasks s ! i) = Running" using active_slot [OF base i] by blast
  then have root: "tr_state (ts_tasks s ! 0) \<noteq> Vacant" using table_okD(6) [OF tab, of i] by auto
  have tab': "table_ok ?ts (?k + 1)"
    using slot root table_okD(2) [OF tab] table_okD(4) [OF tab] n
    by (intro install_table_ok [OF tab]) (auto simp: I32_MAX_def)
  have j': "joins_ok ?ts" using slot by (intro install_joins_ok [OF tab j]) auto
  have q': "queue_ok ?ts (ready_list s @ [slot]) (ts_active s)" by (rule install_ready_queue_ok [OF q slot])
  have r: "ring_ok ?s" "ready_list ?s = ready_list s" using base by (auto simp: base_inv_def ring_ok_def ready_list_def)
  have "length (ready_list ?s) < length (ts_tasks ?s)"
    using queue_room [OF q slot(1)] slot(2) r(2) by simp
  from enqueue_ok [OF r(1) this, of slot] obtain u where
    u: "enqueue slot ?s = (Inr (), u)" "ring_ok u" "ready_list u = ready_list s @ [slot]"
    "ts_tasks u = ?ts" "ts_active u = ts_active s" "ts_next_id u = ?k + 1" unfolding r(2) by auto
  have "spawn s = (Inr ?k, u)"
    using i f n u(1) table_okD(2) [OF tab]
    by (simp add: spawn_def sbind_def sseq_def task_id_new_def checked_add_def I32_MAX_def)
  moreover have "sched_inv u" using u tab' j' q' by (simp add: sched_inv_def base_inv_def)
  ultimately show ?thesis using run u slot by auto
qed

lemma start_root_ok:
  assumes inv: "sched_inv s" and run: "start_root s = (r, s')"
  shows "r = Inl AlreadyStarted \<and> s' = s \<or>
    r = Inr () \<and> sched_inv s' \<and> ready_list s' = ready_list s \<and> ready_list s = [] \<and> ts_active s' = Some 0"
proof -
  have base: "base_inv s" and j: "joins_ok (ts_tasks s)" using inv by (simp_all add: sched_inv_def)
  have tab: "table_ok (ts_tasks s) (ts_next_id s)" and q: "queue_ok (ts_tasks s) (ready_list s) (ts_active s)"
    and n: "0 < length (ts_tasks s)" using base by (simp_all add: base_inv_def ring_ok_def)
  show ?thesis
  proof (cases "ts_active s = None \<and> tr_state (ts_tasks s ! 0) = Vacant")
    case False
    with run n show ?thesis by (auto simp: start_root_def sbind_def task_at_def split: if_splits)
  next
    case True
    let ?ts = "(ts_tasks s)[0 := \<lparr>tr_id = Some TASK_ROOT, tr_state = Running\<rparr>]"
    have s': "r = Inr ()" "s' = s\<lparr>ts_tasks := ?ts, ts_active := Some 0\<rparr>"
      using True run n by (auto simp: start_root_def sbind_def task_at_def)
    have vac: "tr_state (ts_tasks s ! i) = Vacant" if "i < length (ts_tasks s)" for i
      using table_okD(6) [OF tab that] True by blast
    have none: "tr_id (ts_tasks s ! i) = None" if "i < length (ts_tasks s)" for i
      using table_okD(3) [OF tab that] vac [OF that] by blast
    have "table_ok ?ts (ts_next_id s)"
      using n none table_okD(1,2) [OF tab] by (intro install_table_ok [OF tab]) (auto simp: TASK_ROOT_def)
    moreover have "joins_ok ?ts" using n vac by (intro install_joins_ok [OF tab j]) auto
    moreover have empty: "ready_list s = []"
      using queue_okD(2) [OF q] vac by (metis list.set_intros(1) neq_Nil_conv task_state.distinct(1))
    moreover have "queue_ok ?ts [] (Some 0)"
      using n vac by (intro queue_okI) (auto simp: nth_install split: if_splits)
    ultimately show ?thesis
      using s' base by (simp add: sched_inv_def base_inv_def ring_ok_def ready_list_def)
  qed
qed

lemma complete_wait_ok:
  assumes inv: "sched_inv s" and run: "complete_wait w task s = (r, s')"
  shows "(r = Inl UnknownTask \<or> r = Inl WrongWait) \<and> s' = s \<or>
    (\<exists>slot<length (ts_tasks s). tr_id (ts_tasks s ! slot) = Some task \<and> tr_state (ts_tasks s ! slot) = Waiting w \<and>
       r = Inr () \<and> sched_inv s' \<and> ready_list s' = ready_list s @ [slot] \<and> ts_active s' = ts_active s \<and>
       ts_tasks s' = with_state (ts_tasks s) slot Ready)"
proof (cases "\<exists>slot. task_slot task s = Some slot \<and> tr_state (ts_tasks s ! slot) = Waiting w")
  case False
  with run show ?thesis
    by (cases "task_slot task s")
      (auto simp: complete_wait_def sbind_def task_at_def task_slot_def dest: find_index_less split: if_splits)
next
  case True
  then obtain slot where f: "task_slot task s = Some slot" and st: "tr_state (ts_tasks s ! slot) = Waiting w" by blast
  from f have slot: "slot < length (ts_tasks s)" "tr_id (ts_tasks s ! slot) = Some task"
    by (auto simp: task_slot_def dest: find_index_SomeD)
  have base: "base_inv s" and j: "joins_ok (ts_tasks s)" using inv by (simp_all add: sched_inv_def)
  from make_ready_ok [OF base slot(1) st] obtain u where
    u: "sseq (set_state slot Ready) (enqueue slot) s = (Inr (), u)" "base_inv u" "ready_list u = ready_list s @ [slot]"
    "ts_active u = ts_active s" "ts_tasks u = with_state (ts_tasks s) slot Ready" by metis
  have "joins_ok (ts_tasks u)" unfolding u(5) by (rule joins_ok_state [OF j slot(1)]) auto
  moreover have "complete_wait w task s = (Inr (), u)"
    using f st slot u(1) by (simp add: complete_wait_def sbind_def task_at_def)
  ultimately show ?thesis using run u slot st by (auto simp: sched_inv_def)
qed

lemma activate_next_ok:
  assumes inv: "sched_inv s" and run: "activate_next s = (r, s')"
  shows "r = Inl NoRunningTask \<and> ts_active s \<noteq> None \<and> s' = s \<or>
    r = Inr None \<and> ts_active s = None \<and> ready_list s = [] \<and> s' = s \<or>
    (\<exists>slot a. r = Inr (Some a) \<and> ts_active s = None \<and> ready_list s = slot # ready_list s' \<and> sched_inv s' \<and>
       slot < length (ts_tasks s) \<and> tr_id (ts_tasks s ! slot) = Some a \<and>
       ts_active s' = Some slot \<and> ts_tasks s' = with_state (ts_tasks s) slot Running)"
proof (cases "ts_active s = None \<and> ts_ready_len s \<noteq> 0")
  case False
  with run show ?thesis by (auto simp: activate_next_def ready_list_def split: if_splits)
next
  case True
  have base: "base_inv s" and j: "joins_ok (ts_tasks s)" using inv by (simp_all add: sched_inv_def)
  have ring: "ring_ok s" and tab: "table_ok (ts_tasks s) (ts_next_id s)"
    and q: "queue_ok (ts_tasks s) (ready_list s) None" using base True by (simp_all add: base_inv_def)
  let ?slot = "ts_ready s ! ts_ready_head s"
  let ?s = "s\<lparr>ts_ready := (ts_ready s)[ts_ready_head s := usize_max],
    ts_ready_head := (ts_ready_head s + 1) mod length (ts_ready s), ts_ready_len := ts_ready_len s - 1\<rparr>"
  have n: "length (ts_ready s) = length (ts_tasks s)" "ts_ready_head s < length (ts_ready s)"
    "ts_ready_len s \<le> length (ts_ready s)" using ring by (auto simp: ring_ok_def)
  have tail: "ready_list ?s = ring ((!) (ts_ready s)) (length (ts_ready s))
      ((ts_ready_head s + 1) mod length (ts_ready s)) (ts_ready_len s - 1)"
    using n True by (simp add: ready_list_def) (rule ring_unread, auto)
  have list: "ready_list s = ?slot # ready_list ?s"
    unfolding tail unfolding ready_list_def by (rule ring_pop) (use True n in auto)
  note run_q = queue_ok_run [OF q [unfolded list]]
  obtain a where a: "tr_id (ts_tasks s ! ?slot) = Some a"
    using table_okD(3) [OF tab run_q(1)] run_q(2) by (cases "tr_id (ts_tasks s ! ?slot)") auto
  let ?u = "?s\<lparr>ts_tasks := with_state (ts_tasks s) ?slot Running, ts_active := Some ?slot\<rparr>"
  have "activate_next s = (Inr (Some a), ?u)"
    using True n run_q a by (simp add: activate_next_def Let_def)
  moreover have "table_ok (with_state (ts_tasks s) ?slot Running) (ts_next_id s)"
    using run_q by (intro table_ok_state [OF tab]) auto
  moreover have "joins_ok (with_state (ts_tasks s) ?slot Running)"
    using run_q by (intro joins_ok_state [OF j]) auto
  moreover have "ready_list ?u = ready_list ?s" by (simp add: ready_list_def)
  ultimately show ?thesis
    using run run_q list a True n ring by (simp add: sched_inv_def base_inv_def ring_ok_def)
qed

subsection \<open>Joining\<close>

lemma task_slot_Some:
  assumes "table_ok (ts_tasks s) n"
  shows "task_slot k s = Some i \<longleftrightarrow> i < length (ts_tasks s) \<and> tr_id (ts_tasks s ! i) = Some k"
proof
  show "task_slot k s = Some i" if "i < length (ts_tasks s) \<and> tr_id (ts_tasks s ! i) = Some k"
    unfolding task_slot_def
    by (rule find_index_unique) (use that table_okD(5) [OF assms, of _ i k] in auto)
qed (auto simp: task_slot_def dest: find_index_SomeD)

lemma joins_single:
  assumes tab: "table_ok ts n" and i: "i < length ts" "tr_id (ts ! i) = Some c"
  shows "(c, x) \<in> joins ts \<longleftrightarrow> tr_state (ts ! i) = Waiting (WaitJoin x)"
  using table_okD(5) [OF tab _ i(1) _ i(2)] i unfolding joins_def by blast

lemma joins_ids: "joins_ok ts \<Longrightarrow> (a, b) \<in> (joins ts)\<^sup>+ \<Longrightarrow> Some b \<in> tr_id ` set ts"
  by (erule trancl.cases) (metis joins_okD(2) imageI nth_mem)+

lemma finite_waits:
  assumes "joins_ok ts"
  shows "finite {x. (c, x) \<in> (joins ts)\<^sup>+}"
proof -
  have "Some ` {x. (c, x) \<in> (joins ts)\<^sup>+} \<subseteq> tr_id ` set ts" using joins_ids [OF assms] by auto
  then have "finite (Some ` {x. (c, x) \<in> (joins ts)\<^sup>+})" by (rule finite_subset) simp
  then show ?thesis by (rule finite_imageD) simp
qed

lemma card_waits:
  assumes j: "joins_ok ts" and i: "i < length ts" "tr_id (ts ! i) = Some c"
  shows "card {x. (c, x) \<in> (joins ts)\<^sup>+} < length ts"
proof -
  let ?W = "{x. (c, x) \<in> (joins ts)\<^sup>+}"
  have "c \<notin> ?W" using joins_okD(1) [OF j] by (simp add: acyclic_def)
  moreover have "Some ` insert c ?W \<subseteq> tr_id ` set ts"
    using joins_ids [OF j] i by (force simp: in_set_conv_nth)
  then have "card (Some ` insert c ?W) \<le> length ts"
    by (meson List.finite_set card_image_le card_length card_mono finite_imageI le_trans)
  moreover have "card (Some ` insert c ?W) = card (insert c ?W)" by (rule card_image, rule inj_Some)
  ultimately show ?thesis using finite_waits [OF j, of c] by simp
qed

lemma sret_Pair: "sret x = Pair (Inr x)"
  by (rule ext) simp

text \<open>The loop walks along the joins; it can neither run out of iterations nor miss the running task.\<close>

lemma join_loop_eq:
  assumes tab: "table_ok (ts_tasks s) (ts_next_id s)" and j: "joins_ok (ts_tasks s)"
    and c: "i < length (ts_tasks s)" "tr_id (ts_tasks s ! i) = Some c"
    and fuel: "card {x. (c, x) \<in> (joins (ts_tasks s))\<^sup>+} < n"
  shows "join_loop a b n c s =
    (if (c, a) \<in> (joins (ts_tasks s))\<^sup>+ then (Inl JoinCycle, s)
     else sseq (suspend (WaitJoin b)) (sret True) s)"
  using c fuel
proof (induction n arbitrary: c i)
  case (Suc n)
  let ?R = "joins (ts_tasks s)"
  have at: "task_slot c s = Some i" using task_slot_Some [OF tab] Suc.prems(1,2) by simp
  note edge = joins_single [OF tab Suc.prems(1,2)]
  show ?case
  proof (cases "\<exists>x. tr_state (ts_tasks s ! i) = Waiting (WaitJoin x)")
    case True
    then obtain x where x: "tr_state (ts_tasks s ! i) = Waiting (WaitJoin x)" ..
    then have cx: "(c, x) \<in> ?R" using edge by simp
    then obtain k where k: "k < length (ts_tasks s)" "tr_id (ts_tasks s ! k) = Some x"
      using joins_okD(2) [OF j] by blast
    have path: "(c, a) \<in> ?R\<^sup>+ \<longleftrightarrow> x = a \<or> (x, a) \<in> ?R\<^sup>+"
    proof
      assume "(c, a) \<in> ?R\<^sup>+"
      then obtain z where "(c, z) \<in> ?R" "(z, a) \<in> ?R\<^sup>*" by (metis tranclD)
      with edge x show "x = a \<or> (x, a) \<in> ?R\<^sup>+" by (auto simp: rtrancl_eq_or_trancl)
    qed (use cx in auto)
    have "{y. (x, y) \<in> ?R\<^sup>+} \<subset> {y. (c, y) \<in> ?R\<^sup>+}"
      using cx joins_okD(1) [OF j] by (auto simp: acyclic_def intro: trancl_into_trancl2)
    then have "card {y. (x, y) \<in> ?R\<^sup>+} < card {y. (c, y) \<in> ?R\<^sup>+}"
      by (rule psubset_card_mono [OF finite_waits [OF j]])
    with Suc.IH [OF k] Suc.prems(3) path x at Suc.prems(1) show ?thesis
      by (simp add: task_at_def sbind_def sret_Pair split: if_split_asm)
  next
    case False
    then have "(c, a) \<notin> ?R\<^sup>+" using edge by (metis tranclD)
    with False at Suc.prems(1) show ?thesis
      by (cases "tr_state (ts_tasks s ! i)") (auto simp: task_at_def sbind_def sret_Pair split: task_wait.split)
  qed
qed simp

lemma join_ok:
  assumes inv: "sched_inv s" and cur: "current s = Inr a"
  shows "join b s =
      (if a = b then (Inl SelfJoin, s)
       else case task_state_of b s of
          None \<Rightarrow> (Inl UnknownTask, s)
        | Some Completed \<Rightarrow> (Inr False, s)
        | Some _ \<Rightarrow>
            if (b, a) \<in> (joins (ts_tasks s))\<^sup>+ then (Inl JoinCycle, s)
            else (Inr True, s\<lparr>ts_active := None,
              ts_tasks := with_state (ts_tasks s) (the (ts_active s)) (Waiting (WaitJoin b))\<rparr>))"
    "a \<noteq> b \<Longrightarrow> task_state_of b s \<notin> {None, Some Completed} \<Longrightarrow> (b, a) \<notin> (joins (ts_tasks s))\<^sup>+ \<Longrightarrow>
      sched_inv (s\<lparr>ts_active := None,
        ts_tasks := with_state (ts_tasks s) (the (ts_active s)) (Waiting (WaitJoin b))\<rparr>)"
proof -
  have base: "base_inv s" and j: "joins_ok (ts_tasks s)" using inv by (simp_all add: sched_inv_def)
  have tab: "table_ok (ts_tasks s) (ts_next_id s)" using base by (simp add: base_inv_def)
  obtain i where i: "ts_active s = Some i" "i < length (ts_tasks s)" "tr_id (ts_tasks s ! i) = Some a"
    using cur by (auto simp: current_def rbind_Inr_iff ok_or_iff task_at_def split: if_splits)
  let ?s = "s\<lparr>ts_active := None, ts_tasks := with_state (ts_tasks s) i (Waiting (WaitJoin b))\<rparr>"
  have ok: "suspend (WaitJoin b) s = (Inr a, ?s) \<and> sched_inv ?s"
    if "a \<noteq> b" "task_slot b s = Some k" "tr_state (ts_tasks s ! k) \<noteq> Completed" "(b, a) \<notin> (joins (ts_tasks s))\<^sup>+" for k
  proof -
    have "(b, a) \<notin> (joins (ts_tasks s))\<^sup>*" using that(1,4) by (auto simp: rtrancl_eq_or_trancl)
    moreover have "k < length (ts_tasks s)" "tr_id (ts_tasks s ! k) = Some b"
      using task_slot_Some [OF tab] that(2) by auto
    ultimately show ?thesis using suspend_ok [OF inv i(1,3), of "WaitJoin b"] that(3) by auto
  qed
  have loop: "join_loop a b (length (ts_tasks s)) b s = (if (b, a) \<in> (joins (ts_tasks s))\<^sup>+ then (Inl JoinCycle, s)
      else sseq (suspend (WaitJoin b)) (sret True) s)" if "task_slot b s = Some k" for k
    using that task_slot_Some [OF tab] card_waits [OF j, of k b]
    by (intro join_loop_eq [OF tab j, of k]) auto
  show "join b s = (if a = b then (Inl SelfJoin, s)
       else case task_state_of b s of None \<Rightarrow> (Inl UnknownTask, s) | Some Completed \<Rightarrow> (Inr False, s)
        | Some _ \<Rightarrow> if (b, a) \<in> (joins (ts_tasks s))\<^sup>+ then (Inl JoinCycle, s)
            else (Inr True, s\<lparr>ts_active := None,
              ts_tasks := with_state (ts_tasks s) (the (ts_active s)) (Waiting (WaitJoin b))\<rparr>))"
  proof (cases "task_slot b s")
    case None
    then show ?thesis using cur by (simp add: join_def sbind_def task_state_of_def)
  next
    case (Some k)
    then have k: "k < length (ts_tasks s)" using task_slot_Some [OF tab] by auto
    show ?thesis
    proof (cases "a = b \<or> tr_state (ts_tasks s ! k) = Completed \<or> (b, a) \<in> (joins (ts_tasks s))\<^sup>+")
      case True
      with cur Some k loop [OF Some] show ?thesis
        by (cases "tr_state (ts_tasks s ! k)") (auto simp: join_def sbind_def task_state_of_def task_at_def)
    next
      case False
      with ok [OF _ Some] have "suspend (WaitJoin b) s = (Inr a, ?s)" by blast
      with False cur Some k i(1) loop [OF Some] show ?thesis
        by (cases "tr_state (ts_tasks s ! k)")
          (auto simp: join_def sbind_def sseq_def task_state_of_def task_at_def)
    qed
  qed
  show "sched_inv (s\<lparr>ts_active := None,
        ts_tasks := with_state (ts_tasks s) (the (ts_active s)) (Waiting (WaitJoin b))\<rparr>)"
    if "a \<noteq> b" "task_state_of b s \<notin> {None, Some Completed}" "(b, a) \<notin> (joins (ts_tasks s))\<^sup>+"
    using that ok i(1) by (auto simp: task_state_of_def)
qed

subsection \<open>Every call\<close>

datatype sched_call =
    ScStartRoot | ScSpawn | ScSuspendHost nat | ScSuspendChannel nat | ScJoin task_id | ScComplete
  | ScCompleteHost task_id nat | ScCompleteChannel task_id nat | ScActivate | ScCancel

definition forget_result :: "'a sched_op \<Rightarrow> unit sched_op" where
  "forget_result m = sseq m (sret ())"

fun sched_exec :: "sched_call \<Rightarrow> unit sched_op" where
  "sched_exec ScStartRoot = start_root"
| "sched_exec ScSpawn = forget_result spawn"
| "sched_exec (ScSuspendHost r) = forget_result (suspend_host r)"
| "sched_exec (ScSuspendChannel c) = forget_result (suspend_channel c)"
| "sched_exec (ScJoin t) = forget_result (join t)"
| "sched_exec ScComplete = forget_result complete_current"
| "sched_exec (ScCompleteHost t r) = complete_host t r"
| "sched_exec (ScCompleteChannel t c) = complete_channel t c"
| "sched_exec ScActivate = forget_result activate_next"
| "sched_exec ScCancel = cancel_all"

inductive sched_reach :: "nat \<Rightarrow> task_scheduler \<Rightarrow> bool" for n where
  reach_new: "scheduler_new n = Inr s \<Longrightarrow> sched_reach n s"
| reach_call: "sched_reach n s \<Longrightarrow> sched_exec c s = (r, s') \<Longrightarrow> sched_reach n s'"

definition sound_error :: "task_error + 'a \<Rightarrow> bool" where
  "sound_error r \<longleftrightarrow> r \<noteq> Inl CorruptQueue \<and> r \<noteq> Inl TaskPanicked"

text \<open>What a call other than activation and cancellation does to the queue: it appends.\<close>

definition queue_grows :: "task_scheduler \<Rightarrow> task_scheduler \<Rightarrow> bool" where
  "queue_grows s s' \<longleftrightarrow> (\<exists>l. ready_list s' = ready_list s @ l) \<and>
     (\<forall>i\<in>set (ready_list s). tr_id (ts_tasks s' ! i) = tr_id (ts_tasks s ! i))"

lemma queue_grows_same: "queue_grows s s"
  by (simp add: queue_grows_def)

lemma forget_result_run:
  assumes "forget_result m s = (r, s')"
  obtains x where "m s = (x, s')" "sound_error x \<Longrightarrow> sound_error r"
proof -
  obtain x u where x: "m s = (x, u)" by (cases "m s")
  with assms show thesis
    by (cases x) (auto simp: forget_result_def sseq_def sbind_def sound_error_def intro: that)
qed

lemma current_active:
  assumes "base_inv s"
  shows "current s = (case ts_active s of None \<Rightarrow> Inl NoRunningTask | Some i \<Rightarrow> Inr (the (tr_id (ts_tasks s ! i))))"
proof (cases "ts_active s")
  case (Some i)
  obtain a where "i < length (ts_tasks s)" "tr_id (ts_tasks s ! i) = Some a" using active_slot [OF assms Some] by blast
  with Some show ?thesis by (simp add: current_def task_at_def)
qed (simp add: current_def)

lemma suspend_call:
  assumes inv: "sched_inv s" and run: "suspend w s = (r, s')" and w: "\<And>b. w \<noteq> WaitJoin b"
  shows "sched_inv s' \<and> sound_error r \<and> queue_grows s s'"
proof (cases "ts_active s")
  case None
  then show ?thesis using run inv queue_grows_same by (auto simp: suspend_def sbind_def sound_error_def)
next
  case (Some i)
  have base: "base_inv s" using inv by (simp add: sched_inv_def)
  obtain a where a: "tr_id (ts_tasks s ! i) = Some a" using active_slot [OF base Some] by blast
  from suspend_ok [OF inv Some a, of w] w run show ?thesis
    by (auto simp: sound_error_def queue_grows_def ready_list_def)
qed

lemma complete_call:
  assumes inv: "sched_inv s" and run: "complete_current s = (r, s')"
  shows "sched_inv s' \<and> sound_error r \<and> queue_grows s s'"
proof (cases "ts_active s")
  case None
  then show ?thesis using run inv queue_grows_same by (auto simp: complete_current_def sbind_def sound_error_def)
next
  case (Some i)
  have base: "base_inv s" using inv by (simp add: sched_inv_def)
  obtain a where a: "tr_id (ts_tasks s ! i) = Some a" using active_slot [OF base Some] by blast
  have ready: "j < length (ts_tasks s)" if "j \<in> set (ready_list s)" for j
    using that queue_okD(2) [of "ts_tasks s" "ready_list s" "ts_active s" j] base by (simp add: base_inv_def)
  obtain u where u: "complete_current s = (Inr a, u)" "sched_inv u" "\<exists>l. ready_list u = ready_list s @ l"
    "\<And>j. j < length (ts_tasks s) \<Longrightarrow> tr_id (ts_tasks u ! j) = tr_id (ts_tasks s ! j)"
    by (rule complete_current_ok [OF inv Some a]) blast
  with run ready show ?thesis by (auto simp: sound_error_def queue_grows_def)
qed

lemma join_call:
  assumes inv: "sched_inv s" and run: "join b s = (r, s')"
  shows "sched_inv s' \<and> sound_error r \<and> queue_grows s s'"
proof (cases "current s")
  case (Inl e)
  then have "e = NoRunningTask" using current_active [of s] inv by (auto simp: sched_inv_def split: option.splits)
  with Inl run inv queue_grows_same show ?thesis by (auto simp: join_def sbind_def sound_error_def)
next
  case (Inr a)
  let ?s = "s\<lparr>ts_active := None, ts_tasks := with_state (ts_tasks s) (the (ts_active s)) (Waiting (WaitJoin b))\<rparr>"
  have grows: "queue_grows s ?s" by (simp add: queue_grows_def ready_list_def)
  show ?thesis
  proof (cases "a \<noteq> b \<and> task_state_of b s \<notin> {None, Some Completed} \<and> (b, a) \<notin> (joins (ts_tasks s))\<^sup>+")
    case True
    then have "r = Inr True" "s' = ?s" using join_ok(1) [OF inv Inr, of b] run
      by (auto split: option.splits task_state.splits)
    with join_ok(2) [OF inv Inr, of b] True grows show ?thesis by (simp add: sound_error_def)
  next
    case False
    then have "s' = s \<and> sound_error r" using join_ok(1) [OF inv Inr, of b] run
      by (auto simp: sound_error_def split: option.splits task_state.splits if_splits)
    with inv queue_grows_same show ?thesis by simp
  qed
qed

lemma wait_call:
  assumes inv: "sched_inv s" and run: "complete_wait w t s = (r, s')"
  shows "sched_inv s' \<and> sound_error r \<and> queue_grows s s'"
  using complete_wait_ok [OF inv run] inv queue_grows_same by (auto simp: sound_error_def queue_grows_def)

lemma spawn_call:
  assumes inv: "sched_inv s" and run: "spawn s = (r, s')"
  shows "sched_inv s' \<and> sound_error r \<and> queue_grows s s'"
  using spawn_ok [OF inv run]
proof
  assume "\<exists>e. r = Inl e \<and> e \<in> {NoRunningTask, NoCapacity, IdExhausted} \<and> s' = s"
  then show ?thesis using inv queue_grows_same by (auto simp: sound_error_def)
next
  assume "\<exists>slot. r = Inr (ts_next_id s) \<and> sched_inv s' \<and> slot < length (ts_tasks s) \<and>
       tr_state (ts_tasks s ! slot) = Vacant \<and> ready_list s' = ready_list s @ [slot] \<and> ts_active s' = ts_active s \<and>
       ts_next_id s' = ts_next_id s + 1 \<and>
       ts_tasks s' = (ts_tasks s)[slot := \<lparr>tr_id = Some (ts_next_id s), tr_state = Ready\<rparr>]"
  then obtain slot where s': "r = Inr (ts_next_id s)" "sched_inv s'" "tr_state (ts_tasks s ! slot) = Vacant"
    "ready_list s' = ready_list s @ [slot]"
    "ts_tasks s' = (ts_tasks s)[slot := \<lparr>tr_id = Some (ts_next_id s), tr_state = Ready\<rparr>]" by blast
  have "slot \<notin> set (ready_list s)"
    using queue_okD(2) [of "ts_tasks s" "ready_list s" "ts_active s" slot] inv s'(3)
    by (auto simp: sched_inv_def base_inv_def)
  then have "queue_grows s s'" using s' by (auto simp: queue_grows_def) (metis nth_list_update_neq)
  with s' show ?thesis by (simp add: sound_error_def)
qed

lemma start_call:
  assumes inv: "sched_inv s" and run: "start_root s = (r, s')"
  shows "sched_inv s' \<and> sound_error r \<and> queue_grows s s'"
  using start_root_ok [OF inv run] inv queue_grows_same by (auto simp: sound_error_def queue_grows_def)

lemma sched_exec_grows:
  assumes inv: "sched_inv s" and run: "sched_exec c s = (r, s')" and c: "c \<noteq> ScActivate" "c \<noteq> ScCancel"
  shows "sched_inv s' \<and> sound_error r \<and> queue_grows s s'"
proof -
  have forget: "sched_inv s' \<and> sound_error r \<and> queue_grows s s'"
    if "forget_result m s = (r, s')" "\<And>x. m s = (x, s') \<Longrightarrow> sched_inv s' \<and> sound_error x \<and> queue_grows s s'"
    for m :: "'b sched_op"
    using forget_result_run [OF that(1)] that(2) by metis
  show ?thesis
  proof (cases c)
    case ScSpawn
    with run show ?thesis using spawn_call [OF inv] by (intro forget) auto
  next
    case (ScSuspendHost x)
    with run show ?thesis using suspend_call [OF inv] by (intro forget) (auto simp: suspend_host_def)
  next
    case (ScSuspendChannel x)
    with run show ?thesis using suspend_call [OF inv] by (intro forget) (auto simp: suspend_channel_def)
  next
    case (ScJoin t)
    with run show ?thesis using join_call [OF inv] by (intro forget) auto
  next
    case ScComplete
    with run show ?thesis using complete_call [OF inv] by (intro forget) auto
  qed (use run c start_call [OF inv] wait_call [OF inv] in \<open>auto simp: complete_host_def complete_channel_def\<close>)
qed

lemma cancel_call: "sched_inv s \<Longrightarrow> cancel_all s = (r, s') \<Longrightarrow> sched_inv s' \<and> sound_error r"
  using vacant_table_ok [of "map (\<lambda>_. EMPTY_TASK) (ts_tasks s)" "ts_next_id s"] table_okD(1,2) [of "ts_tasks s" "ts_next_id s"]
  by (auto simp: cancel_all_def sched_inv_def base_inv_def ring_ok_def ready_list_def sound_error_def)

lemma activate_call: "sched_inv s \<Longrightarrow> activate_next s = (r, s') \<Longrightarrow> sched_inv s' \<and> sound_error r"
  using activate_next_ok [of s r s'] by (auto simp: sound_error_def)

lemma sched_exec_inv:
  assumes inv: "sched_inv s" and run: "sched_exec c s = (r, s')"
  shows "sched_inv s' \<and> sound_error r"
proof (cases "c = ScActivate")
  case True
  with run forget_result_run [of activate_next s r s'] activate_call [OF inv] show ?thesis by auto
next
  case False
  with sched_exec_grows [OF inv run] cancel_call [OF inv, of r s'] run show ?thesis by (cases "c = ScCancel") auto
qed

lemma sched_reach_inv: "sched_reach n s \<Longrightarrow> sched_inv s"
  by (induction rule: sched_reach.induct) (auto dest: scheduler_new_inv sched_exec_inv)

text \<open>Concrete runs.\<close>

fun sched_run :: "sched_call list \<Rightarrow> task_scheduler \<Rightarrow> task_scheduler" where
  "sched_run [] s = s"
| "sched_run (c # cs) s = sched_run cs (snd (sched_exec c s))"

definition new_scheduler :: "nat \<Rightarrow> task_scheduler" where
  "new_scheduler n = projr (scheduler_new n)"

lemma sched_run_reach: "sched_reach n s \<Longrightarrow> sched_reach n (sched_run cs s)"
  by (induction cs arbitrary: s) (auto intro: reach_call [OF _ surjective_pairing])

lemma new_scheduler_reach: "0 < n \<Longrightarrow> sched_reach n (sched_run cs (new_scheduler n))"
  by (intro sched_run_reach reach_new) (simp add: new_scheduler_def scheduler_new_def)

lemma I32_MAX_eval: "I32_MAX = 2147483647"
  by (simp add: I32_MAX_def)

lemma checked_add_32: "checked_add 32 a b = (if a + b < 4294967296 then Some (a + b) else None)"
  by (simp add: checked_add_def)

lemmas sched_eval = new_scheduler_def scheduler_new_def start_root_def spawn_def suspend_host_def suspend_def
  join_def current_def activate_next_def complete_current_def enqueue_def task_at_def set_state_def with_state_def
  task_slot_def task_id_new_def EMPTY_TASK_def TASK_ROOT_def I32_MAX_eval forget_result_def sbind_def sseq_def
  checked_add_32 Let_def numeral_2_eq_2 numeral_3_eq_3

text \<open>
  C15. The scheduler's bookkeeping never breaks: in every scheduler reached from a new one by any calls, in
  any order, exactly the ready slots are queued, at most one task runs, ids are unique, and no call
  ever fails with a corrupt queue or an index out of range.
\<close>

theorem scheduler_never_corrupt:
  assumes "sched_reach n s"
  shows "sched_inv s \<and> (\<forall>c r s'. sched_exec c s = (r, s') \<longrightarrow> r \<noteq> Inl CorruptQueue \<and> r \<noteq> Inl TaskPanicked)"
  using sched_reach_inv [OF assms] sched_exec_inv unfolding sound_error_def by blast

theorem scheduler_never_corrupt_witness:
  "sched_inv (sched_run [ScStartRoot, ScSpawn, ScJoin 2, ScActivate] (new_scheduler 2))"
  using scheduler_never_corrupt [OF new_scheduler_reach, of 2 "[ScStartRoot, ScSpawn, ScJoin 2, ScActivate]"]
  by (simp del: sched_run.simps)

text \<open>
  C16. \<open>join\<close> refuses exactly the joins that would close a cycle: it reports a join cycle when the target
  already waits, directly or through other joins, for the running task, and only then; the bounded loop
  always suffices.
\<close>

theorem join_cycle_exact:
  assumes "sched_reach n s" "current s = Inr a"
  shows "fst (join b s) = Inl JoinCycle \<longleftrightarrow> (b, a) \<in> (joins (ts_tasks s))\<^sup>+"
proof -
  note inv = sched_reach_inv [OF assms(1)]
  have j: "joins_ok (ts_tasks s)" and tab: "table_ok (ts_tasks s) (ts_next_id s)"
    using inv by (simp_all add: sched_inv_def base_inv_def)
  show ?thesis
  proof (cases "(b, a) \<in> (joins (ts_tasks s))\<^sup>+")
    case True
    then obtain x where "(b, x) \<in> joins (ts_tasks s)" by (metis tranclD)
    then obtain i where "i < length (ts_tasks s)" "tr_id (ts_tasks s ! i) = Some b"
      "tr_state (ts_tasks s ! i) = Waiting (WaitJoin x)" by (auto simp: joins_def)
    then have "task_state_of b s = Some (Waiting (WaitJoin x))"
      using task_slot_Some [OF tab, of b i] by (simp add: task_state_of_def)
    moreover have "a \<noteq> b" using True joins_okD(1) [OF j] by (auto simp: acyclic_def)
    ultimately show ?thesis using join_ok(1) [OF inv assms(2), of b] True by simp
  next
    case False
    then have "fst (join b s) \<noteq> Inl JoinCycle"
      unfolding join_ok(1) [OF inv assms(2)] by (simp split: option.split task_state.split)
    with False show ?thesis by blast
  qed
qed

theorem join_cycle_exact_witness:
  "(1, 2) \<in> (joins (ts_tasks (sched_run [ScStartRoot, ScSpawn, ScJoin 2, ScActivate] (new_scheduler 2))))\<^sup>+"
proof -
  let ?s = "sched_run [ScStartRoot, ScSpawn, ScJoin 2, ScActivate] (new_scheduler 2)"
  have "current ?s = Inr 2" "fst (join 1 ?s) = Inl JoinCycle" by (simp_all add: sched_eval)
  then show ?thesis
    using join_cycle_exact [OF new_scheduler_reach, of 2 "[ScStartRoot, ScSpawn, ScJoin 2, ScActivate]" 2 1]
    by (simp del: sched_run.simps)
qed

text \<open>
  C17. Tasks cannot deadlock by waiting for each other: when no task can be activated although some task is
  still suspended, then some task waits for the host or for a channel.
\<close>

theorem no_join_deadlock:
  assumes "sched_reach n s" "activate_next s = (Inr None, s')" "t \<in> set (ts_tasks s)" "tr_state t = Waiting w"
  shows "\<exists>u\<in>set (ts_tasks s). \<exists>x. tr_state u = Waiting (WaitHost x) \<or> tr_state u = Waiting (WaitChannel x)"
proof (rule ccontr)
  assume none: "\<not> ?thesis"
  note inv = sched_reach_inv [OF assms(1)]
  let ?R = "joins (ts_tasks s)"
  have base: "base_inv s" and j: "joins_ok (ts_tasks s)" using inv by (simp_all add: sched_inv_def)
  have tab: "table_ok (ts_tasks s) (ts_next_id s)" and q: "queue_ok (ts_tasks s) (ready_list s) (ts_active s)"
    using base by (simp_all add: base_inv_def)
  have idle: "ts_active s = None" "ready_list s = []" using activate_next_ok [OF inv assms(2)] by auto
  have join: "\<exists>b. tr_state (ts_tasks s ! i) = Waiting (WaitJoin b)"
    if i: "i < length (ts_tasks s)" and st: "tr_state (ts_tasks s ! i) \<notin> {Vacant, Completed}" for i
  proof -
    have "tr_state (ts_tasks s ! i) \<noteq> Ready" "tr_state (ts_tasks s ! i) \<noteq> Running"
      using queue_okD(2,3) [OF q, of i] i idle by auto
    with st obtain v where v: "tr_state (ts_tasks s ! i) = Waiting v" by (cases "tr_state (ts_tasks s ! i)") auto
    with none nth_mem [OF i] show ?thesis by (cases v) metis+
  qed
  have next_join: "\<exists>c. (b, c) \<in> ?R" if "(a, b) \<in> ?R" for a b
  proof -
    from joins_okD(2) [OF j that] obtain k where k: "k < length (ts_tasks s)" "tr_id (ts_tasks s ! k) = Some b"
      "tr_state (ts_tasks s ! k) \<noteq> Completed" by blast
    moreover have "tr_state (ts_tasks s ! k) \<noteq> Vacant" using table_okD(3) [OF tab k(1)] k(2) by auto
    ultimately show ?thesis using join [of k] unfolding joins_def by auto
  qed
  obtain i where i: "i < length (ts_tasks s)" "t = ts_tasks s ! i" using assms(3) by (auto simp: in_set_conv_nth)
  then obtain b where b: "tr_state t = Waiting (WaitJoin b)" using join [of i] assms(4) by auto
  obtain a where a: "tr_id t = Some a" using table_okD(3) [OF tab i(1)] i(2) assms(4) by auto
  have start: "(a, b) \<in> ?R" using a b i by (auto simp: joins_def)
  let ?edge = "\<lambda>u. (the (tr_id u), case tr_state u of Waiting (WaitJoin b) \<Rightarrow> b | _ \<Rightarrow> 0)"
  have "e \<in> ?edge ` set (ts_tasks s)" if "e \<in> ?R" for e
  proof -
    from that obtain i where "i < length (ts_tasks s)" "tr_id (ts_tasks s ! i) = Some (fst e)"
      "tr_state (ts_tasks s ! i) = Waiting (WaitJoin (snd e))" by (auto simp: joins_def)
    then show ?thesis by (intro image_eqI [of _ _ "ts_tasks s ! i"]) auto
  qed
  then have "finite ?R" by (meson finite_imageI finite_set finite_subset subsetI)
  then have "wf (?R\<inverse>)" using joins_okD(1) [OF j] by (rule finite_acyclic_wf_converse)
  then have "\<nexists>a. (a, x) \<in> ?R" for x
    by (induction x rule: wf_induct_rule) (use next_join in blast)
  with start show False by blast
qed

theorem no_join_deadlock_witness:
  "\<exists>u\<in>set (ts_tasks (sched_run [ScStartRoot, ScSpawn, ScJoin 2, ScActivate, ScSuspendHost 7] (new_scheduler 2))).
     \<exists>x. tr_state u = Waiting (WaitHost x) \<or> tr_state u = Waiting (WaitChannel x)"
proof -
  let ?s = "sched_run [ScStartRoot, ScSpawn, ScJoin 2, ScActivate, ScSuspendHost 7] (new_scheduler 2)"
  have "activate_next ?s = (Inr None, ?s)" "\<lparr>tr_id = Some 1, tr_state = Waiting (WaitJoin 2)\<rparr> \<in> set (ts_tasks ?s)"
    by (simp_all add: sched_eval)
  from no_join_deadlock [OF new_scheduler_reach this] show ?thesis by (simp del: sched_run.simps)
qed

text \<open>The ready queue is a first-in first-out queue of task ids, served by \<open>activate_next\<close>.\<close>

definition ready_ids :: "task_scheduler \<Rightarrow> task_id list" where
  "ready_ids s = map (\<lambda>i. the (tr_id (ts_tasks s ! i))) (ready_list s)"

definition next_task :: "task_scheduler \<Rightarrow> (task_id \<times> task_scheduler) option" where
  "next_task s = (case activate_next s of (Inr (Some a), s') \<Rightarrow> Some (a, s') | _ \<Rightarrow> None)"

definition other_call :: "task_scheduler \<Rightarrow> task_scheduler \<Rightarrow> bool" where
  "other_call s s' \<longleftrightarrow> (\<exists>c r. c \<noteq> ScActivate \<and> c \<noteq> ScCancel \<and> sched_exec c s = (r, s'))"

interpretation rq: fifo ready_ids sched_inv next_task other_call
proof
  fix s x s'
  assume inv: "sched_inv s" and pop: "next_task s = Some (x, s')"
  then have run: "activate_next s = (Inr (Some x), s')" by (auto simp: next_task_def split: prod.splits sum.splits option.splits)
  from activate_next_ok [OF inv run] show "sched_inv s' \<and> ready_ids s = x # ready_ids s'"
    by (auto simp: ready_ids_def)
next
  fix s s'
  assume inv: "sched_inv s" and "other_call s s'"
  then obtain c r where "sched_exec c s = (r, s')" "c \<noteq> ScActivate" "c \<noteq> ScCancel" by (auto simp: other_call_def)
  from sched_exec_grows [OF inv this] show "sched_inv s' \<and> (\<exists>new. ready_ids s' = ready_ids s @ new)"
    by (auto simp: queue_grows_def ready_ids_def)
qed

text \<open>
  C18. Scheduling is fair: while the computer runs (tasks spawn, suspend, join, complete and are woken, and
  activations happen in between), the task that waits at position \<open>k\<close> of the ready queue is the \<open>k\<close>-th one
  activated, whatever becomes ready in the meantime.
\<close>

theorem ready_tasks_served_in_order:
  assumes "sched_reach n s" "served next_task other_call s out t" "k < length (ready_ids s)" "k < length out"
  shows "out ! k = ready_ids s ! k"
  by (rule rq.served_nth [OF assms(2) sched_reach_inv [OF assms(1)] assms(3,4)])

theorem ready_tasks_served_in_order_witness:
  "ready_ids (sched_run [ScStartRoot, ScSpawn] (new_scheduler 2)) ! 0 = 2"
proof -
  let ?s = "sched_run [ScStartRoot, ScSpawn] (new_scheduler 2)"
  let ?t = "\<lambda>a b. [\<lparr>tr_id = Some 1, tr_state = a\<rparr>, \<lparr>tr_id = Some 2, tr_state = b\<rparr>]"
  let ?u = "\<lparr>ts_tasks = ?t Running Ready, ts_ready = [1, usize_max], ts_ready_head = 0, ts_ready_len = 1,
    ts_active = Some 0, ts_next_id = 3\<rparr>"
  let ?v = "\<lparr>ts_tasks = ?t (Waiting (WaitHost 7)) Ready, ts_ready = [1, usize_max], ts_ready_head = 0,
    ts_ready_len = 1, ts_active = None, ts_next_id = 3\<rparr>"
  let ?w = "\<lparr>ts_tasks = ?t (Waiting (WaitHost 7)) Running, ts_ready = [usize_max, usize_max], ts_ready_head = 1,
    ts_ready_len = 0, ts_active = Some 1, ts_next_id = 3\<rparr>"
  have s: "?s = ?u" by (simp add: sched_eval)
  have "sched_exec (ScSuspendHost 7) ?u = (Inr (), ?v)" by (simp add: sched_eval)
  then have other: "other_call ?u ?v" unfolding other_call_def by blast
  have "served next_task other_call ?u [] ?u" by (rule served_start)
  then have "served next_task other_call ?u [] ?v"
    by (rule served_other [where other = other_call and t = ?u, OF _ other])
  moreover have pop: "next_task ?v = Some (2, ?w)" by (simp add: next_task_def sched_eval)
  ultimately have "served next_task other_call ?u ([] @ [2]) ?w" by (rule served_pop)
  then have "served next_task other_call ?s [2] ?w" unfolding s by simp
  moreover have "0 < length (ready_ids ?s)" unfolding s by (simp add: ready_ids_def ready_list_def)
  ultimately have "[2] ! 0 = ready_ids ?s ! 0"
    by (rule ready_tasks_served_in_order [OF new_scheduler_reach, rotated]) simp_all
  then show ?thesis by simp
qed

end
