(* ===== verification/Vm_Channel.thy ===== *)
theory Vm_Channel
  imports Vm_Task
begin

text \<open>
  Channels between tasks (\<open>src/src/execution/channel.rs\<close>): one arena holds the buffered values of all channels
  in a shared array, and the tasks suspended on a channel in singly linked queues that run through a
  table of one waiter per task slot. \<open>arena_rel\<close> relates an arena to a list of abstract channels, each with
  a buffer, a queue of senders and a queue of receivers as plain lists; the operations of the arena refine
  the operations on these lists.
\<close>

type_synonym i32 = "32 word"

abbreviation NONE :: nat where "NONE \<equiv> usize_max"

datatype channel_error = InvalidCapacity | InvalidHandle | ChannelFull | ChannelCorrupt | ChannelPanicked

datatype send_result = SendComplete | WakeReceiver task_id nat nat | SendSuspend

datatype receive_result = ReceiveValue i32 "(task_id \<times> nat) option" | ReceiveSuspend

datatype wait_kind = WkNone | WkSend i32 nat | WkReceive nat nat

record waiter =
  w_task :: "task_id option"
  w_next :: nat
  w_kind :: wait_kind

definition EMPTY_WAITER :: waiter where
  "EMPTY_WAITER = \<lparr>w_task = None, w_next = NONE, w_kind = WkNone\<rparr>"

record channel =
  ch_values_start :: nat
  ch_capacity :: nat
  ch_head :: nat
  ch_len :: nat
  ch_send_head :: nat
  ch_send_tail :: nat
  ch_receive_head :: nat
  ch_receive_tail :: nat

definition EMPTY_CHANNEL :: channel where
  "EMPTY_CHANNEL = \<lparr>ch_values_start = 0, ch_capacity = 0, ch_head = 0, ch_len = 0, ch_send_head = NONE,
     ch_send_tail = NONE, ch_receive_head = NONE, ch_receive_tail = NONE\<rparr>"

record channel_arena =
  ca_channels :: "channel list"
  ca_values :: "i32 list"
  ca_waiters :: "waiter list"
  ca_channel_count :: nat
  ca_value_count :: nat

type_synonym 'a chan_op = "(channel_arena, channel_error, 'a) smonad"

definition arena_new :: "nat \<Rightarrow> nat \<Rightarrow> nat \<Rightarrow> channel_arena" where
  "arena_new channel_capacity value_capacity task_capacity =
     \<lparr>ca_channels = replicate channel_capacity EMPTY_CHANNEL, ca_values = replicate value_capacity 0,
      ca_waiters = replicate (if channel_capacity = 0 then 0 else task_capacity) EMPTY_WAITER,
      ca_channel_count = 0, ca_value_count = 0\<rparr>"

definition channel_create :: "int \<Rightarrow> int chan_op" where
  "channel_create capacity a =
     (if capacity < 0 then (Inl InvalidCapacity, a)
      else
        (let cap = nat capacity in
         if cap = 0 \<or> ca_channel_count a = length (ca_channels a) then (Inl ChannelFull, a)
         else
           (case checked_add 64 (ca_value_count a) cap of
              None \<Rightarrow> (Inl ChannelFull, a)
            | Some vend \<Rightarrow>
                if length (ca_values a) < vend then (Inl ChannelFull, a)
                else if length (ca_channels a) \<le> ca_channel_count a then (Inl ChannelPanicked, a)
                else
                  (let slot = ca_channel_count a;
                       a' = a\<lparr>ca_channels := (ca_channels a)[slot :=
                                EMPTY_CHANNEL\<lparr>ch_values_start := ca_value_count a, ch_capacity := cap\<rparr>],
                              ca_channel_count := slot + 1, ca_value_count := vend\<rparr> in
                   if I32_MAX < slot + 1 then (Inl ChannelFull, a')
                   else (Inr (int (slot + 1)), a')))))"

definition channel_index :: "int \<Rightarrow> channel_arena \<Rightarrow> channel_error + nat" where
  "channel_index handle a =
     (if 0 \<le> handle \<and> 1 \<le> nat handle \<and> nat handle - 1 < ca_channel_count a
      then Inr (nat handle - 1) else Inl InvalidHandle)"

text \<open>Reading and writing one channel record and one buffered value, with the bounds checks of indexing.\<close>

definition channel_at :: "nat \<Rightarrow> channel_arena \<Rightarrow> channel_error + channel" where
  "channel_at i a = (if i < length (ca_channels a) then Inr (ca_channels a ! i) else Inl ChannelPanicked)"

definition set_channel :: "nat \<Rightarrow> channel \<Rightarrow> unit chan_op" where
  "set_channel i c = smodify (\<lambda>a. a\<lparr>ca_channels := (ca_channels a)[i := c]\<rparr>)"

definition set_value :: "nat \<Rightarrow> i32 \<Rightarrow> unit chan_op" where
  "set_value i v a =
     (if i < length (ca_values a) then (Inr (), a\<lparr>ca_values := (ca_values a)[i := v]\<rparr>)
      else (Inl ChannelPanicked, a))"

definition install_waiter :: "nat \<Rightarrow> task_id \<Rightarrow> wait_kind \<Rightarrow> unit chan_op" where
  "install_waiter slot task kind a =
     (if length (ca_waiters a) \<le> slot then (Inl ChannelCorrupt, a)
      else if w_task (ca_waiters a ! slot) \<noteq> None then (Inl ChannelCorrupt, a)
      else (Inr (), a\<lparr>ca_waiters := (ca_waiters a)[slot := \<lparr>w_task = Some task, w_next = NONE, w_kind = kind\<rparr>]\<rparr>))"

definition queue_head :: "bool \<Rightarrow> channel \<Rightarrow> nat" where
  "queue_head send c = (if send then ch_send_head c else ch_receive_head c)"

definition queue_tail :: "bool \<Rightarrow> channel \<Rightarrow> nat" where
  "queue_tail send c = (if send then ch_send_tail c else ch_receive_tail c)"

definition set_queue :: "bool \<Rightarrow> nat \<Rightarrow> nat \<Rightarrow> channel \<Rightarrow> channel" where
  "set_queue send h t c =
     (if send then c\<lparr>ch_send_head := h, ch_send_tail := t\<rparr> else c\<lparr>ch_receive_head := h, ch_receive_tail := t\<rparr>)"

definition push_waiter :: "nat \<Rightarrow> nat \<Rightarrow> bool \<Rightarrow> unit chan_op" where
  "push_waiter i slot send =
     sbind (sread (channel_at i)) (\<lambda>c.
     if queue_tail send c = NONE
     then set_channel i (set_queue send slot slot c)
     else
       (\<lambda>a. if length (ca_waiters a) \<le> queue_tail send c then (Inl ChannelCorrupt, a)
        else
          (let t = queue_tail send c in
           set_channel i (set_queue send (queue_head send c) slot c)
             (a\<lparr>ca_waiters := (ca_waiters a)[t := (ca_waiters a ! t)\<lparr>w_next := slot\<rparr>]\<rparr>))))"

definition pop_waiter :: "nat \<Rightarrow> bool \<Rightarrow> waiter chan_op" where
  "pop_waiter i send =
     sbind (sread (channel_at i)) (\<lambda>c a.
     (let slot = queue_head send c in
      if length (ca_waiters a) \<le> slot then (Inl ChannelCorrupt, a)
      else
        (let w = ca_waiters a ! slot;
             t = (if w_next w = NONE then NONE else queue_tail send c) in
         (Inr w, snd (set_channel i (set_queue send (w_next w) t c)
                   (a\<lparr>ca_waiters := (ca_waiters a)[slot := EMPTY_WAITER]\<rparr>))))))"

definition channel_send :: "int \<Rightarrow> nat \<Rightarrow> task_id \<Rightarrow> i32 \<Rightarrow> nat \<Rightarrow> send_result chan_op" where
  "channel_send handle slot task value resume_block =
     sbind (sread (channel_index handle)) (\<lambda>i.
     sbind (sread (channel_at i)) (\<lambda>c.
     if ch_receive_head c \<noteq> NONE then
       sbind (pop_waiter i False) (\<lambda>w.
       (case w_kind w of
          WkReceive destination resume \<Rightarrow>
            sbind (sread (\<lambda>_. ok_or (w_task w) ChannelCorrupt)) (\<lambda>t. sret (WakeReceiver t destination resume))
        | _ \<Rightarrow> sfail ChannelCorrupt))
     else if ch_len c < ch_capacity c then
       sseq (set_value (ch_values_start c + (ch_head c + ch_len c) mod ch_capacity c) value)
       (sseq (set_channel i (c\<lparr>ch_len := ch_len c + 1\<rparr>)) (sret SendComplete))
     else
       sseq (install_waiter slot task (WkSend value resume_block))
       (sseq (push_waiter i slot True) (sret SendSuspend))))"

definition channel_receive :: "int \<Rightarrow> nat \<Rightarrow> task_id \<Rightarrow> nat \<Rightarrow> nat \<Rightarrow> receive_result chan_op" where
  "channel_receive handle slot task destination resume_block =
     sbind (sread (channel_index handle)) (\<lambda>i.
     sbind (sread (channel_at i)) (\<lambda>c.
     if ch_len c \<noteq> 0 then
       sbind (sread (\<lambda>a. if ch_values_start c + ch_head c < length (ca_values a)
                         then Inr (ca_values a ! (ch_values_start c + ch_head c)) else Inl ChannelPanicked)) (\<lambda>value.
       (let c1 = c\<lparr>ch_head := (ch_head c + 1) mod ch_capacity c, ch_len := ch_len c - 1\<rparr> in
        sseq (set_channel i c1)
        (if ch_send_head c1 = NONE then sret (ReceiveValue value None)
         else
           sbind (pop_waiter i True) (\<lambda>w.
           (case w_kind w of
              WkSend sent resume \<Rightarrow>
                sbind (sread (channel_at i)) (\<lambda>c2.
                sseq (set_value (ch_values_start c2 + (ch_head c2 + ch_len c2) mod ch_capacity c2) sent)
                (sseq (set_channel i (c2\<lparr>ch_len := ch_len c2 + 1\<rparr>))
                (sbind (sread (\<lambda>_. ok_or (w_task w) ChannelCorrupt)) (\<lambda>t.
                 sret (ReceiveValue value (Some (t, resume)))))))
            | _ \<Rightarrow> sfail ChannelCorrupt)))))
     else
       sseq (install_waiter slot task (WkReceive destination resume_block))
       (sseq (push_waiter i slot False) (sret ReceiveSuspend))))"

subsection \<open>Abstract channels\<close>

type_synonym waiting = "nat \<times> task_id \<times> wait_kind"

record achannel =
  ac_capacity :: nat
  ac_buffer :: "i32 list"
  ac_senders :: "waiting list"
  ac_receivers :: "waiting list"

definition spec_send :: "nat \<Rightarrow> task_id \<Rightarrow> i32 \<Rightarrow> nat \<Rightarrow> achannel \<Rightarrow> send_result \<times> achannel" where
  "spec_send slot task v resume c =
     (case ac_receivers c of
        (_, t, WkReceive d r) # rest \<Rightarrow> (WakeReceiver t d r, c\<lparr>ac_receivers := rest\<rparr>)
      | _ \<Rightarrow>
          if length (ac_buffer c) < ac_capacity c then (SendComplete, c\<lparr>ac_buffer := ac_buffer c @ [v]\<rparr>)
          else (SendSuspend, c\<lparr>ac_senders := ac_senders c @ [(slot, task, WkSend v resume)]\<rparr>))"

definition spec_receive :: "nat \<Rightarrow> task_id \<Rightarrow> nat \<Rightarrow> nat \<Rightarrow> achannel \<Rightarrow> receive_result \<times> achannel" where
  "spec_receive slot task d resume c =
     (case ac_buffer c of
        v # vs \<Rightarrow>
          (case ac_senders c of
             (_, t, WkSend w r) # rest \<Rightarrow>
               (ReceiveValue v (Some (t, r)), c\<lparr>ac_buffer := vs @ [w], ac_senders := rest\<rparr>)
           | _ \<Rightarrow> (ReceiveValue v None, c\<lparr>ac_buffer := vs\<rparr>))
      | [] \<Rightarrow> (ReceiveSuspend, c\<lparr>ac_receivers := ac_receivers c @ [(slot, task, WkReceive d resume)]\<rparr>))"

text \<open>A queue of waiters as a chain through the waiter table.\<close>

fun wchain :: "waiter list \<Rightarrow> nat \<Rightarrow> waiting list \<Rightarrow> bool" where
  "wchain ws h [] \<longleftrightarrow> h = NONE"
| "wchain ws h ((s, t, k) # q) \<longleftrightarrow>
     h = s \<and> s < length ws \<and> w_task (ws ! s) = Some t \<and> w_kind (ws ! s) = k \<and> wchain ws (w_next (ws ! s)) q"

definition wtail :: "waiting list \<Rightarrow> nat" where
  "wtail q = (if q = [] then NONE else fst (last q))"

definition ac_slots :: "achannel \<Rightarrow> nat list" where
  "ac_slots c = map fst (ac_senders c) @ map fst (ac_receivers c)"

definition ac_ok :: "achannel \<Rightarrow> bool" where
  "ac_ok c \<longleftrightarrow> 0 < ac_capacity c \<and> length (ac_buffer c) \<le> ac_capacity c \<and>
     (\<forall>(s, t, k)\<in>set (ac_senders c). \<exists>v r. k = WkSend v r) \<and>
     (\<forall>(s, t, k)\<in>set (ac_receivers c). \<exists>d r. k = WkReceive d r)"

definition chan_rel :: "i32 list \<Rightarrow> waiter list \<Rightarrow> channel \<Rightarrow> achannel \<Rightarrow> bool" where
  "chan_rel vals ws ch c \<longleftrightarrow> ac_ok c \<and> ch_capacity ch = ac_capacity c \<and> ch_head ch < ch_capacity ch \<and>
     ac_buffer c = ring (\<lambda>k. vals ! (ch_values_start ch + k)) (ch_capacity ch) (ch_head ch) (ch_len ch) \<and>
     wchain ws (ch_send_head ch) (ac_senders c) \<and> ch_send_tail ch = wtail (ac_senders c) \<and>
     wchain ws (ch_receive_head ch) (ac_receivers c) \<and> ch_receive_tail ch = wtail (ac_receivers c)"

definition regions_ok :: "channel_arena \<Rightarrow> bool" where
  "regions_ok a \<longleftrightarrow> ca_channel_count a \<le> length (ca_channels a) \<and> ca_value_count a \<le> length (ca_values a) \<and>
     length (ca_waiters a) \<le> NONE \<and>
     (\<forall>i<ca_channel_count a. ch_values_start (ca_channels a ! i) + ch_capacity (ca_channels a ! i) \<le> ca_value_count a) \<and>
     (\<forall>j<ca_channel_count a. \<forall>i<j.
        ch_values_start (ca_channels a ! i) + ch_capacity (ca_channels a ! i) \<le> ch_values_start (ca_channels a ! j))"

definition arena_rel :: "channel_arena \<Rightarrow> achannel list \<Rightarrow> bool" where
  "arena_rel a cs \<longleftrightarrow> regions_ok a \<and> length cs = ca_channel_count a \<and>
     (\<forall>i<length cs. chan_rel (ca_values a) (ca_waiters a) (ca_channels a ! i) (cs ! i)) \<and>
     (\<forall>i<length cs. distinct (ac_slots (cs ! i))) \<and>
     (\<forall>i<length cs. \<forall>j<length cs. i \<noteq> j \<longrightarrow> set (ac_slots (cs ! i)) \<inter> set (ac_slots (cs ! j)) = {}) \<and>
     (\<forall>s<length (ca_waiters a). w_task (ca_waiters a ! s) \<noteq> None \<longleftrightarrow> (\<exists>i<length cs. s \<in> set (ac_slots (cs ! i))))"

subsection \<open>Chains\<close>

lemma wchain_slots: "wchain ws h q \<Longrightarrow> s \<in> fst ` set q \<Longrightarrow> s < length ws \<and> w_task (ws ! s) \<noteq> None"
  by (induction ws h q rule: wchain.induct) auto

lemma wchain_other: "s \<notin> fst ` set q \<Longrightarrow> wchain (ws[s := w]) h q = wchain ws h q"
  by (induction ws h q rule: wchain.induct) auto

lemma wchain_head: "length ws \<le> NONE \<Longrightarrow> wchain ws h q \<Longrightarrow> h = NONE \<longleftrightarrow> q = []"
  by (cases q) auto

lemma wtail_in: "q \<noteq> [] \<Longrightarrow> wtail q \<in> fst ` set q"
  by (simp add: wtail_def)

lemma wtail_NONE:
  assumes "length ws \<le> NONE" "wchain ws h q"
  shows "wtail q = NONE \<longleftrightarrow> q = []"
proof (cases "q = []")
  case False
  from wchain_slots [OF assms(2) wtail_in [OF False]] assms(1) False show ?thesis by auto
qed (simp add: wtail_def)

lemma wchain_snoc:
  assumes "wchain ws h q" "q \<noteq> []" "distinct (map fst q)" "s \<notin> fst ` set q" "s < length ws"
    "w_task (ws ! s) = Some t" "w_kind (ws ! s) = k" "w_next (ws ! s) = NONE"
  shows "wchain (ws[wtail q := (ws ! wtail q)\<lparr>w_next := s\<rparr>]) h (q @ [(s, t, k)])"
  using assms
proof (induction q arbitrary: h)
  case (Cons x q)
  obtain s0 t0 k0 where x: "x = (s0, t0, k0)" by (cases x)
  show ?case
  proof (cases "q = []")
    case True
    with Cons.prems x show ?thesis by (auto simp: wtail_def)
  next
    case False
    then have tail: "wtail (x # q) = wtail q" "wtail q \<in> fst ` set q" by (auto simp: wtail_def [of "x # q"] wtail_def [of q])
    with Cons.prems x have "s0 \<noteq> wtail q" by auto
    with Cons False tail(1) x show ?thesis by auto
  qed
qed simp

lemma arena_relD:
  assumes "arena_rel a cs"
  shows "regions_ok a" "length cs = ca_channel_count a"
    "i < length cs \<Longrightarrow> chan_rel (ca_values a) (ca_waiters a) (ca_channels a ! i) (cs ! i)"
    "i < length cs \<Longrightarrow> distinct (ac_slots (cs ! i))"
    "i < length cs \<Longrightarrow> j < length cs \<Longrightarrow> i \<noteq> j \<Longrightarrow> s \<in> set (ac_slots (cs ! i)) \<Longrightarrow> s \<notin> set (ac_slots (cs ! j))"
    "s < length (ca_waiters a) \<Longrightarrow> w_task (ca_waiters a ! s) \<noteq> None \<longleftrightarrow> (\<exists>i<length cs. s \<in> set (ac_slots (cs ! i)))"
  using assms unfolding arena_rel_def by blast+

lemma regions_okD:
  assumes "regions_ok a"
  shows "ca_channel_count a \<le> length (ca_channels a)" "ca_value_count a \<le> length (ca_values a)"
    "length (ca_waiters a) \<le> NONE"
    "i < ca_channel_count a \<Longrightarrow> ch_values_start (ca_channels a ! i) + ch_capacity (ca_channels a ! i) \<le> ca_value_count a"
    "j < ca_channel_count a \<Longrightarrow> i < j \<Longrightarrow>
      ch_values_start (ca_channels a ! i) + ch_capacity (ca_channels a ! i) \<le> ch_values_start (ca_channels a ! j)"
  using assms unfolding regions_ok_def by blast+

text \<open>A step that works on channel \<open>i\<close>, its own part of the value array, the waiters queued on it and the
  free waiter slots \<open>F\<close> leaves the other channels alone.\<close>

lemma chan_rel_frame:
  assumes rel: "chan_rel vals ws ch c"
    and vals: "\<And>k. k < ch_capacity ch \<Longrightarrow> vals' ! (ch_values_start ch + k) = vals ! (ch_values_start ch + k)"
    and ws: "length ws' = length ws" "\<And>s. s \<in> set (ac_slots c) \<Longrightarrow> ws' ! s = ws ! s"
  shows "chan_rel vals' ws' ch c"
proof -
  have "wchain ws' h q = wchain ws h q" if "fst ` set q \<subseteq> set (ac_slots c)" for h q
    using that
  proof (induction q arbitrary: h)
    case (Cons x q)
    then show ?case by (cases x) (simp add: ws)
  qed simp
  moreover have "ring (\<lambda>k. vals' ! (ch_values_start ch + k)) (ch_capacity ch) (ch_head ch) (ch_len ch) =
      ring (\<lambda>k. vals ! (ch_values_start ch + k)) (ch_capacity ch) (ch_head ch) (ch_len ch)"
    using rel vals by (intro ring_cong) (auto simp: chan_rel_def)
  ultimately show ?thesis using rel by (simp add: chan_rel_def ac_slots_def)
qed

lemma arena_step:
  assumes rel: "arena_rel a cs" and i: "i < length cs"
    and a': "a' = a\<lparr>ca_channels := (ca_channels a)[i := ch'], ca_values := vals', ca_waiters := ws'\<rparr>"
    and ch': "ch_values_start ch' = ch_values_start (ca_channels a ! i)" "ch_capacity ch' = ch_capacity (ca_channels a ! i)"
    and vals: "length vals' = length (ca_values a)"
      "\<And>k. k < ch_values_start ch' \<or> ch_values_start ch' + ch_capacity ch' \<le> k \<Longrightarrow> vals' ! k = ca_values a ! k"
    and free: "\<And>s. s \<in> F \<Longrightarrow> s < length ws' \<and> w_task (ca_waiters a ! s) = None"
    and ws: "length ws' = length (ca_waiters a)"
      "\<And>s. s \<notin> set (ac_slots (cs ! i)) \<Longrightarrow> s \<notin> F \<Longrightarrow> ws' ! s = ca_waiters a ! s"
    and c': "chan_rel vals' ws' ch' c'" "distinct (ac_slots c')" "set (ac_slots c') \<subseteq> set (ac_slots (cs ! i)) \<union> F"
      "\<And>s. s \<in> set (ac_slots (cs ! i)) \<union> F \<Longrightarrow> s < length ws' \<Longrightarrow> w_task (ws' ! s) \<noteq> None \<longleftrightarrow> s \<in> set (ac_slots c')"
  shows "arena_rel a' (cs[i := c'])"
proof -
  note r = arena_relD [OF rel]
  note g = regions_okD [OF r(1)]
  have n: "i < length (ca_channels a)" using i r(2) g(1) by simp
  have unused: "s \<notin> set (ac_slots (cs ! j))" if "s \<in> F" "j < length cs" for s j
    using free [OF that(1)] r(6) [of s] that(2) ws(1) by auto
  have foreign: "s \<notin> set (ac_slots c')" if "j < length cs" "j \<noteq> i" "s \<in> set (ac_slots (cs ! j))" for s j
    using that c'(3) r(5) [OF that(1) i that(2,3)] unused by blast
  have "chan_rel vals' ws' (ca_channels a ! j) (cs ! j)" if j: "j < length cs" "j \<noteq> i" for j
  proof (rule chan_rel_frame [OF r(3) [OF j(1)] _ ws(1)])
    fix k
    assume k: "k < ch_capacity (ca_channels a ! j)"
    have "j < i \<or> i < j" using j(2) by linarith
    then show "vals' ! (ch_values_start (ca_channels a ! j) + k) = ca_values a ! (ch_values_start (ca_channels a ! j) + k)"
      using k g(5) [of i j] g(5) [of j i] i j(1) r(2) by (intro vals(2)) (auto simp: ch')
  next
    fix s
    assume s: "s \<in> set (ac_slots (cs ! j))"
    show "ws' ! s = ca_waiters a ! s"
      by (rule ws(2)) (use s r(5) [OF j(1) i j(2)] unused [OF _ j(1)] in blast)+
  qed
  then have chans: "\<forall>j<length cs. chan_rel vals' ws' ((ca_channels a)[i := ch'] ! j) (cs[i := c'] ! j)"
    using c'(1) n by (auto simp: nth_list_update)
  have occ: "w_task (ws' ! s) \<noteq> None \<longleftrightarrow> (\<exists>j<length cs. s \<in> set (ac_slots (cs[i := c'] ! j)))" if s: "s < length ws'" for s
  proof (cases "s \<in> set (ac_slots (cs ! i)) \<union> F")
    case True
    then have "s \<notin> set (ac_slots (cs ! j))" if "j < length cs" "j \<noteq> i" for j
      using unused [OF _ that(1)] r(5) [OF i that(1) that(2) [symmetric]] by blast
    then have "(\<exists>j<length cs. s \<in> set (ac_slots (cs[i := c'] ! j))) \<longleftrightarrow> s \<in> set (ac_slots c')"
      using i by (auto simp: nth_list_update)
    with c'(4) [OF True s] show ?thesis by simp
  next
    case False
    then have "(\<exists>j<length cs. s \<in> set (ac_slots (cs[i := c'] ! j))) \<longleftrightarrow> (\<exists>j<length cs. s \<in> set (ac_slots (cs ! j)))"
      using i c'(3) by (auto simp: nth_list_update)
    with r(6) [of s] s ws False show ?thesis by simp
  qed
  have regions: "regions_ok a'"
    using r(1) n ch' vals(1) ws(1) unfolding regions_ok_def a' by (simp add: nth_list_update)
  have disj: "set (ac_slots (cs[i := c'] ! x)) \<inter> set (ac_slots (cs[i := c'] ! y)) = {}"
    if "x < length cs" "y < length cs" "x \<noteq> y" for x y
    using that i r(5) [OF that] foreign [of x] foreign [of y] by (auto simp: nth_list_update split: if_splits)
  have dist: "\<forall>j<length cs. distinct (ac_slots (cs[i := c'] ! j))"
    using r(4) c'(2) i by (simp add: nth_list_update)
  show ?thesis
    unfolding arena_rel_def length_list_update
    using regions r(2) chans dist disj occ by (simp add: a')
qed

subsection \<open>Queue operations\<close>

definition ac_queue :: "bool \<Rightarrow> achannel \<Rightarrow> waiting list" where
  "ac_queue send c = (if send then ac_senders c else ac_receivers c)"

definition ac_set_queue :: "bool \<Rightarrow> waiting list \<Rightarrow> achannel \<Rightarrow> achannel" where
  "ac_set_queue send q c = (if send then c\<lparr>ac_senders := q\<rparr> else c\<lparr>ac_receivers := q\<rparr>)"

lemma chan_rel_queue:
  "chan_rel vals ws ch c \<Longrightarrow> wchain ws (queue_head b ch) (ac_queue b c) \<and> queue_tail b ch = wtail (ac_queue b c)"
  by (simp add: chan_rel_def queue_head_def queue_tail_def ac_queue_def)

lemma set_queue_fields [simp]:
  "ch_values_start (set_queue b h t ch) = ch_values_start ch" "ch_capacity (set_queue b h t ch) = ch_capacity ch"
  "ch_head (set_queue b h t ch) = ch_head ch" "ch_len (set_queue b h t ch) = ch_len ch"
  by (simp_all add: set_queue_def)

lemma ac_slots_queue: "set (ac_slots c) = fst ` set (ac_queue b c) \<union> fst ` set (ac_queue (\<not> b) c)"
  by (auto simp: ac_slots_def ac_queue_def)

lemma ac_slots_distinct:
  "distinct (ac_slots c) \<longleftrightarrow> distinct (map fst (ac_queue b c)) \<and> distinct (map fst (ac_queue (\<not> b) c)) \<and>
     fst ` set (ac_queue b c) \<inter> fst ` set (ac_queue (\<not> b) c) = {}"
  by (auto simp: ac_slots_def ac_queue_def)

lemma ac_queue_set [simp]: "ac_queue b (ac_set_queue b q c) = q" "ac_queue (\<not> b) (ac_set_queue b q c) = ac_queue (\<not> b) c"
  by (simp_all add: ac_queue_def ac_set_queue_def)

lemma ac_set_queue_fields [simp]:
  "ac_capacity (ac_set_queue b q c) = ac_capacity c" "ac_buffer (ac_set_queue b q c) = ac_buffer c"
  by (simp_all add: ac_set_queue_def)

text \<open>Replacing one queue of a channel by another chain.\<close>

lemma chan_rel_set_queue:
  assumes "chan_rel vals ws ch c" "ac_ok (ac_set_queue b q c)" "wchain ws' h q"
    "\<And>h'. wchain ws h' (ac_queue (\<not> b) c) \<Longrightarrow> wchain ws' h' (ac_queue (\<not> b) c)"
  shows "chan_rel vals ws' (set_queue b h (wtail q) ch) (ac_set_queue b q c)"
  using assms by (cases b) (auto simp: chan_rel_def set_queue_def ac_set_queue_def ac_queue_def)

lemma arena_commute: "a\<lparr>ca_waiters := w, ca_channels := c\<rparr> = a\<lparr>ca_channels := c, ca_waiters := w\<rparr>"
  by (cases a) simp

lemma pop_waiter_eq:
  assumes i: "i < length (ca_channels a)" and ws: "length (ca_waiters a) \<le> NONE"
    and rel: "chan_rel vals (ca_waiters a) (ca_channels a ! i) c" "ac_queue b c = (s, t, k) # q" "distinct (ac_slots c)"
    and ok: "ac_ok (ac_set_queue b q c)"
  shows "pop_waiter i b a = (Inr (ca_waiters a ! s),
      a\<lparr>ca_channels := (ca_channels a)[i := set_queue b (w_next (ca_waiters a ! s)) (wtail q) (ca_channels a ! i)],
        ca_waiters := (ca_waiters a)[s := EMPTY_WAITER]\<rparr>)"
    "w_task (ca_waiters a ! s) = Some t" "w_kind (ca_waiters a ! s) = k" "s < length (ca_waiters a)"
    "chan_rel vals ((ca_waiters a)[s := EMPTY_WAITER])
       (set_queue b (w_next (ca_waiters a ! s)) (wtail q) (ca_channels a ! i)) (ac_set_queue b q c)"
proof -
  let ?ws = "ca_waiters a" and ?ch = "ca_channels a ! i"
  have q: "wchain ?ws (queue_head b ?ch) ((s, t, k) # q)" "queue_tail b ?ch = wtail ((s, t, k) # q)"
    using chan_rel_queue [OF rel(1), of b] rel(2) by auto
  then show "w_task (?ws ! s) = Some t" "w_kind (?ws ! s) = k" and s: "s < length ?ws" by auto
  have rest: "wchain ?ws (w_next (?ws ! s)) q" using q(1) by simp
  have tail: "(if w_next (?ws ! s) = NONE then NONE else queue_tail b ?ch) = wtail q"
    using wchain_head [OF ws rest] q(2) by (simp add: wtail_def)
  show "pop_waiter i b a = (Inr (?ws ! s), a\<lparr>ca_channels := (ca_channels a)[i :=
      set_queue b (w_next (?ws ! s)) (wtail q) ?ch], ca_waiters := ?ws[s := EMPTY_WAITER]\<rparr>)"
    using i q(1) s tail
    by (cases a) (simp add: pop_waiter_def sbind_def channel_at_def set_channel_def Let_def cong: if_cong split del: if_split)
  have "s \<notin> fst ` set q" "s \<notin> fst ` set (ac_queue (\<not> b) c)"
    using rel(2,3) by (auto simp: ac_slots_distinct [of c b])
  then show "chan_rel vals (?ws[s := EMPTY_WAITER]) (set_queue b (w_next (?ws ! s)) (wtail q) ?ch) (ac_set_queue b q c)"
    using rest by (intro chan_rel_set_queue [OF rel(1) ok]) (simp_all add: wchain_other)
qed

definition new_waiter :: "task_id \<Rightarrow> wait_kind \<Rightarrow> waiter" where
  "new_waiter task kind = \<lparr>w_task = Some task, w_next = NONE, w_kind = kind\<rparr>"

lemma push_waiter_eq:
  assumes i: "i < length (ca_channels a)" and ws: "length (ca_waiters a) \<le> NONE"
    and rel: "chan_rel vals (ca_waiters a) (ca_channels a ! i) c" "distinct (ac_slots c)"
    and slot: "slot < length (ca_waiters a)" "w_task (ca_waiters a ! slot) = None" "slot \<notin> set (ac_slots c)"
    and ok: "ac_ok (ac_set_queue b (ac_queue b c @ [(slot, task, kind)]) c)"
  obtains ch' ws' where "sseq (install_waiter slot task kind) (sseq (push_waiter i slot b) (sret x)) a =
      (Inr x, a\<lparr>ca_channels := (ca_channels a)[i := ch'], ca_waiters := ws'\<rparr>)"
    "chan_rel vals ws' ch' (ac_set_queue b (ac_queue b c @ [(slot, task, kind)]) c)"
    "ch_values_start ch' = ch_values_start (ca_channels a ! i)" "ch_capacity ch' = ch_capacity (ca_channels a ! i)"
    "length ws' = length (ca_waiters a)" "\<And>s. s \<notin> set (ac_slots c) \<Longrightarrow> s \<noteq> slot \<Longrightarrow> ws' ! s = ca_waiters a ! s"
    "\<And>s. s \<noteq> slot \<Longrightarrow> w_task (ws' ! s) = w_task (ca_waiters a ! s)" "w_task (ws' ! slot) \<noteq> None"
proof -
  let ?ws = "ca_waiters a" and ?ch = "ca_channels a ! i" and ?q = "ac_queue b c"
  let ?ws1 = "?ws[slot := new_waiter task kind]"
  let ?t = "wtail ?q"
  let ?ws2 = "if ?q = [] then ?ws1 else ?ws1[?t := (?ws1 ! ?t)\<lparr>w_next := slot\<rparr>]"
  let ?h = "if ?q = [] then slot else queue_head b ?ch"
  have q: "wchain ?ws (queue_head b ?ch) ?q" "queue_tail b ?ch = ?t" using chan_rel_queue [OF rel(1), of b] by auto
  have new: "slot \<notin> fst ` set ?q" "slot \<notin> fst ` set (ac_queue (\<not> b) c)"
    using slot(3) by (auto simp: ac_slots_queue [of c b])
  have q1: "wchain ?ws1 (queue_head b ?ch) ?q" using q(1) new(1) by (simp add: wchain_other)
  have tail: "?t < length ?ws" "?t \<noteq> slot" "?t \<notin> fst ` set (ac_queue (\<not> b) c)" "?t \<in> set (ac_slots c)" if "?q \<noteq> []"
    using wtail_in [OF that] wchain_slots [OF q(1), of ?t] new(1) rel(2)
    by (auto simp: ac_slots_distinct [of c b] ac_slots_queue [of c b])
  have none: "queue_tail b ?ch = NONE \<longleftrightarrow> ?q = []" using q wtail_NONE [OF ws q(1)] by simp
  have chain: "wchain ?ws2 ?h (?q @ [(slot, task, kind)])"
  proof (cases "?q = []")
    case False
    have "distinct (map fst ?q)" using rel(2) ac_slots_distinct by blast
    with False wchain_snoc [OF q1 False _ new(1)] slot(1) show ?thesis by (simp add: new_waiter_def)
  qed (use slot(1) in \<open>simp add: new_waiter_def\<close>)
  have other: "wchain ?ws2 h' (ac_queue (\<not> b) c)" if "wchain ?ws h' (ac_queue (\<not> b) c)" for h'
    using that new(2) tail(3) by (simp add: wchain_other)
  have "sseq (install_waiter slot task kind) (sseq (push_waiter i slot b) (sret x)) a =
      (Inr x, a\<lparr>ca_channels := (ca_channels a)[i := set_queue b ?h slot ?ch], ca_waiters := ?ws2\<rparr>)"
    using slot(1,2) i none tail(1) q(2)
    by (auto simp: sseq_def sbind_def install_waiter_def push_waiter_def channel_at_def set_channel_def new_waiter_def Let_def
        arena_commute)
  moreover have "chan_rel vals ?ws2 (set_queue b ?h slot ?ch) (ac_set_queue b (?q @ [(slot, task, kind)]) c)"
    using chan_rel_set_queue [OF rel(1) ok chain other] by (simp add: wtail_def)
  ultimately show thesis
    by (rule that) (use slot(1) tail in \<open>auto simp: nth_list_update new_waiter_def\<close>)
qed

subsection \<open>Sending and receiving refine the abstract channels\<close>

definition slot_free :: "nat \<Rightarrow> channel_arena \<Rightarrow> bool" where
  "slot_free slot a \<longleftrightarrow> slot < length (ca_waiters a) \<and> w_task (ca_waiters a ! slot) = None"

lemma channel_index_iff: "channel_index h a = Inr i \<longleftrightarrow> h = int i + 1 \<and> i < ca_channel_count a"
  by (auto simp: channel_index_def)

lemma channel_index_Inl: "channel_index h a = Inl e \<Longrightarrow> e = InvalidHandle"
  by (auto simp: channel_index_def split: if_splits)

lemma install_taken: "\<not> slot_free slot a \<Longrightarrow> sseq (install_waiter slot task kind) m a = (Inl ChannelCorrupt, a)"
  by (auto simp: slot_free_def sseq_def sbind_def install_waiter_def)

text \<open>A waiter is taken out of a queue.\<close>

lemma arena_pop:
  assumes rel: "arena_rel a cs" and i: "i < length cs" and q: "ac_queue b (cs ! i) = (s, t, k) # q"
    and ok: "ac_ok (ac_set_queue b q (cs ! i))"
  obtains a' where "pop_waiter i b a = (Inr (ca_waiters a ! s), a')" "w_task (ca_waiters a ! s) = Some t"
    "w_kind (ca_waiters a ! s) = k" "arena_rel a' (cs[i := ac_set_queue b q (cs ! i)])"
proof -
  let ?c = "cs ! i" and ?ws = "(ca_waiters a)[s := EMPTY_WAITER]"
  let ?ch = "set_queue b (w_next (ca_waiters a ! s)) (wtail q) (ca_channels a ! i)"
  note r = arena_relD [OF rel]
  note g = regions_okD [OF r(1)]
  have n: "i < length (ca_channels a)" using i r(2) g(1) by simp
  note p = pop_waiter_eq [OF n g(3) r(3) [OF i] q r(4) [OF i] ok]
  have slots: "set (ac_slots ?c) = insert s (set (ac_slots (ac_set_queue b q ?c)))"
    using q by (simp add: ac_slots_queue [of _ b])
  have dist: "distinct (ac_slots (ac_set_queue b q ?c)) \<and> s \<notin> set (ac_slots (ac_set_queue b q ?c))"
    using q r(4) [OF i] by (auto simp: ac_slots_distinct [of _ b] ac_slots_queue [of _ b])
  have "arena_rel (a\<lparr>ca_channels := (ca_channels a)[i := ?ch], ca_values := ca_values a, ca_waiters := ?ws\<rparr>)
      (cs[i := ac_set_queue b q ?c])"
  proof (rule arena_step [OF rel i refl, where F = "{}"])
    fix u
    assume u: "u \<in> set (ac_slots ?c) \<union> {}" "u < length ?ws"
    then have "w_task (ca_waiters a ! u) \<noteq> None" using r(6) [of u] i by auto
    with u slots dist p(4) show "w_task (?ws ! u) \<noteq> None \<longleftrightarrow> u \<in> set (ac_slots (ac_set_queue b q ?c))"
      by (auto simp: nth_list_update EMPTY_WAITER_def)
  qed (use p(5) dist slots in \<open>auto simp: nth_list_update\<close>)
  with p show thesis by (intro that) auto
qed

text \<open>A waiter is appended to a queue.\<close>

lemma arena_push:
  assumes rel: "arena_rel a cs" and i: "i < length cs" and free: "slot_free slot a"
    and ok: "ac_ok (ac_set_queue b (ac_queue b (cs ! i) @ [(slot, task, kind)]) (cs ! i))"
  obtains a' where "sseq (install_waiter slot task kind) (sseq (push_waiter i slot b) (sret x)) a = (Inr x, a')"
    "arena_rel a' (cs[i := ac_set_queue b (ac_queue b (cs ! i) @ [(slot, task, kind)]) (cs ! i)])"
proof -
  let ?c = "cs ! i"
  let ?c' = "ac_set_queue b (ac_queue b ?c @ [(slot, task, kind)]) ?c"
  note r = arena_relD [OF rel]
  note g = regions_okD [OF r(1)]
  have n: "i < length (ca_channels a)" using i r(2) g(1) by simp
  have slot: "slot < length (ca_waiters a)" "w_task (ca_waiters a ! slot) = None" using free by (simp_all add: slot_free_def)
  then have new: "slot \<notin> set (ac_slots ?c)" using r(6) [of slot] i by auto
  from push_waiter_eq [OF n g(3) r(3) [OF i] r(4) [OF i] slot new ok] obtain ch' ws' where
    p: "sseq (install_waiter slot task kind) (sseq (push_waiter i slot b) (sret x)) a =
      (Inr x, a\<lparr>ca_channels := (ca_channels a)[i := ch'], ca_waiters := ws'\<rparr>)"
    "chan_rel (ca_values a) ws' ch' ?c'" "ch_values_start ch' = ch_values_start (ca_channels a ! i)"
    "ch_capacity ch' = ch_capacity (ca_channels a ! i)" "length ws' = length (ca_waiters a)"
    and ws: "\<And>s. s \<notin> set (ac_slots ?c) \<Longrightarrow> s \<noteq> slot \<Longrightarrow> ws' ! s = ca_waiters a ! s"
    "\<And>s. s \<noteq> slot \<Longrightarrow> w_task (ws' ! s) = w_task (ca_waiters a ! s)" "w_task (ws' ! slot) \<noteq> None" by metis
  have slots: "set (ac_slots ?c') = insert slot (set (ac_slots ?c))" by (simp add: ac_slots_queue [of _ b])
  have dist: "distinct (ac_slots ?c')"
    using new r(4) [OF i] by (auto simp: ac_slots_distinct [of _ b] ac_slots_queue [of _ b])
  have "arena_rel (a\<lparr>ca_channels := (ca_channels a)[i := ch'], ca_values := ca_values a, ca_waiters := ws'\<rparr>) (cs[i := ?c'])"
  proof (rule arena_step [OF rel i refl, where F = "{slot}"])
    fix u
    assume u: "u \<in> set (ac_slots ?c) \<union> {slot}" "u < length ws'"
    show "w_task (ws' ! u) \<noteq> None \<longleftrightarrow> u \<in> set (ac_slots ?c')"
    proof (cases "u = slot")
      case False
      with u have "w_task (ca_waiters a ! u) \<noteq> None" using r(6) [of u] i p(5) by auto
      with False u ws(2) slots show ?thesis by auto
    qed (use ws(3) slots in simp)
  qed (use p dist slots slot ws(1) in auto)
  with p(1) show thesis by (intro that) auto
qed

text \<open>The ring buffer of a channel grows at its end and shrinks at its front.\<close>

lemma arena_buffer_push:
  assumes rel: "arena_rel a cs" and i: "i < length cs" and room: "ch_len (ca_channels a ! i) < ch_capacity (ca_channels a ! i)"
    and ok: "ac_ok ((cs ! i)\<lparr>ac_buffer := ac_buffer (cs ! i) @ [v]\<rparr>)"
  obtains a' where "\<And>x. (let c = ca_channels a ! i in
      sseq (set_value (ch_values_start c + (ch_head c + ch_len c) mod ch_capacity c) v)
       (sseq (set_channel i (c\<lparr>ch_len := ch_len c + 1\<rparr>)) (sret x))) a = (Inr x, a')"
    "arena_rel a' (cs[i := (cs ! i)\<lparr>ac_buffer := ac_buffer (cs ! i) @ [v]\<rparr>])"
proof -
  let ?c = "ca_channels a ! i"
  let ?k = "(ch_head ?c + ch_len ?c) mod ch_capacity ?c"
  let ?vals = "(ca_values a)[ch_values_start ?c + ?k := v]"
  note r = arena_relD [OF rel]
  note g = regions_okD [OF r(1)]
  have n: "i < length (ca_channels a)" using i r(2) g(1) by simp
  note ch = r(3) [OF i]
  have k: "?k < ch_capacity ?c" using room by simp
  then have at: "ch_values_start ?c + ?k < length (ca_values a)" using g(2) g(4) [of i] i r(2) by simp
  have "ring (\<lambda>j. ?vals ! (ch_values_start ?c + j)) (ch_capacity ?c) (ch_head ?c) (Suc (ch_len ?c)) =
      ring (\<lambda>j. ca_values a ! (ch_values_start ?c + j)) (ch_capacity ?c) (ch_head ?c) (ch_len ?c) @ [v]"
    using room at by (intro ring_push) (auto simp: nth_list_update)
  then have rel': "chan_rel ?vals (ca_waiters a) (?c\<lparr>ch_len := ch_len ?c + 1\<rparr>)
      ((cs ! i)\<lparr>ac_buffer := ac_buffer (cs ! i) @ [v]\<rparr>)"
    using ch ok by (simp add: chan_rel_def)
  have "arena_rel (a\<lparr>ca_channels := (ca_channels a)[i := ?c\<lparr>ch_len := ch_len ?c + 1\<rparr>], ca_values := ?vals,
      ca_waiters := ca_waiters a\<rparr>) (cs[i := (cs ! i)\<lparr>ac_buffer := ac_buffer (cs ! i) @ [v]\<rparr>])"
    by (rule arena_step [OF rel i refl, where F = "{}"])
      (use rel' k r(4) [OF i] r(6) i in \<open>auto simp: nth_list_update ac_slots_def\<close>)
  moreover have "(let c = ca_channels a ! i in
      sseq (set_value (ch_values_start c + (ch_head c + ch_len c) mod ch_capacity c) v)
       (sseq (set_channel i (c\<lparr>ch_len := ch_len c + 1\<rparr>)) (sret x))) a = (Inr x,
       a\<lparr>ca_channels := (ca_channels a)[i := ?c\<lparr>ch_len := ch_len ?c + 1\<rparr>], ca_values := ?vals,
      ca_waiters := ca_waiters a\<rparr>)" for x
    using at by (cases a) (simp add: sseq_def sbind_def set_value_def set_channel_def Let_def)
  ultimately show thesis by (rule that [rotated])
qed

lemma arena_buffer_pop:
  assumes rel: "arena_rel a cs" and i: "i < length cs" and b: "ac_buffer (cs ! i) = v # vs"
    and ok: "ac_ok ((cs ! i)\<lparr>ac_buffer := vs\<rparr>)"
  defines "c1 \<equiv> (ca_channels a ! i)\<lparr>ch_head := (ch_head (ca_channels a ! i) + 1) mod ch_capacity (ca_channels a ! i),
      ch_len := ch_len (ca_channels a ! i) - 1\<rparr>"
  shows "ch_len (ca_channels a ! i) \<noteq> 0"
    "ch_values_start (ca_channels a ! i) + ch_head (ca_channels a ! i) < length (ca_values a)"
    "ca_values a ! (ch_values_start (ca_channels a ! i) + ch_head (ca_channels a ! i)) = v"
    "arena_rel (a\<lparr>ca_channels := (ca_channels a)[i := c1]\<rparr>) (cs[i := (cs ! i)\<lparr>ac_buffer := vs\<rparr>])"
proof -
  let ?c = "ca_channels a ! i"
  note r = arena_relD [OF rel]
  note g = regions_okD [OF r(1)]
  note ch = r(3) [OF i]
  have buf: "ring (\<lambda>j. ca_values a ! (ch_values_start ?c + j)) (ch_capacity ?c) (ch_head ?c) (ch_len ?c) = v # vs"
    and h: "ch_head ?c < ch_capacity ?c" using ch b by (simp_all add: chan_rel_def)
  show len: "ch_len ?c \<noteq> 0" using arg_cong [OF buf, of length] by simp
  show "ch_values_start ?c + ch_head ?c < length (ca_values a)" using h g(2) g(4) [of i] i r(2) by simp
  have "v # vs = ca_values a ! (ch_values_start ?c + ch_head ?c) #
      ring (\<lambda>j. ca_values a ! (ch_values_start ?c + j)) (ch_capacity ?c) ((ch_head ?c + 1) mod ch_capacity ?c) (ch_len ?c - 1)"
    unfolding buf [symmetric] by (rule ring_pop) (use len h in auto)
  then show "ca_values a ! (ch_values_start ?c + ch_head ?c) = v"
    and vs: "arena_rel (a\<lparr>ca_channels := (ca_channels a)[i := c1]\<rparr>) (cs[i := (cs ! i)\<lparr>ac_buffer := vs\<rparr>])"
  proof -
    assume eq: "v # vs = ca_values a ! (ch_values_start ?c + ch_head ?c) #
      ring (\<lambda>j. ca_values a ! (ch_values_start ?c + j)) (ch_capacity ?c) ((ch_head ?c + 1) mod ch_capacity ?c) (ch_len ?c - 1)"
    then show "ca_values a ! (ch_values_start ?c + ch_head ?c) = v" by simp
    have rel': "chan_rel (ca_values a) (ca_waiters a) c1 ((cs ! i)\<lparr>ac_buffer := vs\<rparr>)"
      using ch ok eq h by (simp add: chan_rel_def c1_def)
    have "arena_rel (a\<lparr>ca_channels := (ca_channels a)[i := c1], ca_values := ca_values a, ca_waiters := ca_waiters a\<rparr>)
        (cs[i := (cs ! i)\<lparr>ac_buffer := vs\<rparr>])"
      by (rule arena_step [OF rel i refl, where F = "{}"])
        (use rel' r(4) [OF i] r(6) i in \<open>auto simp: c1_def ac_slots_def\<close>)
    then show "arena_rel (a\<lparr>ca_channels := (ca_channels a)[i := c1]\<rparr>) (cs[i := (cs ! i)\<lparr>ac_buffer := vs\<rparr>])" by simp
  qed
qed

lemma ac_okD:
  assumes "ac_ok c"
  shows "length (ac_buffer c) \<le> ac_capacity c"
    "ac_senders c = (s, t, k) # q \<Longrightarrow> \<exists>v r. k = WkSend v r" "ac_receivers c = (s, t, k) # q \<Longrightarrow> \<exists>d r. k = WkReceive d r"
  using assms by (auto simp: ac_ok_def)

lemma ac_ok_step:
  assumes "ac_ok c"
  shows "ac_ok (snd (spec_send slot task v r c))" "ac_ok (snd (spec_receive slot task d r c))"
    "ac_buffer c = x # xs \<Longrightarrow> ac_ok (c\<lparr>ac_buffer := xs\<rparr>)"
    "ac_buffer c = x # xs \<Longrightarrow> ac_senders c = w # ws \<Longrightarrow> ac_ok (c\<lparr>ac_buffer := xs, ac_senders := ws\<rparr>)"
  using assms by (auto simp: ac_ok_def spec_send_def spec_receive_def split: list.splits wait_kind.splits)

definition send_outcome :: "nat \<Rightarrow> task_id \<Rightarrow> i32 \<Rightarrow> nat \<Rightarrow> achannel \<Rightarrow> channel_arena \<Rightarrow> channel_error + send_result" where
  "send_outcome slot task v r c a =
     (if fst (spec_send slot task v r c) = SendSuspend \<and> \<not> slot_free slot a then Inl ChannelCorrupt
      else Inr (fst (spec_send slot task v r c)))"

definition receive_outcome :: "nat \<Rightarrow> task_id \<Rightarrow> nat \<Rightarrow> nat \<Rightarrow> achannel \<Rightarrow> channel_arena \<Rightarrow> channel_error + receive_result" where
  "receive_outcome slot task d r c a =
     (if fst (spec_receive slot task d r c) = ReceiveSuspend \<and> \<not> slot_free slot a then Inl ChannelCorrupt
      else Inr (fst (spec_receive slot task d r c)))"

text \<open>What the code reads of a channel to decide.\<close>

lemma arena_view:
  assumes rel: "arena_rel a cs" and i: "i < length cs"
  shows "channel_at i a = Inr (ca_channels a ! i)" "ch_len (ca_channels a ! i) = length (ac_buffer (cs ! i))"
    "ch_capacity (ca_channels a ! i) = ac_capacity (cs ! i)" "ac_ok (cs ! i)"
    "ch_receive_head (ca_channels a ! i) = NONE \<longleftrightarrow> ac_receivers (cs ! i) = []"
    "ch_send_head (ca_channels a ! i) = NONE \<longleftrightarrow> ac_senders (cs ! i) = []"
proof -
  note r = arena_relD [OF rel]
  note g = regions_okD [OF r(1)]
  show "channel_at i a = Inr (ca_channels a ! i)" using i r(2) g(1) by (simp add: channel_at_def)
  show "ch_len (ca_channels a ! i) = length (ac_buffer (cs ! i))" "ac_ok (cs ! i)"
    "ch_capacity (ca_channels a ! i) = ac_capacity (cs ! i)" using r(3) [OF i] by (simp_all add: chan_rel_def)
  show "ch_receive_head (ca_channels a ! i) = NONE \<longleftrightarrow> ac_receivers (cs ! i) = []"
    "ch_send_head (ca_channels a ! i) = NONE \<longleftrightarrow> ac_senders (cs ! i) = []"
    using r(3) [OF i] g(3) wchain_head [of "ca_waiters a"] by (simp_all add: chan_rel_def)
qed

lemma channel_send_refines:
  assumes rel: "arena_rel a cs" and i: "channel_index h a = Inr i"
  shows "\<exists>a'. channel_send h slot task v r a = (send_outcome slot task v r (cs ! i) a, a') \<and>
    arena_rel a' (if is_ok (send_outcome slot task v r (cs ! i) a)
      then cs[i := snd (spec_send slot task v r (cs ! i))] else cs)"
proof -
  have n: "i < length cs" using i arena_relD(2) [OF rel] by (simp add: channel_index_iff)
  note view = arena_view [OF rel n]
  let ?c = "cs ! i"
  show ?thesis
  proof (cases "ac_receivers ?c")
    case (Cons x rest)
    obtain s t k where x: "x = (s, t, k)" by (cases x)
    with ac_okD(3) [OF view(4)] Cons obtain d r' where k: "k = WkReceive d r'" by blast
    have spec: "spec_send slot task v r ?c = (WakeReceiver t d r', ac_set_queue False rest ?c)"
      using Cons x k by (simp add: spec_send_def ac_set_queue_def)
    have ok: "ac_ok (ac_set_queue False rest ?c)" using ac_ok_step(1) [OF view(4), of slot task v r] spec by simp
    have q: "ac_queue False ?c = (s, t, k) # rest" using Cons x by (simp add: ac_queue_def)
    from arena_pop [OF rel n q ok] obtain a' where a': "pop_waiter i False a = (Inr (ca_waiters a ! s), a')"
      "w_task (ca_waiters a ! s) = Some t" "w_kind (ca_waiters a ! s) = k" "arena_rel a' (cs[i := ac_set_queue False rest ?c])"
      by blast
    then have "channel_send h slot task v r a = (Inr (WakeReceiver t d r'), a')"
      using i view(1,5) Cons k by (simp add: channel_send_def sbind_def)
    with a'(4) spec show ?thesis by (simp add: send_outcome_def)
  next
    case Nil
    show ?thesis
    proof (cases "length (ac_buffer ?c) < ac_capacity ?c")
      case True
      have spec: "spec_send slot task v r ?c = (SendComplete, ?c\<lparr>ac_buffer := ac_buffer ?c @ [v]\<rparr>)"
        using Nil True by (simp add: spec_send_def)
      have ok: "ac_ok (?c\<lparr>ac_buffer := ac_buffer ?c @ [v]\<rparr>)" using ac_ok_step(1) [OF view(4), of slot task v r] spec by simp
      have "ch_len (ca_channels a ! i) < ch_capacity (ca_channels a ! i)" using True view(2,3) by simp
      from arena_buffer_push [OF rel n this ok] obtain a' where
        a': "\<And>x. (let c = ca_channels a ! i in
          sseq (set_value (ch_values_start c + (ch_head c + ch_len c) mod ch_capacity c) v)
           (sseq (set_channel i (c\<lparr>ch_len := ch_len c + 1\<rparr>)) (sret x))) a = (Inr (x :: send_result), a')"
        "arena_rel a' (cs[i := ?c\<lparr>ac_buffer := ac_buffer ?c @ [v]\<rparr>])" by blast
      then have "channel_send h slot task v r a = (Inr SendComplete, a')"
        using i view(1,2,3,5) Nil True by (simp add: channel_send_def sbind_def [of "sread _"] Let_def)
      with a'(2) spec show ?thesis by (simp add: send_outcome_def)
    next
      case False
      let ?c' = "ac_set_queue True (ac_queue True ?c @ [(slot, task, WkSend v r)]) ?c"
      have spec: "spec_send slot task v r ?c = (SendSuspend, ?c')"
        using Nil False by (simp add: spec_send_def ac_set_queue_def ac_queue_def)
      have step: "channel_send h slot task v r a =
          sseq (install_waiter slot task (WkSend v r)) (sseq (push_waiter i slot True) (sret SendSuspend)) a"
        using i view(1,2,3,5) Nil False by (simp add: channel_send_def sbind_def [of "sread _"])
      show ?thesis
      proof (cases "slot_free slot a")
        case True
        have ok: "ac_ok ?c'" using ac_ok_step(1) [OF view(4), of slot task v r] spec by simp
        from arena_push [OF rel n True ok, of SendSuspend] step spec True show ?thesis
          by (auto simp: send_outcome_def)
      next
        case False
        then have "channel_send h slot task v r a = (Inl ChannelCorrupt, a)" unfolding step by (rule install_taken)
        with False spec rel show ?thesis by (simp add: send_outcome_def)
      qed
    qed
  qed
qed

lemma achannel_commute: "c\<lparr>ac_senders := q, ac_buffer := b\<rparr> = c\<lparr>ac_buffer := b, ac_senders := q\<rparr>"
  by (cases c) simp

lemma sseq_set_channel: "sseq (set_channel i c) m a = m (a\<lparr>ca_channels := (ca_channels a)[i := c]\<rparr>)"
  by (simp add: sseq_def sbind_def set_channel_def)

lemma sbind_const: "sbind (sread (\<lambda>_. Inr t)) f = f t"
  by (rule ext) (simp add: sbind_def)

lemma channel_receive_refines:
  assumes rel: "arena_rel a cs" and i: "channel_index h a = Inr i"
  shows "\<exists>a'. channel_receive h slot task d r a = (receive_outcome slot task d r (cs ! i) a, a') \<and>
    arena_rel a' (if is_ok (receive_outcome slot task d r (cs ! i) a)
      then cs[i := snd (spec_receive slot task d r (cs ! i))] else cs)"
proof -
  have n: "i < length cs" using i arena_relD(2) [OF rel] by (simp add: channel_index_iff)
  note view = arena_view [OF rel n]
  let ?c = "cs ! i" and ?ch = "ca_channels a ! i"
  show ?thesis
  proof (cases "ac_buffer ?c")
    case (Cons v vs)
    let ?c1 = "?ch\<lparr>ch_head := (ch_head ?ch + 1) mod ch_capacity ?ch, ch_len := ch_len ?ch - 1\<rparr>"
    let ?a1 = "a\<lparr>ca_channels := (ca_channels a)[i := ?c1]\<rparr>" and ?cs1 = "cs[i := ?c\<lparr>ac_buffer := vs\<rparr>]"
    note pop = arena_buffer_pop [OF rel n Cons ac_ok_step(3) [OF view(4) Cons]]
    have n1: "i < length ?cs1" using n by simp
    show ?thesis
    proof (cases "ac_senders ?c")
      case Nil
      then have "channel_receive h slot task d r a = (Inr (ReceiveValue v None), ?a1)"
        using i view(1,6) pop(1-3) by (simp add: channel_receive_def sbind_def sseq_def set_channel_def Let_def)
      with pop(4) Nil Cons show ?thesis by (simp add: receive_outcome_def spec_receive_def)
    next
      case (Cons x rest)
      note buffer = \<open>ac_buffer ?c = v # vs\<close>
      obtain s t k where x: "x = (s, t, k)" by (cases x)
      with ac_okD(2) [OF view(4)] Cons obtain w r' where k: "k = WkSend w r'" by blast
      have q: "ac_queue True (?cs1 ! i) = (s, t, k) # rest" using Cons x n by (simp add: ac_queue_def)
      let ?c2 = "ac_set_queue True rest (?cs1 ! i)"
      have c2: "?c2 = ?c\<lparr>ac_buffer := vs, ac_senders := rest\<rparr>" using n by (simp add: ac_set_queue_def)
      have ok2: "ac_ok ?c2" unfolding c2 by (rule ac_ok_step(4) [OF view(4) buffer Cons])
      from arena_pop [OF pop(4) n1 q ok2] obtain a2 where
        a2: "pop_waiter i True ?a1 = (Inr (ca_waiters ?a1 ! s), a2)" "w_task (ca_waiters ?a1 ! s) = Some t"
        "w_kind (ca_waiters ?a1 ! s) = k" "arena_rel a2 (?cs1[i := ?c2])" by blast
      let ?cs2 = "?cs1[i := ?c2]"
      have n2: "i < length ?cs2" using n by simp
      note view2 = arena_view [OF a2(4) n2]
      have at2: "?cs2 ! i = ?c\<lparr>ac_buffer := vs, ac_senders := rest\<rparr>" using n c2 by simp
      have spec: "spec_receive slot task d r ?c =
          (ReceiveValue v (Some (t, r')), ?c\<lparr>ac_buffer := vs @ [w], ac_senders := rest\<rparr>)"
        using buffer Cons x k by (simp add: spec_receive_def)
      have ok3: "ac_ok ((?cs2 ! i)\<lparr>ac_buffer := ac_buffer (?cs2 ! i) @ [w]\<rparr>)"
        using ac_ok_step(2) [OF view(4), of slot task d r] spec unfolding at2 by (simp add: achannel_commute)
      have room: "ch_len (ca_channels a2 ! i) < ch_capacity (ca_channels a2 ! i)"
        using view2(2,3) at2 buffer ac_okD(1) [OF view(4)] by simp
      from arena_buffer_push [OF a2(4) n2 room ok3] obtain a3 where
        a3: "\<And>x. (let c = ca_channels a2 ! i in
          sseq (set_value (ch_values_start c + (ch_head c + ch_len c) mod ch_capacity c) w)
           (sseq (set_channel i (c\<lparr>ch_len := ch_len c + 1\<rparr>)) (sret x))) a2 = (Inr (x :: receive_result), a3)"
        "arena_rel a3 (?cs2[i := (?cs2 ! i)\<lparr>ac_buffer := ac_buffer (?cs2 ! i) @ [w]\<rparr>])" by blast
      have "arena_rel a3 (cs[i := ?c\<lparr>ac_buffer := vs @ [w], ac_senders := rest\<rparr>])"
        using a3(2) unfolding at2 by (simp add: achannel_commute)
      moreover have "channel_receive h slot task d r a = (Inr (ReceiveValue v (Some (t, r'))), a3)"
      proof -
        have "channel_receive h slot task d r a = sbind (pop_waiter i True) (\<lambda>w.
           (case w_kind w of
              WkSend sent resume \<Rightarrow>
                sbind (sread (channel_at i)) (\<lambda>c2.
                sseq (set_value (ch_values_start c2 + (ch_head c2 + ch_len c2) mod ch_capacity c2) sent)
                (sseq (set_channel i (c2\<lparr>ch_len := ch_len c2 + 1\<rparr>))
                (sbind (sread (\<lambda>_. ok_or (w_task w) ChannelCorrupt)) (\<lambda>t.
                 sret (ReceiveValue v (Some (t, resume)))))))
            | _ \<Rightarrow> sfail ChannelCorrupt)) ?a1"
          using i view(1,6) pop(1-3) Cons
          by (simp add: channel_receive_def sbind_def [of "sread _"] sseq_set_channel Let_def)
        also have "\<dots> = (Inr (ReceiveValue v (Some (t, r'))), a3)"
          using a2(1-3) k view2(1) a3(1) [of "ReceiveValue v (Some (t, r'))"]
          by (simp add: sbind_def [of "pop_waiter _ _"] sbind_const sbind_def [of "sread (channel_at _)"] Let_def sret_Pair)
        finally show ?thesis .
      qed
      ultimately show ?thesis using spec by (simp add: receive_outcome_def)
    qed
  next
    case Nil
    let ?c' = "ac_set_queue False (ac_queue False ?c @ [(slot, task, WkReceive d r)]) ?c"
    have spec: "spec_receive slot task d r ?c = (ReceiveSuspend, ?c')"
      using Nil by (simp add: spec_receive_def ac_set_queue_def ac_queue_def)
    have step: "channel_receive h slot task d r a =
        sseq (install_waiter slot task (WkReceive d r)) (sseq (push_waiter i slot False) (sret ReceiveSuspend)) a"
      using i view(1,2) Nil by (simp add: channel_receive_def sbind_def [of "sread _"])
    show ?thesis
    proof (cases "slot_free slot a")
      case True
      have ok: "ac_ok ?c'" using ac_ok_step(2) [OF view(4), of slot task d r] spec by simp
      from arena_push [OF rel n True ok, of ReceiveSuspend] step spec True show ?thesis
        by (auto simp: receive_outcome_def)
    next
      case False
      then have "channel_receive h slot task d r a = (Inl ChannelCorrupt, a)" unfolding step by (rule install_taken)
      with False spec rel show ?thesis by (simp add: receive_outcome_def)
    qed
  qed
qed

lemma channel_create_refines:
  assumes rel: "arena_rel a cs" and run: "channel_create capacity a = (x, a')"
  shows "x \<noteq> Inl ChannelPanicked \<and> (a' = a \<and> \<not> is_ok x \<or>
    arena_rel a' (cs @ [\<lparr>ac_capacity = nat capacity, ac_buffer = [], ac_senders = [], ac_receivers = []\<rparr>]) \<and>
    0 < nat capacity \<and> (\<forall>h. x = Inr h \<longrightarrow> h = int (length cs) + 1))"
proof (cases "0 < capacity \<and> ca_channel_count a < length (ca_channels a) \<and>
    ca_value_count a + nat capacity \<le> length (ca_values a) \<and> ca_value_count a + nat capacity < 2 ^ 64")
  case False
  then have "a' = a \<and> \<not> is_ok x \<and> x \<noteq> Inl ChannelPanicked"
    using run regions_okD(1) [OF arena_relD(1) [OF rel]]
    by (auto simp: channel_create_def Let_def checked_add_def split: if_splits option.splits)
  then show ?thesis by blast
next
  case True
  let ?n = "ca_channel_count a"
  let ?new = "EMPTY_CHANNEL\<lparr>ch_values_start := ca_value_count a, ch_capacity := nat capacity\<rparr>"
  let ?c = "\<lparr>ac_capacity = nat capacity, ac_buffer = [], ac_senders = [], ac_receivers = []\<rparr>"
  let ?a = "a\<lparr>ca_channels := (ca_channels a)[?n := ?new], ca_channel_count := ?n + 1,
    ca_value_count := ca_value_count a + nat capacity\<rparr>"
  note r = arena_relD [OF rel]
  note g = regions_okD [OF r(1)]
  have x: "a' = ?a" "x = (if I32_MAX < ?n + 1 then Inl ChannelFull else Inr (int (?n + 1)))"
    using run True by (auto simp: channel_create_def Let_def checked_add_def not_less split: if_splits)
  have regions: "regions_ok ?a"
    unfolding regions_ok_def
  proof (intro conjI allI impI)
    fix j i
    assume "j < ca_channel_count ?a" "i < j"
    then show "ch_values_start (ca_channels ?a ! i) + ch_capacity (ca_channels ?a ! i) \<le> ch_values_start (ca_channels ?a ! j)"
      using g(5) [of j i] g(4) [of i] True by (cases "j = ?n") (auto simp: nth_list_update)
  next
    fix i
    assume "i < ca_channel_count ?a"
    then show "ch_values_start (ca_channels ?a ! i) + ch_capacity (ca_channels ?a ! i) \<le> ca_value_count ?a"
      using g(4) [of i] True by (cases "i = ?n") (auto simp: nth_list_update)
  qed (use True g in auto)
  have new: "chan_rel (ca_values a) (ca_waiters a) ?new ?c"
    using True by (simp add: chan_rel_def ac_ok_def EMPTY_CHANNEL_def wtail_def)
  have chans: "chan_rel (ca_values ?a) (ca_waiters ?a) (ca_channels ?a ! j) ((cs @ [?c]) ! j)" if "j < length (cs @ [?c])" for j
    using that r(2) r(3) [of j] new True by (cases "j = length cs") (auto simp: nth_append nth_list_update)
  have slots: "ac_slots ((cs @ [?c]) ! j) = (if j < length cs then ac_slots (cs ! j) else [])" if "j < length (cs @ [?c])" for j
    using that by (auto simp: nth_append ac_slots_def less_Suc_eq)
  have dist: "distinct (ac_slots ((cs @ [?c]) ! j))" if "j < length (cs @ [?c])" for j
    using slots [OF that] r(4) [of j] by simp
  have disj: "set (ac_slots ((cs @ [?c]) ! i)) \<inter> set (ac_slots ((cs @ [?c]) ! j)) = {}"
    if "i < length (cs @ [?c])" "j < length (cs @ [?c])" "i \<noteq> j" for i j
    using slots [OF that(1)] slots [OF that(2)] r(5) [OF _ _ that(3)] by auto
  have occ: "w_task (ca_waiters a ! u) \<noteq> None \<longleftrightarrow> (\<exists>i<length (cs @ [?c]). u \<in> set (ac_slots ((cs @ [?c]) ! i)))"
    if "u < length (ca_waiters a)" for u
  proof -
    have "(\<exists>i<length (cs @ [?c]). u \<in> set (ac_slots ((cs @ [?c]) ! i))) \<longleftrightarrow> (\<exists>i<length cs. u \<in> set (ac_slots (cs ! i)))"
      by (auto simp: nth_append ac_slots_def less_Suc_eq)
    with r(6) [OF that] show ?thesis by simp
  qed
  have "arena_rel ?a (cs @ [?c])"
    unfolding arena_rel_def using regions chans dist disj occ r(2) by (simp del: nth_append)
  with x True r(2) show ?thesis by auto
qed

subsection \<open>Every run of an arena\<close>

definition sent_by :: "int \<Rightarrow> i32 \<Rightarrow> channel_error + send_result \<Rightarrow> (int \<times> i32) list" where
  "sent_by h v x = (if is_ok x then [(h, v)] else [])"

definition handed_over :: "int \<Rightarrow> i32 \<Rightarrow> channel_error + send_result \<Rightarrow> (int \<times> i32) list" where
  "handed_over h v x = (case x of Inr (WakeReceiver _ _ _) \<Rightarrow> [(h, v)] | _ \<Rightarrow> [])"

definition received :: "int \<Rightarrow> channel_error + receive_result \<Rightarrow> (int \<times> i32) list" where
  "received h x = (case x of Inr (ReceiveValue v _) \<Rightarrow> [(h, v)] | _ \<Rightarrow> [])"

text \<open>Any sequence of calls, with a log of the values that senders were told are on their way and a log of
  the values handed to receivers.\<close>

inductive arena_run :: "nat \<Rightarrow> nat \<Rightarrow> nat \<Rightarrow> channel_arena \<Rightarrow> (int \<times> i32) list \<Rightarrow> (int \<times> i32) list \<Rightarrow> bool"
  for channels vals tasks
where
  run_new: "arena_run channels vals tasks (arena_new channels vals tasks) [] []"
| run_create: "arena_run channels vals tasks a sent got \<Longrightarrow> channel_create capacity a = (x, a') \<Longrightarrow>
    arena_run channels vals tasks a' sent got"
| run_send: "arena_run channels vals tasks a sent got \<Longrightarrow> channel_send h slot task v r a = (y, a') \<Longrightarrow>
    arena_run channels vals tasks a' (sent @ sent_by h v y) (got @ handed_over h v y)"
| run_receive: "arena_run channels vals tasks a sent got \<Longrightarrow> channel_receive h slot task d r a = (z, a') \<Longrightarrow>
    arena_run channels vals tasks a' sent (got @ received h z)"

definition values_on :: "int \<Rightarrow> (int \<times> i32) list \<Rightarrow> i32 list" where
  "values_on h log = map snd (filter (\<lambda>(k, _). k = h) log)"

lemma values_on_append [simp]: "values_on h (xs @ ys) = values_on h xs @ values_on h ys"
  by (simp add: values_on_def)

lemma values_on_simps [simp]: "values_on h [] = []" "values_on h [(k, v)] = (if k = h then [v] else [])"
  by (simp_all add: values_on_def)

definition sender_value :: "waiting \<Rightarrow> i32" where
  "sender_value w = (case snd (snd w) of WkSend v _ \<Rightarrow> v | _ \<Rightarrow> 0)"

definition ac_pending :: "achannel \<Rightarrow> i32 list" where
  "ac_pending c = ac_buffer c @ map sender_value (ac_senders c)"

text \<open>Senders wait only at a full buffer, receivers only at an empty one.\<close>

definition ac_calm :: "achannel \<Rightarrow> bool" where
  "ac_calm c \<longleftrightarrow> 0 < ac_capacity c \<and> (ac_senders c \<noteq> [] \<longrightarrow> length (ac_buffer c) = ac_capacity c) \<and>
     (ac_receivers c \<noteq> [] \<longrightarrow> ac_buffer c = [])"

lemma spec_send_flow:
  assumes ok: "ac_ok c" "ac_calm c" and spec: "spec_send slot task v r c = (res, c')"
  shows "ac_calm c' \<and> ac_pending c @ [v] = values_on h (handed_over h v (Inr res)) @ ac_pending c'"
proof (cases "ac_receivers c")
  case (Cons x rest)
  obtain s t k where x: "x = (s, t, k)" by (cases x)
  with ac_okD(3) [OF ok(1)] Cons obtain d r' where "k = WkReceive d r'" by blast
  with Cons x spec ok(2) show ?thesis
    by (auto simp: spec_send_def ac_calm_def ac_pending_def handed_over_def)
next
  case Nil
  with spec ok show ?thesis
    by (auto simp: spec_send_def ac_calm_def ac_pending_def handed_over_def sender_value_def ac_ok_def
        split: if_splits)
qed

lemma spec_receive_flow:
  assumes ok: "ac_ok c" "ac_calm c" and spec: "spec_receive slot task d r c = (res, c')"
  shows "ac_calm c' \<and> ac_pending c = values_on h (received h (Inr res)) @ ac_pending c'"
proof (cases "ac_senders c")
  case (Cons x rest)
  obtain s t k where x: "x = (s, t, k)" by (cases x)
  with ac_okD(2) [OF ok(1)] Cons obtain w r' where "k = WkSend w r'" by blast
  with Cons x spec ok show ?thesis
    by (auto simp: spec_receive_def ac_calm_def ac_pending_def received_def sender_value_def ac_ok_def split: list.splits)
next
  case Nil
  with spec ok show ?thesis
    by (auto simp: spec_receive_def ac_calm_def ac_pending_def received_def split: list.splits)
qed

definition flow_ok :: "channel_arena \<Rightarrow> (int \<times> i32) list \<Rightarrow> (int \<times> i32) list \<Rightarrow> achannel list \<Rightarrow> bool" where
  "flow_ok a sent got cs \<longleftrightarrow> arena_rel a cs \<and> (\<forall>c\<in>set cs. ac_calm c) \<and>
     (\<forall>i<length cs. values_on (int i + 1) sent = values_on (int i + 1) got @ ac_pending (cs ! i)) \<and>
     (\<forall>h. (\<forall>i<length cs. h \<noteq> int i + 1) \<longrightarrow> values_on h sent = [] \<and> values_on h got = [])"

lemma flow_okD:
  assumes "flow_ok a sent got cs"
  shows "arena_rel a cs" "i < length cs \<Longrightarrow> ac_calm (cs ! i)"
    "i < length cs \<Longrightarrow> values_on (int i + 1) sent = values_on (int i + 1) got @ ac_pending (cs ! i)"
    "(\<And>i. i < length cs \<Longrightarrow> h \<noteq> int i + 1) \<Longrightarrow> values_on h sent = []"
    "(\<And>i. i < length cs \<Longrightarrow> h \<noteq> int i + 1) \<Longrightarrow> values_on h got = []"
  using assms unfolding flow_ok_def by auto

text \<open>A step on channel \<open>i\<close> that keeps its flow keeps the flow of all.\<close>

lemma flow_ok_step:
  assumes flow: "flow_ok a sent got cs" and rel: "arena_rel a' (cs[i := c])" and i: "i < length cs" and calm: "ac_calm c"
    and logs: "\<And>h. h \<noteq> int i + 1 \<Longrightarrow> values_on h s = [] \<and> values_on h g = []"
    and pending: "ac_pending (cs ! i) @ values_on (int i + 1) s = values_on (int i + 1) g @ ac_pending c"
  shows "flow_ok a' (sent @ s) (got @ g) (cs[i := c])"
  unfolding flow_ok_def
proof (intro conjI allI impI ballI)
  fix j
  assume "j < length (cs[i := c])"
  then show "values_on (int j + 1) (sent @ s) = values_on (int j + 1) (got @ g) @ ac_pending (cs[i := c] ! j)"
    using flow_okD(3) [OF flow, of j] pending logs [of "int j + 1"] i by (cases "j = i") auto
next
  fix h
  assume "\<forall>j<length (cs[i := c]). h \<noteq> int j + 1"
  then have h: "h \<noteq> int j + 1" if "j < length cs" for j using that by simp
  with flow_okD(4,5) [OF flow, of h] logs [of h] i
  show "values_on h (sent @ s) = []" "values_on h (got @ g) = []" by auto
next
  fix d
  assume "d \<in> set (cs[i := c])"
  then show "ac_calm d" using set_update_subset_insert [of cs i c] calm flow by (auto simp: flow_ok_def)
qed (rule rel)

lemma arena_new_rel: "tasks \<le> usize_max \<Longrightarrow> arena_rel (arena_new channels vals tasks) []"
  by (simp add: arena_rel_def regions_ok_def arena_new_def EMPTY_WAITER_def)

lemma flow_ok_create:
  assumes flow: "flow_ok a sent got cs" and run: "channel_create capacity a = (x, a')"
  shows "\<exists>cs. flow_ok a' sent got cs"
  using channel_create_refines [OF flow_okD(1) [OF flow] run]
proof (elim conjE disjE)
  assume "a' = a"
  with flow show ?thesis by blast
next
  let ?c = "\<lparr>ac_capacity = nat capacity, ac_buffer = [], ac_senders = [], ac_receivers = []\<rparr>"
  assume rel: "arena_rel a' (cs @ [?c])" and cap: "0 < nat capacity"
  have "flow_ok a' sent got (cs @ [?c])"
    unfolding flow_ok_def
  proof (intro conjI allI impI ballI)
    fix j
    assume "j < length (cs @ [?c])"
    then show "values_on (int j + 1) sent = values_on (int j + 1) got @ ac_pending ((cs @ [?c]) ! j)"
      using flow_okD(3) [OF flow, of j] flow_okD(4,5) [OF flow, of "int j + 1"]
      by (cases "j < length cs") (auto simp: nth_append ac_pending_def)
  next
    fix h
    assume "\<forall>j<length (cs @ [?c]). h \<noteq> int j + 1"
    then have "h \<noteq> int j + 1" if "j < length cs" for j using that by simp
    with flow_okD(4,5) [OF flow, of h] show "values_on h sent = []" "values_on h got = []" by auto
  next
    fix d
    assume "d \<in> set (cs @ [?c])"
    then show "ac_calm d" using flow cap by (auto simp: flow_ok_def ac_calm_def)
  qed (rule rel)
  then show ?thesis by blast
qed

lemma logs_elsewhere:
  "k \<noteq> h \<Longrightarrow> values_on k (sent_by h v x) = [] \<and> values_on k (handed_over h v x) = [] \<and> values_on k (received h y) = []"
  by (auto simp: sent_by_def handed_over_def received_def split: sum.splits send_result.splits receive_result.splits)

lemma logs_failed [simp]:
  "sent_by h v (Inl e) = []" "handed_over h v (Inl e) = []" "received h (Inl e) = []"
  by (simp_all add: sent_by_def handed_over_def received_def)

lemma flow_ok_send:
  assumes flow: "flow_ok a sent got cs" and run: "channel_send h slot task v r a = (x, a')"
  shows "\<exists>cs. flow_ok a' (sent @ sent_by h v x) (got @ handed_over h v x) cs"
proof (cases "channel_index h a")
  case (Inl e)
  with run have "x = Inl e" "a' = a" by (simp_all add: channel_send_def sbind_def)
  with flow show ?thesis by auto
next
  case (Inr i)
  let ?c = "cs ! i"
  note rel = flow_okD(1) [OF flow]
  have i: "h = int i + 1" "i < length cs" using Inr arena_relD(2) [OF rel] by (simp_all add: channel_index_iff)
  from channel_send_refines [OF rel Inr, of slot task v r] run
  have x: "x = send_outcome slot task v r ?c a"
    and a': "arena_rel a' (if is_ok x then cs[i := snd (spec_send slot task v r ?c)] else cs)" by auto
  show ?thesis
  proof (cases x)
    case (Inl e)
    with a' flow show ?thesis by (auto simp: flow_ok_def)
  next
    case (Inr res)
    then have spec: "spec_send slot task v r ?c = (res, snd (spec_send slot task v r ?c))"
      using x by (auto simp: send_outcome_def prod_eq_iff split: if_splits)
    note f = spec_send_flow [OF arena_view(4) [OF rel i(2)] flow_okD(2) [OF flow i(2)] spec, of h]
    have "values_on h (sent_by h v x) = [v]" using Inr by (simp add: sent_by_def)
    then have "flow_ok a' (sent @ sent_by h v x) (got @ handed_over h v x) (cs[i := snd (spec_send slot task v r ?c)])"
      using a' Inr f i(1) logs_elsewhere [of _ h v x] by (intro flow_ok_step [OF flow _ i(2)]) auto
    then show ?thesis by blast
  qed
qed

lemma flow_ok_receive:
  assumes flow: "flow_ok a sent got cs" and run: "channel_receive h slot task d r a = (x, a')"
  shows "\<exists>cs. flow_ok a' sent (got @ received h x) cs"
proof (cases "channel_index h a")
  case (Inl e)
  with run have "x = Inl e" "a' = a" by (simp_all add: channel_receive_def sbind_def)
  with flow show ?thesis by auto
next
  case (Inr i)
  let ?c = "cs ! i"
  note rel = flow_okD(1) [OF flow]
  have i: "h = int i + 1" "i < length cs" using Inr arena_relD(2) [OF rel] by (simp_all add: channel_index_iff)
  from channel_receive_refines [OF rel Inr, of slot task d r] run
  have x: "x = receive_outcome slot task d r ?c a"
    and a': "arena_rel a' (if is_ok x then cs[i := snd (spec_receive slot task d r ?c)] else cs)" by auto
  show ?thesis
  proof (cases x)
    case (Inl e)
    with a' flow show ?thesis by (auto simp: flow_ok_def)
  next
    case (Inr res)
    then have spec: "spec_receive slot task d r ?c = (res, snd (spec_receive slot task d r ?c))"
      using x by (auto simp: receive_outcome_def prod_eq_iff split: if_splits)
    note f = spec_receive_flow [OF arena_view(4) [OF rel i(2)] flow_okD(2) [OF flow i(2)] spec, of h]
    have "flow_ok a' (sent @ []) (got @ received h x) (cs[i := snd (spec_receive slot task d r ?c)])"
      using a' Inr f i(1) logs_elsewhere [of _ h _ _ x] by (intro flow_ok_step [OF flow _ i(2)]) auto
    then show ?thesis by auto
  qed
qed

lemma arena_run_flow:
  assumes "arena_run channels vals tasks a sent got" "tasks \<le> usize_max"
  shows "\<exists>cs. flow_ok a sent got cs"
  using assms
proof (induction rule: arena_run.induct)
  case run_new
  then show ?case by (intro exI [of _ "[]"]) (simp add: flow_ok_def arena_new_rel)
qed (metis flow_ok_create flow_ok_send flow_ok_receive)+

subsection \<open>Properties\<close>

text \<open>
  C19. In every arena that calls can produce, sending and receiving through the shared value array, the ring
  indices and the waiter chains behave as an unbounded-memory channel would: a receiver that waits is served
  first, then the buffer is used, then the sender is queued; a receive takes the oldest value and lets the
  first waiting sender in. The only failure on a valid handle is a waiter slot that is not free
  (taken, or outside the table) when the task has to wait, which changes nothing.
\<close>

theorem channel_ops_refine:
  assumes "arena_run channels vals tasks a sent got" "tasks \<le> usize_max"
  shows "\<exists>cs. arena_rel a cs \<and> (\<forall>h i slot task x r. channel_index h a = Inr i \<longrightarrow>
    (\<exists>a'. channel_send h slot task x r a = (send_outcome slot task x r (cs ! i) a, a') \<and>
      arena_rel a' (if is_ok (send_outcome slot task x r (cs ! i) a)
        then cs[i := snd (spec_send slot task x r (cs ! i))] else cs)) \<and>
    (\<forall>d. \<exists>a'. channel_receive h slot task d r a = (receive_outcome slot task d r (cs ! i) a, a') \<and>
      arena_rel a' (if is_ok (receive_outcome slot task d r (cs ! i) a)
        then cs[i := snd (spec_receive slot task d r (cs ! i))] else cs)))"
proof -
  from arena_run_flow [OF assms] obtain cs where "arena_rel a cs" using flow_okD(1) by blast
  then show ?thesis using channel_send_refines channel_receive_refines by (intro exI [of _ cs]) blast
qed

lemma run_one_channel: "arena_run 1 2 1 (snd (channel_create 2 (arena_new 1 2 1))) [] []"
  by (rule run_create [OF run_new]) (simp add: prod_eq_iff)

theorem channel_ops_refine_witness:
  "\<exists>cs. arena_rel (snd (channel_create 2 (arena_new 1 2 1))) cs"
  using channel_ops_refine [OF run_one_channel] unfolding usize_max_def by fastforce

text \<open>
  C20. Channels lose, duplicate and reorder nothing: after any calls, what was sent on a channel is what its
  receivers got, followed by what is buffered and by the values of the senders that wait, in order. Nothing
  is ever delivered on a handle that is not a channel.
\<close>

theorem channel_fifo:
  assumes "arena_run channels vals tasks a sent got" "tasks \<le> usize_max"
  shows "\<exists>cs. arena_rel a cs \<and>
    (\<forall>i<length cs. values_on (int i + 1) sent = values_on (int i + 1) got @ ac_buffer (cs ! i) @ map sender_value (ac_senders (cs ! i))) \<and>
    (\<forall>h. (\<forall>i<length cs. h \<noteq> int i + 1) \<longrightarrow> values_on h got = [])"
  using arena_run_flow [OF assms] unfolding flow_ok_def ac_pending_def by blast

lemma checked_add_64: "checked_add 64 a b = (if a + b < 18446744073709551616 then Some (a + b) else None)"
  by (simp add: checked_add_def)

lemmas chan_eval = arena_new_def channel_create_def EMPTY_CHANNEL_def EMPTY_WAITER_def channel_send_def channel_receive_def
  channel_index_def channel_at_def set_channel_def set_value_def sbind_def sseq_def checked_add_64 Let_def I32_MAX_eval
  numeral_2_eq_2

lemma run_two_values:
  "arena_run 1 2 1 (snd (channel_receive 1 0 1 0 0 (snd (channel_send 1 0 1 8 0 (snd (channel_send 1 0 1 7 0
     (snd (channel_create 2 (arena_new 1 2 1)))))))))  [(1, 7), (1, 8)] [(1, 7)]"
proof -
  let ?a = "snd (channel_create 2 (arena_new 1 2 1))"
  let ?b = "snd (channel_send 1 0 1 7 0 ?a)" and ?c = "snd (channel_send 1 0 1 8 0 (snd (channel_send 1 0 1 7 0 ?a)))"
  have a: "fst (channel_send 1 0 1 7 0 ?a) = Inr SendComplete" "fst (channel_send 1 0 1 8 0 ?b) = Inr SendComplete"
    "fst (channel_receive 1 0 1 0 0 ?c) = Inr (ReceiveValue 7 None)"
    by (simp_all add: chan_eval)
  then have p: "channel_send 1 0 1 7 0 ?a = (Inr SendComplete, ?b)" "channel_send 1 0 1 8 0 ?b = (Inr SendComplete, ?c)"
    "channel_receive 1 0 1 0 0 ?c = (Inr (ReceiveValue 7 None), snd (channel_receive 1 0 1 0 0 ?c))"
    by (simp_all add: prod_eq_iff)
  from run_receive [OF run_send [OF run_send [OF run_one_channel p(1)] p(2)] p(3)] show ?thesis
    by (simp add: sent_by_def handed_over_def received_def)
qed

theorem channel_fifo_witness:
  "\<exists>c::achannel. [7, 8] = [7] @ ac_buffer c @ map sender_value (ac_senders c)"
proof -
  have t: "(1::nat) \<le> usize_max" by (simp add: usize_max_def)
  let ?a = "snd (channel_receive 1 0 1 0 0 (snd (channel_send 1 0 1 8 0 (snd (channel_send 1 0 1 7 0
     (snd (channel_create 2 (arena_new 1 2 1))))))))"
  have n: "ca_channel_count ?a = 1" by (simp add: chan_eval)
  from channel_fifo [OF run_two_values t] obtain cs where cs: "arena_rel ?a cs"
    "\<forall>i<length cs. values_on (int i + 1) [(1, 7), (1, 8)] = values_on (int i + 1) [(1, 7)] @ ac_buffer (cs ! i) @ map sender_value (ac_senders (cs ! i))"
    by blast
  then have "0 < length cs" using arena_relD(2) [OF cs(1)] n by simp
  with cs(2) have "values_on 1 [(1, 7), (1, 8)] = values_on 1 [(1, 7)] @ ac_buffer (cs ! 0) @ map sender_value (ac_senders (cs ! 0))"
    by fastforce
  then show ?thesis by (intro exI [of _ "cs ! 0"]) (simp add: values_on_def)
qed

end
