(* ===== verification/Vm_Layout.thy ===== *)
theory Vm_Layout
  imports Prelude "HOL-Library.Product_Lexorder" "HOL-Library.Multiset"
begin

unbundle bit_operations_syntax

text \<open>
  Layout of managed objects, arrays and strings, the choice of the block header format and the plan of
  the resident storage (\<open>src/src/execution/layout.rs\<close>; the errors of \<open>src/src/execution/error.rs\<close>).
  Sizes and offsets are 32-bit values with checked arithmetic.
\<close>

datatype resident_storage_component =
  HeapArena | HeapAllocator | FrameArena | FrameRecords | TaskSchedulerStorage | Channels | Statics | TypeInitialization
| ExternalRoots | PendingState | MachineFixedState

datatype admission_error =
  CompilerAbiMismatch | PlatformAbiMismatch | MissingCapability nat | HeapLimit nat nat | InvalidHeapSize nat
| FrameStorageLimit nat nat | CallDepthLimit nat nat | CoroutineLimit nat nat | ChannelLimit nat nat | ChannelValueLimit nat nat
| HostRequestLimit nat nat | EventLimit nat nat | SliceLimit nat nat | StoragePlanOverflow
| ResidentStorageOverflow resident_storage_component | AllocationFailed | InvalidEntry | DuplicateCapabilityBinding
| CapabilityOperationCount nat nat nat | CapabilitySchema nat nat | SynchronousCapabilityUnsupported

datatype vm_fault =
  InvalidResolvedId | InvalidValueType | AccountingOverflow | InvalidStoragePlan | CorruptLifecycle | ReachedUnreachable
| UnsupportedInstruction | HandleExhausted | CorruptHeap | InvalidReference | InvalidRootMap

definition BLOCK_HEADER_BYTES :: nat where "BLOCK_HEADER_BYTES = 8"
definition LEGACY_HEAP_HEADER_BYTES :: nat where "LEGACY_HEAP_HEADER_BYTES = 12"
definition INDEXED_HEADER_BYTES :: nat where "INDEXED_HEADER_BYTES = 8"
definition BLOCK_ALIGNMENT :: nat where "BLOCK_ALIGNMENT = 8"
definition MINIMUM_BLOCK_BYTES :: nat where "MINIMUM_BLOCK_BYTES = 16"
definition HEAP_MAXIMUM :: nat where "HEAP_MAXIMUM = 2 ^ 30 - 1"

datatype header_format = Legacy | Compact (size_bits: nat) (link_bits: nat)

text \<open>The number of bits of a number: 64 minus its leading zeros.\<close>

fun bit_length :: "nat \<Rightarrow> nat" where
  "bit_length n = (if n = 0 then 0 else Suc (bit_length (n div 2)))"

declare bit_length.simps [simp del]

definition header_select :: "nat \<Rightarrow> nat \<Rightarrow> header_format" where
  "header_select heap_bytes type_count =
     (if heap_bytes < 32 \<or> heap_bytes mod 16 \<noteq> 0 \<or> HEAP_MAXIMUM < heap_bytes then Legacy
      else
        (let units = heap_bytes div BLOCK_ALIGNMENT;
             size = bit_length units;
             link = bit_length (units - 1) in
         (case checked_sub 64 (3 + size + link) of
            None \<Rightarrow> Legacy
          | Some type_bits \<Rightarrow>
              if type_bits = 0 \<or> 2 ^ type_bits < type_count then Legacy else Compact size link)))"

definition header_bytes :: "header_format \<Rightarrow> nat" where
  "header_bytes f = (case f of Legacy \<Rightarrow> LEGACY_HEAP_HEADER_BYTES | Compact _ _ \<Rightarrow> BLOCK_HEADER_BYTES)"

datatype value_width = WI8 | WI16 | WU8 | WU16 | WBool | WChar | WI32 | WF32 | WI64 | WF64 | WRef

fun width_bytes :: "value_width \<Rightarrow> nat" where
  "width_bytes WBool = 1" | "width_bytes WI8 = 1" | "width_bytes WU8 = 1"
| "width_bytes WChar = 2" | "width_bytes WI16 = 2" | "width_bytes WU16 = 2"
| "width_bytes WI32 = 4" | "width_bytes WF32 = 4" | "width_bytes WRef = 4"
| "width_bytes WI64 = 8" | "width_bytes WF64 = 8"

record field_spec =
  fs_field :: nat
  fs_width :: value_width

record field_layout =
  fl_field :: nat
  fl_width :: value_width
  fl_offset :: nat

record object_layout =
  ol_payload_bytes :: nat
  ol_block_bytes :: nat
  ol_fields :: "field_layout list"
  ol_reference_offsets :: "nat list"

record array_layout =
  al_element_bytes :: nat
  al_length :: nat
  al_payload_bytes :: nat
  al_block_bytes :: nat

datatype string_encoding = Latin1 | Utf16

record string_layout =
  sl_encoding :: string_encoding
  sl_length :: nat
  sl_payload_bytes :: nat
  sl_block_bytes :: nat

definition align_up :: "nat \<Rightarrow> nat \<Rightarrow> admission_error + nat" where
  "align_up v alignment =
     ok_or (map_option (\<lambda>n. unat ((of_nat n :: u32) AND NOT (of_nat (alignment - 1)))) (checked_add 32 v (alignment - 1)))
       StoragePlanOverflow"

definition block_bytes :: "nat \<Rightarrow> header_format \<Rightarrow> admission_error + nat" where
  "block_bytes payload f =
     rbind (ok_or (checked_add 32 (header_bytes f) payload) StoragePlanOverflow) (\<lambda>unaligned.
     rbind (align_up unaligned BLOCK_ALIGNMENT) (\<lambda>size. Inr (max size MINIMUM_BLOCK_BYTES)))"

fun place_fields :: "field_spec list \<Rightarrow> field_layout list \<Rightarrow> nat list \<Rightarrow> nat \<Rightarrow>
    admission_error + field_layout list \<times> nat list \<times> nat" where
  "place_fields [] placed refs offset = Inr (placed, refs, offset)"
| "place_fields (f # fs) placed refs offset =
     rbind (align_up offset (width_bytes (fs_width f))) (\<lambda>offset.
     rbind (ok_or (checked_add 32 offset (width_bytes (fs_width f))) StoragePlanOverflow) (\<lambda>after.
       place_fields fs (placed @ [\<lparr>fl_field = fs_field f, fl_width = fs_width f, fl_offset = offset\<rparr>])
         (if fs_width f = WRef then refs @ [offset] else refs) after))"

definition ordered_fields :: "field_spec list \<Rightarrow> field_spec list" where
  "ordered_fields declared =
     map snd (sort_key (\<lambda>(declaration, f). (- int (width_bytes (fs_width f)), declaration)) (zip [0..<length declared] declared))"

definition object_layout_of :: "object_layout option \<Rightarrow> field_spec list \<Rightarrow> header_format \<Rightarrow> admission_error + object_layout" where
  "object_layout_of superclass declared f =
     (let (placed, refs, offset) =
        (case superclass of None \<Rightarrow> ([], [], 0)
         | Some l \<Rightarrow> (ol_fields l, ol_reference_offsets l, ol_payload_bytes l)) in
      rbind (place_fields (ordered_fields declared) placed refs offset) (\<lambda>(placed, refs, offset).
      rbind (block_bytes offset f) (\<lambda>size.
        Inr \<lparr>ol_payload_bytes = offset, ol_block_bytes = size, ol_fields = placed, ol_reference_offsets = refs\<rparr>)))"

definition empty_object_layout :: "admission_error + object_layout" where
  "empty_object_layout = object_layout_of None [] Legacy"

definition array_layout_of :: "value_width \<Rightarrow> int \<Rightarrow> header_format \<Rightarrow> admission_error + array_layout" where
  "array_layout_of element len f =
     rbind (if len < 0 then Inl StoragePlanOverflow else Inr (nat len)) (\<lambda>len.
     rbind (ok_or (checked_mul 32 (width_bytes element) len) StoragePlanOverflow) (\<lambda>elements.
     rbind (ok_or (checked_add 32 INDEXED_HEADER_BYTES elements) StoragePlanOverflow) (\<lambda>payload.
     rbind (block_bytes payload f) (\<lambda>size.
       Inr \<lparr>al_element_bytes = width_bytes element, al_length = len, al_payload_bytes = payload, al_block_bytes = size\<rparr>))))"

definition encoding_bytes :: "string_encoding \<Rightarrow> nat" where
  "encoding_bytes e = (case e of Latin1 \<Rightarrow> 1 | Utf16 \<Rightarrow> 2)"

definition string_layout_of :: "string_encoding \<Rightarrow> nat \<Rightarrow> header_format \<Rightarrow> admission_error + string_layout" where
  "string_layout_of encoding len f =
     rbind (ok_or (checked_mul 32 (encoding_bytes encoding) len) StoragePlanOverflow) (\<lambda>characters.
     rbind (ok_or (checked_add 32 INDEXED_HEADER_BYTES characters) StoragePlanOverflow) (\<lambda>payload.
     rbind (block_bytes payload f) (\<lambda>size.
       Inr \<lparr>sl_encoding = encoding, sl_length = len, sl_payload_bytes = payload, sl_block_bytes = size\<rparr>)))"

record storage_charges =
  heap_arena_bytes :: nat
  heap_allocator_bytes :: nat
  frame_arena_bytes :: nat
  frame_record_bytes :: nat
  task_scheduler_bytes :: nat
  channel_bytes :: nat
  static_bytes :: nat
  type_initialization_bytes :: nat
  external_root_bytes :: nat
  pending_state_bytes :: nat
  machine_fixed_bytes :: nat

record storage_plan = storage_charges +
  header_format :: header_format
  mutable_resident_bytes :: nat

definition charge_components :: "storage_charges \<Rightarrow> (resident_storage_component \<times> nat) list" where
  "charge_components c =
     [(HeapArena, heap_arena_bytes c), (HeapAllocator, heap_allocator_bytes c), (FrameArena, frame_arena_bytes c),
      (FrameRecords, frame_record_bytes c), (TaskSchedulerStorage, task_scheduler_bytes c), (Channels, channel_bytes c),
      (Statics, static_bytes c), (TypeInitialization, type_initialization_bytes c), (ExternalRoots, external_root_bytes c),
      (PendingState, pending_state_bytes c), (MachineFixedState, machine_fixed_bytes c)]"

fun sum_components :: "nat \<Rightarrow> (resident_storage_component \<times> nat) list \<Rightarrow> admission_error + nat" where
  "sum_components acc [] = Inr acc"
| "sum_components acc ((component, bytes) # cs) =
     rbind (ok_or (checked_add 64 acc bytes) (ResidentStorageOverflow component)) (\<lambda>acc. sum_components acc cs)"

definition plan_checked :: "storage_charges \<Rightarrow> admission_error + storage_plan" where
  "plan_checked c =
     rbind (sum_components 0 (charge_components c)) (\<lambda>resident.
       Inr (storage_charges.extend c (storage_plan.fields Legacy resident)))"

definition with_header_format :: "header_format \<Rightarrow> storage_plan \<Rightarrow> storage_plan" where
  "with_header_format f plan = plan\<lparr>header_format := f\<rparr>"

subsection \<open>Alignment\<close>

lemma align_word:
  assumes "n < 2 ^ 32" "k \<le> 3"
  shows "unat ((of_nat n :: u32) AND NOT (of_nat (2 ^ k - 1))) = n div 2 ^ k * 2 ^ k"
proof -
  have m: "(of_nat (2 ^ k - 1) :: u32) = mask k" by (simp add: mask_eq_exp_minus_1 of_nat_diff)
  have "(of_nat n :: u32) AND NOT (mask k) = push_bit k (drop_bit k (of_nat n))"
    by (auto simp: bit_eq_iff bit_simps)
  moreover have "n div 2 ^ k * 2 ^ k < 2 ^ 32" using assms(1) div_times_less_eq_dividend [of n "2 ^ k"] by linarith
  moreover have "unat (of_nat n :: u32) = n" using assms(1) by (simp add: unat_of_nat take_bit_nat_eq_self)
  moreover have "unat (push_bit k (drop_bit k (of_nat n :: u32))) = take_bit 32 (push_bit k (drop_bit k (unat (of_nat n :: u32))))"
    unfolding unsigned_push_bit_eq unat_drop_bit_eq by simp
  ultimately show ?thesis
    unfolding m by (simp only:) (simp add: drop_bit_eq_div push_bit_eq_mult take_bit_nat_eq_self)
qed

lemma align_up_iff:
  assumes "a \<in> {1, 2, 4, 8}"
  shows "align_up v a = Inr w \<longleftrightarrow> v + (a - 1) < 2 ^ 32 \<and> w = (v + (a - 1)) div a * a"
proof -
  from assms obtain k where "k \<le> 3" "a = 2 ^ k" by (elim insertE emptyE) (rule that [of 0], simp_all, rule that [of 1], simp_all, rule that [of 2], simp_all, rule that [of 3], simp_all)
  then show ?thesis using align_word [of "v + (a - 1)" k] by (auto simp: align_up_def checked_add_def)
qed

lemma align_up_bounds:
  assumes "a \<in> {1, 2, 4, 8}" "align_up v a = Inr w"
  shows "v \<le> w" "a dvd w" "w < v + a"
proof -
  have w: "w = (v + (a - 1)) div a * a" "0 < a" using assms align_up_iff by auto
  then show "a dvd w" by simp
  have "w + (v + (a - 1)) mod a = v + (a - 1)" using w by (simp add: div_mult_mod_eq)
  moreover have "(v + (a - 1)) mod a < a" using w(2) by simp
  ultimately show "v \<le> w" "w < v + a" using w(2) by linarith+
qed

lemma width_alignment: "width_bytes w \<in> {1, 2, 4, 8}"
  by (cases w) simp_all

lemma block_bytes_bounds:
  assumes "block_bytes payload f = Inr n"
  shows "header_bytes f + payload \<le> n" "BLOCK_ALIGNMENT dvd n" "MINIMUM_BLOCK_BYTES \<le> n"
    "n < header_bytes f + payload + BLOCK_ALIGNMENT \<or> n = MINIMUM_BLOCK_BYTES"
proof -
  from assms obtain u s where u: "header_bytes f + payload = u" "align_up u BLOCK_ALIGNMENT = Inr s" "n = max s MINIMUM_BLOCK_BYTES"
    by (auto simp: block_bytes_def rbind_Inr_iff ok_or_iff checked_add_iff)
  have "BLOCK_ALIGNMENT \<in> {1, 2, 4, 8}" by (simp add: BLOCK_ALIGNMENT_def)
  from align_up_bounds [OF this u(2)] u show "header_bytes f + payload \<le> n" "BLOCK_ALIGNMENT dvd n"
    "MINIMUM_BLOCK_BYTES \<le> n" "n < header_bytes f + payload + BLOCK_ALIGNMENT \<or> n = MINIMUM_BLOCK_BYTES"
    by (auto simp: max_def MINIMUM_BLOCK_BYTES_def BLOCK_ALIGNMENT_def)
qed

subsection \<open>Fields\<close>

text \<open>Fields laid out one after another between two offsets, each at a multiple of its width.\<close>

fun laid_out :: "nat \<Rightarrow> field_layout list \<Rightarrow> nat \<Rightarrow> bool" where
  "laid_out lo [] hi \<longleftrightarrow> lo \<le> hi"
| "laid_out lo (f # fs) hi \<longleftrightarrow> lo \<le> fl_offset f \<and> width_bytes (fl_width f) dvd fl_offset f \<and>
     laid_out (fl_offset f + width_bytes (fl_width f)) fs hi"

lemma laid_out_append:
  "laid_out lo fs mid \<Longrightarrow> laid_out mid gs hi \<Longrightarrow> laid_out lo (fs @ gs) hi"
proof (induction fs arbitrary: lo)
  case Nil
  then show ?case by (cases gs) auto
qed simp

lemma laid_out_bounds:
  "laid_out lo fs hi \<Longrightarrow> lo \<le> hi \<and> (\<forall>f\<in>set fs. lo \<le> fl_offset f \<and> fl_offset f + width_bytes (fl_width f) \<le> hi \<and>
     width_bytes (fl_width f) dvd fl_offset f)"
  by (induction fs arbitrary: lo) force+

lemma laid_out_disjoint:
  "laid_out lo fs hi \<Longrightarrow> i < j \<Longrightarrow> j < length fs \<Longrightarrow> fl_offset (fs ! i) + width_bytes (fl_width (fs ! i)) \<le> fl_offset (fs ! j)"
proof (induction fs arbitrary: lo i j)
  case (Cons f fs)
  then show ?case
    using laid_out_bounds [of "fl_offset f + width_bytes (fl_width f)" fs hi] by (cases i; cases j) auto
qed simp

definition reference_fields :: "field_layout list \<Rightarrow> nat list" where
  "reference_fields fs = map fl_offset (filter (\<lambda>f. fl_width f = WRef) fs)"

definition spec_of :: "field_layout \<Rightarrow> field_spec" where
  "spec_of f = \<lparr>fs_field = fl_field f, fs_width = fl_width f\<rparr>"

lemma place_fields_ok:
  assumes "place_fields fs placed refs offset = Inr (placed', refs', offset')"
  shows "\<exists>new. placed' = placed @ new \<and> map spec_of new = fs \<and> refs' = refs @ reference_fields new \<and> laid_out offset new offset'"
  using assms
proof (induction fs placed refs offset rule: place_fields.induct)
  case (1 placed refs offset)
  then show ?case by (simp add: reference_fields_def)
next
  case (2 f fs placed refs offset)
  let ?w = "width_bytes (fs_width f)"
  from 2(2) obtain o1 where o1: "align_up offset ?w = Inr o1"
    "place_fields fs (placed @ [\<lparr>fl_field = fs_field f, fl_width = fs_width f, fl_offset = o1\<rparr>])
       (if fs_width f = WRef then refs @ [o1] else refs) (o1 + ?w) = Inr (placed', refs', offset')"
    "ok_or (checked_add 32 o1 ?w) StoragePlanOverflow = Inr (o1 + ?w)"
    by (auto simp: rbind_Inr_iff ok_or_iff checked_add_iff)
  have "\<exists>new. placed' = (placed @ [\<lparr>fl_field = fs_field f, fl_width = fs_width f, fl_offset = o1\<rparr>]) @ new \<and> map spec_of new = fs \<and>
      refs' = (if fs_width f = WRef then refs @ [o1] else refs) @ reference_fields new \<and> laid_out (o1 + ?w) new offset'"
    by (rule 2(1) [OF o1(1,3,2)])
  then obtain new where new: "placed' = placed @ \<lparr>fl_field = fs_field f, fl_width = fs_width f, fl_offset = o1\<rparr> # new"
    "map spec_of new = fs" "refs' = (if fs_width f = WRef then refs @ [o1] else refs) @ reference_fields new"
    "laid_out (o1 + ?w) new offset'" by auto
  with align_up_bounds [OF width_alignment o1(1)] show ?case
    by (intro exI [of _ "\<lparr>fl_field = fs_field f, fl_width = fs_width f, fl_offset = o1\<rparr> # new"])
      (auto simp: spec_of_def reference_fields_def)
qed

lemma map_snd_sorted: "mset (map snd (sort_key g (zip [0..<length xs] xs))) = mset xs"
  unfolding mset_map mset_sort unfolding mset_map [symmetric] by simp

definition layout_ok :: "object_layout \<Rightarrow> bool" where
  "layout_ok l \<longleftrightarrow> laid_out 0 (ol_fields l) (ol_payload_bytes l) \<and> ol_reference_offsets l = reference_fields (ol_fields l)"

lemma object_layout_of_iff:
  "object_layout_of superclass declared f = Inr l \<longleftrightarrow>
     place_fields (ordered_fields declared) (case superclass of None \<Rightarrow> [] | Some s \<Rightarrow> ol_fields s)
        (case superclass of None \<Rightarrow> [] | Some s \<Rightarrow> ol_reference_offsets s)
        (case superclass of None \<Rightarrow> 0 | Some s \<Rightarrow> ol_payload_bytes s) = Inr (ol_fields l, ol_reference_offsets l, ol_payload_bytes l) \<and>
      block_bytes (ol_payload_bytes l) f = Inr (ol_block_bytes l)"
  by (cases superclass; cases l) (auto simp: object_layout_of_def rbind_Inr_iff)

text \<open>
  C33. Object layouts are sound: a class keeps the fields of its superclass where they were, places each
  declared field once at a multiple of its width, no two fields overlap, all lie in the payload, the reference
  offsets are exactly the offsets of the reference fields, and the block holds header and payload, is a
  multiple of the alignment and no more than one alignment step larger than needed.
\<close>

theorem object_layout_sound:
  assumes "object_layout_of superclass declared f = Inr l" "\<forall>s. superclass = Some s \<longrightarrow> layout_ok s"
  shows "layout_ok l \<and>
    (\<exists>new. ol_fields l = (case superclass of None \<Rightarrow> [] | Some s \<Rightarrow> ol_fields s) @ new \<and> mset (map spec_of new) = mset declared) \<and>
    (\<forall>i j. i < j \<longrightarrow> j < length (ol_fields l) \<longrightarrow>
       fl_offset (ol_fields l ! i) + width_bytes (fl_width (ol_fields l ! i)) \<le> fl_offset (ol_fields l ! j)) \<and>
    (\<forall>x\<in>set (ol_fields l). width_bytes (fl_width x) dvd fl_offset x \<and> fl_offset x + width_bytes (fl_width x) \<le> ol_payload_bytes l) \<and>
    header_bytes f + ol_payload_bytes l \<le> ol_block_bytes l \<and> BLOCK_ALIGNMENT dvd ol_block_bytes l \<and>
    MINIMUM_BLOCK_BYTES \<le> ol_block_bytes l \<and>
    (ol_block_bytes l < header_bytes f + ol_payload_bytes l + BLOCK_ALIGNMENT \<or> ol_block_bytes l = MINIMUM_BLOCK_BYTES)"
proof -
  let ?old = "case superclass of None \<Rightarrow> [] | Some s \<Rightarrow> ol_fields s"
  from assms(1) obtain new where new: "ol_fields l = ?old @ new" "map spec_of new = ordered_fields declared"
    "ol_reference_offsets l = (case superclass of None \<Rightarrow> [] | Some s \<Rightarrow> ol_reference_offsets s) @ reference_fields new"
    "laid_out (case superclass of None \<Rightarrow> 0 | Some s \<Rightarrow> ol_payload_bytes s) new (ol_payload_bytes l)"
    and block: "block_bytes (ol_payload_bytes l) f = Inr (ol_block_bytes l)"
    using place_fields_ok unfolding object_layout_of_iff by blast
  have ok: "layout_ok l"
  proof (cases superclass)
    case (Some s)
    with assms(2) have "layout_ok s" by simp
    with new Some show ?thesis using laid_out_append [of 0 "ol_fields s" "ol_payload_bytes s" new]
      by (simp add: layout_ok_def reference_fields_def)
  qed (use new in \<open>simp add: layout_ok_def\<close>)
  have "mset (map spec_of new) = mset declared" unfolding new(2) ordered_fields_def by (rule map_snd_sorted)
  with new(1) have "\<exists>new. ol_fields l = ?old @ new \<and> mset (map spec_of new) = mset declared" by blast
  moreover note laid_out_disjoint [of 0 "ol_fields l" "ol_payload_bytes l"] laid_out_bounds [of 0 "ol_fields l" "ol_payload_bytes l"]
    block_bytes_bounds [OF block]
  ultimately show ?thesis using ok by (simp add: layout_ok_def)
qed

theorem object_layout_sound_witness:
  "laid_out 0 [\<lparr>fl_field = 1, fl_width = WI64, fl_offset = 0\<rparr>, \<lparr>fl_field = 2, fl_width = WRef, fl_offset = 8\<rparr>,
     \<lparr>fl_field = 0, fl_width = WI8, fl_offset = 12\<rparr>] 13"
proof -
  let ?l = "\<lparr>ol_payload_bytes = 13, ol_block_bytes = 32, ol_fields = [\<lparr>fl_field = 1, fl_width = WI64, fl_offset = 0\<rparr>,
     \<lparr>fl_field = 2, fl_width = WRef, fl_offset = 8\<rparr>, \<lparr>fl_field = 0, fl_width = WI8, fl_offset = 12\<rparr>], ol_reference_offsets = [8]\<rparr>"
  have a: "align_up 0 8 = Inr 0" "align_up 8 4 = Inr 8" "align_up 12 1 = Inr 12" "align_up 25 8 = Inr 32"
    by (simp_all add: align_up_iff)
  have "ordered_fields [\<lparr>fs_field = 0, fs_width = WI8\<rparr>, \<lparr>fs_field = 1, fs_width = WI64\<rparr>, \<lparr>fs_field = 2, fs_width = WRef\<rparr>] =
      [\<lparr>fs_field = 1, fs_width = WI64\<rparr>, \<lparr>fs_field = 2, fs_width = WRef\<rparr>, \<lparr>fs_field = 0, fs_width = WI8\<rparr>]"
    by (simp add: ordered_fields_def sort_key_def upt_rec)
  then have "object_layout_of None [\<lparr>fs_field = 0, fs_width = WI8\<rparr>, \<lparr>fs_field = 1, fs_width = WI64\<rparr>, \<lparr>fs_field = 2, fs_width = WRef\<rparr>]
      Legacy = Inr ?l"
    using a by (simp add: object_layout_of_iff block_bytes_def checked_add_def header_bytes_def LEGACY_HEAP_HEADER_BYTES_def
        BLOCK_ALIGNMENT_def MINIMUM_BLOCK_BYTES_def)
  from object_layout_sound [OF this] have "layout_ok ?l" by simp
  then show ?thesis by (simp add: layout_ok_def)
qed

subsection \<open>Arrays and strings\<close>

lemma block_bytes_iff:
  "block_bytes payload f = Inr n \<longleftrightarrow> header_bytes f + payload + 7 < 2 ^ 32 \<and>
     n = max ((header_bytes f + payload + 7) div 8 * 8) MINIMUM_BLOCK_BYTES"
proof -
  have "align_up u BLOCK_ALIGNMENT = Inr s \<longleftrightarrow> u + 7 < 2 ^ 32 \<and> s = (u + 7) div 8 * 8" for u s
    by (simp add: align_up_iff BLOCK_ALIGNMENT_def)
  then show ?thesis by (auto simp: block_bytes_def rbind_Inr_iff ok_or_iff checked_add_iff)
qed

text \<open>
  C34. Array layouts are exact: a layout exists exactly for a non-negative length whose header, element
  count and elements fit 32 bits with the block rounding; then the element of every index below the
  length lies, aligned, between the indexed header and the end of the payload, and the block holds the
  whole payload behind its header.
\<close>

theorem array_layout_exact:
  "array_layout_of element len f =
     (if 0 \<le> len \<and> header_bytes f + (INDEXED_HEADER_BYTES + width_bytes element * nat len) + 7 < 2 ^ 32
      then Inr \<lparr>al_element_bytes = width_bytes element, al_length = nat len,
        al_payload_bytes = INDEXED_HEADER_BYTES + width_bytes element * nat len,
        al_block_bytes = max ((header_bytes f + (INDEXED_HEADER_BYTES + width_bytes element * nat len) + 7) div 8 * 8) MINIMUM_BLOCK_BYTES\<rparr>
      else Inl StoragePlanOverflow) \<and>
   (\<forall>i<nat len. width_bytes element dvd INDEXED_HEADER_BYTES + i * width_bytes element \<and>
      INDEXED_HEADER_BYTES + i * width_bytes element + width_bytes element \<le> INDEXED_HEADER_BYTES + width_bytes element * nat len)"
proof (intro conjI allI impI)
  have err: "block_bytes p f = Inl e \<Longrightarrow> e = StoragePlanOverflow" for p e
    by (auto simp: block_bytes_def align_up_def rbind_Inl_iff ok_or_iff)
  let ?p = "INDEXED_HEADER_BYTES + width_bytes element * nat len"
  show "array_layout_of element len f = (if 0 \<le> len \<and> header_bytes f + ?p + 7 < 2 ^ 32
      then Inr \<lparr>al_element_bytes = width_bytes element, al_length = nat len, al_payload_bytes = ?p,
        al_block_bytes = max ((header_bytes f + ?p + 7) div 8 * 8) MINIMUM_BLOCK_BYTES\<rparr>
      else Inl StoragePlanOverflow)"
  proof (cases "0 \<le> len \<and> header_bytes f + ?p + 7 < 2 ^ 32")
    case True
    then have "block_bytes ?p f = Inr (max ((header_bytes f + ?p + 7) div 8 * 8) MINIMUM_BLOCK_BYTES)"
      by (subst block_bytes_iff) simp
    with True show ?thesis by (simp add: array_layout_of_def checked_add_def checked_mul_def)
  next
    case False
    have "is_ok (array_layout_of element len f) \<Longrightarrow> 0 \<le> len \<and> header_bytes f + ?p + 7 < 2 ^ 32"
      by (auto simp: is_ok_iff array_layout_of_def rbind_Inr_iff ok_or_iff checked_add_iff checked_mul_iff block_bytes_iff
          split: if_splits)
    with False obtain e where e: "array_layout_of element len f = Inl e" by (cases "array_layout_of element len f") auto
    then have "e = StoragePlanOverflow"
      by (auto simp: array_layout_of_def rbind_Inl_iff ok_or_iff dest: err split: if_splits)
    with e False show ?thesis by simp
  qed
next
  fix i
  assume "i < nat len"
  then have "Suc i * width_bytes element \<le> nat len * width_bytes element" by (intro mult_le_mono1) simp
  then show "INDEXED_HEADER_BYTES + i * width_bytes element + width_bytes element \<le> INDEXED_HEADER_BYTES + width_bytes element * nat len"
    by (simp add: mult.commute)
  show "width_bytes element dvd INDEXED_HEADER_BYTES + i * width_bytes element"
    by (cases element) (simp_all add: INDEXED_HEADER_BYTES_def)
qed

theorem array_layout_exact_witness: "al_block_bytes (projr (array_layout_of WI32 3 Legacy)) = 32"
  using array_layout_exact [of WI32 3 Legacy]
  by (simp add: header_bytes_def LEGACY_HEAP_HEADER_BYTES_def INDEXED_HEADER_BYTES_def MINIMUM_BLOCK_BYTES_def)

subsection \<open>Header bits\<close>

lemma bit_length_less: "n < 2 ^ bit_length n"
proof (induction n rule: bit_length.induct)
  case (1 n)
  show ?case
  proof (cases "n = 0")
    case False
    with 1 have "n div 2 < 2 ^ bit_length (n div 2)" by simp
    then have "n < 2 * 2 ^ bit_length (n div 2)" by linarith
    with False show ?thesis by (simp add: bit_length.simps [of n])
  qed (simp add: bit_length.simps)
qed

lemma bit_length_mono: "n < 2 ^ k \<Longrightarrow> bit_length n \<le> k"
proof (induction n arbitrary: k rule: bit_length.induct)
  case (1 n)
  show ?case
  proof (cases "n = 0")
    case False
    then obtain j where j: "k = Suc j" using 1(2) by (cases k) auto
    with 1 False have "bit_length (n div 2) \<le> j" by (auto intro!: "1.IH" simp: less_mult_imp_div_less mult.commute)
    with False j show ?thesis by (simp add: bit_length.simps [of n])
  qed (simp add: bit_length.simps)
qed

definition format_fits :: "header_format \<Rightarrow> nat \<Rightarrow> nat \<Rightarrow> bool" where
  "format_fits f heap_bytes type_count \<longleftrightarrow>
     (case f of Legacy \<Rightarrow> True
      | Compact s l \<Rightarrow> 3 + s + l < 64 \<and> heap_bytes div BLOCK_ALIGNMENT < 2 ^ s \<and> heap_bytes div BLOCK_ALIGNMENT \<le> 2 ^ l \<and>
          type_count \<le> 2 ^ (64 - (3 + s + l)))"

text \<open>
  C35. The header format chosen for a heap is wide enough: in the compact format the size field holds the
  size of every block up to the whole arena, the link field holds the offset of every block and of every
  object in it, and the remaining bits, at least one, hold every type index.
\<close>

theorem header_select_fits: "format_fits (header_select heap_bytes type_count) heap_bytes type_count"
proof -
  let ?u = "heap_bytes div BLOCK_ALIGNMENT"
  have "?u \<le> 2 ^ bit_length (?u - 1)" using bit_length_less [of "?u - 1"] by linarith
  moreover have "?u < 2 ^ bit_length ?u" by (rule bit_length_less)
  ultimately show ?thesis
    by (auto simp: header_select_def format_fits_def Let_def checked_sub_def split: option.splits)
qed

end
