(* ===== verification/Vm_Heap.thy ===== *)
theory Vm_Heap
  imports Bytes Vm_Values Vm_Layout
begin

unbundle bit_operations_syntax

text \<open>
  The managed heap (\<open>src/src/execution/heap.rs\<close>): a byte arena tiled by blocks, each with a header in the
  legacy or the compact format, and segregated free lists threaded through the free blocks, found through
  two levels of bitmaps. The arena of 16-byte units is its list of bytes; offsets and sizes are 32-bit
  values held as natural numbers, headers and bitmaps are words.
\<close>

definition NULL_OFFSET :: nat where "NULL_OFFSET = 2 ^ 32 - 1"
definition CLASS_COUNT :: nat where "CLASS_COUNT = 32 * 8"
definition ALLOCATED :: nat where "ALLOCATED = 1"
definition MARKED :: nat where "MARKED = 2"
definition LIVE :: nat where "LIVE = 4"
definition SIZE_MASK :: u32 where "SIZE_MASK = NOT (of_nat (BLOCK_ALIGNMENT - 1))"
definition SIZE_FLAGS :: nat where "SIZE_FLAGS = 0"
definition PREVIOUS_SIZE :: nat where "PREVIOUS_SIZE = 4"
definition NEXT_FREE :: nat where "NEXT_FREE = 8"
definition PREVIOUS_FREE :: nat where "PREVIOUS_FREE = 12"
definition OBJECT_TYPE_ID :: nat where "OBJECT_TYPE_ID = BLOCK_HEADER_BYTES"

record size_class =
  sc_first :: nat
  sc_second :: nat

record allocation_request =
  ar_block_bytes :: nat
  ar_type_id :: nat

record reserved_allocation =
  ra_block :: nat
  ra_type_id :: nat

record heap_diagnostic =
  hd_total_free :: nat
  hd_largest_free_block :: nat
  hd_live_handles :: nat
  hd_retired_handles :: nat

record heap =
  hp_format :: header_format
  hp_arena :: bytes
  hp_arena_bytes :: nat
  hp_class_heads :: "nat list"
  hp_first_bitmap :: u32
  hp_second_bitmaps :: "u8 list"
  hp_hint :: nat
  hp_total_free :: nat
  hp_live_objects :: nat

type_synonym 'a heap_op = "(heap, vm_fault, 'a) smonad"

subsection \<open>Size classes\<close>

definition downward_class :: "nat \<Rightarrow> (nat \<times> nat \<times> nat) option" where
  "downward_class n =
     (if n < MINIMUM_BLOCK_BYTES \<or> n mod BLOCK_ALIGNMENT \<noteq> 0 then None
      else
        (let first = bit_length n - 1;
             base = 2 ^ first;
             width = (if 3 \<le> first then max (2 ^ (first - 3)) BLOCK_ALIGNMENT else BLOCK_ALIGNMENT);
             second = (n - base) div width in
         if 255 < second then None
         else (case checked_mul 32 second width of
                 None \<Rightarrow> None
               | Some steps \<Rightarrow>
                   (case checked_add 32 base steps of
                      None \<Rightarrow> None
                    | Some lower_bound \<Rightarrow> if second < 8 then Some (first, second, lower_bound) else None))))"

definition free_size_class :: "nat \<Rightarrow> size_class option" where
  "free_size_class n = map_option (\<lambda>(first, second, _). \<lparr>sc_first = first, sc_second = second\<rparr>) (downward_class n)"

definition request_size_class :: "nat \<Rightarrow> size_class option" where
  "request_size_class n =
     (case downward_class n of
        None \<Rightarrow> None
      | Some (first, second, lower_bound) \<Rightarrow>
          (let (first, second) =
             (if n \<noteq> lower_bound then (if second + 1 = 8 then (first + 1, 0) else (first, second + 1)) else (first, second)) in
           if first < 32 then Some \<lparr>sc_first = first, sc_second = second\<rparr> else None))"

definition class_index :: "size_class \<Rightarrow> nat" where
  "class_index c = sc_first c * 8 + sc_second c"

definition trailing_zeros :: "'a::len word \<Rightarrow> nat" where
  "trailing_zeros w = (case find (bit w) [0..<LENGTH('a)] of Some i \<Rightarrow> i | None \<Rightarrow> LENGTH('a))"

definition bit_mask :: "nat \<Rightarrow> u64" where
  "bit_mask bits = drop_bit (64 - bits) (- 1)"

subsection \<open>Words and headers\<close>

definition unit_in_range :: "nat \<Rightarrow> nat \<Rightarrow> heap \<Rightarrow> bool" where
  "unit_in_range start len h \<longleftrightarrow> start div 16 < length (hp_arena h) div 16 \<and> start mod 16 + len \<le> 16"

definition store :: "nat \<Rightarrow> bytes \<Rightarrow> bytes \<Rightarrow> bytes" where
  "store start new xs = take start xs @ new @ drop (start + length new) xs"

definition read_word :: "nat \<Rightarrow> nat \<Rightarrow> heap \<Rightarrow> vm_fault + nat" where
  "read_word block field h =
     rbind (ok_or (checked_add 32 block field) CorruptHeap) (\<lambda>start.
     if unit_in_range start 4 h then Inr (le_nat (take 4 (drop start (hp_arena h)))) else Inl CorruptHeap)"

definition write_word :: "nat \<Rightarrow> nat \<Rightarrow> nat \<Rightarrow> unit heap_op" where
  "write_word block field v =
     sbind (sread (\<lambda>_. ok_or (checked_add 32 block field) CorruptHeap)) (\<lambda>start h.
     if unit_in_range start 4 h then (Inr (), h\<lparr>hp_arena := store start (le_bytes 4 v) (hp_arena h)\<rparr>)
     else (Inl CorruptHeap, h))"

definition read_compact_header :: "nat \<Rightarrow> heap \<Rightarrow> vm_fault + u64" where
  "read_compact_header block h =
     (if unit_in_range block 8 h then Inr (of_nat (le_nat (take 8 (drop block (hp_arena h))))) else Inl CorruptHeap)"

definition write_compact_header :: "nat \<Rightarrow> u64 \<Rightarrow> unit heap_op" where
  "write_compact_header block header h =
     (if unit_in_range block 8 h then (Inr (), h\<lparr>hp_arena := store block (le_bytes 8 (unat header)) (hp_arena h)\<rparr>)
      else (Inl CorruptHeap, h))"

definition to_u32 :: "nat \<Rightarrow> vm_fault + nat" where
  "to_u32 n = (if n < 2 ^ 32 then Inr n else Inl CorruptHeap)"

definition block_size :: "nat \<Rightarrow> heap \<Rightarrow> vm_fault + nat" where
  "block_size block h =
     rbind (case hp_format h of
              Legacy \<Rightarrow> rbind (read_word block SIZE_FLAGS h) (\<lambda>w. Inr (unat ((of_nat w :: u32) AND SIZE_MASK)))
            | Compact s l \<Rightarrow>
                rbind (read_compact_header block h) (\<lambda>header.
                  to_u32 (unat (drop_bit 3 header AND bit_mask s) * BLOCK_ALIGNMENT))) (\<lambda>n.
     if n < MINIMUM_BLOCK_BYTES \<or> n mod BLOCK_ALIGNMENT \<noteq> 0 then Inl CorruptHeap else Inr n)"

definition read_flags :: "nat \<Rightarrow> heap \<Rightarrow> vm_fault + nat" where
  "read_flags block h =
     (case hp_format h of
        Legacy \<Rightarrow> rbind (read_word block SIZE_FLAGS h) (\<lambda>w. Inr (unat ((of_nat w :: u32) AND NOT SIZE_MASK)))
      | Compact s l \<Rightarrow> rbind (read_compact_header block h) (\<lambda>header. Inr (unat (header AND 7))))"

definition block_allocated :: "nat \<Rightarrow> heap \<Rightarrow> vm_fault + bool" where
  "block_allocated block h = rbind (read_flags block h) (\<lambda>flags. Inr (and flags ALLOCATED \<noteq> 0))"

definition write_flags :: "nat \<Rightarrow> nat \<Rightarrow> unit heap_op" where
  "write_flags block flags h =
     (if 7 < flags then (Inl CorruptHeap, h)
      else
        (case hp_format h of
           Legacy \<Rightarrow>
             sbind (sread (read_word block SIZE_FLAGS)) (\<lambda>w.
               write_word block SIZE_FLAGS (or (unat ((of_nat w :: u32) AND SIZE_MASK)) flags)) h
         | Compact s l \<Rightarrow>
             sbind (sread (read_compact_header block)) (\<lambda>header.
               write_compact_header block ((header AND NOT 7) OR of_nat flags)) h))"

definition read_previous_or_gray :: "nat \<Rightarrow> heap \<Rightarrow> vm_fault + nat" where
  "read_previous_or_gray block h =
     (case hp_format h of
        Legacy \<Rightarrow> read_word block PREVIOUS_SIZE h
      | Compact s l \<Rightarrow>
          rbind (read_compact_header block h) (\<lambda>header.
            to_u32 (unat (drop_bit (3 + s) header AND bit_mask l) * BLOCK_ALIGNMENT)))"

definition write_previous_or_gray :: "nat \<Rightarrow> nat \<Rightarrow> unit heap_op" where
  "write_previous_or_gray block v h =
     (case hp_format h of
        Legacy \<Rightarrow> write_word block PREVIOUS_SIZE v h
      | Compact s l \<Rightarrow>
          (if v \<noteq> NULL_OFFSET \<and> v mod BLOCK_ALIGNMENT \<noteq> 0 then (Inl CorruptHeap, h)
           else
             (let units = (if v = NULL_OFFSET then 0 else v div BLOCK_ALIGNMENT) in
              if unat (bit_mask l) < units then (Inl CorruptHeap, h)
              else
                sbind (sread (read_compact_header block)) (\<lambda>header.
                  write_compact_header block
                    ((header AND NOT (push_bit (3 + s) (bit_mask l))) OR push_bit (3 + s) (of_nat units))) h)))"

definition read_type :: "nat \<Rightarrow> heap \<Rightarrow> vm_fault + nat" where
  "read_type block h =
     (case hp_format h of
        Legacy \<Rightarrow> read_word block OBJECT_TYPE_ID h
      | Compact s l \<Rightarrow> rbind (read_compact_header block h) (\<lambda>header. to_u32 (unat (drop_bit (3 + s + l) header))))"

definition write_type :: "nat \<Rightarrow> nat \<Rightarrow> unit heap_op" where
  "write_type block type_id h =
     (case hp_format h of
        Legacy \<Rightarrow> write_word block OBJECT_TYPE_ID type_id h
      | Compact s l \<Rightarrow>
          (let shift = 3 + s + l;
               m = bit_mask (64 - shift) in
           if unat m < type_id then (Inl CorruptHeap, h)
           else
             sbind (sread (read_compact_header block)) (\<lambda>header.
               write_compact_header block ((header AND NOT (push_bit shift m)) OR push_bit shift (of_nat type_id))) h))"

definition write_block_header :: "nat \<Rightarrow> nat \<Rightarrow> nat \<Rightarrow> bool \<Rightarrow> unit heap_op" where
  "write_block_header block n previous_size allocated h =
     (case hp_format h of
        Legacy \<Rightarrow>
          sseq (write_word block SIZE_FLAGS (or n (of_bool allocated)))
            (write_word block PREVIOUS_SIZE previous_size) h
      | Compact s l \<Rightarrow>
          (if previous_size mod BLOCK_ALIGNMENT \<noteq> 0 then (Inl CorruptHeap, h)
           else
             (let size_units = n div BLOCK_ALIGNMENT;
                  previous_units = previous_size div BLOCK_ALIGNMENT in
              if unat (bit_mask s) < size_units \<or> unat (bit_mask l) < previous_units then (Inl CorruptHeap, h)
              else
                write_compact_header block
                  ((of_bool allocated OR push_bit 3 (of_nat size_units)) OR push_bit (3 + s) (of_nat previous_units)) h)))"

definition write_header :: "nat \<Rightarrow> nat \<Rightarrow> nat \<Rightarrow> bool \<Rightarrow> unit heap_op" where
  "write_header block n previous_size allocated =
     sseq (sguard (\<not> (n < MINIMUM_BLOCK_BYTES \<or> n mod BLOCK_ALIGNMENT \<noteq> 0)) CorruptHeap)
     (sseq (write_block_header block n previous_size allocated)
     (sseq (write_word block NEXT_FREE NULL_OFFSET)
       (write_word block PREVIOUS_FREE NULL_OFFSET)))"

definition update_next_previous_size :: "nat \<Rightarrow> nat \<Rightarrow> unit heap_op" where
  "update_next_previous_size block n =
     sbind (sread (\<lambda>_. ok_or (checked_add 32 block n) CorruptHeap)) (\<lambda>nxt h.
     if nxt < hp_arena_bytes h then write_previous_or_gray nxt n h else (Inr (), h))"

subsection \<open>Free lists\<close>

definition observe_free_block :: "nat \<Rightarrow> unit heap_op" where
  "observe_free_block block h =
     (if hp_hint h = NULL_OFFSET then (Inr (), h\<lparr>hp_hint := block\<rparr>)
      else
        sbind (sread (block_size block)) (\<lambda>n.
        sbind (sread (\<lambda>h. block_size (hp_hint h) h)) (\<lambda>largest.
          if largest < n then smodify (\<lambda>h. h\<lparr>hp_hint := block\<rparr>) else sret ())) h)"

definition class_of_block :: "nat \<Rightarrow> heap \<Rightarrow> vm_fault + size_class" where
  "class_of_block block h = rbind (block_size block h) (\<lambda>n. ok_or (free_size_class n) CorruptHeap)"

definition insert_free :: "nat \<Rightarrow> unit heap_op" where
  "insert_free block =
     sbind (sread (class_of_block block)) (\<lambda>class.
     (let index = class_index class in
      sbind (sread (\<lambda>h. if index < length (hp_class_heads h) then Inr (hp_class_heads h ! index) else Inl CorruptHeap)) (\<lambda>head.
      sseq (write_word block NEXT_FREE head)
      (sseq (write_word block PREVIOUS_FREE NULL_OFFSET)
      (sseq (if head \<noteq> NULL_OFFSET then write_word head PREVIOUS_FREE block else sret ())
      (sseq (smodify (\<lambda>h. h\<lparr>hp_class_heads := (hp_class_heads h)[index := block],
               hp_second_bitmaps := (hp_second_bitmaps h)[sc_first class := (hp_second_bitmaps h ! sc_first class) OR push_bit (sc_second class) 1],
               hp_first_bitmap := hp_first_bitmap h OR push_bit (sc_first class) 1\<rparr>))
        (observe_free_block block)))))))"

definition clear_class :: "size_class \<Rightarrow> heap \<Rightarrow> heap" where
  "clear_class class h =
     (if hp_class_heads h ! class_index class = NULL_OFFSET then
        (let second = (hp_second_bitmaps h ! sc_first class) AND NOT (push_bit (sc_second class) 1);
             h = h\<lparr>hp_second_bitmaps := (hp_second_bitmaps h)[sc_first class := second]\<rparr> in
         if second = 0 then h\<lparr>hp_first_bitmap := hp_first_bitmap h AND NOT (push_bit (sc_first class) 1)\<rparr> else h)
      else h)"

definition remove_free :: "nat \<Rightarrow> unit heap_op" where
  "remove_free block =
     sseq (smodify (\<lambda>h. if hp_hint h = block then h\<lparr>hp_hint := NULL_OFFSET\<rparr> else h))
     (sbind (sread (class_of_block block)) (\<lambda>class.
     (let index = class_index class in
      sbind (sread (read_word block NEXT_FREE)) (\<lambda>nxt.
      sbind (sread (read_word block PREVIOUS_FREE)) (\<lambda>previous.
      sseq (if previous = NULL_OFFSET
            then (\<lambda>h. if hp_class_heads h ! index \<noteq> block then (Inl CorruptHeap, h)
                      else (Inr (), h\<lparr>hp_class_heads := (hp_class_heads h)[index := nxt]\<rparr>))
            else write_word previous NEXT_FREE nxt)
      (sseq (if nxt \<noteq> NULL_OFFSET then write_word nxt PREVIOUS_FREE previous else sret ())
      (sseq (smodify (clear_class class))
      (sseq (write_word block NEXT_FREE NULL_OFFSET)
        (write_word block PREVIOUS_FREE NULL_OFFSET)))))))))"

definition head_of :: "size_class \<Rightarrow> heap \<Rightarrow> vm_fault + nat option" where
  "head_of selected h =
     (if class_index selected < length (hp_class_heads h) then
        (let head = hp_class_heads h ! class_index selected in
         if head \<noteq> NULL_OFFSET then Inr (Some head) else Inl CorruptHeap)
      else Inl CorruptHeap)"

definition find_class :: "nat \<Rightarrow> size_class \<Rightarrow> heap \<Rightarrow> vm_fault + nat option" where
  "find_class n class h =
     (let second_mask = (hp_second_bitmaps h ! sc_first class) AND push_bit (sc_second class) (- 1) in
      if second_mask \<noteq> 0 then head_of \<lparr>sc_first = sc_first class, sc_second = trailing_zeros second_mask\<rparr> h
      else
        (let higher_first = (if sc_first class = 31 then 0 else hp_first_bitmap h AND push_bit (sc_first class + 1) (- 1)) in
         if higher_first = 0 then
           (if hp_hint h = NULL_OFFSET then Inr None
            else rbind (block_size (hp_hint h) h) (\<lambda>largest. Inr (if n \<le> largest then Some (hp_hint h) else None)))
         else
           (let selected_first = trailing_zeros higher_first;
                selected_second = hp_second_bitmaps h ! selected_first in
            if selected_second = 0 then Inl CorruptHeap
            else head_of \<lparr>sc_first = selected_first, sc_second = trailing_zeros selected_second\<rparr> h)))"

definition find_suitable :: "nat \<Rightarrow> heap \<Rightarrow> vm_fault + nat option" where
  "find_suitable n h =
     (case request_size_class n of
        None \<Rightarrow> Inr None
      | Some class \<Rightarrow>
          rbind (ok_or (free_size_class n) CorruptHeap) (\<lambda>lower.
          (let head = hp_class_heads h ! class_index lower in
           if lower \<noteq> class \<and> head \<noteq> NULL_OFFSET
           then rbind (block_size head h) (\<lambda>m. if n \<le> m then Inr (Some head) else find_class n class h)
           else find_class n class h)))"

subsection \<open>Allocation\<close>

definition heap_new :: "storage_plan \<Rightarrow> admission_error + heap" where
  "heap_new plan =
     (if 2 ^ 32 \<le> heap_arena_bytes plan then Inl (ResidentStorageOverflow HeapArena)
      else if heap_arena_bytes plan < 32 \<or> heap_arena_bytes plan mod 16 \<noteq> 0 \<or> unat MAX_PAYLOAD < heap_arena_bytes plan
      then Inl (InvalidHeapSize (heap_arena_bytes plan))
      else
        (let h = \<lparr>hp_format = header_format plan, hp_arena = replicate (heap_arena_bytes plan) 0,
                  hp_arena_bytes = heap_arena_bytes plan, hp_class_heads = replicate CLASS_COUNT NULL_OFFSET,
                  hp_first_bitmap = 0, hp_second_bitmaps = replicate 32 0, hp_hint = NULL_OFFSET,
                  hp_total_free = heap_arena_bytes plan, hp_live_objects = 0\<rparr> in
         (case sseq (write_header 0 (heap_arena_bytes plan) 0 False) (insert_free 0) h of
            (Inl _, _) \<Rightarrow> Inl StoragePlanOverflow
          | (Inr _, h) \<Rightarrow> Inr h)))"

definition reserve_split :: "nat \<Rightarrow> nat \<Rightarrow> nat \<Rightarrow> nat heap_op" where
  "reserve_split block wanted n =
     (let remainder = n - wanted in
      if MINIMUM_BLOCK_BYTES \<le> remainder then
        sbind (sread (\<lambda>_. ok_or (checked_add 32 block wanted) CorruptHeap)) (\<lambda>remainder_offset.
        sseq (write_header remainder_offset remainder wanted False)
        (sseq (update_next_previous_size remainder_offset remainder)
        (sseq (insert_free remainder_offset) (sret wanted))))
      else sret n)"

definition reserve :: "allocation_request \<Rightarrow> reserved_allocation option heap_op" where
  "reserve request =
     sseq (sguard (\<not> (ar_block_bytes request < MINIMUM_BLOCK_BYTES \<or> ar_block_bytes request mod BLOCK_ALIGNMENT \<noteq> 0)) InvalidStoragePlan)
     (sbind (sread (find_suitable (ar_block_bytes request))) (\<lambda>found.
      (case found of
         None \<Rightarrow> sret None
       | Some block \<Rightarrow>
           sbind (sread (block_size block)) (\<lambda>n.
           sseq (sguard (ar_block_bytes request \<le> n) CorruptHeap)
           (sbind (sread (read_previous_or_gray block)) (\<lambda>previous_size.
           sseq (remove_free block)
           (sbind (reserve_split block (ar_block_bytes request) n) (\<lambda>allocated_size.
           sseq (write_header block allocated_size previous_size True)
           (sbind (sread (\<lambda>h. ok_or (checked_sub (hp_total_free h) allocated_size) CorruptHeap)) (\<lambda>remaining.
           sseq (smodify (\<lambda>h. h\<lparr>hp_total_free := remaining\<rparr>))
             (sret (Some \<lparr>ra_block = block, ra_type_id = ar_type_id request\<rparr>))))))))))))"

definition validate_reservation :: "reserved_allocation \<Rightarrow> heap \<Rightarrow> vm_fault + unit" where
  "validate_reservation r h =
     rbind (block_allocated (ra_block r) h) (\<lambda>allocated.
     if \<not> allocated then Inl CorruptHeap
     else rbind (read_flags (ra_block r) h) (\<lambda>flags. if and flags LIVE = 0 then Inr () else Inl CorruptHeap))"

definition managed_reference :: "nat \<Rightarrow> vm_fault + ref32" where
  "managed_reference offset = ok_or (ref32_managed (of_nat offset)) CorruptHeap"

definition heap_commit :: "reserved_allocation \<Rightarrow> ref32 heap_op" where
  "heap_commit r =
     sseq (sread (validate_reservation r))
     (sseq (write_type (ra_block r) (ra_type_id r))
     (sbind (sread (read_flags (ra_block r))) (\<lambda>flags.
     sseq (write_flags (ra_block r) (or flags LIVE))
     (sbind (sread (\<lambda>h. ok_or (checked_add 32 (hp_live_objects h) 1) CorruptHeap)) (\<lambda>live.
     sseq (smodify (\<lambda>h. h\<lparr>hp_live_objects := live\<rparr>))
     (sbind (sread (\<lambda>_. ok_or (checked_add 32 (ra_block r) OBJECT_TYPE_ID) CorruptHeap)) (\<lambda>object_header.
        sread (\<lambda>_. managed_reference object_header))))))))"

definition merge_previous :: "nat \<Rightarrow> nat \<Rightarrow> nat \<Rightarrow> (nat \<times> nat \<times> nat) heap_op" where
  "merge_previous block merged_size previous_size =
     (if block \<noteq> 0 then
        sbind (sread (\<lambda>_. ok_or (checked_sub block previous_size) CorruptHeap)) (\<lambda>previous.
        sbind (sread (block_allocated previous)) (\<lambda>allocated.
        if \<not> allocated then
          sseq (remove_free previous)
          (sbind (sread (block_size previous)) (\<lambda>n.
           sbind (sread (\<lambda>_. ok_or (checked_add 32 merged_size n) CorruptHeap)) (\<lambda>merged_size.
           sbind (sread (read_previous_or_gray previous)) (\<lambda>previous_size.
             sret (previous, merged_size, previous_size)))))
        else sret (block, merged_size, previous_size)))
      else sret (block, merged_size, previous_size))"

definition merge_next :: "nat \<Rightarrow> nat \<Rightarrow> nat heap_op" where
  "merge_next merged merged_size =
     sbind (sread (\<lambda>_. ok_or (checked_add 32 merged merged_size) CorruptHeap)) (\<lambda>next_offset h.
     if next_offset < hp_arena_bytes h then
       sbind (sread (block_allocated next_offset)) (\<lambda>allocated.
       if \<not> allocated then
         sseq (remove_free next_offset)
         (sbind (sread (block_size next_offset)) (\<lambda>n.
            sread (\<lambda>_. ok_or (checked_add 32 merged_size n) CorruptHeap)))
       else sret merged_size) h
     else (Inr merged_size, h))"

definition free_block :: "nat \<Rightarrow> unit heap_op" where
  "free_block block =
     sbind (sread (block_allocated block)) (\<lambda>allocated.
     sseq (sguard allocated CorruptHeap)
     (sbind (sread (block_size block)) (\<lambda>original_size.
     (sbind (sread (read_previous_or_gray block)) (\<lambda>previous_size.
     (sbind (merge_previous block original_size previous_size) (\<lambda>(merged, merged_size, previous_size).
     (sbind (merge_next merged merged_size) (\<lambda>merged_size.
     sseq (if merged \<noteq> block then write_flags block 0 else sret ())
     (sseq (write_header merged merged_size previous_size False)
     (sseq (update_next_previous_size merged merged_size)
     (sseq (insert_free merged)
     (sbind (sread (\<lambda>h. ok_or (checked_add 32 (hp_total_free h) original_size) CorruptHeap)) (\<lambda>remaining.
        smodify (\<lambda>h. h\<lparr>hp_total_free := remaining\<rparr>)))))))))))))))"

definition heap_abort :: "reserved_allocation \<Rightarrow> unit heap_op" where
  "heap_abort r = sseq (sread (validate_reservation r)) (free_block (ra_block r))"

definition live_block :: "ref32 \<Rightarrow> heap \<Rightarrow> vm_fault + nat" where
  "live_block reference h =
     (let payload = unat (ref32_payload reference) in
      if ref32_domain reference \<noteq> Managed \<or> payload < OBJECT_TYPE_ID \<or> payload mod BLOCK_ALIGNMENT \<noteq> 0 then Inl InvalidReference
      else
        rbind (ok_or (checked_sub payload OBJECT_TYPE_ID) InvalidReference) (\<lambda>block.
        if hp_arena_bytes h \<le> block then Inl InvalidReference
        else
          rbind (block_allocated block h) (\<lambda>allocated.
          if \<not> allocated then Inl InvalidReference
          else rbind (read_flags block h) (\<lambda>flags. if and flags LIVE = 0 then Inl InvalidReference else Inr block))))"

definition heap_free :: "ref32 \<Rightarrow> bool heap_op" where
  "heap_free reference h =
     (if ref32_domain reference \<noteq> Managed then (Inr False, h)
      else
        (case live_block reference h of
           Inl _ \<Rightarrow> (Inr False, h)
         | Inr block \<Rightarrow>
             sbind (sread (\<lambda>h. ok_or (checked_sub (hp_live_objects h) 1) CorruptHeap)) (\<lambda>live.
             sseq (smodify (\<lambda>h. h\<lparr>hp_live_objects := live\<rparr>))
             (sseq (free_block block) (sret True))) h))"

definition managed_type :: "ref32 \<Rightarrow> heap \<Rightarrow> vm_fault + nat" where
  "managed_type reference h = rbind (live_block reference h) (\<lambda>block. read_type block h)"

definition runtime_type :: "ref32 \<Rightarrow> heap \<Rightarrow> nat option" where
  "runtime_type reference h = (case managed_type reference h of Inl _ \<Rightarrow> None | Inr ty \<Rightarrow> Some ty)"

subsection \<open>Payload\<close>

definition payload_offset :: "heap \<Rightarrow> nat" where
  "payload_offset h = header_bytes (hp_format h)"

text \<open>The bounds check all payload accesses make, and the first byte they then touch.\<close>

definition payload_start :: "nat \<Rightarrow> nat \<Rightarrow> nat \<Rightarrow> heap \<Rightarrow> vm_fault + nat" where
  "payload_start block offset len h =
     rbind (block_size block h) (\<lambda>n.
     rbind (ok_or (checked_sub n (payload_offset h)) CorruptHeap) (\<lambda>capacity.
     rbind (ok_or (checked_add 32 offset len) CorruptHeap) (\<lambda>stop.
     if capacity < stop then Inl CorruptHeap
     else
       rbind (ok_or (checked_add 32 block (payload_offset h)) CorruptHeap) (\<lambda>base.
         ok_or (checked_add 32 base offset) CorruptHeap))))"

fun store_loop :: "nat \<Rightarrow> bytes \<Rightarrow> unit heap_op" where
  "store_loop position [] h = (Inr (), h)"
| "store_loop position (b # bs) h =
     (if position div 16 < length (hp_arena h) div 16
      then store_loop (position + 1) bs (h\<lparr>hp_arena := (hp_arena h)[position := b]\<rparr>)
      else (Inl CorruptHeap, h))"

fun load_loop :: "nat \<Rightarrow> nat \<Rightarrow> heap \<Rightarrow> vm_fault + bytes" where
  "load_loop position 0 h = Inr []"
| "load_loop position (Suc n) h =
     (if position div 16 < length (hp_arena h) div 16
      then rbind (load_loop (position + 1) n h) (\<lambda>bs. Inr (hp_arena h ! position # bs))
      else Inl CorruptHeap)"

definition zero_reserved_payload :: "reserved_allocation \<Rightarrow> nat \<Rightarrow> nat \<Rightarrow> unit heap_op" where
  "zero_reserved_payload r offset len =
     sseq (sread (validate_reservation r))
     (sbind (sread (payload_start (ra_block r) offset len)) (\<lambda>start. store_loop start (replicate len 0)))"

definition write_reserved_u32 :: "reserved_allocation \<Rightarrow> nat \<Rightarrow> nat \<Rightarrow> unit heap_op" where
  "write_reserved_u32 r offset v =
     sseq (sread (validate_reservation r))
     (sbind (sread (payload_start (ra_block r) offset 4)) (\<lambda>start. store_loop start (le_bytes 4 v)))"

definition write_reserved :: "reserved_allocation \<Rightarrow> nat \<Rightarrow> bytes \<Rightarrow> unit heap_op" where
  "write_reserved r offset bs =
     sseq (sread (validate_reservation r))
     (sseq (sguard (length bs < 2 ^ 32) CorruptHeap)
     (sbind (sread (payload_start (ra_block r) offset (length bs))) (\<lambda>start. store_loop start bs)))"

definition read_payload :: "ref32 \<Rightarrow> nat \<Rightarrow> nat \<Rightarrow> heap \<Rightarrow> vm_fault + bytes" where
  "read_payload reference offset len h =
     rbind (live_block reference h) (\<lambda>block.
     if 8 < len then Inl CorruptHeap
     else
       rbind (payload_start block offset len h) (\<lambda>start.
       rbind (load_loop start len h) (\<lambda>bs. Inr (bs @ replicate (8 - len) 0))))"

definition write_payload :: "ref32 \<Rightarrow> nat \<Rightarrow> bytes \<Rightarrow> unit heap_op" where
  "write_payload reference offset bs =
     sbind (sread (live_block reference)) (\<lambda>block.
     sseq (sguard (length bs < 2 ^ 32) CorruptHeap)
     (sbind (sread (payload_start block offset (length bs))) (\<lambda>start. store_loop start bs)))"

definition payload_span :: "ref32 \<Rightarrow> nat \<Rightarrow> nat \<Rightarrow> heap \<Rightarrow> vm_fault + nat" where
  "payload_span reference offset len h =
     rbind (live_block reference h) (\<lambda>block.
     rbind (payload_start block offset len h) (\<lambda>start.
     (case checked_add 32 start len of
        None \<Rightarrow> Inl CorruptHeap
      | Some stop \<Rightarrow> if hp_arena_bytes h < stop then Inl CorruptHeap else Inr start)))"

definition copy_payload_range :: "ref32 \<Rightarrow> nat \<Rightarrow> ref32 \<Rightarrow> nat \<Rightarrow> nat \<Rightarrow> unit heap_op" where
  "copy_payload_range source source_offset destination destination_offset len =
     sbind (sread (payload_span source source_offset len)) (\<lambda>source_start.
     sbind (sread (payload_span destination destination_offset len)) (\<lambda>destination_start.
       smodify (\<lambda>h. h\<lparr>hp_arena := store destination_start (take len (drop source_start (hp_arena h))) (hp_arena h)\<rparr>)))"

fun diagnostic_loop :: "nat \<Rightarrow> nat \<Rightarrow> nat \<Rightarrow> heap \<Rightarrow> nat" where
  "diagnostic_loop 0 offset largest h = largest"
| "diagnostic_loop (Suc fuel) offset largest h =
     (if offset < hp_arena_bytes h then
        (case block_size offset h of
           Inl _ \<Rightarrow> 0
         | Inr n \<Rightarrow>
             (let largest = (case block_allocated offset h of
                               Inr False \<Rightarrow> max largest n | _ \<Rightarrow> largest) in
              (case checked_add 32 offset n of
                 None \<Rightarrow> 0
               | Some nxt \<Rightarrow> diagnostic_loop fuel nxt largest h)))
      else largest)"

definition diagnostic_of :: "heap \<Rightarrow> heap_diagnostic" where
  "diagnostic_of h =
     \<lparr>hd_total_free = hp_total_free h,
      hd_largest_free_block = diagnostic_loop (hp_arena_bytes h div MINIMUM_BLOCK_BYTES + 1) 0 0 h,
      hd_live_handles = hp_live_objects h, hd_retired_handles = 0\<rparr>"

subsection \<open>Marking and sweeping\<close>

definition enqueue_gray :: "ref32 \<Rightarrow> (heap \<times> nat option \<times> nat option, vm_fault, unit) smonad" where
  "enqueue_gray reference = (\<lambda>(h, head, tail).
     if ref32_domain reference \<noteq> Managed then (Inr (), (h, head, tail))
     else
       (case live_block reference h of
          Inl e \<Rightarrow> (Inl e, (h, head, tail))
        | Inr block \<Rightarrow>
            (case read_flags block h of
               Inl e \<Rightarrow> (Inl e, (h, head, tail))
             | Inr flags \<Rightarrow>
                 if and flags MARKED \<noteq> 0 then (Inr (), (h, head, tail))
                 else
                   (case sseq (write_flags block (or flags MARKED)) (write_previous_or_gray block NULL_OFFSET) h of
                      (Inl e, h) \<Rightarrow> (Inl e, (h, head, tail))
                    | (Inr _, h) \<Rightarrow>
                        (case tail of
                           Some previous \<Rightarrow>
                             (case sbind (sread (\<lambda>_. managed_reference previous)) (\<lambda>previous.
                                   sbind (sread (live_block previous)) (\<lambda>previous_block.
                                     write_previous_or_gray previous_block (unat (ref32_payload reference)))) h of
                                (Inl e, h) \<Rightarrow> (Inl e, (h, head, tail))
                              | (Inr _, h) \<Rightarrow> (Inr (), (h, head, Some (unat (ref32_payload reference)))))
                         | None \<Rightarrow>
                             (Inr (), (h, Some (unat (ref32_payload reference)), Some (unat (ref32_payload reference)))))))))"

definition dequeue_gray :: "(heap \<times> nat option \<times> nat option, vm_fault, (ref32 \<times> nat) option) smonad" where
  "dequeue_gray = (\<lambda>(h, head, tail).
     (case head of
        None \<Rightarrow> (Inr None, (h, head, tail))
      | Some payload \<Rightarrow>
          (case rbind (managed_reference payload) (\<lambda>reference.
                rbind (live_block reference h) (\<lambda>block.
                rbind (read_previous_or_gray block h) (\<lambda>nxt. Inr (reference, block, nxt)))) of
             Inl e \<Rightarrow> (Inl e, (h, head, tail))
           | Inr (reference, block, nxt) \<Rightarrow>
               (case write_previous_or_gray block NULL_OFFSET h of
                  (Inl e, h) \<Rightarrow> (Inl e, (h, head, tail))
                | (Inr _, h) \<Rightarrow>
                    (let head = (if nxt \<noteq> NULL_OFFSET \<and> nxt \<noteq> 0 then Some nxt else None);
                         tail = (if head = None then None else tail) in
                     (case managed_type reference h of
                        Inl e \<Rightarrow> (Inl e, (h, head, tail))
                      | Inr ty \<Rightarrow> (Inr (Some (reference, ty)), (h, head, tail))))))))"

definition sweep_free :: "nat \<Rightarrow> (nat \<times> nat) heap_op" where
  "sweep_free offset =
     sbind (sread (read_previous_or_gray offset)) (\<lambda>previous_size.
     sbind (if offset \<noteq> 0 then
              sbind (sread (\<lambda>_. ok_or (checked_sub offset previous_size) CorruptHeap)) (\<lambda>previous.
              sbind (sread (block_allocated previous)) (\<lambda>allocated. sret (if allocated then offset else previous)))
            else sret offset) (\<lambda>merged.
     sbind (sread (\<lambda>_. rbind (ok_or (checked_add 32 offset OBJECT_TYPE_ID) CorruptHeap) managed_reference)) (\<lambda>reference.
     sbind (heap_free reference) (\<lambda>freed.
     sseq (sguard freed CorruptHeap)
     (sbind (sread (block_size merged)) (\<lambda>merged_size.
     sbind (sread (\<lambda>_. ok_or (checked_add 32 merged merged_size) CorruptHeap)) (\<lambda>stop.
       sret (stop, merged_size))))))))"

definition sweep_block :: "nat \<Rightarrow> nat \<Rightarrow> (nat \<times> nat) heap_op" where
  "sweep_block offset previous_size h =
     (if hp_arena_bytes h \<le> offset then (Inl CorruptHeap, h)
      else
        sbind (sread (block_size offset)) (\<lambda>n.
        sseq (write_previous_or_gray offset previous_size)
        (sbind (sread (block_allocated offset)) (\<lambda>allocated.
         if \<not> allocated then
           sseq (observe_free_block offset)
           (sbind (sread (\<lambda>_. ok_or (checked_add 32 offset n) CorruptHeap)) (\<lambda>stop. sret (stop, n)))
         else
           sbind (sread (read_flags offset)) (\<lambda>flags.
           if and flags LIVE = 0 then sfail CorruptHeap
           else if and flags MARKED \<noteq> 0 then
             sseq (write_flags offset (flags - MARKED))
             (sbind (sread (\<lambda>_. ok_or (checked_add 32 offset n) CorruptHeap)) (\<lambda>stop. sret (stop, n)))
           else sweep_free offset)))) h)"

end
