(* ===== verification/Vm_Heap_Mem.thy ===== *)
theory Vm_Heap_Mem
  imports Vm_Heap
begin

unbundle bit_operations_syntax

text \<open>
  What the header and word accessors of the heap read and write: the fields of a block as functions of the
  arena, the effect of every accessor on them, and which bytes each write touches.
\<close>

named_theorems mem_simps \<open>what a write does to the fields of the block it writes\<close>

definition arena_ok :: "heap \<Rightarrow> bool" where
  "arena_ok h \<longleftrightarrow> length (hp_arena h) = hp_arena_bytes h \<and> 16 dvd hp_arena_bytes h \<and> 32 \<le> hp_arena_bytes h \<and>
     hp_arena_bytes h < 2 ^ 30 \<and>
     (case hp_format h of Legacy \<Rightarrow> True
      | Compact s l \<Rightarrow> 3 + s + l < 64 \<and> hp_arena_bytes h div 8 < 2 ^ s \<and> hp_arena_bytes h div 8 \<le> 2 ^ l)"

definition on_block :: "heap \<Rightarrow> nat \<Rightarrow> bool" where
  "on_block h b \<longleftrightarrow> 8 dvd b \<and> b + 16 \<le> hp_arena_bytes h"

subsection \<open>Stores\<close>

lemma length_store [simp]: "start + length new \<le> length xs \<Longrightarrow> length (store start new xs) = length xs"
  by (simp add: store_def)

lemma store_outside:
  assumes "start + length new \<le> length xs" "k < start \<or> start + length new \<le> k"
  shows "store start new xs ! k = xs ! k"
  using assms by (auto simp: store_def nth_append)

lemma store_same: "start + length new \<le> length xs \<Longrightarrow> take (length new) (drop start (store start new xs)) = new"
  by (simp add: store_def)

lemma slice_cong:
  assumes "length xs = length ys" "\<And>k. a \<le> k \<Longrightarrow> k < a + n \<Longrightarrow> xs ! k = ys ! k"
  shows "take n (drop a xs) = take n (drop a ys)"
  using assms by (intro nth_equalityI) (auto simp: nth_drop less_diff_conv)

text \<open>\<open>changes S h h'\<close>: only the arena differs, and only inside \<open>S\<close>.\<close>

definition changes :: "nat set \<Rightarrow> heap \<Rightarrow> heap \<Rightarrow> bool" where
  "changes S h h' \<longleftrightarrow> h' = h\<lparr>hp_arena := hp_arena h'\<rparr> \<and> length (hp_arena h') = length (hp_arena h) \<and>
     (\<forall>k. k \<notin> S \<longrightarrow> hp_arena h' ! k = hp_arena h ! k)"

lemma changes_refl [simp]: "changes S h h"
  by (simp add: changes_def)

lemma changes_trans: "changes S h h' \<Longrightarrow> changes T h' h'' \<Longrightarrow> changes (S \<union> T) h h''"
  unfolding changes_def by (metis UnCI heap.update_convs(2) heap.surjective heap.fold_congs(2))

lemma changes_mono: "changes S h h' \<Longrightarrow> S \<subseteq> T \<Longrightarrow> changes T h h'"
  unfolding changes_def by blast

lemma changes_into: "changes S h h' \<Longrightarrow> changes T h' h'' \<Longrightarrow> S \<subseteq> U \<Longrightarrow> T \<subseteq> U \<Longrightarrow> changes U h h''"
  using changes_mono [OF changes_trans, of S h h' T h'' U] by simp

lemma changes_fields:
  assumes "changes S h h'"
  shows "hp_format h' = hp_format h" "hp_arena_bytes h' = hp_arena_bytes h" "hp_class_heads h' = hp_class_heads h"
    "hp_first_bitmap h' = hp_first_bitmap h" "hp_second_bitmaps h' = hp_second_bitmaps h" "hp_hint h' = hp_hint h"
    "hp_total_free h' = hp_total_free h" "hp_live_objects h' = hp_live_objects h" "arena_ok h' = arena_ok h"
    "on_block h' b = on_block h b" "length (hp_arena h') = length (hp_arena h)"
proof -
  obtain A where A: "h' = h\<lparr>hp_arena := A\<rparr>" "length A = length (hp_arena h)" using assms unfolding changes_def by metis
  show "hp_format h' = hp_format h" "hp_arena_bytes h' = hp_arena_bytes h" "hp_class_heads h' = hp_class_heads h"
    "hp_first_bitmap h' = hp_first_bitmap h" "hp_second_bitmaps h' = hp_second_bitmaps h" "hp_hint h' = hp_hint h"
    "hp_total_free h' = hp_total_free h" "hp_live_objects h' = hp_live_objects h" "arena_ok h' = arena_ok h"
    "on_block h' b = on_block h b" "length (hp_arena h') = length (hp_arena h)"
    using A(2) unfolding A(1) by (simp_all add: arena_ok_def on_block_def split: header_format.split)
qed

subsection \<open>Words\<close>

definition word4 :: "heap \<Rightarrow> nat \<Rightarrow> nat" where
  "word4 h a = le_nat (take 4 (drop a (hp_arena h)))"

definition header8 :: "heap \<Rightarrow> nat \<Rightarrow> u64" where
  "header8 h b = of_nat (le_nat (take 8 (drop b (hp_arena h))))"

lemma word4_less: "word4 h a < 2 ^ 32"
proof -
  have "le_nat (take 4 (drop a (hp_arena h))) < 256 ^ length (take 4 (drop a (hp_arena h)))" by (rule le_nat_less)
  also have "\<dots> \<le> 256 ^ 4" by (intro power_increasing) simp_all
  finally show ?thesis by (simp add: word4_def)
qed

lemma word4_frame: "changes S h h' \<Longrightarrow> {a..<a + 4} \<inter> S = {} \<Longrightarrow> word4 h' a = word4 h a"
  unfolding word4_def by (rule arg_cong [of _ _ le_nat], rule slice_cong) (auto simp: changes_def)

lemma header8_frame: "changes S h h' \<Longrightarrow> {b..<b + 8} \<inter> S = {} \<Longrightarrow> header8 h' b = header8 h b"
  unfolding header8_def by (rule arg_cong [of _ _ "\<lambda>x. of_nat (le_nat x)"], rule slice_cong) (auto simp: changes_def)

lemma unit_in_range_iff:
  assumes "arena_ok h" "n dvd 16" "n dvd start" "0 < n" "start + n \<le> hp_arena_bytes h"
  shows "unit_in_range start n h"
proof -
  from assms(2) obtain k where k: "16 = n * k" by (elim dvdE)
  from assms(1) have len: "length (hp_arena h) = hp_arena_bytes h" "16 dvd hp_arena_bytes h" by (simp_all add: arena_ok_def)
  have "start mod 16 + n \<le> 16"
  proof -
    obtain j where j: "start = n * j" using assms(3) by (elim dvdE)
    have "start mod 16 = (n * j) mod (n * k)" by (simp only: j k [symmetric])
    also have "\<dots> = n * (j mod k)" by (rule mult_mod_right [symmetric])
    finally have "start mod 16 = n * (j mod k)" .
    moreover have "0 < k" using k by (cases k) simp_all
    then have "j mod k < k" by simp
    then have "n * Suc (j mod k) \<le> n * k" by (intro mult_le_mono2) (simp add: Suc_le_eq)
    ultimately show ?thesis using k by simp
  qed
  moreover have "start div 16 < length (hp_arena h) div 16"
  proof -
    obtain m where m: "hp_arena_bytes h = 16 * m" using len(2) by (elim dvdE)
    have "start < 16 * m" using assms(4,5) m by linarith
    then show ?thesis using len(1) m by (simp add: less_mult_imp_div_less mult.commute)
  qed
  ultimately show ?thesis by (simp add: unit_in_range_def)
qed

lemma read_word_eq:
  assumes "arena_ok h" "4 dvd b + f" "b + f + 4 \<le> hp_arena_bytes h"
  shows "read_word b f h = Inr (word4 h (b + f))"
proof -
  have "unit_in_range (b + f) 4 h" using assms by (intro unit_in_range_iff) simp_all
  moreover have "b + f < 2 ^ 32" using assms by (simp add: arena_ok_def)
  ultimately show ?thesis by (simp add: read_word_def checked_add_def word4_def)
qed

lemma read_header_eq: "arena_ok h \<Longrightarrow> on_block h b \<Longrightarrow> read_compact_header b h = Inr (header8 h b)"
  using unit_in_range_iff [of h 8 b] by (simp add: read_compact_header_def header8_def on_block_def)

lemma put_changes:
  assumes "start + length new \<le> length (hp_arena h)"
  shows "changes {start..<start + length new} h (h\<lparr>hp_arena := store start new (hp_arena h)\<rparr>)"
  using assms store_outside [OF assms] by (auto simp: changes_def)

lemma write_word_eq:
  assumes "arena_ok h" "4 dvd b + f" "b + f + 4 \<le> hp_arena_bytes h" "v < 2 ^ 32"
  shows "\<exists>h'. write_word b f v h = (Inr (), h') \<and> changes {b + f..<b + f + 4} h h' \<and> word4 h' (b + f) = v"
proof -
  let ?h = "h\<lparr>hp_arena := store (b + f) (le_bytes 4 v) (hp_arena h)\<rparr>"
  have "unit_in_range (b + f) 4 h" using assms by (intro unit_in_range_iff) simp_all
  moreover have "b + f < 2 ^ 32" using assms by (simp add: arena_ok_def)
  ultimately have "write_word b f v h = (Inr (), ?h)" by (simp add: write_word_def sbind_def checked_add_def)
  moreover have len: "b + f + length (le_bytes 4 v) \<le> length (hp_arena h)" using assms by (simp add: arena_ok_def)
  have "changes {b + f..<b + f + 4} h ?h" using put_changes [OF len] by simp
  moreover have "word4 ?h (b + f) = v" using store_same [OF len] assms(4) by (simp add: word4_def le_nat_le_bytes_id)
  ultimately show ?thesis by blast
qed

lemma write_compact_eq:
  assumes "arena_ok h" "on_block h b"
  shows "\<exists>h'. write_compact_header b w h = (Inr (), h') \<and> changes {b..<b + 8} h h' \<and> header8 h' b = w"
proof -
  let ?h = "h\<lparr>hp_arena := store b (le_bytes 8 (unat w)) (hp_arena h)\<rparr>"
  have "unit_in_range b 8 h" using assms by (intro unit_in_range_iff) (simp_all add: on_block_def)
  then have "write_compact_header b w h = (Inr (), ?h)" by (simp add: write_compact_header_def)
  moreover have len: "b + length (le_bytes 8 (unat w)) \<le> length (hp_arena h)" using assms by (simp add: arena_ok_def on_block_def)
  have "changes {b..<b + 8} h ?h" using put_changes [OF len] by simp
  moreover have "unat w < 256 ^ 8" using unat_less_u64 [of w] by simp
  then have "header8 ?h b = w" using store_same [OF len] by (simp add: header8_def le_nat_le_bytes_id)
  ultimately show ?thesis by blast
qed

subsection \<open>The fields of a block\<close>

definition hsize :: "heap \<Rightarrow> nat \<Rightarrow> nat" where
  "hsize h b = (case hp_format h of Legacy \<Rightarrow> word4 h b div 8 * 8
    | Compact s l \<Rightarrow> unat (take_bit s (drop_bit 3 (header8 h b))) * 8)"

definition hflags :: "heap \<Rightarrow> nat \<Rightarrow> nat" where
  "hflags h b = (case hp_format h of Legacy \<Rightarrow> word4 h b mod 8 | Compact s l \<Rightarrow> unat (take_bit 3 (header8 h b)))"

definition hprev :: "heap \<Rightarrow> nat \<Rightarrow> nat" where
  "hprev h b = (case hp_format h of Legacy \<Rightarrow> word4 h (b + 4)
    | Compact s l \<Rightarrow> unat (take_bit l (drop_bit (3 + s) (header8 h b))) * 8)"

definition htype :: "heap \<Rightarrow> nat \<Rightarrow> nat" where
  "htype h b = (case hp_format h of Legacy \<Rightarrow> word4 h (b + 8)
    | Compact s l \<Rightarrow> unat (drop_bit (3 + s + l) (header8 h b)))"

definition hnext :: "heap \<Rightarrow> nat \<Rightarrow> nat" where "hnext h b = word4 h (b + 8)"
definition hback :: "heap \<Rightarrow> nat \<Rightarrow> nat" where "hback h b = word4 h (b + 12)"

lemma inter_sub: "{a..<b} \<inter> S = {} \<Longrightarrow> a \<le> c \<Longrightarrow> d \<le> b \<Longrightarrow> {c..<d :: nat} \<inter> S = {}"
proof -
  assume "{a..<b} \<inter> S = {}" "a \<le> c" "d \<le> b"
  then have "{c..<d} \<subseteq> {a..<b}" by auto
  with \<open>{a..<b} \<inter> S = {}\<close> show ?thesis by blast
qed

lemma header_frame:
  assumes "changes S h h'" "{b..<b + 8} \<inter> S = {}"
  shows "hsize h' b = hsize h b" "hflags h' b = hflags h b" "hprev h' b = hprev h b"
proof -
  have "word4 h' b = word4 h b" "word4 h' (b + 4) = word4 h (b + 4)"
    by (rule word4_frame [OF assms(1)], rule inter_sub [OF assms(2)], simp, simp)+
  moreover have "header8 h' b = header8 h b" using assms by (rule header8_frame)
  ultimately show "hsize h' b = hsize h b" "hflags h' b = hflags h b" "hprev h' b = hprev h b"
    using changes_fields(1) [OF assms(1)] by (simp_all add: hsize_def hflags_def hprev_def split: header_format.split)
qed

lemma type_frame: "changes S h h' \<Longrightarrow> {b..<b + 12} \<inter> S = {} \<Longrightarrow> htype h' b = htype h b"
  using word4_frame [of S h h' "b + 8"] header8_frame [of S h h' b] changes_fields(1) [of S h h']
    inter_sub [of b "b + 12" S "b + 8" "b + 8 + 4"] inter_sub [of b "b + 12" S b "b + 8"]
  by (simp add: htype_def split: header_format.splits)

lemma links_frame:
  assumes "changes S h h'" "{b + 8..<b + 16} \<inter> S = {}"
  shows "hnext h' b = hnext h b" "hback h' b = hback h b"
  unfolding hnext_def hback_def by (rule word4_frame [OF assms(1)], rule inter_sub [OF assms(2)], simp, simp)+

lemma fields_less: "hflags h b < 8" "8 dvd hsize h b" "hnext h b < 2 ^ 32" "hback h b < 2 ^ 32"
proof -
  have "unat (take_bit 3 w) < 8" for w :: u64 unfolding unsigned_take_bit_eq by (simp add: take_bit_eq_mod)
  then show "hflags h b < 8" "8 dvd hsize h b" "hnext h b < 2 ^ 32" "hback h b < 2 ^ 32"
    using word4_less by (simp_all add: hflags_def hsize_def hnext_def hback_def split: header_format.split)
qed

lemma bit_mask_mask: "bits \<le> 64 \<Longrightarrow> bit_mask bits = mask bits"
  unfolding bit_mask_def by (auto simp: bit_eq_iff bit_simps)

lemma bit_mask_nat: "bits \<le> 64 \<Longrightarrow> unat (bit_mask bits) = 2 ^ bits - 1"
proof -
  assume le: "bits \<le> 64"
  then have "unat (bit_mask bits) = unat (take_bit bits (- 1 :: u64))" by (simp add: bit_mask_mask)
  also have "\<dots> = mask bits" using le by (simp only: unsigned_take_bit_eq unsigned_minus_1_eq_mask take_bit_of_mask) (simp add: min_def)
  finally show ?thesis by (simp add: mask_eq_exp_minus_1)
qed

lemma size_mask_nat:
  assumes "w < 2 ^ 32"
  shows "unat ((of_nat w :: u32) AND SIZE_MASK) = w div 8 * 8" "unat ((of_nat w :: u32) AND NOT SIZE_MASK) = w mod 8"
proof -
  show "unat ((of_nat w :: u32) AND SIZE_MASK) = w div 8 * 8"
    using align_word [of w 3] assms by (simp add: SIZE_MASK_def BLOCK_ALIGNMENT_def)
  have "NOT SIZE_MASK = mask 3" by (simp add: SIZE_MASK_def BLOCK_ALIGNMENT_def mask_eq_exp_minus_1)
  then have "unat ((of_nat w :: u32) AND NOT SIZE_MASK) = unat (take_bit 3 (of_nat w :: u32))" by (simp add: take_bit_eq_mask)
  also have "\<dots> = take_bit 3 (unat (of_nat w :: u32))" by (rule unsigned_take_bit_eq)
  also have "\<dots> = w mod 8" using assms by (simp add: take_bit_eq_mod unat_of_nat)
  finally show "unat ((of_nat w :: u32) AND NOT SIZE_MASK) = w mod 8" .
qed

lemma on_block_less: "on_block h b \<Longrightarrow> 4 dvd b \<and> 4 dvd b + 4 \<and> 4 dvd b + 8 \<and> 4 dvd b + 12"
  unfolding on_block_def by presburger

lemma read_flags_eq:
  assumes "arena_ok h" "on_block h b"
  shows "read_flags b h = Inr (hflags h b)"
proof (cases "hp_format h")
  case Legacy
  have "read_word b SIZE_FLAGS h = Inr (word4 h b)"
    using read_word_eq [OF assms(1), of b 0] on_block_less [OF assms(2)] assms(2) by (simp add: SIZE_FLAGS_def on_block_def)
  with Legacy show ?thesis by (simp add: read_flags_def hflags_def size_mask_nat [OF word4_less])
next
  case (Compact s l)
  have "(7 :: u64) = mask 3" by (simp add: mask_eq_exp_minus_1)
  with Compact show ?thesis by (simp add: read_flags_def hflags_def read_header_eq [OF assms] take_bit_eq_mask)
qed

lemma block_allocated_eq: "arena_ok h \<Longrightarrow> on_block h b \<Longrightarrow> block_allocated b h = Inr (odd (hflags h b))"
  by (simp add: block_allocated_def read_flags_eq ALLOCATED_def and_one_eq odd_iff_mod_2_eq_one)

lemma block_size_eq:
  assumes "arena_ok h" "on_block h b" "16 \<le> hsize h b" "hsize h b < 2 ^ 32"
  shows "block_size b h = Inr (hsize h b)"
proof (cases "hp_format h")
  case Legacy
  have "read_word b SIZE_FLAGS h = Inr (word4 h b)"
    using read_word_eq [OF assms(1), of b 0] on_block_less [OF assms(2)] assms(2) by (simp add: SIZE_FLAGS_def on_block_def)
  with Legacy assms(3) show ?thesis
    by (simp add: block_size_def hsize_def size_mask_nat [OF word4_less] MINIMUM_BLOCK_BYTES_def BLOCK_ALIGNMENT_def)
next
  case (Compact s l)
  then have "s \<le> 64" using assms(1) by (simp add: arena_ok_def)
  with Compact assms(3,4) show ?thesis
    by (simp add: block_size_def hsize_def read_header_eq [OF assms(1,2)] bit_mask_mask take_bit_eq_mask [symmetric] to_u32_def
        MINIMUM_BLOCK_BYTES_def BLOCK_ALIGNMENT_def)
qed

lemma read_previous_eq:
  assumes "arena_ok h" "on_block h b" "hprev h b < 2 ^ 32"
  shows "read_previous_or_gray b h = Inr (hprev h b)"
proof (cases "hp_format h")
  case Legacy
  then show ?thesis
    using read_word_eq [OF assms(1), of b 4] on_block_less [OF assms(2)] assms(2)
    by (simp add: read_previous_or_gray_def hprev_def PREVIOUS_SIZE_def on_block_def)
next
  case (Compact s l)
  then have "l \<le> 64" using assms(1) by (simp add: arena_ok_def)
  with Compact assms(3) show ?thesis
    by (simp add: read_previous_or_gray_def hprev_def read_header_eq [OF assms(1,2)] bit_mask_mask take_bit_eq_mask [symmetric] to_u32_def
        BLOCK_ALIGNMENT_def)
qed

subsection \<open>What the header writes do\<close>

lemma or_low: "f < 8 \<Longrightarrow> or (k * 8) f = k * 8 + (f :: nat)"
proof -
  assume "f < 8"
  then have "f = take_bit 3 f" by (simp add: take_bit_eq_mod)
  then have "\<not> bit f n" if "3 \<le> n" for n using that by (metis bit_take_bit_iff not_le)
  moreover have "\<not> bit (k * 8) n" if "n < 3" for n
    using that bit_push_bit_iff [of 3 k n] by (simp add: push_bit_eq_mult)
  ultimately have "k * 8 + f = or (k * 8) f" by (intro disjunctive_add) (metis not_le)
  then show ?thesis by simp
qed

lemma of_nat_take_bit: "u < 2 ^ n \<Longrightarrow> take_bit n (of_nat u :: u64) = of_nat u"
  by (simp add: take_bit_of_nat take_bit_nat_eq_self)

lemma small_nat: "k < 2 ^ 32 \<Longrightarrow> unat (of_nat k :: u64) = k"
  by (simp add: unat_of_nat)

lemma bit_u64_less: "bit (w :: u64) n \<Longrightarrow> n < 64"
  using bit_imp_le_length [of w n] by simp

lemma flags_word:
  fixes hd :: u64
  assumes "take_bit 3 f = f"
  shows "take_bit 3 ((hd AND NOT 7) OR f) = f" "drop_bit 3 ((hd AND NOT 7) OR f) = drop_bit 3 hd"
proof -
  have m: "(7 :: u64) = mask 3" by (simp add: mask_eq_exp_minus_1)
  have high: "\<not> bit f n" if "3 \<le> n" for n using assms that by (metis bit_take_bit_iff not_le)
  show "take_bit 3 ((hd AND NOT 7) OR f) = f" "drop_bit 3 ((hd AND NOT 7) OR f) = drop_bit 3 hd"
    unfolding m using high by (auto simp: bit_eq_iff bit_simps not_less dest: bit_u64_less)
qed

lemma field_word:
  fixes hd :: u64
  assumes "take_bit l u = u" "k + l \<le> 64"
  shows "take_bit k ((hd AND NOT (push_bit k (mask l))) OR push_bit k u) = take_bit k hd"
    "take_bit l (drop_bit k ((hd AND NOT (push_bit k (mask l))) OR push_bit k u)) = u"
    "drop_bit (k + l) ((hd AND NOT (push_bit k (mask l))) OR push_bit k u) = drop_bit (k + l) hd"
proof -
  have high: "\<not> bit u n" if "l \<le> n" for n using assms(1) that by (metis bit_take_bit_iff not_le)
  show "take_bit k ((hd AND NOT (push_bit k (mask l))) OR push_bit k u) = take_bit k hd"
    by (auto simp: bit_eq_iff bit_simps dest: bit_u64_less)
  show "take_bit l (drop_bit k ((hd AND NOT (push_bit k (mask l))) OR push_bit k u)) = u"
    using high assms(2) by (auto simp: bit_eq_iff bit_simps not_less dest: bit_u64_less)
  show "drop_bit (k + l) ((hd AND NOT (push_bit k (mask l))) OR push_bit k u) = drop_bit (k + l) hd"
    using high by (auto simp: bit_eq_iff bit_simps not_less dest: bit_u64_less)
qed

lemma fresh_word:
  fixes S P :: u64
  assumes "take_bit s S = S" "take_bit l P = P" "3 + s + l \<le> 64"
  shows "take_bit 3 ((of_bool a OR push_bit 3 S) OR push_bit (3 + s) P) = of_bool a"
    "take_bit s (drop_bit 3 ((of_bool a OR push_bit 3 S) OR push_bit (3 + s) P)) = S"
    "take_bit l (drop_bit (3 + s) ((of_bool a OR push_bit 3 S) OR push_bit (3 + s) P)) = P"
proof -
  have S: "n < s" if "bit S n" for n using assms(1) that by (metis bit_take_bit_iff)
  have P: "n < l" if "bit P n" for n using assms(2) that by (metis bit_take_bit_iff)
  show "take_bit 3 ((of_bool a OR push_bit 3 S) OR push_bit (3 + s) P) = of_bool a"
    "take_bit s (drop_bit 3 ((of_bool a OR push_bit 3 S) OR push_bit (3 + s) P)) = S"
    "take_bit l (drop_bit (3 + s) ((of_bool a OR push_bit 3 S) OR push_bit (3 + s) P)) = P"
    using assms(3) by (intro bit_word_eqI; auto simp: bit_simps dest: S P bit_u64_less; use S P in fastforce)+
qed

lemma write_flags_eq:
  assumes ok: "arena_ok h" "on_block h b" and f: "f < 8"
  shows "\<exists>h'. write_flags b f h = (Inr (), h') \<and> changes {b..<b + 8} h h' \<and> hflags h' b = f \<and>
    hsize h' b = hsize h b \<and> hprev h' b = hprev h b \<and> htype h' b = htype h b"
proof (cases "hp_format h")
  case Legacy
  have read: "read_word b SIZE_FLAGS h = Inr (word4 h b)"
    using read_word_eq [OF ok(1), of b 0] on_block_less [OF ok(2)] ok(2) by (simp add: SIZE_FLAGS_def on_block_def)
  let ?v = "word4 h b div 8 * 8 + f"
  have "word4 h b div 8 < 2 ^ 29" using word4_less [of h b] by (simp add: less_mult_imp_div_less)
  then have less: "?v < 2 ^ 32" using f by simp
  obtain h' where h': "write_word b SIZE_FLAGS ?v h = (Inr (), h')" "changes {b..<b + 4} h h'" "word4 h' b = ?v"
    using write_word_eq [OF ok(1), of b 0 ?v] on_block_less [OF ok(2)] ok(2) less by (auto simp: SIZE_FLAGS_def on_block_def)
  have fmt: "hp_format h' = Legacy" using changes_fields(1) [OF h'(2)] Legacy by simp
  have "word4 h' (b + 4) = word4 h (b + 4)" "word4 h' (b + 8) = word4 h (b + 8)" by (rule word4_frame [OF h'(2)], simp)+
  moreover have "write_flags b f h = (Inr (), h')"
    using f h'(1) read Legacy by (simp add: write_flags_def sbind_def size_mask_nat [OF word4_less] or_low)
  moreover have "?v div 8 = word4 h b div 8" "?v mod 8 = f" using f by simp_all
  ultimately show ?thesis using h'(3) fmt Legacy changes_mono [OF h'(2), of "{b..<b + 8}"]
    by (intro exI [of _ h']) (simp add: hflags_def hsize_def hprev_def htype_def)
next
  case (Compact s l)
  let ?w = "(header8 h b AND NOT 7) OR of_nat f"
  obtain h' where h': "write_compact_header b ?w h = (Inr (), h')" "changes {b..<b + 8} h h'" "header8 h' b = ?w"
    using write_compact_eq [OF ok] by blast
  have fmt: "hp_format h' = Compact s l" using changes_fields(1) [OF h'(2)] Compact by simp
  have t: "take_bit 3 (of_nat f :: u64) = of_nat f" using f by (intro of_nat_take_bit) simp
  note low = flags_word [OF t, of "header8 h b"]
  have "drop_bit (3 + k) ?w = drop_bit (3 + k) (header8 h b)" for k
    using low(2) unfolding add.commute [of 3 k] drop_bit_drop_bit [symmetric] by (rule arg_cong)
  moreover have "unat (of_nat f :: u64) = f" using f by (simp add: unat_of_nat)
  moreover have "write_flags b f h = (Inr (), h')"
    using f h'(1) Compact by (simp add: write_flags_def sbind_def read_header_eq [OF ok])
  ultimately show ?thesis using h' fmt Compact low
    by (intro exI [of _ h']) (simp add: hflags_def hsize_def hprev_def htype_def add.assoc)
qed

definition link_fits :: "heap \<Rightarrow> nat \<Rightarrow> bool" where
  "link_fits h v \<longleftrightarrow> 8 dvd v \<and> v < hp_arena_bytes h"

lemma link_fits_compact:
  assumes "arena_ok h" "link_fits h v" "hp_format h = Compact s l"
  shows "v div 8 < 2 ^ l"
proof -
  have "v div 8 < hp_arena_bytes h div 8"
    using assms(1,2) by (intro div_less_mono) (auto simp: link_fits_def arena_ok_def)
  also have "\<dots> \<le> 2 ^ l" using assms(1,3) by (simp add: arena_ok_def)
  finally show ?thesis .
qed

lemma write_block_word:
  assumes "arena_ok h" "on_block h b" "4 dvd f" "f \<le> 12" "v < 2 ^ 32"
  shows "\<exists>h'. write_word b f v h = (Inr (), h') \<and> changes {b + f..<b + f + 4} h h' \<and> word4 h' (b + f) = v"
proof (rule write_word_eq [OF assms(1) _ _ assms(5)])
  show "4 dvd b + f" using assms(2,3) by (auto simp: on_block_def elim: dvd_trans [of 4 8, OF dvdI [of 8 4 2]])
  show "b + f + 4 \<le> hp_arena_bytes h" using assms(2,4) by (simp add: on_block_def)
qed

text \<open>What is read back after a link is stored: the compact format has no pattern for the null offset but zero.\<close>

definition stored_link :: "heap \<Rightarrow> nat \<Rightarrow> nat" where
  "stored_link h v = (if v = NULL_OFFSET \<and> hp_format h \<noteq> Legacy then 0 else v)"

lemma write_previous_eq:
  assumes ok: "arena_ok h" "on_block h b" and v: "link_fits h v \<or> v = NULL_OFFSET"
  shows "\<exists>h'. write_previous_or_gray b v h = (Inr (), h') \<and> changes {b..<b + 8} h h' \<and> hprev h' b = stored_link h v \<and>
    hsize h' b = hsize h b \<and> hflags h' b = hflags h b \<and> htype h' b = htype h b"
proof (cases "hp_format h")
  case Legacy
  have "v < 2 ^ 32" using v ok(1) by (auto simp: NULL_OFFSET_def link_fits_def arena_ok_def)
  then obtain h' where h': "write_word b PREVIOUS_SIZE v h = (Inr (), h')" "changes {b + 4..<b + 4 + 4} h h'" "word4 h' (b + 4) = v"
    using write_block_word [OF ok, of 4 v] by (auto simp: PREVIOUS_SIZE_def)
  have fmt: "hp_format h' = Legacy" using changes_fields(1) [OF h'(2)] Legacy by simp
  have "word4 h' b = word4 h b" "word4 h' (b + 8) = word4 h (b + 8)" by (rule word4_frame [OF h'(2)], simp)+
  then show ?thesis using h'(1,3) fmt Legacy changes_mono [OF h'(2), of "{b..<b + 8}"]
    by (intro exI [of _ h']) (simp add: write_previous_or_gray_def hflags_def hsize_def hprev_def htype_def stored_link_def)
next
  case (Compact s l)
  let ?u = "if v = NULL_OFFSET then 0 else v div BLOCK_ALIGNMENT"
  let ?w = "(header8 h b AND NOT (push_bit (3 + s) (mask l))) OR push_bit (3 + s) (of_nat ?u)"
  have bits: "3 + s + l \<le> 64" "l \<le> 64" using ok(1) Compact by (simp_all add: arena_ok_def)
  have u: "?u < 2 ^ l" using v link_fits_compact [OF ok(1) _ Compact] by (auto simp: BLOCK_ALIGNMENT_def)
  have small: "?u < 2 ^ 64" using u bits(2) power_increasing [of l 64 "2 :: nat"] by linarith
  obtain h' where h': "write_compact_header b ?w h = (Inr (), h')" "changes {b..<b + 8} h h'" "header8 h' b = ?w"
    using write_compact_eq [OF ok] by blast
  have fmt: "hp_format h' = Compact s l" using changes_fields(1) [OF h'(2)] Compact by simp
  have t: "take_bit l (of_nat ?u :: u64) = of_nat ?u" using u by (rule of_nat_take_bit)
  note w = field_word [OF t bits(1), of "header8 h b"]
  have low: "take_bit 3 ?w = take_bit 3 (header8 h b)"
    by (rule take_bit_tightened [OF w(1)]) simp
  have size: "take_bit s (drop_bit 3 ?w) = take_bit s (drop_bit 3 (header8 h b))"
    using w(1) by (simp only: take_bit_drop_bit add.commute [of s 3])
  have aligned: "(v \<noteq> NULL_OFFSET \<and> v mod BLOCK_ALIGNMENT \<noteq> 0) = False"
    using v by (auto simp: link_fits_def BLOCK_ALIGNMENT_def dvd_eq_mod_eq_0)
  have room: "(unat (bit_mask l) < ?u) = False" using u by (simp add: bit_mask_nat [OF bits(2)] split del: if_split)
  have run: "write_previous_or_gray b v h = (Inr (), h')"
    unfolding write_previous_or_gray_def Compact Let_def header_format.case sbind_def sread_def
    using h'(1) by (simp only: Compact Let_def header_format.case aligned room [unfolded bit_mask_mask [OF bits(2)]] if_False
        read_header_eq [OF ok] bit_mask_mask [OF bits(2)] prod.case sum.case)
  have "unat (of_nat ?u :: u64) = ?u" using small by (simp add: unat_of_nat take_bit_nat_eq_self del: of_nat_less_iff split del: if_split)
  then have "hprev h' b = ?u * 8" using fmt h'(3) w(2) by (simp only: hprev_def header_format.case)
  also have "\<dots> = stored_link h v" using v Compact by (auto simp: stored_link_def link_fits_def BLOCK_ALIGNMENT_def)
  finally have "hprev h' b = stored_link h v" .
  moreover have "hsize h' b = hsize h b" "hflags h' b = hflags h b" "htype h' b = htype h b"
    using fmt Compact h'(3) low size w(3) by (simp_all only: hsize_def hflags_def htype_def header_format.case)
  ultimately show ?thesis using run h'(2) by blast
qed

definition type_fits :: "heap \<Rightarrow> nat \<Rightarrow> bool" where
  "type_fits h t \<longleftrightarrow> t < 2 ^ 32 \<and> (case hp_format h of Legacy \<Rightarrow> True | Compact s l \<Rightarrow> t < 2 ^ (64 - (3 + s + l)))"

lemma read_type_eq: "arena_ok h \<Longrightarrow> on_block h b \<Longrightarrow> htype h b < 2 ^ 32 \<Longrightarrow> read_type b h = Inr (htype h b)"
  using read_word_eq [of h b 8] on_block_less [of h b]
  by (auto simp: read_type_def htype_def read_header_eq to_u32_def OBJECT_TYPE_ID_def BLOCK_HEADER_BYTES_def on_block_def
      split: header_format.split_asm header_format.split)

lemma write_type_eq:
  assumes ok: "arena_ok h" "on_block h b" and t: "type_fits h t"
  shows "\<exists>h'. write_type b t h = (Inr (), h') \<and> changes {b..<b + 12} h h' \<and> htype h' b = t \<and>
    (hp_format h \<noteq> Legacy \<longrightarrow> changes {b..<b + 8} h h') \<and>
    hsize h' b = hsize h b \<and> hflags h' b = hflags h b \<and> hprev h' b = hprev h b"
proof (cases "hp_format h")
  case Legacy
  obtain h' where h': "write_word b OBJECT_TYPE_ID t h = (Inr (), h')" "changes {b + 8..<b + 8 + 4} h h'" "word4 h' (b + 8) = t"
    using write_block_word [OF ok, of 8 t] t by (auto simp: OBJECT_TYPE_ID_def BLOCK_HEADER_BYTES_def type_fits_def)
  have fmt: "hp_format h' = Legacy" using changes_fields(1) [OF h'(2)] Legacy by simp
  have "word4 h' b = word4 h b" "word4 h' (b + 4) = word4 h (b + 4)" by (rule word4_frame [OF h'(2)], simp)+
  then show ?thesis using h'(1,3) fmt Legacy changes_mono [OF h'(2), of "{b..<b + 12}"]
    by (intro exI [of _ h']) (simp add: write_type_def hflags_def hsize_def hprev_def htype_def)
next
  case (Compact s l)
  let ?k = "3 + s + l" and ?n = "64 - (3 + s + l)"
  let ?w = "(header8 h b AND NOT (push_bit ?k (mask ?n))) OR push_bit ?k (of_nat t)"
  have bits: "?k + ?n \<le> 64" "?n \<le> 64" using ok(1) Compact by (simp_all add: arena_ok_def)
  have less: "t < 2 ^ ?n" "t < 2 ^ 32" using t Compact by (simp_all add: type_fits_def)
  obtain h' where h': "write_compact_header b ?w h = (Inr (), h')" "changes {b..<b + 8} h h'" "header8 h' b = ?w"
    using write_compact_eq [OF ok] by blast
  have fmt: "hp_format h' = Compact s l" using changes_fields(1) [OF h'(2)] Compact by simp
  note w = field_word [OF of_nat_take_bit [OF less(1)] bits(1), of "header8 h b"]
  have low: "take_bit 3 ?w = take_bit 3 (header8 h b)" by (rule take_bit_tightened [OF w(1)]) simp
  have size: "take_bit s (drop_bit 3 ?w) = take_bit s (drop_bit 3 (header8 h b))"
    unfolding take_bit_drop_bit by (rule arg_cong [where f = "drop_bit 3"], rule take_bit_tightened [OF w(1)]) simp
  have link: "take_bit l (drop_bit (3 + s) ?w) = take_bit l (drop_bit (3 + s) (header8 h b))"
    unfolding take_bit_drop_bit by (rule arg_cong [where f = "drop_bit (3 + s)"], rule take_bit_tightened [OF w(1)]) simp
  have "drop_bit ?k ?w = take_bit ?n (drop_bit ?k ?w)"
    by (rule bit_word_eqI) (auto simp: bit_simps dest: bit_u64_less)
  then have top: "drop_bit ?k ?w = of_nat t" using w(2) by simp
  have room: "(unat (bit_mask ?n) < t) = False" using less(1) unfolding bit_mask_nat [OF bits(2)] by auto
  have run: "write_type b t h = (Inr (), h')"
    unfolding write_type_def Compact Let_def header_format.case sbind_def sread_def
    using h'(1) by (simp only: Compact Let_def header_format.case room [unfolded bit_mask_mask [OF bits(2)]] if_False
        read_header_eq [OF ok] bit_mask_mask [OF bits(2)] prod.case sum.case)
  have "unat (of_nat t :: u64) = t" using less(2) by (rule small_nat)
  then have "htype h' b = t" "hsize h' b = hsize h b" "hflags h' b = hflags h b" "hprev h' b = hprev h b"
    using fmt Compact h'(3) low size link top by (simp_all only: hsize_def hflags_def htype_def hprev_def header_format.case)
  then show ?thesis using run h'(2) changes_mono [OF h'(2), of "{b..<b + 12}"] by auto
qed

lemma write_block_header_eq:
  assumes ok: "arena_ok h" "on_block h b" and n: "8 dvd n" "n \<le> hp_arena_bytes h" and p: "link_fits h p"
  shows "\<exists>h'. write_block_header b n p a h = (Inr (), h') \<and> changes {b..<b + 8} h h' \<and> hsize h' b = n \<and> hprev h' b = p \<and>
    hflags h' b = of_bool a"
proof (cases "hp_format h")
  case Legacy
  have less: "n + of_bool a < 2 ^ 32" "p < 2 ^ 32" "n div 8 * 8 = n" using n ok(1) p by (auto simp: arena_ok_def link_fits_def)
  have v: "or n (of_bool a) = n + of_bool a" using or_low [of "of_bool a" "n div 8"] less(3) by simp
  obtain h1 where h1: "write_word b SIZE_FLAGS (n + of_bool a) h = (Inr (), h1)" "changes {b..<b + 4} h h1" "word4 h1 b = n + of_bool a"
    using write_block_word [OF ok, of 0 "n + of_bool a"] less(1) by (auto simp: SIZE_FLAGS_def)
  have ok1: "arena_ok h1" "on_block h1 b" using ok changes_fields [OF h1(2)] by simp_all
  obtain h2 where h2: "write_word b PREVIOUS_SIZE p h1 = (Inr (), h2)" "changes {b + 4..<b + 4 + 4} h1 h2" "word4 h2 (b + 4) = p"
    using write_block_word [OF ok1, of 4 p] less(2) by (auto simp: PREVIOUS_SIZE_def)
  have c: "changes {b..<b + 8} h h2"
    by (rule changes_into [OF h1(2) h2(2)]) auto
  have "word4 h2 b = word4 h1 b" by (rule word4_frame [OF h2(2)]) simp
  then show ?thesis using h1 h2(1,3) c Legacy changes_fields(1) [OF c] less(3) n(1) v
    by (intro exI [of _ h2]) (auto simp: write_block_header_def sseq_def sbind_def hflags_def hsize_def hprev_def)
next
  case (Compact s l)
  let ?w = "(of_bool a OR push_bit 3 (of_nat (n div 8))) OR push_bit (3 + s) (of_nat (p div 8))"
  have bits: "3 + s + l \<le> 64" "s \<le> 64" "l \<le> 64" using ok(1) Compact by (simp_all add: arena_ok_def)
  have "n div 8 \<le> hp_arena_bytes h div 8" using n(2) by (rule div_le_mono)
  then have S: "n div 8 < 2 ^ s" using ok(1) Compact by (simp add: arena_ok_def)
  have P: "p div 8 < 2 ^ l" by (rule link_fits_compact [OF ok(1) p Compact])
  obtain h' where h': "write_compact_header b ?w h = (Inr (), h')" "changes {b..<b + 8} h h'" "header8 h' b = ?w"
    using write_compact_eq [OF ok] by blast
  have fmt: "hp_format h' = Compact s l" using changes_fields(1) [OF h'(2)] Compact by simp
  note w = fresh_word [OF of_nat_take_bit [OF S] of_nat_take_bit [OF P] bits(1), of a]
  have al: "p mod BLOCK_ALIGNMENT = 0" using p by (simp add: link_fits_def BLOCK_ALIGNMENT_def)
  have room: "(unat (bit_mask s) < n div BLOCK_ALIGNMENT \<or> unat (bit_mask l) < p div BLOCK_ALIGNMENT) = False"
    using S P unfolding bit_mask_nat [OF bits(2)] bit_mask_nat [OF bits(3)] BLOCK_ALIGNMENT_def by auto
  have run: "write_block_header b n p a h = (Inr (), h')"
    unfolding write_block_header_def Compact Let_def header_format.case room
    using h'(1) al by (simp add: BLOCK_ALIGNMENT_def)
  have "n div 8 < 2 ^ 32" "p div 8 < 2 ^ 32" using n(2) p ok(1) by (auto simp: link_fits_def arena_ok_def)
  then have "unat (of_nat (n div 8) :: u64) = n div 8" "unat (of_nat (p div 8) :: u64) = p div 8"
    by (simp_all only: small_nat)
  then have "hsize h' b = n div 8 * 8" "hflags h' b = unat (of_bool a :: u64)" "hprev h' b = p div 8 * 8"
    using fmt h'(3) w by (simp_all only: hsize_def hflags_def hprev_def header_format.case)
  then show ?thesis using run h'(2) n(1) p by (auto simp: link_fits_def)
qed

lemma write_links_eq:
  assumes ok: "arena_ok h" "on_block h b" and v: "v < 2 ^ 32"
  shows "\<exists>h'. write_word b NEXT_FREE v h = (Inr (), h') \<and> changes {b + 8..<b + 12} h h' \<and> hnext h' b = v \<and> hback h' b = hback h b"
    "\<exists>h'. write_word b PREVIOUS_FREE v h = (Inr (), h') \<and> changes {b + 12..<b + 16} h h' \<and> hback h' b = v \<and> hnext h' b = hnext h b"
proof -
  obtain h' where h': "write_word b NEXT_FREE v h = (Inr (), h')" "changes {b + 8..<b + 8 + 4} h h'" "word4 h' (b + 8) = v"
    using write_block_word [OF ok _ _ v, of 8] by (auto simp: NEXT_FREE_def)
  moreover have "word4 h' (b + 12) = word4 h (b + 12)" by (rule word4_frame [OF h'(2)]) simp
  ultimately show "\<exists>h'. write_word b NEXT_FREE v h = (Inr (), h') \<and> changes {b + 8..<b + 12} h h' \<and> hnext h' b = v \<and> hback h' b = hback h b"
    using changes_mono [OF h'(2), of "{b + 8..<b + 12}"] by (auto simp: hnext_def hback_def)
  obtain h' where h': "write_word b PREVIOUS_FREE v h = (Inr (), h')" "changes {b + 12..<b + 12 + 4} h h'" "word4 h' (b + 12) = v"
    using write_block_word [OF ok _ _ v, of 12] by (auto simp: PREVIOUS_FREE_def)
  moreover have "word4 h' (b + 8) = word4 h (b + 8)" by (rule word4_frame [OF h'(2)]) simp
  ultimately show "\<exists>h'. write_word b PREVIOUS_FREE v h = (Inr (), h') \<and> changes {b + 12..<b + 16} h h' \<and> hback h' b = v \<and> hnext h' b = hnext h b"
    using changes_mono [OF h'(2), of "{b + 12..<b + 16}"] by (auto simp: hnext_def hback_def)
qed

lemma read_links_eq:
  assumes "arena_ok h" "on_block h b"
  shows "read_word b NEXT_FREE h = Inr (hnext h b)" "read_word b PREVIOUS_FREE h = Inr (hback h b)"
proof -
  have "4 dvd b" using assms(2) by (auto simp: on_block_def elim: dvd_trans [of 4 8, OF dvdI [of 8 4 2]])
  then show "read_word b NEXT_FREE h = Inr (hnext h b)" "read_word b PREVIOUS_FREE h = Inr (hback h b)"
    using read_word_eq [OF assms(1), of b 8] read_word_eq [OF assms(1), of b 12] on_block_less [OF assms(2)] assms(2)
    by (auto simp: NEXT_FREE_def PREVIOUS_FREE_def hnext_def hback_def on_block_def)
qed

lemma write_header_eq:
  assumes ok: "arena_ok h" "on_block h b" and n: "8 dvd n" "16 \<le> n" "n \<le> hp_arena_bytes h" and p: "link_fits h p"
  shows "\<exists>h'. write_header b n p a h = (Inr (), h') \<and> changes {b..<b + 16} h h' \<and> hsize h' b = n \<and> hprev h' b = p \<and>
    hflags h' b = of_bool a"
proof -
  have null: "NULL_OFFSET < 2 ^ 32" by (simp add: NULL_OFFSET_def)
  obtain h1 where h1: "write_block_header b n p a h = (Inr (), h1)" "changes {b..<b + 8} h h1"
    "hsize h1 b = n" "hprev h1 b = p" "hflags h1 b = of_bool a"
    using write_block_header_eq [OF ok n(1,3) p] by blast
  have ok1: "arena_ok h1" "on_block h1 b" using ok changes_fields [OF h1(2)] by simp_all
  obtain h2 where h2: "write_word b NEXT_FREE NULL_OFFSET h1 = (Inr (), h2)" "changes {b + 8..<b + 12} h1 h2"
    using write_links_eq(1) [OF ok1 null] by blast
  have ok2: "arena_ok h2" "on_block h2 b" using ok1 changes_fields [OF h2(2)] by simp_all
  obtain h3 where h3: "write_word b PREVIOUS_FREE NULL_OFFSET h2 = (Inr (), h3)" "changes {b + 12..<b + 16} h2 h3"
    using write_links_eq(2) [OF ok2 null] by blast
  have c: "changes {b + 8..<b + 16} h1 h3" by (rule changes_into [OF h2(2) h3(2)]) auto
  have "write_header b n p a h = (Inr (), h3)"
    using n h1(1) h2(1) h3(1) by (simp add: write_header_def sseq_def sbind_def sguard_def MINIMUM_BLOCK_BYTES_def BLOCK_ALIGNMENT_def)
  moreover have "changes {b..<b + 16} h h3" by (rule changes_into [OF h1(2) c]) auto
  ultimately show ?thesis using h1(3-5) header_frame [OF c, of b] by auto
qed

lemma update_next_eq:
  assumes "arena_ok h" "n \<le> hp_arena_bytes h" "b + n < hp_arena_bytes h" "on_block h (b + n)" "8 dvd n"
  shows "\<exists>h'. update_next_previous_size b n h = (Inr (), h') \<and> changes {b + n..<b + n + 8} h h' \<and> hprev h' (b + n) = n \<and>
    hsize h' (b + n) = hsize h (b + n) \<and> hflags h' (b + n) = hflags h (b + n) \<and> htype h' (b + n) = htype h (b + n)"
proof -
  have "link_fits h n" "n \<noteq> NULL_OFFSET" "checked_add 32 b n = Some (b + n)"
    using assms by (auto simp: link_fits_def arena_ok_def NULL_OFFSET_def checked_add_def)
  then show ?thesis using write_previous_eq [OF assms(1,4), of n] assms(3)
    by (simp add: update_next_previous_size_def sbind_def stored_link_def)
qed

lemma update_next_end:
  assumes "arena_ok h" "b + n = hp_arena_bytes h"
  shows "update_next_previous_size b n h = (Inr (), h)"
  using assms by (simp add: update_next_previous_size_def sbind_def checked_add_def arena_ok_def)

end
