(* ===== verification/Vm_Heap_Free.thy ===== *)
theory Vm_Heap_Free
  imports Vm_Heap_Mem
begin

unbundle bit_operations_syntax

text \<open>
  The segregated free lists of the heap: size classes round requests up to a class all of whose blocks are
  large enough, and the doubly linked lists with their two levels of bitmaps hold exactly the free blocks.
\<close>

subsection \<open>Size classes\<close>

lemma bit_length_bounds: "0 < n \<Longrightarrow> 2 ^ (bit_length n - 1) \<le> n \<and> n < 2 ^ bit_length n \<and> 0 < bit_length n"
proof (induction n rule: bit_length.induct)
  case (1 n)
  show ?case
  proof (cases "n div 2 = 0")
    case True
    then have "n = 1" using 1(2) by simp
    then show ?thesis by (simp add: bit_length.simps [of "Suc 0"] bit_length.simps [of 0])
  next
    case False
    then have "2 ^ (bit_length (n div 2) - 1) \<le> n div 2" "0 < bit_length (n div 2)" using 1 by auto
    then have "2 ^ bit_length (n div 2) \<le> n" by (cases "bit_length (n div 2)") auto
    with 1(2) show ?thesis using bit_length_less [of n] by (simp add: bit_length.simps [of n])
  qed
qed

definition class_width :: "nat \<Rightarrow> nat" where
  "class_width f = max (2 ^ (f - 3)) 8"

lemma class_width_covers: "3 \<le> f \<Longrightarrow> 2 ^ f \<le> 8 * class_width f"
proof -
  assume "3 \<le> f"
  then have "(2 :: nat) ^ f = 8 * 2 ^ (f - 3)" using power_add [of "2 :: nat" 3 "f - 3"] by simp
  then show ?thesis by (simp add: class_width_def)
qed

lemma downward_class_eq:
  assumes "16 \<le> n" "8 dvd n" "n < 2 ^ 32"
  obtains f s where "downward_class n = Some (f, s, 2 ^ f + s * class_width f)" "4 \<le> f" "f < 32" "s < 8"
    "2 ^ f + s * class_width f \<le> n" "n < 2 ^ f + (s + 1) * class_width f" "n < 2 ^ (f + 1)"
proof -
  define f where "f = bit_length n - 1"
  define s where "s = (n - 2 ^ f) div class_width f"
  have f: "2 ^ f \<le> n" "n < 2 ^ (f + 1)" using bit_length_bounds [of n] assms(1) by (simp_all add: f_def)
  have "f < 32" using f(1) assms(3) power_increasing [of 32 f "2 :: nat"] by (cases "f < 32") auto
  have "4 \<le> f"
  proof (rule ccontr)
    assume "\<not> 4 \<le> f"
    then have "(2 :: nat) ^ (f + 1) \<le> 2 ^ 4" by (intro power_increasing) simp_all
    with f(2) assms(1) show False by simp
  qed
  have "n - 2 ^ f < 8 * class_width f" using class_width_covers [of f] f \<open>4 \<le> f\<close> by simp
  then have "s < 8" by (simp add: s_def less_mult_imp_div_less)
  have w: "0 < class_width f" by (simp add: class_width_def)
  have "s * class_width f \<le> n - 2 ^ f" by (simp add: s_def)
  then have low: "2 ^ f + s * class_width f \<le> n" using f(1) by linarith
  have "n - 2 ^ f < (s + 1) * class_width f" using dividend_less_div_times [OF w, of "n - 2 ^ f"] by (simp add: s_def)
  then have high: "n < 2 ^ f + (s + 1) * class_width f" by linarith
  have wd: "(if 3 \<le> f then max (2 ^ (f - 3)) BLOCK_ALIGNMENT else BLOCK_ALIGNMENT) = class_width f"
    using \<open>4 \<le> f\<close> by (simp add: class_width_def BLOCK_ALIGNMENT_def)
  have "s * class_width f < 2 ^ 32" "2 ^ f + s * class_width f < 2 ^ 32" using low assms(3) by linarith+
  moreover have "\<not> (n < MINIMUM_BLOCK_BYTES \<or> n mod BLOCK_ALIGNMENT \<noteq> 0)"
    using assms(1,2) by (simp add: MINIMUM_BLOCK_BYTES_def BLOCK_ALIGNMENT_def)
  ultimately have "downward_class n = Some (f, s, 2 ^ f + s * class_width f)"
    unfolding downward_class_def Let_def f_def [symmetric] wd s_def [symmetric]
    using \<open>s < 8\<close> by (simp add: checked_mul_def checked_add_def)
  then show thesis using that \<open>4 \<le> f\<close> \<open>f < 32\<close> \<open>s < 8\<close> low high f(2) by blast
qed

definition size_ok :: "nat \<Rightarrow> bool" where
  "size_ok n \<longleftrightarrow> 16 \<le> n \<and> 8 dvd n \<and> n < 2 ^ 32"

definition class_no :: "nat \<Rightarrow> nat" where
  "class_no n = class_index (the (free_size_class n))"

lemma class_of:
  assumes "size_ok n"
  shows "free_size_class n = Some \<lparr>sc_first = class_no n div 8, sc_second = class_no n mod 8\<rparr>" "class_no n < 256"
proof -
  obtain f s where "downward_class n = Some (f, s, 2 ^ f + s * class_width f)" "f < 32" "s < 8"
    using assms unfolding size_ok_def by (metis downward_class_eq)
  then show "free_size_class n = Some \<lparr>sc_first = class_no n div 8, sc_second = class_no n mod 8\<rparr>" "class_no n < 256"
    by (simp_all add: free_size_class_def class_no_def class_index_def)
qed

text \<open>Every block of a class at or above the class of a request is large enough.\<close>

lemma request_class:
  assumes n: "size_ok n"
  shows "case request_size_class n of None \<Rightarrow> 2 ^ 31 \<le> n
    | Some c \<Rightarrow> sc_first c < 32 \<and> sc_second c < 8 \<and> (\<forall>m. size_ok m \<longrightarrow> class_index c \<le> class_no m \<longrightarrow> n \<le> m)"
proof -
  obtain f s where fs: "downward_class n = Some (f, s, 2 ^ f + s * class_width f)" "f < 32" "s < 8"
    "2 ^ f + s * class_width f \<le> n" "n < 2 ^ f + (s + 1) * class_width f" "n < 2 ^ (f + 1)"
    using n unfolding size_ok_def by (metis downward_class_eq)
  have fits: "n \<le> m" if m: "size_ok m" and c: "f' * 8 + s' \<le> class_no m" "s' < 8"
    and lb: "n \<le> 2 ^ f' + s' * class_width f'" "n < 2 ^ (f' + 1)" for m f' s'
  proof -
    obtain g t where gt: "downward_class m = Some (g, t, 2 ^ g + t * class_width g)" "t < 8" "2 ^ g + t * class_width g \<le> m"
      using m unfolding size_ok_def by (metis downward_class_eq)
    have "f' * 8 + s' \<le> g * 8 + t" using c(1) gt(1) by (simp add: class_no_def free_size_class_def class_index_def)
    then have "f' < g \<or> f' = g \<and> s' \<le> t" using gt(2) c(2) by auto
    then show ?thesis
    proof
      assume "f' < g"
      then have "(2 :: nat) ^ (f' + 1) \<le> 2 ^ g" by (intro power_increasing) simp_all
      then show ?thesis using lb(2) gt(3) by linarith
    next
      assume eq: "f' = g \<and> s' \<le> t"
      then have "s' * class_width g \<le> t * class_width g" "n \<le> 2 ^ g + s' * class_width g" using lb(1) by auto
      then show ?thesis using gt(3) by linarith
    qed
  qed
  have up: "n \<le> 2 ^ (f + 1)" "n < 2 ^ (f + 2)" using fs(6) by simp_all
  have "f = 31 \<Longrightarrow> 2 ^ 31 \<le> n" using fs(4) by (metis le_add1 le_trans)
  then show ?thesis
    using fs(1-3) fits [of _ f s] fits [of _ f "s + 1"] fits [of _ "f + 1" 0] fs(5,6) up
    by (auto simp: request_size_class_def class_index_def Let_def)
qed

subsection \<open>Links between blocks\<close>

definition blocks_ok :: "heap \<Rightarrow> nat set \<Rightarrow> bool" where
  "blocks_ok h B \<longleftrightarrow> arena_ok h \<and> finite B \<and> (\<forall>b\<in>B. on_block h b \<and> size_ok (hsize h b)) \<and> (\<forall>b\<in>B. \<forall>c\<in>B. b < c \<longrightarrow> b + 16 \<le> c)"

definition link_area :: "nat set \<Rightarrow> nat set" where
  "link_area F = (\<Union>b\<in>F. {b + 8..<b + 16})"

lemma link_area_mono [intro]: "F \<subseteq> G \<Longrightarrow> link_area F \<subseteq> link_area G"
  by (auto simp: link_area_def)

lemma blocks_apart: "blocks_ok h B \<Longrightarrow> b \<in> B \<Longrightarrow> c \<in> B \<Longrightarrow> b \<noteq> c \<Longrightarrow> b + 16 \<le> c \<or> c + 16 \<le> b"
  by (metis blocks_ok_def nat_neq_iff)

lemma blocks_in: "blocks_ok h B \<Longrightarrow> b \<in> B \<Longrightarrow> arena_ok h \<and> on_block h b \<and> size_ok (hsize h b) \<and> b < NULL_OFFSET"
  using on_block_less [of h b] by (auto simp: blocks_ok_def on_block_def arena_ok_def NULL_OFFSET_def)

lemma headers_apart:
  assumes "blocks_ok h B" "F \<subseteq> B" "b \<in> B"
  shows "{b..<b + 8} \<inter> link_area F = {}"
proof -
  have "x \<notin> {c + 8..<c + 16}" if "c \<in> F" "x \<in> {b..<b + 8}" for c x
    using blocks_apart [OF assms(1,3), of c] assms(2) that by (cases "b = c") auto
  then show ?thesis by (auto simp: link_area_def)
qed

lemma block_headers:
  assumes "blocks_ok h B" "F \<subseteq> B" "changes (link_area F) h h'"
  shows "b \<in> B \<Longrightarrow> hsize h' b = hsize h b" "b \<in> B \<Longrightarrow> hflags h' b = hflags h b" "b \<in> B \<Longrightarrow> hprev h' b = hprev h b"
    "blocks_ok h' B"
proof -
  show same: "b \<in> B \<Longrightarrow> hsize h' b = hsize h b" "b \<in> B \<Longrightarrow> hflags h' b = hflags h b" "b \<in> B \<Longrightarrow> hprev h' b = hprev h b" for b
    using header_frame [OF assms(3) headers_apart [OF assms(1,2)]] by simp_all
  show "blocks_ok h' B" using assms(1) changes_fields [OF assms(3)] same(1) by (simp add: blocks_ok_def)
qed

lemma block_size_in:
  assumes "blocks_ok h B" "b \<in> B"
  shows "block_size b h = Inr (hsize h b)"
    "class_of_block b h = Inr \<lparr>sc_first = class_no (hsize h b) div 8, sc_second = class_no (hsize h b) mod 8\<rparr>"
    "class_no (hsize h b) < 256"
  using blocks_in [OF assms] class_of [of "hsize h b"] block_size_eq [of h b]
  by (simp_all add: class_of_block_def size_ok_def)

lemma set_next:
  assumes "blocks_ok h B" "p \<in> B" "v < 2 ^ 32"
  shows "\<exists>h'. write_word p NEXT_FREE v h = (Inr (), h') \<and> changes (link_area {p}) h h' \<and> blocks_ok h' B \<and>
    (\<forall>b\<in>B. hnext h' b = (if b = p then v else hnext h b) \<and> hback h' b = hback h b)"
proof -
  obtain h' where h': "write_word p NEXT_FREE v h = (Inr (), h')" "changes {p + 8..<p + 12} h h'" "hnext h' p = v" "hback h' p = hback h p"
    using write_links_eq(1) [of h p v] blocks_in [OF assms(1,2)] assms(3) by blast
  have c: "changes (link_area {p}) h h'" by (rule changes_mono [OF h'(2)]) (auto simp: link_area_def)
  have "hnext h' b = hnext h b" "hback h' b = hback h b" if "b \<in> B" "b \<noteq> p" for b
    using links_frame [OF h'(2), of b] blocks_apart [OF assms(1,2) that(1)] that(2) by force+
  then show ?thesis using h' c block_headers(4) [OF assms(1) _ c] assms(2) by auto
qed

lemma set_back:
  assumes "blocks_ok h B" "p \<in> B" "v < 2 ^ 32"
  shows "\<exists>h'. write_word p PREVIOUS_FREE v h = (Inr (), h') \<and> changes (link_area {p}) h h' \<and> blocks_ok h' B \<and>
    (\<forall>b\<in>B. hback h' b = (if b = p then v else hback h b) \<and> hnext h' b = hnext h b)"
proof -
  obtain h' where h': "write_word p PREVIOUS_FREE v h = (Inr (), h')" "changes {p + 12..<p + 16} h h'" "hback h' p = v" "hnext h' p = hnext h p"
    using write_links_eq(2) [of h p v] blocks_in [OF assms(1,2)] assms(3) by blast
  have c: "changes (link_area {p}) h h'" by (rule changes_mono [OF h'(2)]) (auto simp: link_area_def)
  have "hnext h' b = hnext h b" "hback h' b = hback h b" if "b \<in> B" "b \<noteq> p" for b
    using links_frame [OF h'(2), of b] blocks_apart [OF assms(1,2) that(1)] that(2) by force+
  then show ?thesis using h' c block_headers(4) [OF assms(1) _ c] assms(2) by auto
qed

text \<open>\<open>touches S h h'\<close>: outside \<open>S\<close> the arenas agree; nothing is said of the other fields but the format.\<close>

definition touches :: "nat set \<Rightarrow> heap \<Rightarrow> heap \<Rightarrow> bool" where
  "touches S h h' \<longleftrightarrow> hp_format h' = hp_format h \<and> hp_arena_bytes h' = hp_arena_bytes h \<and>
     length (hp_arena h') = length (hp_arena h) \<and> (\<forall>k. k \<notin> S \<longrightarrow> hp_arena h' ! k = hp_arena h ! k)"

lemma touches_changes:
  assumes "changes S h h'"
  shows "touches S h h'"
  unfolding touches_def using changes_fields [OF assms] assms unfolding changes_def by simp

lemma touches_refl [simp]: "touches S h h"
  by (simp add: touches_def)

lemma touches_into: "touches S h h' \<Longrightarrow> touches T h' h'' \<Longrightarrow> S \<subseteq> U \<Longrightarrow> T \<subseteq> U \<Longrightarrow> touches U h h''"
  unfolding touches_def by (metis subsetD)

lemma touches_mono: "touches S h h' \<Longrightarrow> S \<subseteq> T \<Longrightarrow> touches T h h'"
  unfolding touches_def by blast

lemma meta_simps [simp]:
  "word4 (h\<lparr>hp_hint := a\<rparr>) k = word4 h k" "header8 (h\<lparr>hp_hint := a\<rparr>) k = header8 h k"
  "word4 (h\<lparr>hp_class_heads := x\<rparr>) k = word4 h k" "header8 (h\<lparr>hp_class_heads := x\<rparr>) k = header8 h k"
  "word4 (h\<lparr>hp_first_bitmap := u\<rparr>) k = word4 h k" "header8 (h\<lparr>hp_first_bitmap := u\<rparr>) k = header8 h k"
  "word4 (h\<lparr>hp_second_bitmaps := v\<rparr>) k = word4 h k" "header8 (h\<lparr>hp_second_bitmaps := v\<rparr>) k = header8 h k"
  "word4 (h\<lparr>hp_total_free := a\<rparr>) k = word4 h k" "header8 (h\<lparr>hp_total_free := a\<rparr>) k = header8 h k"
  "word4 (h\<lparr>hp_live_objects := a\<rparr>) k = word4 h k" "header8 (h\<lparr>hp_live_objects := a\<rparr>) k = header8 h k"
  by (simp_all add: word4_def header8_def)

lemma same_words:
  assumes "hp_format h' = hp_format h" "hp_arena h' = hp_arena h"
  shows "hsize h' b = hsize h b" "hflags h' b = hflags h b" "hprev h' b = hprev h b" "htype h' b = htype h b"
    "hnext h' b = hnext h b" "hback h' b = hback h b"
  using assms by (simp_all add: hsize_def hflags_def hprev_def htype_def hnext_def hback_def word4_def header8_def split: header_format.split)

lemma touches_frames:
  assumes "touches S h h'"
  shows "{b..<b + 8} \<inter> S = {} \<Longrightarrow> hsize h' b = hsize h b" "{b..<b + 8} \<inter> S = {} \<Longrightarrow> hflags h' b = hflags h b"
    "{b..<b + 8} \<inter> S = {} \<Longrightarrow> hprev h' b = hprev h b" "{b..<b + 12} \<inter> S = {} \<Longrightarrow> htype h' b = htype h b"
    "arena_ok h' = arena_ok h" "on_block h' b = on_block h b"
proof -
  define k where "k = h\<lparr>hp_arena := hp_arena h'\<rparr>"
  have c: "changes S h k" using assms by (auto simp: k_def changes_def touches_def)
  have k: "hp_format h' = hp_format k" "hp_arena h' = hp_arena k" using assms by (simp_all add: k_def touches_def)
  show "{b..<b + 8} \<inter> S = {} \<Longrightarrow> hsize h' b = hsize h b" "{b..<b + 8} \<inter> S = {} \<Longrightarrow> hflags h' b = hflags h b"
    "{b..<b + 8} \<inter> S = {} \<Longrightarrow> hprev h' b = hprev h b" "{b..<b + 12} \<inter> S = {} \<Longrightarrow> htype h' b = htype h b"
    using header_frame [OF c, of b] type_frame [OF c, of b] by (simp_all add: same_words [OF k])
  show "arena_ok h' = arena_ok h" "on_block h' b = on_block h b"
    using assms by (simp_all add: touches_def arena_ok_def on_block_def split: header_format.split)
qed

lemma touched_headers:
  assumes "blocks_ok h B" "F \<subseteq> B" "touches (link_area F) h h'"
  shows "b \<in> B \<Longrightarrow> hsize h' b = hsize h b" "b \<in> B \<Longrightarrow> hflags h' b = hflags h b" "b \<in> B \<Longrightarrow> hprev h' b = hprev h b"
    "blocks_ok h' B"
proof -
  show same: "b \<in> B \<Longrightarrow> hsize h' b = hsize h b" "b \<in> B \<Longrightarrow> hflags h' b = hflags h b" "b \<in> B \<Longrightarrow> hprev h' b = hprev h b" for b
    using touches_frames(1-3) [OF assms(3) headers_apart [OF assms(1,2)]] by simp_all
  show "blocks_ok h' B" using assms(1) touches_frames(5,6) [OF assms(3)] same(1) by (simp add: blocks_ok_def)
qed

fun linked :: "heap \<Rightarrow> nat \<Rightarrow> nat list \<Rightarrow> nat \<Rightarrow> bool" where
  "linked h p [] n = True"
| "linked h p (b # bs) n = (hback h b = p \<and> hnext h b = hd (bs @ [n]) \<and> linked h b bs n)"

lemma linked_append:
  "linked h p (xs @ ys) n \<longleftrightarrow> linked h p xs (hd (ys @ [n])) \<and> linked h (last (p # xs)) ys n"
  by (induction xs arbitrary: p) (auto simp: hd_append split: if_splits)

lemma linked_cong:
  "\<forall>b\<in>set xs. hback h' b = hback h b \<and> hnext h' b = hnext h b \<Longrightarrow> linked h' p xs n = linked h p xs n"
  by (induction xs arbitrary: p) auto

lemma linked_retarget:
  assumes "linked h p ys b" "distinct ys"
    "\<forall>c\<in>set ys. hback h' c = hback h c \<and> hnext h' c = (if c = last ys then m else hnext h c)"
  shows "linked h' p ys m"
  using assms
proof (induction ys arbitrary: p)
  case (Cons y ys)
  show ?case
  proof (cases ys)
    case (Cons z zs)
    with Cons.prems have "linked h' y ys m" by (intro Cons.IH) auto
    with Cons Cons.prems show ?thesis by (auto split: if_splits)
  qed (use Cons.prems in auto)
qed simp

lemma linked_unlink:
  assumes "linked h p (ys @ b # zs) n" "distinct (ys @ b # zs)"
    "\<forall>c\<in>set ys \<union> set zs. hnext h' c = (if ys \<noteq> [] \<and> c = last ys then hd (zs @ [n]) else hnext h c) \<and>
       hback h' c = (if zs \<noteq> [] \<and> c = hd zs then last (p # ys) else hback h c)"
  shows "linked h' p (ys @ zs) n"
proof -
  have l: "linked h p ys b" "linked h b zs n" using assms(1) by (simp_all add: linked_append)
  have "linked h' p ys (hd (zs @ [n]))"
  proof (rule linked_retarget [OF l(1)])
    have "zs \<noteq> [] \<Longrightarrow> hd zs \<notin> set ys" using assms(2) by (cases zs) auto
    then show "\<forall>c\<in>set ys. hback h' c = hback h c \<and> hnext h' c = (if c = last ys then hd (zs @ [n]) else hnext h c)"
      using assms(3) by auto
  qed (use assms(2) in simp)
  moreover have "linked h' (last (p # ys)) zs n"
  proof (cases zs)
    case (Cons z zs')
    have "ys \<noteq> [] \<Longrightarrow> last ys \<notin> set zs" using assms(2) by (auto simp: disjoint_iff)
    then have "\<forall>c\<in>set zs'. hback h' c = hback h c \<and> hnext h' c = hnext h c" "hnext h' z = hnext h z" "hback h' z = last (p # ys)"
      using assms(2,3) Cons by (auto split: if_splits)
    then show ?thesis using l(2) Cons linked_cong [of zs' h' h z n] by simp
  qed simp
  ultimately show ?thesis by (simp add: linked_append)
qed

subsection \<open>Bitmaps\<close>

definition maps_ok :: "heap \<Rightarrow> (nat \<Rightarrow> nat list) \<Rightarrow> bool" where
  "maps_ok h L \<longleftrightarrow> length (hp_second_bitmaps h) = 32 \<and>
     (\<forall>f<32. \<forall>s<8. bit (hp_second_bitmaps h ! f) s \<longleftrightarrow> L (f * 8 + s) \<noteq> []) \<and>
     (\<forall>f<32. bit (hp_first_bitmap h) f \<longleftrightarrow> hp_second_bitmaps h ! f \<noteq> 0)"

lemma u8_zero_iff: "(w :: u8) = 0 \<longleftrightarrow> (\<forall>s<8. \<not> bit w s)"
  by (auto simp: bit_eq_iff dest: bit_imp_le_length)

lemma class_split: "i < 256 \<Longrightarrow> f < 32 \<Longrightarrow> s < 8 \<Longrightarrow> f * 8 + s = i \<longleftrightarrow> f = i div 8 \<and> s = i mod (8 :: nat)"
  by auto

lemma set_class_ok:
  assumes "maps_ok h L" "i < 256" "xs \<noteq> []"
    "hp_second_bitmaps h' = (hp_second_bitmaps h)[i div 8 := (hp_second_bitmaps h ! (i div 8)) OR push_bit (i mod 8) 1]"
    "hp_first_bitmap h' = hp_first_bitmap h OR push_bit (i div 8) 1"
  shows "maps_ok h' (L(i := xs))"
proof -
  have f: "i div 8 < 32" using assms(2) by simp
  have "hp_second_bitmaps h' ! f = (if f = i div 8 then (hp_second_bitmaps h ! f) OR push_bit (i mod 8) 1 else hp_second_bitmaps h ! f)"
    if "f < 32" for f using assms(1,4) that by (simp add: maps_ok_def nth_list_update)
  then have second: "bit (hp_second_bitmaps h' ! f) s \<longleftrightarrow> (L(i := xs)) (f * 8 + s) \<noteq> []" if "f < 32" "s < 8" for f s
    using assms(1,3) that class_split [OF assms(2) that] by (auto simp: maps_ok_def bit_simps)
  have "hp_second_bitmaps h' ! (i div 8) \<noteq> 0"
    using second [of "i div 8" "i mod 8"] f assms(3) by auto
  moreover have "hp_second_bitmaps h' ! f = hp_second_bitmaps h ! f" if "f \<noteq> i div 8" for f using assms(4) that by simp
  ultimately have "bit (hp_first_bitmap h') f \<longleftrightarrow> hp_second_bitmaps h' ! f \<noteq> 0" if "f < 32" for f
    using assms(1,5) that by (cases "f = i div 8") (auto simp: maps_ok_def bit_simps)
  with second show ?thesis using assms(1,4) by (simp add: maps_ok_def)
qed

lemma clear_class_ok:
  assumes "maps_ok h L" "i < 256" "L i \<noteq> []" "hp_class_heads h ! i = NULL_OFFSET \<longleftrightarrow> xs = []"
  shows "\<exists>v u. clear_class \<lparr>sc_first = i div 8, sc_second = i mod 8\<rparr> h = h\<lparr>hp_second_bitmaps := v, hp_first_bitmap := u\<rparr> \<and>
    maps_ok (h\<lparr>hp_second_bitmaps := v, hp_first_bitmap := u\<rparr>) (L(i := xs))"
proof (cases "xs = []")
  case False
  then have "maps_ok h (L(i := xs))" using assms(1,3) class_split [OF assms(2)] by (auto simp: maps_ok_def)
  moreover have "clear_class \<lparr>sc_first = i div 8, sc_second = i mod 8\<rparr> h = h"
    using assms(4) False by (simp add: clear_class_def class_index_def)
  ultimately show ?thesis by (intro exI [of _ "hp_second_bitmaps h"] exI [of _ "hp_first_bitmap h"]) simp
next
  case True
  let ?f = "i div 8"
  let ?w = "(hp_second_bitmaps h ! ?f) AND NOT (push_bit (i mod 8) 1)"
  let ?v = "(hp_second_bitmaps h)[?f := ?w]"
  let ?u = "if ?w = 0 then hp_first_bitmap h AND NOT (push_bit ?f 1) else hp_first_bitmap h"
  let ?h = "h\<lparr>hp_second_bitmaps := ?v, hp_first_bitmap := ?u\<rparr>"
  have f: "?f < 32" using assms(2) by simp
  have "bit (hp_second_bitmaps h ! ?f) (i mod 8)" using assms(1,3) f by (simp add: maps_ok_def)
  then have "hp_second_bitmaps h ! ?f \<noteq> 0" by auto
  then have set: "bit (hp_first_bitmap h) ?f" using assms(1) f by (simp add: maps_ok_def)
  have nth: "?v ! f = (if f = ?f then ?w else hp_second_bitmaps h ! f)" if "f < 32" for f
    using assms(1) that by (simp add: maps_ok_def nth_list_update)
  then have second: "bit (?v ! f) s \<longleftrightarrow> (L(i := xs)) (f * 8 + s) \<noteq> []" if "f < 32" "s < 8" for f s
    using assms(1) True that class_split [OF assms(2) that] by (auto simp: maps_ok_def bit_simps)
  have "bit ?u f \<longleftrightarrow> ?v ! f \<noteq> 0" if "f < 32" for f
    unfolding nth [OF that] using assms(1) that set by (cases "f = ?f"; cases "?w = 0") (auto simp: maps_ok_def bit_simps)
  with second have "maps_ok ?h (L(i := xs))" using assms(1) by (simp add: maps_ok_def)
  moreover have "clear_class \<lparr>sc_first = i div 8, sc_second = i mod 8\<rparr> h = ?h"
    using assms(4) True by (simp add: clear_class_def class_index_def Let_def)
  ultimately show ?thesis by blast
qed

subsection \<open>The free lists\<close>

definition list_of :: "heap \<Rightarrow> nat set \<Rightarrow> nat \<Rightarrow> nat list \<Rightarrow> bool" where
  "list_of h F i xs \<longleftrightarrow> distinct xs \<and> set xs = {b \<in> F. class_no (hsize h b) = i} \<and>
     hp_class_heads h ! i = hd (xs @ [NULL_OFFSET]) \<and> linked h NULL_OFFSET xs NULL_OFFSET"

definition lists_ok :: "heap \<Rightarrow> nat set \<Rightarrow> (nat \<Rightarrow> nat list) \<Rightarrow> bool" where
  "lists_ok h F L \<longleftrightarrow> length (hp_class_heads h) = 256 \<and> maps_ok h L \<and> (\<forall>i<256. list_of h F i (L i)) \<and>
     (hp_hint h = NULL_OFFSET \<or> hp_hint h \<in> F)"

lemma hd_null: "\<forall>x\<in>set xs. x < NULL_OFFSET \<Longrightarrow> hd (xs @ [NULL_OFFSET]) = NULL_OFFSET \<longleftrightarrow> xs = []"
  by (cases xs) auto

lemma last_null: "\<forall>x\<in>set xs. x < NULL_OFFSET \<Longrightarrow> last (NULL_OFFSET # xs) = NULL_OFFSET \<longleftrightarrow> xs = []"
proof -
  assume a: "\<forall>x\<in>set xs. x < NULL_OFFSET"
  have "xs \<noteq> [] \<Longrightarrow> last xs < NULL_OFFSET" using a by simp
  then show ?thesis by (cases "xs = []") auto
qed

text \<open>The two writes that take a block out of its list.\<close>

lemma unlink_next:
  assumes "blocks_ok h B" "set ys \<subseteq> B" "n < 2 ^ 32" "i < length (hp_class_heads h)"
    "hp_class_heads h ! i = hd (ys @ [b])"
  shows "\<exists>h'. (if last (NULL_OFFSET # ys) = NULL_OFFSET
      then (\<lambda>h. if hp_class_heads h ! i \<noteq> b then (Inl CorruptHeap, h) else (Inr (), h\<lparr>hp_class_heads := (hp_class_heads h)[i := n]\<rparr>))
      else write_word (last (NULL_OFFSET # ys)) NEXT_FREE n) h = (Inr (), h') \<and>
    touches (link_area (set ys)) h h' \<and> blocks_ok h' B \<and>
    (\<forall>c\<in>B. hnext h' c = (if ys \<noteq> [] \<and> c = last ys then n else hnext h c) \<and> hback h' c = hback h c) \<and>
    h' = h\<lparr>hp_arena := hp_arena h', hp_class_heads := (hp_class_heads h)[i := hd (ys @ [n])]\<rparr>"
proof (cases "ys = []")
  case True
  let ?h = "h\<lparr>hp_class_heads := (hp_class_heads h)[i := n]\<rparr>"
  have "hp_format ?h = hp_format h" "hp_arena ?h = hp_arena h" by simp_all
  note same = same_words [OF this]
  have "touches (link_area {}) h ?h" by (simp add: touches_def)
  then have "blocks_ok ?h B" by (rule touched_headers(4) [OF assms(1) empty_subsetI])
  with same(5,6) show ?thesis using True assms(5) by (simp add: touches_def)
next
  case False
  then have lB: "last ys \<in> B" using assms(2) last_in_set [OF False] by blast
  then have "last ys \<noteq> NULL_OFFSET" using blocks_in [OF assms(1), of "last ys"] by simp
  from lB obtain h' where h': "write_word (last ys) NEXT_FREE n h = (Inr (), h')" "changes (link_area {last ys}) h h'" "blocks_ok h' B"
    "\<forall>c\<in>B. hnext h' c = (if c = last ys then n else hnext h c) \<and> hback h' c = hback h c"
    using set_next [OF assms(1) _ assms(3)] by blast
  have t: "touches (link_area (set ys)) h h'"
    by (rule touches_mono [OF touches_changes [OF h'(2)] link_area_mono]) (simp add: False)
  moreover have "(hp_class_heads h)[i := hd (ys @ [n])] = hp_class_heads h"
    using assms(4,5) False by (metis hd_append2 list_update_id)
  moreover obtain A where "h' = h\<lparr>hp_arena := A\<rparr>" using h'(2) by (auto simp: changes_def)
  ultimately have "h' = h\<lparr>hp_arena := hp_arena h', hp_class_heads := (hp_class_heads h)[i := hd (ys @ [n])]\<rparr>" by simp
  with h' False t \<open>last ys \<noteq> NULL_OFFSET\<close> show ?thesis by (intro exI [of _ h'] conjI) simp_all
qed

lemma unlink_back:
  assumes "blocks_ok h B" "set zs \<subseteq> B" "p < 2 ^ 32"
  shows "\<exists>h'. (if hd (zs @ [NULL_OFFSET]) \<noteq> NULL_OFFSET then write_word (hd (zs @ [NULL_OFFSET])) PREVIOUS_FREE p else sret ()) h = (Inr (), h') \<and>
    changes (link_area (set zs)) h h' \<and> blocks_ok h' B \<and>
    (\<forall>c\<in>B. hback h' c = (if zs \<noteq> [] \<and> c = hd zs then p else hback h c) \<and> hnext h' c = hnext h c)"
proof (cases zs)
  case Nil
  then show ?thesis using assms(1) by (simp add: sret_def)
next
  case (Cons z zs')
  then have "z \<in> B" "z \<noteq> NULL_OFFSET" using assms(2) blocks_in [OF assms(1), of z] by auto
  then obtain h' where h': "write_word z PREVIOUS_FREE p h = (Inr (), h')" "changes (link_area {z}) h h'" "blocks_ok h' B"
    "\<forall>c\<in>B. hback h' c = (if c = z then p else hback h c) \<and> hnext h' c = hnext h c"
    using set_back [OF assms(1) _ assms(3)] by blast
  moreover have "changes (link_area (set zs)) h h'"
    by (rule changes_mono [OF h'(2) link_area_mono]) (simp add: Cons)
  ultimately show ?thesis using Cons \<open>z \<noteq> NULL_OFFSET\<close> by (intro exI [of _ h']) auto
qed

lemma unlink_lists:
  assumes L: "\<forall>i<256. list_of h F i (L i)" "length (hp_class_heads h) = 256"
    and i: "i = class_no (hsize h b)" "i < 256" "L i = ys @ b # zs" "b \<in> F"
    and size: "\<forall>c\<in>F. hsize h' c = hsize h c"
    and links: "\<forall>c\<in>F - {b}. hnext h' c = (if ys \<noteq> [] \<and> c = last ys then hd (zs @ [NULL_OFFSET]) else hnext h c) \<and>
      hback h' c = (if zs \<noteq> [] \<and> c = hd zs then last (NULL_OFFSET # ys) else hback h c)"
    and heads: "hp_class_heads h' = (hp_class_heads h)[i := hd (ys @ [hd (zs @ [NULL_OFFSET])])]"
  shows "\<forall>j<256. list_of h' (F - {b}) j ((L(i := ys @ zs)) j)"
proof (intro allI impI)
  fix j assume j: "j < (256 :: nat)"
  have I: "distinct (ys @ b # zs)" "set (ys @ b # zs) = {c \<in> F. class_no (hsize h c) = i}" "linked h NULL_OFFSET (ys @ b # zs) NULL_OFFSET"
    using L(1) [rule_format, OF i(2)] unfolding i(3) list_of_def by simp_all
  have J: "distinct (L j)" "set (L j) = {c \<in> F. class_no (hsize h c) = j}" "linked h NULL_OFFSET (L j) NULL_OFFSET"
    "hp_class_heads h ! j = hd (L j @ [NULL_OFFSET])"
    using L(1) j by (simp_all add: list_of_def)
  show "list_of h' (F - {b}) j ((L(i := ys @ zs)) j)"
  proof (cases "j = i")
    case True
    have sub: "set ys \<union> set zs = {c \<in> F - {b}. class_no (hsize h c) = i}" using I(1,2) by auto
    then have "linked h' NULL_OFFSET (ys @ zs) NULL_OFFSET" using links by (intro linked_unlink [OF I(3,1)]) auto
    moreover have "hp_class_heads h' ! i = hd ((ys @ zs) @ [NULL_OFFSET])" using heads L(2) i(2) by (cases ys) simp_all
    moreover have "{c \<in> F - {b}. class_no (hsize h' c) = i} = {c \<in> F - {b}. class_no (hsize h c) = i}" using size by auto
    ultimately show ?thesis using True I(1) sub by (simp add: list_of_def)
  next
    case False
    have "hback h' c = hback h c \<and> hnext h' c = hnext h c" if "c \<in> set (L j)" for c
    proof -
      have "c \<notin> set (ys @ b # zs)" "c \<in> F" using that J(2) I(2) False by auto
      then have "c \<noteq> b" "ys \<noteq> [] \<longrightarrow> c \<noteq> last ys" "zs \<noteq> [] \<longrightarrow> c \<noteq> hd zs" by (auto dest: hd_in_set last_in_set)
      then show ?thesis using links \<open>c \<in> F\<close> by auto
    qed
    then have "linked h' NULL_OFFSET (L j) NULL_OFFSET" using J(3) linked_cong [of "L j" h' h] by blast
    moreover have "hp_class_heads h' ! j = hp_class_heads h ! j" using heads False by simp
    moreover have "{c \<in> F - {b}. class_no (hsize h' c) = j} = {c \<in> F. class_no (hsize h c) = j}" using size i(1) False by auto
    ultimately show ?thesis using False J by (simp add: list_of_def)
  qed
qed

lemma maps_cong:
  "hp_second_bitmaps h' = hp_second_bitmaps h \<Longrightarrow> hp_first_bitmap h' = hp_first_bitmap h \<Longrightarrow> maps_ok h' L = maps_ok h L"
  by (simp add: maps_ok_def)

text \<open>Clearing the links of a block that has left its list.\<close>

lemma clear_links:
  assumes "blocks_ok h B" "b \<in> B"
  shows "\<exists>h'. sseq (write_word b NEXT_FREE NULL_OFFSET) (write_word b PREVIOUS_FREE NULL_OFFSET) h = (Inr (), h') \<and>
    changes (link_area {b}) h h' \<and> blocks_ok h' B \<and> (\<forall>c\<in>B - {b}. hnext h' c = hnext h c \<and> hback h' c = hback h c)"
proof -
  have null: "NULL_OFFSET < 2 ^ 32" by (simp add: NULL_OFFSET_def)
  obtain h1 where h1: "write_word b NEXT_FREE NULL_OFFSET h = (Inr (), h1)" "changes (link_area {b}) h h1" "blocks_ok h1 B"
    "\<forall>c\<in>B. hnext h1 c = (if c = b then NULL_OFFSET else hnext h c) \<and> hback h1 c = hback h c"
    using set_next [OF assms null] by blast
  obtain h2 where h2: "write_word b PREVIOUS_FREE NULL_OFFSET h1 = (Inr (), h2)" "changes (link_area {b}) h1 h2" "blocks_ok h2 B"
    "\<forall>c\<in>B. hback h2 c = (if c = b then NULL_OFFSET else hback h1 c) \<and> hnext h2 c = hnext h1 c"
    using set_back [OF h1(3) assms(2) null] by blast
  have "changes (link_area {b}) h h2" by (rule changes_into [OF h1(2) h2(2)]) simp_all
  then show ?thesis using h1(1,4) h2(1,3,4) by (intro exI [of _ h2]) (simp add: sseq_step)
qed

lemma unlink_ok:
  assumes B: "blocks_ok h B" "set ys \<subseteq> B" "set zs \<subseteq> B" and b: "n < 2 ^ 32" "p < 2 ^ 32"
    and i: "i < length (hp_class_heads h)" "hp_class_heads h ! i = hd (ys @ [b])"
    and np: "n = hd (zs @ [NULL_OFFSET])" "p = last (NULL_OFFSET # ys)"
  shows "\<exists>h1 h2. (if p = NULL_OFFSET
      then (\<lambda>h. if hp_class_heads h ! i \<noteq> b then (Inl CorruptHeap, h) else (Inr (), h\<lparr>hp_class_heads := (hp_class_heads h)[i := n]\<rparr>))
      else write_word p NEXT_FREE n) h = (Inr (), h1) \<and>
    (if n \<noteq> NULL_OFFSET then write_word n PREVIOUS_FREE p else sret ()) h1 = (Inr (), h2) \<and>
    touches (link_area (set ys \<union> set zs)) h h2 \<and> blocks_ok h2 B \<and>
    (\<forall>c\<in>B. hnext h2 c = (if ys \<noteq> [] \<and> c = last ys then n else hnext h c) \<and>
      hback h2 c = (if zs \<noteq> [] \<and> c = hd zs then p else hback h c)) \<and>
    h2 = h\<lparr>hp_arena := hp_arena h2, hp_class_heads := (hp_class_heads h)[i := hd (ys @ [n])]\<rparr>"
proof -
  from unlink_next [OF B(1,2) b(1) i] obtain h1 where h1: "(if p = NULL_OFFSET
      then (\<lambda>h. if hp_class_heads h ! i \<noteq> b then (Inl CorruptHeap, h) else (Inr (), h\<lparr>hp_class_heads := (hp_class_heads h)[i := n]\<rparr>))
      else write_word p NEXT_FREE n) h = (Inr (), h1)" "touches (link_area (set ys)) h h1" "blocks_ok h1 B"
    "\<forall>c\<in>B. hnext h1 c = (if ys \<noteq> [] \<and> c = last ys then n else hnext h c) \<and> hback h1 c = hback h c"
    "h1 = h\<lparr>hp_arena := hp_arena h1, hp_class_heads := (hp_class_heads h)[i := hd (ys @ [n])]\<rparr>"
    unfolding np(2) by blast
  from unlink_back [OF h1(3) B(3) b(2)] obtain h2 where h2: "(if n \<noteq> NULL_OFFSET then write_word n PREVIOUS_FREE p else sret ()) h1 = (Inr (), h2)"
    "changes (link_area (set zs)) h1 h2" "blocks_ok h2 B"
    "\<forall>c\<in>B. hback h2 c = (if zs \<noteq> [] \<and> c = hd zs then p else hback h1 c) \<and> hnext h2 c = hnext h1 c"
    unfolding np(1) by blast
  have t: "touches (link_area (set ys \<union> set zs)) h h2"
    by (rule touches_into [OF h1(2) touches_changes [OF h2(2)]]) (auto simp: link_area_def)
  obtain A A1 where "h2 = h1\<lparr>hp_arena := A\<rparr>" "h1 = h\<lparr>hp_arena := A1, hp_class_heads := (hp_class_heads h)[i := hd (ys @ [n])]\<rparr>"
    using h2(2) h1(5) unfolding changes_def by blast
  then have "h2 = h\<lparr>hp_arena := hp_arena h2, hp_class_heads := (hp_class_heads h)[i := hd (ys @ [n])]\<rparr>" by simp
  with h1(1,4) h2(1,3,4) t show ?thesis by (intro exI [of _ h1] exI [of _ h2] conjI) simp_all
qed

lemma remove_free_ok:
  assumes B: "blocks_ok h B" "F \<subseteq> B" and L: "lists_ok h F L" and b: "b \<in> F"
  shows "\<exists>h' L'. remove_free b h = (Inr (), h') \<and> touches (link_area F) h h' \<and> lists_ok h' (F - {b}) L' \<and>
    hp_total_free h' = hp_total_free h \<and> hp_live_objects h' = hp_live_objects h \<and>
    hp_hint h' = (if hp_hint h = b then NULL_OFFSET else hp_hint h)"
proof -
  define i where "i = class_no (hsize h b)"
  have bB: "b \<in> B" using b B(2) by blast
  have i: "i < 256" using block_size_in(3) [OF B(1) bB] by (simp add: i_def)
  have lists: "list_of h F i (L i)" using L i by (simp add: lists_ok_def)
  then have "b \<in> set (L i)" using b by (simp add: list_of_def i_def)
  then obtain ys zs where Li: "L i = ys @ b # zs" by (meson split_list)
  have in_F: "set ys \<subseteq> F" "set zs \<subseteq> F" "set ys \<subseteq> B" "set zs \<subseteq> B"
    using lists B(2) unfolding Li list_of_def by auto
  have heads: "hd (ys @ [hd (zs @ [NULL_OFFSET])]) = NULL_OFFSET \<longleftrightarrow> ys @ zs = []"
    using hd_null [of "ys @ zs"] in_F(3,4) blocks_in [OF B(1)] by (cases ys) auto
  define nxt where "nxt = hd (zs @ [NULL_OFFSET])"
  define prv where "prv = last (NULL_OFFSET # ys)"
  have linked: "hback h b = prv" "hnext h b = nxt" using lists unfolding Li list_of_def prv_def nxt_def by (simp_all add: linked_append)
  have less: "nxt < 2 ^ 32" "prv < 2 ^ 32" using fields_less(3,4) [of h b] linked by simp_all
  define h0 where "h0 = (if hp_hint h = b then h\<lparr>hp_hint := NULL_OFFSET\<rparr> else h)"
  have h0: "hp_format h0 = hp_format h" "hp_arena h0 = hp_arena h" by (simp_all add: h0_def)
  note same = same_words [OF h0]
  have t0: "touches (link_area {}) h h0" by (simp add: h0_def touches_def)
  note B0 = touched_headers(4) [OF B(1) empty_subsetI t0]
  have "hp_class_heads h0 ! i = hd (ys @ [b])" using lists unfolding Li list_of_def by (cases ys) (simp_all add: h0_def)
  moreover have "i < length (hp_class_heads h0)" using L i by (simp add: lists_ok_def h0_def)
  ultimately obtain h1 h2 where h2: "(if prv = NULL_OFFSET
      then (\<lambda>h. if hp_class_heads h ! i \<noteq> b then (Inl CorruptHeap, h) else (Inr (), h\<lparr>hp_class_heads := (hp_class_heads h)[i := nxt]\<rparr>))
      else write_word prv NEXT_FREE nxt) h0 = (Inr (), h1)"
    "(if nxt \<noteq> NULL_OFFSET then write_word nxt PREVIOUS_FREE prv else sret ()) h1 = (Inr (), h2)"
    "touches (link_area (set ys \<union> set zs)) h0 h2" "blocks_ok h2 B"
    "\<forall>c\<in>B. hnext h2 c = (if ys \<noteq> [] \<and> c = last ys then nxt else hnext h0 c) \<and>
      hback h2 c = (if zs \<noteq> [] \<and> c = hd zs then prv else hback h0 c)"
    "h2 = h0\<lparr>hp_arena := hp_arena h2, hp_class_heads := (hp_class_heads h0)[i := hd (ys @ [nxt])]\<rparr>"
    using unlink_ok [OF B0 in_F(3,4) less _ _ nxt_def prv_def, of i b] by blast
  have f2: "hp_class_heads h2 = (hp_class_heads h)[i := hd (ys @ [nxt])]" "hp_second_bitmaps h2 = hp_second_bitmaps h"
    "hp_first_bitmap h2 = hp_first_bitmap h" "hp_hint h2 = hp_hint h0" "hp_total_free h2 = hp_total_free h" "hp_live_objects h2 = hp_live_objects h"
    by (subst h2(6), simp add: h0_def)+
  have "maps_ok h2 L" using L maps_cong [OF f2(2,3)] by (simp add: lists_ok_def)
  moreover have "hp_class_heads h2 ! i = NULL_OFFSET \<longleftrightarrow> ys @ zs = []"
    unfolding f2(1) using L i heads by (simp add: lists_ok_def nxt_def)
  ultimately obtain v u where h3: "clear_class \<lparr>sc_first = i div 8, sc_second = i mod 8\<rparr> h2 = h2\<lparr>hp_second_bitmaps := v, hp_first_bitmap := u\<rparr>"
    "maps_ok (h2\<lparr>hp_second_bitmaps := v, hp_first_bitmap := u\<rparr>) (L(i := ys @ zs))"
    using clear_class_ok [of h2 L i "ys @ zs"] i Li by auto
  let ?h3 = "h2\<lparr>hp_second_bitmaps := v, hp_first_bitmap := u\<rparr>"
  have f3: "hp_format ?h3 = hp_format h2" "hp_arena ?h3 = hp_arena h2" by simp_all
  note same3 = same_words [OF f3]
  have t3: "touches (link_area {}) h2 ?h3" by (simp add: touches_def)
  obtain h4 where h4: "sseq (write_word b NEXT_FREE NULL_OFFSET) (write_word b PREVIOUS_FREE NULL_OFFSET) ?h3 = (Inr (), h4)"
    "changes (link_area {b}) ?h3 h4" "blocks_ok h4 B" "\<forall>c\<in>B - {b}. hnext h4 c = hnext ?h3 c \<and> hback h4 c = hback ?h3 c"
    using clear_links [OF touched_headers(4) [OF h2(4) empty_subsetI t3] bB] by blast
  have reads: "class_of_block b h0 = Inr \<lparr>sc_first = i div 8, sc_second = i mod 8\<rparr>"
    "read_word b NEXT_FREE h0 = Inr nxt" "read_word b PREVIOUS_FREE h0 = Inr prv"
    "class_index \<lparr>sc_first = i div 8, sc_second = i mod 8\<rparr> = i"
    using block_size_in(2) [OF B0 bB] read_links_eq [of h0 b] blocks_in [OF B0 bB] linked by (simp_all add: same i_def class_index_def)
  have run: "remove_free b h = (Inr (), h4)"
    unfolding remove_free_def Let_def
    by (simp only: sseq_step(1) [OF smodify_apply] h0_def [symmetric] reads sbind_step(1) sseq_step(1) h2(1,2) h3(1) h4(1) sread_apply)
  have t: "touches (link_area F) h h4"
    using touches_into [OF touches_into [OF t0 h2(3)] touches_into [OF t3 touches_changes [OF h4(2)]], of "link_area F" "link_area F" "link_area F"]
      b in_F by (auto simp: link_area_def)
  note f4 = changes_fields [OF h4(2)]
  have "\<forall>j<256. list_of h4 (F - {b}) j ((L(i := ys @ zs)) j)"
  proof (rule unlink_lists [where h = h and L = L and i = i, OF _ _ i_def i Li b])
    show "\<forall>c\<in>F. hsize h4 c = hsize h c" using touched_headers(1) [OF B t] B(2) by blast
    show "\<forall>c\<in>F - {b}. hnext h4 c = (if ys \<noteq> [] \<and> c = last ys then hd (zs @ [NULL_OFFSET]) else hnext h c) \<and>
      hback h4 c = (if zs \<noteq> [] \<and> c = hd zs then last (NULL_OFFSET # ys) else hback h c)"
    proof
      fix c assume "c \<in> F - {b}"
      then have "c \<in> B" "c \<in> B - {b}" using B(2) by auto
      then show "hnext h4 c = (if ys \<noteq> [] \<and> c = last ys then hd (zs @ [NULL_OFFSET]) else hnext h c) \<and>
        hback h4 c = (if zs \<noteq> [] \<and> c = hd zs then last (NULL_OFFSET # ys) else hback h c)"
        using h2(5) h4(4) unfolding same same3 nxt_def prv_def by metis
    qed
  qed (use L f2(1) f4(3) in \<open>simp_all add: lists_ok_def nxt_def\<close>)
  then have "lists_ok h4 (F - {b}) (L(i := ys @ zs))"
    using L h3(2) f4(3-6) f2(1,4) maps_cong [OF f4(5,4)] by (auto simp: lists_ok_def h0_def)
  then show ?thesis using run t f4(6-8) f2(4-6) by (intro exI [of _ h4] exI [of _ "L(i := ys @ zs)"]) (simp add: h0_def)
qed

lemma link_lists:
  assumes L: "\<forall>i<256. list_of h F i (L i)" "length (hp_class_heads h) = 256"
    and i: "i = class_no (hsize h b)" "i < 256" "b \<notin> F"
    and size: "\<forall>c\<in>insert b F. hsize h' c = hsize h c"
    and new: "hnext h' b = hd (L i @ [NULL_OFFSET])" "hback h' b = NULL_OFFSET"
    and links: "\<forall>c\<in>F. hnext h' c = hnext h c \<and> hback h' c = (if L i \<noteq> [] \<and> c = hd (L i) then b else hback h c)"
    and heads: "hp_class_heads h' = (hp_class_heads h)[i := b]"
  shows "\<forall>j<256. list_of h' (insert b F) j ((L(i := b # L i)) j)"
proof (intro allI impI)
  fix j assume j: "j < (256 :: nat)"
  have J: "distinct (L j)" "set (L j) = {c \<in> F. class_no (hsize h c) = j}" "linked h NULL_OFFSET (L j) NULL_OFFSET"
    "hp_class_heads h ! j = hd (L j @ [NULL_OFFSET])" if "j < 256" for j
    using L(1) that by (simp_all add: list_of_def)
  show "list_of h' (insert b F) j ((L(i := b # L i)) j)"
  proof (cases "j = i")
    case True
    have "linked h' b (L i) NULL_OFFSET"
    proof (cases "L i")
      case (Cons z zs)
      have "z \<in> F" "set zs \<subseteq> F" "z \<notin> set zs" using J(1,2) [OF i(2)] unfolding Cons by auto
      then have "\<forall>c\<in>set zs. hback h' c = hback h c \<and> hnext h' c = hnext h c" "hnext h' z = hnext h z" "hback h' z = b"
        using links unfolding Cons by auto
      then show ?thesis using J(3) [OF i(2)] Cons linked_cong [of zs h' h z NULL_OFFSET] by simp
    qed simp
    moreover have "{c \<in> insert b F. class_no (hsize h' c) = i} = insert b {c \<in> F. class_no (hsize h c) = i}" using size i(1) by auto
    moreover have "hp_class_heads h' ! i = b" using heads L(2) i(2) by simp
    ultimately show ?thesis using True J(1,2) [OF i(2)] new i(3) by (auto simp: list_of_def)
  next
    case False
    have "hback h' c = hback h c \<and> hnext h' c = hnext h c" if "c \<in> set (L j)" for c
    proof -
      have "c \<notin> set (L i)" "c \<in> F" using that J(2) [OF j] J(2) [OF i(2)] False by auto
      then show ?thesis using links by (auto dest: hd_in_set)
    qed
    then have "linked h' NULL_OFFSET (L j) NULL_OFFSET" using J(3) [OF j] linked_cong [of "L j" h' h] by blast
    moreover have "hp_class_heads h' ! j = hp_class_heads h ! j" using heads False by simp
    moreover have "{c \<in> insert b F. class_no (hsize h' c) = j} = {c \<in> F. class_no (hsize h c) = j}" using size i(1) False by auto
    ultimately show ?thesis using False J [OF j] by (simp add: list_of_def)
  qed
qed

lemma observe_free_ok:
  assumes "blocks_ok h B" "b \<in> B" "hp_hint h = NULL_OFFSET \<or> hp_hint h \<in> B"
  shows "observe_free_block b h =
    (Inr (), h\<lparr>hp_hint := if hp_hint h = NULL_OFFSET \<or> hsize h (hp_hint h) < hsize h b then b else hp_hint h\<rparr>)"
  using assms(3) block_size_in(1) [OF assms(1,2)] block_size_in(1) [OF assms(1), of "hp_hint h"]
  by (auto simp: observe_free_block_def sbind_def)

lemma insert_links:
  assumes B: "blocks_ok h B" "F \<subseteq> B" "b \<in> B - F" and v: "v = NULL_OFFSET \<or> v \<in> F"
  shows "\<exists>h1 h2 h3. write_word b NEXT_FREE v h = (Inr (), h1) \<and> write_word b PREVIOUS_FREE NULL_OFFSET h1 = (Inr (), h2) \<and>
    (if v \<noteq> NULL_OFFSET then write_word v PREVIOUS_FREE b else sret ()) h2 = (Inr (), h3) \<and>
    changes (link_area (insert b F)) h h3 \<and> hnext h3 b = v \<and> hback h3 b = NULL_OFFSET \<and>
    (\<forall>c\<in>F. hnext h3 c = hnext h c \<and> hback h3 c = (if v \<noteq> NULL_OFFSET \<and> c = v then b else hback h c))"
proof -
  have less: "v < 2 ^ 32" "b < 2 ^ 32" "NULL_OFFSET < 2 ^ 32"
    using v B(2,3) blocks_in [OF B(1), of v] blocks_in [OF B(1), of b] by (auto simp: NULL_OFFSET_def)
  have b: "b \<in> B" using B(3) by simp
  obtain h1 where h1: "write_word b NEXT_FREE v h = (Inr (), h1)" "changes (link_area {b}) h h1" "blocks_ok h1 B"
    "\<forall>c\<in>B. hnext h1 c = (if c = b then v else hnext h c) \<and> hback h1 c = hback h c"
    using set_next [OF B(1) b less(1)] by blast
  obtain h2 where h2: "write_word b PREVIOUS_FREE NULL_OFFSET h1 = (Inr (), h2)" "changes (link_area {b}) h1 h2" "blocks_ok h2 B"
    "\<forall>c\<in>B. hback h2 c = (if c = b then NULL_OFFSET else hback h1 c) \<and> hnext h2 c = hnext h1 c"
    using set_back [OF h1(3) b less(3)] by blast
  obtain h3 where h3: "(if v \<noteq> NULL_OFFSET then write_word v PREVIOUS_FREE b else sret ()) h2 = (Inr (), h3)" "changes (link_area (insert b F)) h2 h3"
    "\<forall>c\<in>B. hback h3 c = (if v \<noteq> NULL_OFFSET \<and> c = v then b else hback h2 c) \<and> hnext h3 c = hnext h2 c"
  proof (cases "v = NULL_OFFSET")
    case False
    then have vF: "v \<in> F" "v \<in> B" using v B(2) by auto
    obtain h3 where h3: "write_word v PREVIOUS_FREE b h2 = (Inr (), h3)" "changes (link_area {v}) h2 h3"
      "\<forall>c\<in>B. hback h3 c = (if c = v then b else hback h2 c) \<and> hnext h3 c = hnext h2 c"
      using set_back [OF h2(3) vF(2) less(2)] by blast
    have "changes (link_area (insert b F)) h2 h3" by (rule changes_mono [OF h3(2) link_area_mono]) (use vF in simp)
    with that h3 False show ?thesis by simp
  qed (use that in simp)
  have "changes (link_area (insert b F)) h h3"
    by (rule changes_into [OF h1(2) changes_into [OF h2(2) h3(2), of "link_area (insert b F)"]]) (auto simp: link_area_def)
  moreover have "hnext h3 b = v" "hback h3 b = NULL_OFFSET" using h1(4) h2(4) h3(3) b v B(3) by auto
  moreover have "hnext h3 c = hnext h c \<and> hback h3 c = (if v \<noteq> NULL_OFFSET \<and> c = v then b else hback h c)" if "c \<in> F" for c
  proof -
    have "c \<in> B" "c \<noteq> b" using that B(2,3) by auto
    then show ?thesis using h1(4) h2(4) h3(3) by simp
  qed
  ultimately show ?thesis using h1(1) h2(1) h3(1) by blast
qed

lemma insert_free_ok:
  assumes B: "blocks_ok h B" "F \<subseteq> B" and L: "lists_ok h F L" and b: "b \<in> B - F"
  shows "\<exists>h' L'. insert_free b h = (Inr (), h') \<and> touches (link_area (insert b F)) h h' \<and> lists_ok h' (insert b F) L' \<and>
    hp_total_free h' = hp_total_free h \<and> hp_live_objects h' = hp_live_objects h \<and>
    hp_hint h' = (if hp_hint h = NULL_OFFSET \<or> hsize h (hp_hint h) < hsize h b then b else hp_hint h)"
proof -
  define i where "i = class_no (hsize h b)"
  have bB: "b \<in> B" using b by blast
  have i: "i < 256" using block_size_in(3) [OF B(1) bB] by (simp add: i_def)
  define v where "v = hd (L i @ [NULL_OFFSET])"
  have lists: "set (L i) \<subseteq> F" "hp_class_heads h ! i = v" using L i by (auto simp: lists_ok_def list_of_def v_def)
  then have v: "v = NULL_OFFSET \<or> v \<in> F" "v \<noteq> NULL_OFFSET \<longleftrightarrow> L i \<noteq> []" "L i \<noteq> [] \<Longrightarrow> v = hd (L i)"
    using hd_null [of "L i"] B(2) blocks_in [OF B(1)] by (cases "L i"; auto simp: v_def)+
  obtain h1 h2 h3 where h3: "write_word b NEXT_FREE v h = (Inr (), h1)" "write_word b PREVIOUS_FREE NULL_OFFSET h1 = (Inr (), h2)"
    "(if v \<noteq> NULL_OFFSET then write_word v PREVIOUS_FREE b else sret ()) h2 = (Inr (), h3)"
    "changes (link_area (insert b F)) h h3" "hnext h3 b = v" "hback h3 b = NULL_OFFSET"
    "\<forall>c\<in>F. hnext h3 c = hnext h c \<and> hback h3 c = (if v \<noteq> NULL_OFFSET \<and> c = v then b else hback h c)"
    using insert_links [OF B b v(1)] by blast
  note f3 = changes_fields [OF h3(4)]
  let ?h4 = "h3\<lparr>hp_class_heads := (hp_class_heads h3)[i := b],
     hp_second_bitmaps := (hp_second_bitmaps h3)[i div 8 := (hp_second_bitmaps h3 ! (i div 8)) OR push_bit (i mod 8) 1],
     hp_first_bitmap := hp_first_bitmap h3 OR push_bit (i div 8) 1\<rparr>"
  have t4: "touches (link_area (insert b F)) h ?h4" using touches_changes [OF h3(4)] by (simp add: touches_def)
  have sub: "insert b F \<subseteq> B" using B(2) bB by blast
  note B4 = touched_headers [OF B(1) sub t4]
  define hint where "hint = (if hp_hint h = NULL_OFFSET \<or> hsize h (hp_hint h) < hsize h b then b else hp_hint h)"
  have hF: "hp_hint h = NULL_OFFSET \<or> hp_hint h \<in> F" using L by (simp add: lists_ok_def)
  then have obs: "observe_free_block b ?h4 = (Inr (), ?h4\<lparr>hp_hint := hint\<rparr>)"
    using observe_free_ok [OF B4(4) bB] B4(1) bB B(2) f3(6) by (auto simp: hint_def)
  let ?h5 = "?h4\<lparr>hp_hint := hint\<rparr>"
  have f5: "hp_format ?h5 = hp_format h3" "hp_arena ?h5 = hp_arena h3" by simp_all
  note same = same_words [OF f5]
  have reads: "class_of_block b h = Inr \<lparr>sc_first = i div 8, sc_second = i mod 8\<rparr>"
    "class_index \<lparr>sc_first = i div 8, sc_second = i mod 8\<rparr> = i"
    "(if i < length (hp_class_heads h) then Inr (hp_class_heads h ! i) else Inl CorruptHeap) = Inr v"
    using block_size_in(2) [OF B(1) bB] L i lists(2) by (simp_all add: i_def class_index_def lists_ok_def)
  have run: "insert_free b h = (Inr (), ?h5)"
    unfolding insert_free_def Let_def
    by (simp only: reads sbind_step(1) sseq_step(1) h3(1-3) sread_apply smodify_apply size_class.simps obs)
  have t5: "touches (link_area (insert b F)) h ?h5" using t4 by (simp add: touches_def)
  have "\<forall>j<256. list_of ?h5 (insert b F) j ((L(i := b # L i)) j)"
  proof (rule link_lists [where h = h and L = L and i = i, OF _ _ i_def i])
    show "\<forall>c\<in>insert b F. hsize ?h5 c = hsize h c" using touched_headers(1) [OF B(1) sub t5] sub by blast
    show "\<forall>c\<in>F. hnext ?h5 c = hnext h c \<and> hback ?h5 c = (if L i \<noteq> [] \<and> c = hd (L i) then b else hback h c)"
      using h3(7) v(2,3) unfolding same by auto
    show "hnext ?h5 b = hd (L i @ [NULL_OFFSET])" "hback ?h5 b = NULL_OFFSET" unfolding same using h3(5,6) by (simp_all add: v_def)
  qed (use L b f3(3) in \<open>auto simp: lists_ok_def\<close>)
  moreover have "maps_ok ?h5 (L(i := b # L i))"
    using L i f3(4,5) by (intro set_class_ok [where h = h]) (simp_all add: lists_ok_def)
  ultimately have "lists_ok ?h5 (insert b F) (L(i := b # L i))"
    using L f3(3) hF by (auto simp: lists_ok_def hint_def)
  then show ?thesis using run t5 f3(7,8) by (intro exI [of _ ?h5] exI [of _ "L(i := b # L i)"]) (simp add: hint_def)
qed

subsection \<open>Finding a block\<close>

lemma trailing_zeros_bit:
  fixes w :: "'a :: len word"
  assumes "w \<noteq> 0"
  shows "bit w (trailing_zeros w)" "trailing_zeros w < LENGTH('a)"
proof -
  obtain n where n: "bit w n" "n < LENGTH('a)" using assms by (auto simp: bit_eq_iff dest: bit_imp_le_length)
  then have "find (bit w) [0..<LENGTH('a)] \<noteq> None" by (auto simp: find_None_iff)
  then obtain i where i: "find (bit w) [0..<LENGTH('a)] = Some i" by blast
  then have "trailing_zeros w = i" "bit w i" "i < LENGTH('a)" by (simp add: trailing_zeros_def, auto simp: find_Some_iff)
  then show "bit w (trailing_zeros w)" "trailing_zeros w < LENGTH('a)" by simp_all
qed

lemma head_of_ok:
  assumes "blocks_ok h B" "F \<subseteq> B" "lists_ok h F L" "f < 32" "s < 8" "bit (hp_second_bitmaps h ! f) s"
  shows "\<exists>b. head_of \<lparr>sc_first = f, sc_second = s\<rparr> h = Inr (Some b) \<and> b \<in> F \<and> class_no (hsize h b) = f * 8 + s"
proof -
  have i: "f * 8 + s < 256" using assms(4,5) by simp
  have "L (f * 8 + s) \<noteq> []" using assms(3-6) by (simp add: lists_ok_def maps_ok_def)
  then obtain b bs where b: "L (f * 8 + s) = b # bs" by (meson neq_Nil_conv)
  have l: "list_of h F (f * 8 + s) (b # bs)" using assms(3) i b by (metis lists_ok_def)
  then have "b \<in> F" "class_no (hsize h b) = f * 8 + s" "hp_class_heads h ! (f * 8 + s) = b" by (auto simp: list_of_def)
  moreover have "b \<noteq> NULL_OFFSET" using blocks_in [OF assms(1), of b] assms(2) \<open>b \<in> F\<close> by auto
  ultimately show ?thesis using i assms(3) by (simp add: head_of_def class_index_def lists_ok_def Let_def)
qed

lemma find_class_ok:
  assumes B: "blocks_ok h B" "F \<subseteq> B" "lists_ok h F L" and c: "sc_first c < 32" "sc_second c < 8"
  shows "\<exists>r. find_class n c h = Inr r \<and> (case r of None \<Rightarrow> hp_hint h = NULL_OFFSET \<or> hsize h (hp_hint h) < n
    | Some b \<Rightarrow> b \<in> F \<and> (class_index c \<le> class_no (hsize h b) \<or> n \<le> hsize h b))"
proof -
  let ?f = "sc_first c" and ?s = "sc_second c"
  let ?m = "(hp_second_bitmaps h ! ?f) AND push_bit ?s (- 1)"
  let ?hi = "if ?f = 31 then 0 else hp_first_bitmap h AND push_bit (?f + 1) (- 1)"
  have maps: "maps_ok h L" using B(3) by (simp add: lists_ok_def)
  show ?thesis
  proof (cases "?m = 0")
    case False
    then have t: "bit ?m (trailing_zeros ?m)" "trailing_zeros ?m < 8" using trailing_zeros_bit [of ?m] by simp_all
    then have "bit (hp_second_bitmaps h ! ?f) (trailing_zeros ?m)" "?s \<le> trailing_zeros ?m" by (auto simp: bit_simps not_less)
    then show ?thesis using head_of_ok [OF B c(1) t(2)] False
      by (auto simp: find_class_def Let_def class_index_def)
  next
    case zero: True
    show ?thesis
    proof (cases "?hi = 0")
      case True
      have "hp_hint h \<noteq> NULL_OFFSET \<Longrightarrow> hp_hint h \<in> F" using B(3) by (auto simp: lists_ok_def)
      then show ?thesis using zero True block_size_in(1) [OF B(1), of "hp_hint h"] B(2)
        by (auto simp: find_class_def Let_def split: if_splits)
    next
      case False
      define g where "g = trailing_zeros ?hi"
      define k where "k = trailing_zeros (hp_second_bitmaps h ! g)"
      have "bit ?hi g" "g < 32" using trailing_zeros_bit [OF False] unfolding g_def by simp_all
      then have g: "bit (hp_first_bitmap h) g" "?f < g" by (auto simp: bit_simps not_less split: if_splits)
      then have nz: "hp_second_bitmaps h ! g \<noteq> 0" using maps \<open>g < 32\<close> by (simp add: maps_ok_def)
      then have t: "bit (hp_second_bitmaps h ! g) k" "k < 8" using trailing_zeros_bit [OF nz] by (simp_all add: k_def)
      obtain b where "head_of \<lparr>sc_first = g, sc_second = k\<rparr> h = Inr (Some b)" "b \<in> F" "class_no (hsize h b) = g * 8 + k"
        using head_of_ok [OF B \<open>g < 32\<close> t(2,1)] by blast
      moreover have "class_index c \<le> g * 8" using g(2) c(2) by (simp add: class_index_def)
      moreover have "find_class n c h = head_of \<lparr>sc_first = g, sc_second = k\<rparr> h"
        unfolding find_class_def Let_def g_def [symmetric] k_def [symmetric] using zero False nz by argo
      ultimately show ?thesis by simp
    qed
  qed
qed

lemma find_suitable_ok:
  assumes B: "blocks_ok h B" "F \<subseteq> B" "lists_ok h F L" and n: "size_ok n"
  shows "\<exists>r. find_suitable n h = Inr r \<and> (case r of None \<Rightarrow> hp_hint h = NULL_OFFSET \<or> hsize h (hp_hint h) < n \<or> 2 ^ 31 \<le> n
    | Some b \<Rightarrow> b \<in> F \<and> n \<le> hsize h b)"
proof (cases "request_size_class n")
  case None
  then show ?thesis using request_class [OF n] by (simp add: find_suitable_def)
next
  case (Some c)
  let ?i = "class_no n" and ?l = "\<lparr>sc_first = class_no n div 8, sc_second = class_no n mod 8\<rparr>"
  have c: "sc_first c < 32" "sc_second c < 8" "\<And>m. size_ok m \<Longrightarrow> class_index c \<le> class_no m \<Longrightarrow> n \<le> m"
    using request_class [OF n] Some by simp_all
  obtain r where r: "find_class n c h = Inr r" "case r of None \<Rightarrow> hp_hint h = NULL_OFFSET \<or> hsize h (hp_hint h) < n
    | Some b \<Rightarrow> b \<in> F \<and> (class_index c \<le> class_no (hsize h b) \<or> n \<le> hsize h b)"
    using find_class_ok [OF B c(1,2), of n] by blast
  have "case r of None \<Rightarrow> hp_hint h = NULL_OFFSET \<or> hsize h (hp_hint h) < n \<or> 2 ^ 31 \<le> n | Some b \<Rightarrow> b \<in> F \<and> n \<le> hsize h b"
    using r(2) c(3) blocks_in [OF B(1)] B(2) by (cases r) auto
  moreover note r(1)
  moreover have "hp_class_heads h ! ?i \<in> F" if "hp_class_heads h ! ?i \<noteq> NULL_OFFSET"
  proof -
    have "list_of h F ?i (L ?i)" using B(3) class_of(2) [OF n] by (simp add: lists_ok_def)
    then show ?thesis using that by (cases "L ?i") (auto simp: list_of_def)
  qed
  ultimately show ?thesis
    using Some class_of(1) [OF n] block_size_in(1) [OF B(1), of "hp_class_heads h ! ?i"] B(2)
    by (auto simp: find_suitable_def class_index_def Let_def)
qed

end
