(* ===== verification/Vm_Heap_Ops.thy ===== *)
theory Vm_Heap_Ops
  imports Vm_Heap_Free
begin

unbundle bit_operations_syntax

text \<open>
  The allocator as operations on a list of blocks. \<open>heap_rep h bs\<close>: the arena is tiled by the blocks \<open>bs\<close>, each
  given by its size and flags, in address order; every block records the size of the one before it, no two
  free blocks are adjacent, the free lists hold exactly the free blocks, and the counters are right. Reserving
  splits a free block of the list; freeing joins a block with its free neighbours.
\<close>

type_synonym blk = "nat \<times> nat"

definition extent :: "blk list \<Rightarrow> nat" where
  "extent bs = sum_list (map fst bs)"

fun starts :: "nat \<Rightarrow> blk list \<Rightarrow> nat list" where
  "starts p [] = []"
| "starts p (b # bs) = p # starts (p + fst b) bs"

fun frees :: "nat \<Rightarrow> blk list \<Rightarrow> nat set" where
  "frees p [] = {}"
| "frees p (b # bs) = (if snd b = 0 then insert p (frees (p + fst b) bs) else frees (p + fst b) bs)"

fun blocks_at :: "heap \<Rightarrow> nat \<Rightarrow> nat \<Rightarrow> blk list \<Rightarrow> bool" where
  "blocks_at h p pr [] \<longleftrightarrow> True"
| "blocks_at h p pr (b # bs) \<longleftrightarrow> hsize h p = fst b \<and> hflags h p = snd b \<and> hprev h p = pr \<and> blocks_at h (p + fst b) (fst b) bs"

definition last_size :: "nat \<Rightarrow> blk list \<Rightarrow> nat" where
  "last_size pr bs = (if bs = [] then pr else fst (last bs))"

fun settled :: "blk list \<Rightarrow> bool" where
  "settled [] \<longleftrightarrow> True"
| "settled [b] \<longleftrightarrow> True"
| "settled (b # c # bs) \<longleftrightarrow> (snd b \<noteq> 0 \<or> snd c \<noteq> 0) \<and> settled (c # bs)"

definition free_bytes :: "blk list \<Rightarrow> nat" where
  "free_bytes bs = sum_list (map (\<lambda>(n, f). if f = 0 then n else 0) bs)"

definition live_count :: "blk list \<Rightarrow> nat" where
  "live_count bs = length (filter (\<lambda>b. snd b = 5) bs)"

definition flag_ok :: "nat \<Rightarrow> bool" where
  "flag_ok f \<longleftrightarrow> f = 0 \<or> f = 1 \<or> f = 5"

definition shape_ok :: "blk list \<Rightarrow> bool" where
  "shape_ok bs \<longleftrightarrow> list_all (\<lambda>(n, f). size_ok n \<and> flag_ok f) bs"

definition blocks_rep :: "heap \<Rightarrow> blk list \<Rightarrow> bool" where
  "blocks_rep h bs \<longleftrightarrow> arena_ok h \<and> extent bs = hp_arena_bytes h \<and> shape_ok bs \<and> settled bs \<and> blocks_at h 0 0 bs \<and>
     (\<exists>L. lists_ok h (frees 0 bs) L) \<and> hp_total_free h = free_bytes bs"

definition heap_rep :: "heap \<Rightarrow> blk list \<Rightarrow> bool" where
  "heap_rep h bs \<longleftrightarrow> blocks_rep h bs \<and> hp_live_objects h = live_count bs"

subsection \<open>Lists of blocks\<close>

lemma extent_simps [simp]: "extent [] = 0" "extent (b # bs) = fst b + extent bs" "extent (xs @ ys) = extent xs + extent ys"
  by (simp_all add: extent_def)

lemma last_size_simps [simp]: "last_size pr [] = pr" "last_size pr (b # bs) = last_size (fst b) bs" "last_size pr (xs @ [b]) = fst b"
  by (simp_all add: last_size_def)

lemma starts_append [simp]: "starts p (xs @ ys) = starts p xs @ starts (p + extent xs) ys"
  by (induction xs arbitrary: p) (simp_all add: add.assoc)

lemma frees_append [simp]: "frees p (xs @ ys) = frees p xs \<union> frees (p + extent xs) ys"
  by (induction xs arbitrary: p) (auto simp: add.assoc)

lemma blocks_at_append [simp]:
  "blocks_at h p pr (xs @ ys) \<longleftrightarrow> blocks_at h p pr xs \<and> blocks_at h (p + extent xs) (last_size pr xs) ys"
  by (induction xs arbitrary: p pr) (auto simp: add.assoc)

lemma shape_simps [simp]: "shape_ok []" "shape_ok (b # bs) \<longleftrightarrow> size_ok (fst b) \<and> flag_ok (snd b) \<and> shape_ok bs"
  "shape_ok (xs @ ys) \<longleftrightarrow> shape_ok xs \<and> shape_ok ys"
  by (auto simp: shape_ok_def split: prod.splits)

lemma free_bytes_simps [simp]: "free_bytes [] = 0" "free_bytes (b # bs) = (if snd b = 0 then fst b else 0) + free_bytes bs"
  "free_bytes (xs @ ys) = free_bytes xs + free_bytes ys"
  by (auto simp: free_bytes_def split: prod.splits)

lemma live_count_simps [simp]: "live_count [] = 0" "live_count (b # bs) = (if snd b = 5 then 1 else 0) + live_count bs"
  "live_count (xs @ ys) = live_count xs + live_count ys"
  by (simp_all add: live_count_def)

lemma settled_append:
  "settled (xs @ ys) \<longleftrightarrow> settled xs \<and> settled ys \<and> (xs \<noteq> [] \<longrightarrow> ys \<noteq> [] \<longrightarrow> snd (last xs) \<noteq> 0 \<or> snd (hd ys) \<noteq> 0)"
proof (induction xs rule: settled.induct)
  case (2 b)
  then show ?case by (cases ys) auto
qed auto

lemma settled_Cons: "settled (b # bs) \<longleftrightarrow> settled bs \<and> (bs \<noteq> [] \<longrightarrow> snd b \<noteq> 0 \<or> snd (hd bs) \<noteq> 0)"
  by (cases bs) auto

lemma block_sizes_pos: "shape_ok bs \<Longrightarrow> b \<in> set (starts p bs) \<Longrightarrow> p \<le> b \<and> b + 16 \<le> p + extent bs"
proof (induction bs arbitrary: p)
  case (Cons a bs)
  have "b = p \<or> b \<in> set (starts (p + fst a) bs)" "16 \<le> fst a" "shape_ok bs" using Cons.prems by (auto simp: size_ok_def)
  then show ?case using Cons.IH [of "p + fst a"] by fastforce
qed simp

lemma starts_aligned: "shape_ok bs \<Longrightarrow> 8 dvd p \<Longrightarrow> b \<in> set (starts p bs) \<Longrightarrow> 8 dvd b"
proof (induction bs arbitrary: p)
  case (Cons a bs)
  then have "b = p \<or> b \<in> set (starts (p + fst a) bs)" "8 dvd p + fst a" "shape_ok bs" by (auto simp: size_ok_def)
  then show ?case using Cons.IH [of "p + fst a"] Cons.prems(2) by blast
qed simp

lemma starts_apart: "shape_ok bs \<Longrightarrow> b \<in> set (starts p bs) \<Longrightarrow> c \<in> set (starts p bs) \<Longrightarrow> b < c \<Longrightarrow> b + 16 \<le> c"
proof (induction bs arbitrary: p)
  case (Cons a bs)
  have far: "p + 16 \<le> x" if "x \<in> set (starts (p + fst a) bs)" for x
    using block_sizes_pos [of bs x "p + fst a"] Cons.prems(1) that by (auto simp: size_ok_def)
  have in_: "b = p \<or> b \<in> set (starts (p + fst a) bs)" "c = p \<or> c \<in> set (starts (p + fst a) bs)" "shape_ok bs" using Cons.prems by auto
  show ?case
  proof (cases "b = p")
    case True
    then show ?thesis using in_(2) far [of c] Cons.prems(4) by auto
  next
    case False
    then show ?thesis using in_ Cons.IH [of "p + fst a"] far [of b] Cons.prems(4) by auto
  qed
qed simp

lemma starts_distinct: "shape_ok bs \<Longrightarrow> distinct (starts p bs)"
proof (induction bs arbitrary: p)
  case (Cons a bs)
  have "p \<notin> set (starts (p + fst a) bs)" using block_sizes_pos [of bs p "p + fst a"] Cons.prems by (auto simp: size_ok_def)
  with Cons show ?case by simp
qed simp

lemma frees_starts: "frees p bs \<subseteq> set (starts p bs)"
  by (induction bs arbitrary: p) auto

lemma extent_aligned: "shape_ok bs \<Longrightarrow> 8 dvd extent bs"
  by (induction bs) (auto simp: size_ok_def)

lemma frees_split:
  assumes "b \<in> frees 0 bs"
  obtains xs n ys where "bs = xs @ (n, 0) # ys" "b = extent xs"
proof -
  have "b \<in> frees p bs \<Longrightarrow> \<exists>xs n ys. bs = xs @ (n, 0) # ys \<and> b = p + extent xs" for p
  proof (induction bs arbitrary: p)
    case (Cons a bs)
    show ?case
    proof (cases "b = p \<and> snd a = 0")
      case True
      then have "a # bs = [] @ (fst a, 0) # bs \<and> b = p + extent []" by (cases a) auto
      then show ?thesis by blast
    next
      case False
      then have "b \<in> frees (p + fst a) bs" using Cons.prems by (auto split: if_splits)
      then obtain xs n ys where "bs = xs @ (n, 0) # ys" "b = p + fst a + extent xs" using Cons.IH by blast
      then have "a # bs = (a # xs) @ (n, 0) # ys \<and> b = p + extent (a # xs)" by simp
      then show ?thesis by blast
    qed
  qed simp
  from this [of 0] assms that show thesis by auto
qed

lemma starts_split:
  assumes "b \<in> set (starts 0 bs)"
  obtains xs n f ys where "bs = xs @ (n, f) # ys" "b = extent xs"
proof -
  have "b \<in> set (starts p bs) \<Longrightarrow> \<exists>xs n f ys. bs = xs @ (n, f) # ys \<and> b = p + extent xs" for p
  proof (induction bs arbitrary: p)
    case (Cons a bs)
    show ?case
    proof (cases "b = p")
      case True
      then have "a # bs = [] @ (fst a, snd a) # bs \<and> b = p + extent []" by auto
      then show ?thesis by blast
    next
      case False
      then obtain xs n f ys where "bs = xs @ (n, f) # ys" "b = p + fst a + extent xs" using Cons by fastforce
      then have "a # bs = (a # xs) @ (n, f) # ys \<and> b = p + extent (a # xs)" by simp
      then show ?thesis by blast
    qed
  qed simp
  from this [of 0] assms that show thesis by auto
qed

subsection \<open>Frames\<close>

lemma blocks_frame:
  assumes "touches S h h'" "\<And>b. b \<in> set (starts p bs) \<Longrightarrow> {b..<b + 8} \<inter> S = {}"
  shows "blocks_at h' p pr bs \<longleftrightarrow> blocks_at h p pr bs"
  using assms(2)
proof (induction bs arbitrary: p pr)
  case (Cons a bs)
  then show ?case using touches_frames(1-3) [OF assms(1), of p] by simp
qed simp

lemma links_touch:
  assumes "touches S h h'" "{b + 8..<b + 16} \<inter> S = {}"
  shows "hnext h' b = hnext h b" "hback h' b = hback h b"
proof -
  define k where "k = h\<lparr>hp_arena := hp_arena h'\<rparr>"
  have c: "changes S h k" using assms(1) by (auto simp: k_def changes_def touches_def)
  have "hp_format h' = hp_format k" "hp_arena h' = hp_arena k" using assms(1) by (simp_all add: k_def touches_def)
  note same = same_words(5,6) [OF this]
  show "hnext h' b = hnext h b" "hback h' b = hback h b" unfolding same using links_frame [OF c assms(2)] by simp_all
qed

definition same_lists :: "heap \<Rightarrow> heap \<Rightarrow> bool" where
  "same_lists h h' \<longleftrightarrow> hp_class_heads h' = hp_class_heads h \<and> hp_first_bitmap h' = hp_first_bitmap h \<and>
     hp_second_bitmaps h' = hp_second_bitmaps h \<and> hp_hint h' = hp_hint h"

lemma lists_frame:
  assumes t: "touches S h h'" and m: "same_lists h h'" and F: "\<And>b. b \<in> F \<Longrightarrow> {b..<b + 16} \<inter> S = {}" and L: "lists_ok h F L"
  shows "lists_ok h' F L"
proof -
  have size: "hsize h' b = hsize h b" and link: "hnext h' b = hnext h b" "hback h' b = hback h b" if "b \<in> F" for b
    using touches_frames(1) [OF t, of b] links_touch [OF t, of b] inter_sub [OF F [OF that], of b "b + 8"] inter_sub [OF F [OF that], of "b + 8" "b + 16"]
    by simp_all
  have "list_of h' F i (L i)" if "i < 256" for i
  proof -
    have l: "list_of h F i (L i)" using L that by (simp add: lists_ok_def)
    then have "set (L i) \<subseteq> F" by (auto simp: list_of_def)
    then have "linked h' NULL_OFFSET (L i) NULL_OFFSET = linked h NULL_OFFSET (L i) NULL_OFFSET" using link by (intro linked_cong) blast
    moreover have "{b \<in> F. class_no (hsize h' b) = i} = {b \<in> F. class_no (hsize h b) = i}" using size by auto
    ultimately show ?thesis using l m by (simp add: list_of_def same_lists_def)
  qed
  then show ?thesis using L m by (simp add: lists_ok_def same_lists_def maps_ok_def)
qed

lemma blocks_ok_starts:
  assumes "arena_ok h" "extent bs = hp_arena_bytes h" "shape_ok bs" "\<And>b. b \<in> set (starts 0 bs) \<Longrightarrow> size_ok (hsize h b)"
  shows "blocks_ok h (set (starts 0 bs))"
  using assms starts_aligned [OF assms(3), of 0] block_sizes_pos [OF assms(3), of _ 0] starts_apart [OF assms(3), of _ 0]
  by (auto simp: blocks_ok_def on_block_def)

lemma blocks_at_size: "blocks_at h p pr bs \<Longrightarrow> shape_ok bs \<Longrightarrow> b \<in> set (starts p bs) \<Longrightarrow> size_ok (hsize h b)"
  by (induction bs arbitrary: p pr) auto

lemma blocks_ok_at: "arena_ok h \<Longrightarrow> extent bs = hp_arena_bytes h \<Longrightarrow> shape_ok bs \<Longrightarrow> blocks_at h 0 0 bs \<Longrightarrow> blocks_ok h (set (starts 0 bs))"
  using blocks_ok_starts [of h bs] blocks_at_size [of h 0 0 bs] by blast

lemma blocks_repD:
  assumes "blocks_rep h bs"
  shows "arena_ok h" "extent bs = hp_arena_bytes h" "shape_ok bs" "settled bs" "blocks_at h 0 0 bs" "\<exists>L. lists_ok h (frees 0 bs) L"
    "hp_total_free h = free_bytes bs"
  using assms unfolding blocks_rep_def by blast+

lemma rep_blocks: "blocks_rep h bs \<Longrightarrow> blocks_ok h (set (starts 0 bs))"
  using blocks_ok_starts [of h bs] blocks_at_size [of h 0 0 bs] by (simp add: blocks_rep_def)

lemma blocks_at_touched:
  assumes "blocks_ok h B" "F \<subseteq> B" "touches (link_area F) h h'" "set (starts p cs) \<subseteq> B"
  shows "blocks_at h' p pr cs \<longleftrightarrow> blocks_at h p pr cs"
  by (rule blocks_frame [OF assms(3)]) (use headers_apart [OF assms(1,2)] assms(4) in blast)

lemma frees_bounds: "shape_ok bs \<Longrightarrow> c \<in> frees p bs \<Longrightarrow> p \<le> c \<and> c + 16 \<le> p + extent bs"
  using block_sizes_pos [of bs c p] frees_starts [of p bs] by blast

lemma frees_after_used:
  assumes "shape_ok zs" "zs = [] \<or> snd (hd zs) \<noteq> 0" "c \<in> frees p zs"
  shows "p + 16 \<le> c"
proof (cases zs)
  case (Cons a bs)
  then have "c \<in> frees (p + fst a) bs" using assms by auto
  then show ?thesis using frees_bounds [of bs c "p + fst a"] Cons assms(1) by (auto simp: size_ok_def)
qed (use assms in simp)

lemma last_size_bounds: "shape_ok xs \<Longrightarrow> last_size 0 xs \<le> extent xs \<and> 8 dvd last_size 0 xs"
  by (cases xs rule: rev_cases) (auto simp: size_ok_def)

lemma apart: "a + m \<le> b \<or> b + n \<le> a \<Longrightarrow> {a..<a + m} \<inter> {b..<b + n} = ({} :: nat set)"
  by auto

text \<open>Writing the header of the block between \<open>xs\<close> and \<open>zs\<close>.\<close>

lemma put_header:
  assumes ok: "arena_ok h" "shape_ok xs" "shape_ok zs" "size_ok a" "extent xs + a + extent zs = hp_arena_bytes h"
    and at: "blocks_at h 0 0 xs" "blocks_at h (extent xs + a) pr zs"
    and L: "lists_ok h (frees 0 xs \<union> frees (extent xs + a) zs) L"
  shows "\<exists>h'. write_header (extent xs) a (last_size 0 xs) f h = (Inr (), h') \<and> changes {extent xs..<extent xs + 16} h h' \<and>
    blocks_at h' 0 0 (xs @ [(a, of_bool f)]) \<and> blocks_at h' (extent xs + a) pr zs \<and>
    lists_ok h' (frees 0 xs \<union> frees (extent xs + a) zs) L"
proof -
  let ?b = "extent xs"
  have a: "8 dvd a" "16 \<le> a" "a \<le> hp_arena_bytes h" using ok(4,5) by (auto simp: size_ok_def)
  have "on_block h ?b" using extent_aligned [OF ok(2)] ok(5) a by (simp add: on_block_def)
  moreover have "link_fits h (last_size 0 xs)" using last_size_bounds [OF ok(2)] ok(5) a by (simp add: link_fits_def)
  ultimately obtain h' where h': "write_header ?b a (last_size 0 xs) f h = (Inr (), h')" "changes {?b..<?b + 16} h h'"
      "hsize h' ?b = a" "hprev h' ?b = last_size 0 xs" "hflags h' ?b = of_bool f"
    using write_header_eq [OF ok(1) _ a, of ?b "last_size 0 xs" f] by blast
  note t = touches_changes [OF h'(2)]
  have "blocks_at h' 0 0 xs"
    using blocks_frame [OF t, of 0 xs 0] at(1) block_sizes_pos [OF ok(2), of _ 0] by force
  moreover have "blocks_at h' (?b + a) pr zs"
    using blocks_frame [OF t, of "?b + a" zs pr] at(2) block_sizes_pos [OF ok(3), of _ "?b + a"] a(2) by force
  moreover have "lists_ok h' (frees 0 xs \<union> frees (?b + a) zs) L"
  proof (rule lists_frame [OF t _ _ L])
    show "same_lists h h'" using changes_fields [OF h'(2)] by (simp add: same_lists_def)
    fix c assume "c \<in> frees 0 xs \<union> frees (?b + a) zs"
    then have "c + 16 \<le> ?b \<or> ?b + 16 \<le> c" using frees_bounds [OF ok(2), of c 0] frees_bounds [OF ok(3), of c "?b + a"] a(2) by auto
    then show "{c..<c + 16} \<inter> {?b..<?b + 16} = {}" by (rule apart)
  qed
  ultimately show ?thesis using h' by auto
qed

lemma put_next:
  assumes ok: "arena_ok h" "shape_ok zs" "8 dvd b" "size_ok a" "b + a + extent zs = hp_arena_bytes h"
    and at: "blocks_at h (b + a) pr zs" and used: "zs = [] \<or> snd (hd zs) \<noteq> 0"
    and L: "lists_ok h (G \<union> frees (b + a) zs) L" and G: "\<And>c. c \<in> G \<Longrightarrow> c + 16 \<le> b + a"
  shows "\<exists>h'. update_next_previous_size b a h = (Inr (), h') \<and> changes {b + a..<b + a + 8} h h' \<and> blocks_at h' (b + a) a zs \<and>
    lists_ok h' (G \<union> frees (b + a) zs) L \<and> (zs \<noteq> [] \<longrightarrow> htype h' (b + a) = htype h (b + a))"
proof (cases zs)
  case Nil
  then show ?thesis using update_next_end [OF ok(1), of b a] ok(5) L by auto
next
  case (Cons z zs')
  have z: "size_ok (fst z)" "shape_ok zs'" using Cons ok(2) by auto
  then have "on_block h (b + a)" "a \<le> hp_arena_bytes h" "b + a < hp_arena_bytes h" "8 dvd a"
    using ok(3-5) Cons by (auto simp: on_block_def size_ok_def)
  then obtain h' where h': "update_next_previous_size b a h = (Inr (), h')" "changes {b + a..<b + a + 8} h h'" "hprev h' (b + a) = a"
      "hsize h' (b + a) = hsize h (b + a)" "hflags h' (b + a) = hflags h (b + a)" "htype h' (b + a) = htype h (b + a)"
    using update_next_eq [OF ok(1), of a b] by blast
  note t = touches_changes [OF h'(2)]
  have "blocks_at h' (b + a + fst z) (fst z) zs' \<longleftrightarrow> blocks_at h (b + a + fst z) (fst z) zs'"
    by (rule blocks_frame [OF t]) (use block_sizes_pos [OF z(2), of _ "b + a + fst z"] z(1) in \<open>force simp: size_ok_def\<close>)
  then have "blocks_at h' (b + a) a zs" using at Cons h'(3-5) by simp
  moreover have "lists_ok h' (G \<union> frees (b + a) zs) L"
  proof (rule lists_frame [OF t _ _ L])
    show "same_lists h h'" using changes_fields [OF h'(2)] by (simp add: same_lists_def)
    fix c assume "c \<in> G \<union> frees (b + a) zs"
    then have "c + 16 \<le> b + a \<or> b + a + 8 \<le> c" using G [of c] frees_after_used [OF ok(2) used, of c "b + a"] by auto
    then show "{c..<c + 16} \<inter> {b + a..<b + a + 8} = {}" by (rule apart)
  qed
  ultimately show ?thesis using h' by blast
qed

definition same_counts :: "heap \<Rightarrow> heap \<Rightarrow> bool" where
  "same_counts h h' \<longleftrightarrow> hp_total_free h' = hp_total_free h \<and> hp_live_objects h' = hp_live_objects h"

lemma same_counts_changes: "changes S h h' \<Longrightarrow> same_counts h h'"
  using changes_fields(7,8) by (simp add: same_counts_def)

lemma same_counts_trans: "same_counts h h' \<Longrightarrow> same_counts h' h'' \<Longrightarrow> same_counts h h''"
  by (simp add: same_counts_def)

lemma put_free:
  assumes B: "blocks_ok h (set (starts 0 (us @ (m, 0) # zs)))" and shape: "shape_ok (us @ (m, 0) # zs)"
    and L: "lists_ok h (frees 0 us \<union> frees (extent us + m) zs) L"
  shows "\<exists>h' L'. insert_free (extent us) h = (Inr (), h') \<and> touches (link_area (frees 0 (us @ (m, 0) # zs))) h h' \<and>
    lists_ok h' (frees 0 (us @ (m, 0) # zs)) L' \<and> same_counts h h'"
proof -
  let ?F = "frees 0 us \<union> frees (extent us + m) zs" and ?B = "set (starts 0 (us @ (m, 0) # zs))"
  have sub: "?F \<subseteq> ?B" using frees_starts [of 0 us] frees_starts [of "extent us + m" zs] by auto
  have "extent us \<in> ?B - ?F"
    using frees_bounds [of us "extent us" 0] frees_bounds [of zs "extent us" "extent us + m"] shape by (auto simp: size_ok_def)
  then obtain h' L' where "insert_free (extent us) h = (Inr (), h')" "touches (link_area (insert (extent us) ?F)) h h'"
      "lists_ok h' (insert (extent us) ?F) L'" "hp_total_free h' = hp_total_free h" "hp_live_objects h' = hp_live_objects h"
    using insert_free_ok [OF B sub L] by blast
  moreover have "frees 0 (us @ (m, 0) # zs) = insert (extent us) ?F" by auto
  ultimately show ?thesis unfolding same_counts_def by metis
qed

lemma link_area_within: "(\<And>c. c \<in> F \<Longrightarrow> c \<in> G \<or> {c + 8..<c + 16} \<subseteq> S) \<Longrightarrow> link_area F \<subseteq> link_area G \<union> S"
  unfolding link_area_def by blast

lemma reserve_split_ok:
  assumes ok: "arena_ok h" "extent xs + n + extent ys = hp_arena_bytes h" "shape_ok xs" "shape_ok ys" "size_ok n"
    and at: "blocks_at h 0 0 xs" "hsize h (extent xs) = n" "blocks_at h (extent xs + n) n ys" and used: "ys = [] \<or> snd (hd ys) \<noteq> 0"
    and L: "lists_ok h (frees 0 xs \<union> frees (extent xs + n) ys) L" and w: "size_ok w" "w + 16 \<le> n"
  shows "\<exists>h' L'. reserve_split (extent xs) w n h = (Inr w, h') \<and>
    touches (link_area (frees 0 xs \<union> frees (extent xs + n) ys) \<union> {extent xs..<extent xs + n + 8}) h h' \<and>
    blocks_at h' 0 0 xs \<and> blocks_at h' (extent xs + w) w ((n - w, 0) # ys) \<and>
    lists_ok h' (frees 0 xs \<union> frees (extent xs + w) ((n - w, 0) # ys)) L' \<and> same_counts h h'"
proof -
  let ?b = "extent xs" let ?r = "?b + w" and ?m = "n - w" and ?us = "xs @ [(w, 1)]"
  let ?F = "frees 0 xs \<union> frees (?b + n) ys"
  have w': "8 dvd w" "16 \<le> w" "w \<le> n" using w by (auto simp: size_ok_def)
  have m: "size_ok ?m" "?r + ?m = ?b + n" using w w' ok(5) by (auto simp: size_ok_def)
  have us: "extent ?us = ?r" "last_size 0 ?us = w" "shape_ok ?us" "frees 0 ?us = frees 0 xs" using ok(3) w(1) by (simp_all add: flag_ok_def)
  have "on_block h ?r" "link_fits h w" "?m \<le> hp_arena_bytes h"
    using extent_aligned [OF us(3)] us(1) ok(2) w w' by (auto simp: on_block_def link_fits_def)
  then obtain h2 where h2: "write_header ?r ?m w False h = (Inr (), h2)" "changes {?r..<?r + 16} h h2" "hsize h2 ?r = ?m"
      "hprev h2 ?r = w" "hflags h2 ?r = 0"
    using write_header_eq [OF ok(1), of ?r ?m w False] m(1) by (auto simp: size_ok_def)
  note t2 = touches_changes [OF h2(2)]
  have L2: "lists_ok h2 ?F L"
  proof (rule lists_frame [OF t2 _ _ L])
    show "same_lists h h2" using changes_fields [OF h2(2)] by (simp add: same_lists_def)
    fix c assume "c \<in> ?F"
    then have "c + 16 \<le> ?r \<or> ?r + 16 \<le> c" using frees_bounds [OF ok(3), of c 0] frees_bounds [OF ok(4), of c "?b + n"] w(2) by auto
    then show "{c..<c + 16} \<inter> {?r..<?r + 16} = {}" by (rule apart)
  qed
  have ys2: "blocks_at h2 (?r + ?m) n ys"
    unfolding m(2) using blocks_frame [OF t2, of "?b + n" ys n] at(3) block_sizes_pos [OF ok(4), of _ "?b + n"] w(2) by force
  have "arena_ok h2" "hp_arena_bytes h2 = hp_arena_bytes h" using changes_fields [OF h2(2)] ok(1) by simp_all
  moreover have "c + 16 \<le> ?r + ?m" if "c \<in> frees 0 xs" for c using frees_bounds [OF ok(3) that] w' by simp
  moreover have "8 dvd ?r" using \<open>on_block h ?r\<close> by (simp add: on_block_def)
  ultimately obtain h3 where h3: "update_next_previous_size ?r ?m h2 = (Inr (), h3)" "changes {?r + ?m..<?r + ?m + 8} h2 h3"
      "blocks_at h3 (?r + ?m) ?m ys" "lists_ok h3 ?F L"
    using put_next [of h2 ys ?r ?m n "frees 0 xs" L] ok(2,4) m used ys2 L2 by auto
  note t3 = touches_changes [OF h3(2)]
  have t: "touches ({?r..<?r + 16} \<union> {?b + n..<?b + n + 8}) h h3"
    by (rule touches_into [OF t2 t3]) (auto simp: m(2))
  have xs3: "blocks_at h3 0 0 xs"
    using blocks_frame [OF t, of 0 xs 0] at(1) block_sizes_pos [OF ok(3), of _ 0] by force
  have b3: "hsize h3 ?b = n" using touches_frames(1) [OF t, of ?b] at(2) w w' by force
  have r3: "hsize h3 ?r = ?m" "hprev h3 ?r = w" "hflags h3 ?r = 0"
    using touches_frames(1-3) [OF t3, of ?r] h2(3-5) m w by force+
  have rest3: "blocks_at h3 ?r w ((?m, 0) # ys)" using r3 h3(3) by simp
  let ?bs = "?us @ (?m, 0) # ys"
  have arena3: "arena_ok h3" "hp_arena_bytes h3 = hp_arena_bytes h" using touches_frames(5) [OF t] t ok(1) by (simp_all add: touches_def)
  have shape: "shape_ok ?bs" using us(3) m(1) ok(4) by (simp add: flag_ok_def)
  have ext: "extent ?bs = hp_arena_bytes h3" using us(1) m(2) ok(2) arena3(2) by simp
  have B3: "blocks_ok h3 (set (starts 0 ?bs))"
  proof (rule blocks_ok_starts [OF arena3(1) ext shape])
    fix c assume "c \<in> set (starts 0 ?bs)"
    then have "c \<in> set (starts 0 xs) \<or> c = ?b \<or> c \<in> set (starts ?r ((?m, 0) # ys))" by (auto simp: add.assoc)
    then show "size_ok (hsize h3 c)"
      using blocks_at_size [OF xs3 ok(3)] blocks_at_size [OF rest3, of c] b3 ok(4,5) m(1) by (auto simp: flag_ok_def)
  qed
  have m2: "?b + (w + ?m) = ?b + n" using m(2) by simp
  have F3: "frees 0 ?us \<union> frees (extent ?us + ?m) ys = ?F" using us(4) by (simp add: us(1) m(2))
  obtain h4 L' where h4: "insert_free ?r h3 = (Inr (), h4)" "touches (link_area (frees 0 ?bs)) h3 h4" "lists_ok h4 (frees 0 ?bs) L'" "same_counts h3 h4"
    using put_free [OF B3 shape, of L, unfolded F3, OF h3(4)] unfolding us(1) by blast
  have F4: "frees 0 ?bs = frees 0 xs \<union> frees ?r ((?m, 0) # ys)" by (simp add: add.assoc)
  have sub: "frees 0 ?bs \<subseteq> set (starts 0 ?bs)" by (rule frees_starts)
  have at4: "blocks_at h4 0 0 xs" "blocks_at h4 ?r w ((?m, 0) # ys)"
    using blocks_at_touched [OF B3 sub h4(2), of 0 xs 0] blocks_at_touched [OF B3 sub h4(2), of ?r "(?m, 0) # ys" w] xs3 rest3 by (auto simp: add.assoc)
  have "reserve_split ?b w n h = (Inr w, h4)"
    unfolding reserve_split_def Let_def using w(2) ok(1,2) h2(1) h3(1) h4(1) w'
    by (simp add: MINIMUM_BLOCK_BYTES_def sbind_def sseq_def checked_add_def arena_ok_def)
  moreover have "touches (link_area ?F \<union> {?b..<?b + n + 8}) h h4"
  proof (rule touches_into [OF t h4(2)])
    show "link_area (frees 0 ?bs) \<subseteq> link_area ?F \<union> {?b..<?b + n + 8}"
      unfolding F4 by (rule link_area_within) (use m(2) w in auto)
  qed (use w in auto)
  moreover have "same_counts h h4"
    using same_counts_trans [OF same_counts_trans [OF same_counts_changes [OF h2(2)] same_counts_changes [OF h3(2)]] h4(4)] .
  ultimately show ?thesis using at4 h4(3) unfolding F4 by blast
qed

lemma take_free:
  assumes ok: "arena_ok h" "extent bs = hp_arena_bytes h" "shape_ok bs" "blocks_at h 0 0 bs" and F: "F \<subseteq> set (starts 0 bs)"
    and L: "lists_ok h F L" and b: "b \<in> F"
  shows "\<exists>h' L'. remove_free b h = (Inr (), h') \<and> touches (link_area F) h h' \<and> blocks_at h' 0 0 bs \<and> lists_ok h' (F - {b}) L' \<and> same_counts h h'"
proof -
  have B: "blocks_ok h (set (starts 0 bs))" by (rule blocks_ok_starts [OF ok(1-3) blocks_at_size [OF ok(4,3)]])
  obtain h' L' where h': "remove_free b h = (Inr (), h')" "touches (link_area F) h h'" "lists_ok h' (F - {b}) L'"
      "hp_total_free h' = hp_total_free h" "hp_live_objects h' = hp_live_objects h"
    using remove_free_ok [OF B F L b] by blast
  have "blocks_at h' 0 0 bs" using blocks_at_touched [OF B F h'(2), of 0 bs 0] ok(4) by simp
  with h' show ?thesis unfolding same_counts_def by blast
qed

lemma recount:
  assumes "touches {} h k" "same_lists h k"
  shows "arena_ok k = arena_ok h" "blocks_at k p pr bs = blocks_at h p pr bs" "lists_ok h F L \<Longrightarrow> lists_ok k F L"
proof -
  show "arena_ok k = arena_ok h" by (rule touches_frames(5) [OF assms(1)])
  show "blocks_at k p pr bs = blocks_at h p pr bs" by (rule blocks_frame [OF assms(1)]) simp
  show "lists_ok h F L \<Longrightarrow> lists_ok k F L" by (rule lists_frame [OF assms]) simp_all
qed

lemma retotal:
  assumes "arena_ok h" "extent bs = hp_arena_bytes h" "shape_ok bs" "settled bs" "blocks_at h 0 0 bs" "lists_ok h (frees 0 bs) L" "t = free_bytes bs"
  shows "blocks_rep (h\<lparr>hp_total_free := t\<rparr>) bs"
proof -
  let ?h = "h\<lparr>hp_total_free := t\<rparr>"
  have k: "touches {} h ?h" "same_lists h ?h" by (simp_all add: touches_def same_lists_def)
  have "hp_arena_bytes ?h = hp_arena_bytes h" "hp_total_free ?h = t" by simp_all
  then show ?thesis unfolding blocks_rep_def recount(1,2) [OF k] using assms(1-5,7) recount(3) [OF k assms(6)] by metis
qed

subsection \<open>Reserving\<close>

definition taken :: "nat \<Rightarrow> nat \<Rightarrow> blk list" where
  "taken w n = (if w + 16 \<le> n then [(w, 1), (n - w, 0)] else [(n, 1)])"

lemma frees_without:
  assumes "shape_ok (xs @ (n, 0) # ys)"
  shows "frees 0 (xs @ (n, 0) # ys) - {extent xs} = frees 0 xs \<union> frees (extent xs + n) ys"
  using frees_bounds [of xs "extent xs" 0] frees_bounds [of ys "extent xs" "extent xs + n"] assms by (auto simp: size_ok_def)

lemma settled_around: "settled (xs @ (n, f) # ys) \<Longrightarrow> f = 0 \<Longrightarrow> (ys = [] \<or> snd (hd ys) \<noteq> 0) \<and> (xs = [] \<or> snd (last xs) \<noteq> 0)"
  by (auto simp: settled_append settled_Cons)

lemma taken_rep:
  assumes "settled (xs @ (n, 0) # ys)" "w \<le> n"
  shows "settled (xs @ taken w n @ ys)" "extent (taken w n) = n" "live_count (taken w n) = 0"
    "free_bytes (taken w n) = (if w + 16 \<le> n then n - w else 0)"
  using assms settled_around [OF assms(1)] by (auto simp: taken_def settled_append settled_Cons)

text \<open>The search misses no free block of at least 9/8 of the size asked for.\<close>

lemma class_found:
  assumes L: "lists_ok h F L" and b: "b \<in> F" "size_ok (hsize h b)" and c: "sc_first c < 32" "sc_second c < 8" "class_index c \<le> class_no (hsize h b)"
    and none: "(hp_second_bitmaps h ! sc_first c) AND push_bit (sc_second c) (- 1) = 0"
  shows "(if sc_first c = 31 then 0 else hp_first_bitmap h AND push_bit (sc_first c + 1) (- 1)) \<noteq> 0"
proof -
  define f s where "f = class_no (hsize h b) div 8" and "s = class_no (hsize h b) mod 8"
  have i: "class_no (hsize h b) = f * 8 + s" "class_no (hsize h b) < 256" "s < 8" using class_of(2) [OF b(2)] by (simp_all add: f_def s_def)
  then have f: "f < 32" by simp
  have maps: "maps_ok h L" and l: "list_of h F (f * 8 + s) (L (f * 8 + s))" using L i by (simp_all add: lists_ok_def)
  have "b \<in> set (L (f * 8 + s))" using l b(1) i(1) by (simp add: list_of_def)
  then have "L (f * 8 + s) \<noteq> []" by auto
  then have bits: "bit (hp_second_bitmaps h ! f) s" using maps f i(3) by (simp add: maps_ok_def)
  then have "hp_second_bitmaps h ! f \<noteq> 0" by auto
  then have first: "bit (hp_first_bitmap h) f" using maps f by (simp add: maps_ok_def)
  have "\<not> (sc_first c = f \<and> sc_second c \<le> s)"
  proof
    assume "sc_first c = f \<and> sc_second c \<le> s"
    then have "bit ((hp_second_bitmaps h ! sc_first c) AND push_bit (sc_second c) (- 1)) s" using bits i(3) by (simp add: bit_simps)
    then show False using none by simp
  qed
  then have lt: "sc_first c < f" using c i(1,3) by (auto simp: class_index_def)
  then have "bit (hp_first_bitmap h AND push_bit (sc_first c + 1) (- 1)) f" using first f by (simp add: bit_simps)
  then show ?thesis using lt f by auto
qed

lemma class_below:
  assumes "g * 8 + t < f * 8 + (s :: nat)" "t < 8" "s \<le> 8" "m < 2 ^ g + (t + 1) * class_width g" "m < 2 ^ (g + 1)"
  shows "m < 2 ^ f + s * class_width f"
proof -
  have "g < f \<or> g = f \<and> t + 1 \<le> s" using assms(1-3) by auto
  then show ?thesis
  proof
    assume "g < f"
    then have "(2 :: nat) ^ (g + 1) \<le> 2 ^ f" by (intro power_increasing) simp_all
    then show ?thesis using assms(5) by linarith
  next
    assume eq: "g = f \<and> t + 1 \<le> s"
    then have "(t + 1) * class_width f \<le> s * class_width f" by (metis mult_le_mono1)
    moreover have "m < 2 ^ f + (t + 1) * class_width f" using assms(4) eq by blast
    ultimately show ?thesis by linarith
  qed
qed

text \<open>Every class below the one a request is rounded up to holds only blocks smaller than 9/8 of the request.\<close>

lemma request_slack:
  assumes n: "size_ok n" and m: "size_ok m" and c: "request_size_class n = Some c" "class_no m < class_index c"
  shows "8 * m < 9 * n"
proof -
  obtain f s where fs: "downward_class n = Some (f, s, 2 ^ f + s * class_width f)" "4 \<le> f" "s < 8"
    "2 ^ f + s * class_width f \<le> n" "n < 2 ^ f + (s + 1) * class_width f"
    using n unfolding size_ok_def by (metis downward_class_eq)
  obtain g t where gt: "downward_class m = Some (g, t, 2 ^ g + t * class_width g)" "t < 8"
    "m < 2 ^ g + (t + 1) * class_width g" "m < 2 ^ (g + 1)"
    using m unfolding size_ok_def by (metis downward_class_eq)
  note below = class_below [OF _ gt(2) _ gt(3,4)]
  have no: "class_no m = g * 8 + t" using gt(1) by (simp add: class_no_def free_size_class_def class_index_def)
  show ?thesis
  proof (cases "n = 2 ^ f + s * class_width f")
    case True
    then have "g * 8 + t < f * 8 + s" using c no fs(1) by (auto simp: request_size_class_def class_index_def Let_def split: if_splits)
    then show ?thesis using below [of f s] fs(3) True by linarith
  next
    case False
    then have "g * 8 + t < f * 8 + (s + 1)"
      using c no fs(1,3) by (auto simp: request_size_class_def class_index_def Let_def split: if_splits)
    then have m: "m < 2 ^ f + (s + 1) * class_width f" using below [of f "s + 1"] fs(3) by simp
    have "class_width f \<noteq> 8"
    proof
      assume w: "class_width f = 8"
      have "(2 :: nat) ^ 3 dvd 2 ^ f" using fs(2) by (intro le_imp_power_dvd) simp
      then have "8 dvd (2 :: nat) ^ f + s * class_width f" using w by simp
      then have "8 dvd n - (2 ^ f + s * class_width f)" using n by (simp add: size_ok_def)
      moreover have "0 < n - (2 ^ f + s * class_width f)" "n - (2 ^ f + s * class_width f) < 8" using fs(4,5) w False by auto
      ultimately show False using nat_dvd_not_less by blast
    qed
    then have "class_width f = 2 ^ (f - 3)" by (simp add: class_width_def max_def split: if_splits)
    moreover have "(2 :: nat) ^ f = 2 ^ (3 + (f - 3))" using fs(2) by simp
    then have "(2 :: nat) ^ f = 8 * 2 ^ (f - 3)" unfolding power_add by simp
    ultimately show ?thesis using m fs(4) by (simp add: add_mult_distrib)
  qed
qed

lemma find_suitable_complete:
  assumes B: "blocks_ok h B" "F \<subseteq> B" "lists_ok h F L" and n: "size_ok n" and none: "find_suitable n h = Inr None" and b: "b \<in> F" and lt: "hsize h b < 2 ^ 31"
  shows "8 * hsize h b < 9 * n"
proof -
  have sb: "size_ok (hsize h b)" "hsize h b < 2 ^ 31" using blocks_in [OF B(1), of b] B(2) b lt by auto
  show ?thesis
  proof (cases "request_size_class n")
    case None
    then show ?thesis using request_class [OF n] sb by simp
  next
    case (Some c)
    have c: "sc_first c < 32" "sc_second c < 8" using request_class [OF n] Some by simp_all
    have "find_class n c h = Inr None"
      using none Some by (auto simp: find_suitable_def Let_def rbind_def ok_or_def split: sum.splits option.splits if_splits)
    then have "\<not> class_index c \<le> class_no (hsize h b)"
      using class_found [OF B(3) b sb(1) c]
      by (auto simp: find_class_def head_of_def Let_def split: if_splits)
    then have "class_no (hsize h b) < class_index c" by simp
    then show ?thesis by (rule request_slack [OF n sb(1) Some])
  qed
qed

lemma refused_small:
  assumes rep: "heap_rep h bs" and w: "size_ok w" and none: "find_suitable w h = Inr None" and m: "(m, 0) \<in> set bs"
  shows "8 * m < 9 * w"
proof -
  note r = rep [unfolded heap_rep_def blocks_rep_def]
  obtain L where L: "lists_ok h (frees 0 bs) L" using r by blast
  have B: "blocks_ok h (set (starts 0 bs))" using rep rep_blocks by (simp add: heap_rep_def)
  obtain xs ys where bs: "bs = xs @ (m, 0) # ys" using split_list [OF m] by blast
  then have "extent xs \<in> frees 0 bs" "hsize h (extent xs) = m" "m < 2 ^ 31" using r by (auto simp: arena_ok_def)
  then show ?thesis using find_suitable_complete [OF B frees_starts L w none] by blast
qed

text \<open>The block of a reservation and what follows it, when a block of \<open>n\<close> bytes is cut for \<open>w\<close>.\<close>

definition cut_size :: "nat \<Rightarrow> nat \<Rightarrow> nat" where
  "cut_size w n = (if w + 16 \<le> n then w else n)"

definition cut_rest :: "nat \<Rightarrow> nat \<Rightarrow> blk list \<Rightarrow> blk list" where
  "cut_rest w n ys = (if w + 16 \<le> n then (n - w, 0) # ys else ys)"

lemma taken_cut: "taken w n @ ys = (cut_size w n, 1) # cut_rest w n ys"
  by (simp add: taken_def cut_size_def cut_rest_def)

lemma cut_parts:
  assumes "size_ok w" "size_ok n" "w \<le> n" "shape_ok ys"
  shows "cut_size w n + extent (cut_rest w n ys) = n + extent ys" "shape_ok (cut_rest w n ys)" "size_ok (cut_size w n)" "cut_size w n \<le> n"
  using assms by (auto simp: cut_size_def cut_rest_def flag_ok_def size_ok_def)

lemma cut_ok:
  assumes ok: "arena_ok h" "extent xs + n + extent ys = hp_arena_bytes h" "shape_ok xs" "shape_ok ys" "size_ok n"
    and at: "blocks_at h 0 0 xs" "hsize h (extent xs) = n" "blocks_at h (extent xs + n) n ys" and used: "ys = [] \<or> snd (hd ys) \<noteq> 0"
    and L: "lists_ok h (frees 0 xs \<union> frees (extent xs + n) ys) L" and w: "size_ok w"
  shows "\<exists>h' L'. reserve_split (extent xs) w n h = (Inr (cut_size w n), h') \<and>
    touches (link_area (frees 0 xs \<union> frees (extent xs + n) ys) \<union> {extent xs..<extent xs + n + 8}) h h' \<and>
    blocks_at h' 0 0 xs \<and> blocks_at h' (extent xs + cut_size w n) (cut_size w n) (cut_rest w n ys) \<and>
    lists_ok h' (frees 0 xs \<union> frees (extent xs + cut_size w n) (cut_rest w n ys)) L' \<and> same_counts h h'"
proof (cases "w + 16 \<le> n")
  case True
  then show ?thesis using reserve_split_ok [OF assms True] by (simp add: cut_size_def cut_rest_def del: frees.simps blocks_at.simps)
next
  case False
  then have "\<not> MINIMUM_BLOCK_BYTES \<le> n - w" by (simp add: MINIMUM_BLOCK_BYTES_def)
  then have "reserve_split (extent xs) w n h = (Inr n, h)" by (simp add: reserve_split_def Let_def)
  with False show ?thesis using at L unfolding cut_size_def cut_rest_def by (auto simp: same_counts_def)
qed

lemma reserve_found:
  assumes rep: "heap_rep h (xs @ (n, 0) # ys)" and w: "size_ok w" "w \<le> n" and found: "find_suitable w h = Inr (Some (extent xs))"
  shows "\<exists>h'. reserve \<lparr>ar_block_bytes = w, ar_type_id = t\<rparr> h = (Inr (Some \<lparr>ra_block = extent xs, ra_type_id = t\<rparr>), h') \<and>
    heap_rep h' (xs @ taken w n @ ys) \<and> touches (link_area (frees 0 (xs @ (n, 0) # ys)) \<union> {extent xs..<extent xs + n + 8}) h h'"
proof -
  let ?bs = "xs @ (n, 0) # ys" and ?b = "extent xs" and ?a = "cut_size w n" and ?zs = "cut_rest w n ys"
  let ?F = "frees 0 xs \<union> frees (extent xs + n) ys" and ?U = "link_area (frees 0 (xs @ (n, 0) # ys)) \<union> {extent xs..<extent xs + n + 8}"
  have brep: "blocks_rep h ?bs" and live: "hp_live_objects h = live_count ?bs" using rep by (auto simp: heap_rep_def)
  note r = blocks_repD [OF brep]
  have B: "blocks_ok h (set (starts 0 ?bs))" by (rule rep_blocks [OF brep])
  have bB: "?b \<in> set (starts 0 ?bs)" "?b \<in> frees 0 ?bs" by simp_all
  have sh: "shape_ok xs" "shape_ok ys" "size_ok n" "?b + n + extent ys = hp_arena_bytes h" using r(2,3) by auto
  note cut = cut_parts [OF w(1) sh(3) w(2) sh(2)]
  obtain L where L: "lists_ok h (frees 0 ?bs) L" using r(6) by blast
  obtain h1 L1 where h1: "remove_free ?b h = (Inr (), h1)" "touches (link_area (frees 0 ?bs)) h h1" "blocks_at h1 0 0 ?bs" "lists_ok h1 ?F L1" "same_counts h h1"
    using take_free [OF r(1,2,3,5) frees_starts L bB(2)] unfolding frees_without [OF r(3)] by blast
  have a1: "arena_ok h1" "?b + n + extent ys = hp_arena_bytes h1" using touches_frames(5) [OF h1(2)] h1(2) r(1) sh(4) by (simp_all add: touches_def)
  have at1: "blocks_at h1 0 0 xs" "hsize h1 ?b = n" "blocks_at h1 (?b + n) n ys" using h1(3) by auto
  have used: "ys = [] \<or> snd (hd ys) \<noteq> 0" using settled_around [OF r(4)] by blast
  obtain h4 L4 where h4: "reserve_split ?b w n h1 = (Inr ?a, h4)" "touches (link_area ?F \<union> {?b..<?b + n + 8}) h1 h4"
      "blocks_at h4 0 0 xs" "blocks_at h4 (?b + ?a) ?a ?zs" "lists_ok h4 (frees 0 xs \<union> frees (?b + ?a) ?zs) L4" "same_counts h1 h4"
    using cut_ok [OF a1 sh(1-3) at1 used h1(4) w(1)] by blast
  have a4: "arena_ok h4" "?b + ?a + extent ?zs = hp_arena_bytes h4" using touches_frames(5) [OF h4(2)] h4(2) a1 cut(1) by (simp_all add: touches_def)
  obtain h5 where h5: "write_header ?b ?a (last_size 0 xs) True h4 = (Inr (), h5)" "changes {?b..<?b + 16} h4 h5"
      "blocks_at h5 0 0 (xs @ [(?a, 1)])" "blocks_at h5 (?b + ?a) ?a ?zs" "lists_ok h5 (frees 0 xs \<union> frees (?b + ?a) ?zs) L4"
    using put_header [OF a4(1) sh(1) cut(2,3) a4(2) h4(3-5), of True] by auto
  have cnt: "hp_total_free h5 = free_bytes ?bs" "hp_live_objects h5 = live_count ?bs"
    using h1(5) h4(6) same_counts_changes [OF h5(2)] r(7) live by (simp_all add: same_counts_def)
  let ?h = "h5\<lparr>hp_total_free := free_bytes ?bs - ?a\<rparr>"
  have sz: "block_size ?b h = Inr n" using block_size_in(1) [OF B bB(1)] r(5) by simp
  have pv: "read_previous_or_gray ?b h = Inr (last_size 0 xs)"
    using read_previous_eq [of h ?b] blocks_in [OF B bB(1)] r(1,5) last_size_bounds [OF sh(1)] sh(4) by (auto simp: arena_ok_def)
  have guard: "\<not> (w < MINIMUM_BLOCK_BYTES \<or> w mod BLOCK_ALIGNMENT \<noteq> 0)"
    using w(1) by (simp add: size_ok_def MINIMUM_BLOCK_BYTES_def BLOCK_ALIGNMENT_def)
  have run: "reserve \<lparr>ar_block_bytes = w, ar_type_id = t\<rparr> h = (Inr (Some \<lparr>ra_block = ?b, ra_type_id = t\<rparr>), ?h)"
    using guard found sz pv w(2) h1(1) h4(1) h5(1) cnt(1) cut(4)
    by (simp add: reserve_def sseq_def sbind_def sguard_def checked_sub_def)
  have a5: "arena_ok h5" "extent (xs @ (?a, 1) # ?zs) = hp_arena_bytes h5" using changes_fields(2,9) [OF h5(2)] a4 by (simp_all add: add.assoc)
  have at5: "shape_ok (xs @ (?a, 1) # ?zs)" "blocks_at h5 0 0 (xs @ (?a, 1) # ?zs)" "lists_ok h5 (frees 0 (xs @ (?a, 1) # ?zs)) L4"
    using h5(3-5) sh(1) cut(2,3) by (simp_all add: flag_ok_def)
  have st: "settled (xs @ (?a, 1) # ?zs)" using taken_rep(1) [OF r(4) w(2)] unfolding taken_cut .
  have "free_bytes ?bs - ?a = free_bytes (xs @ (?a, 1) # ?zs)" "live_count (xs @ (?a, 1) # ?zs) = live_count ?bs"
    using w(2) by (simp_all add: cut_size_def cut_rest_def)
  then have "heap_rep ?h (xs @ taken w n @ ys)"
    using retotal [OF a5 at5(1) st at5(2,3)] cnt(2) unfolding heap_rep_def taken_cut by simp
  moreover have "link_area ?F \<subseteq> link_area (frees 0 ?bs)" by (intro link_area_mono) auto
  then have "touches ?U h h4" by (intro touches_into [OF h1(2) h4(2)]) auto
  then have "touches ?U h h5" by (rule touches_into [OF _ touches_changes [OF h5(2)]]) (use sh(3) in \<open>auto simp: size_ok_def\<close>)
  then have "touches ?U h ?h" by (simp add: touches_def)
  ultimately show ?thesis using run by blast
qed

lemma reserve_ok:
  assumes rep: "heap_rep h bs" and w: "size_ok w"
  shows "\<exists>r h'. reserve \<lparr>ar_block_bytes = w, ar_type_id = t\<rparr> h = (Inr r, h') \<and>
    (case r of None \<Rightarrow> h' = h \<and> (\<forall>m. (m, 0) \<in> set bs \<longrightarrow> 8 * m < 9 * w)
     | Some a \<Rightarrow> \<exists>xs n ys. bs = xs @ (n, 0) # ys \<and> w \<le> n \<and> a = \<lparr>ra_block = extent xs, ra_type_id = t\<rparr> \<and> heap_rep h' (xs @ taken w n @ ys) \<and>
         touches (link_area (frees 0 bs) \<union> {extent xs..<extent xs + n + 8}) h h')"
proof -
  note r = rep [unfolded heap_rep_def blocks_rep_def]
  obtain L where L: "lists_ok h (frees 0 bs) L" using r by blast
  have B: "blocks_ok h (set (starts 0 bs))" using rep rep_blocks by (simp add: heap_rep_def)
  obtain found where found: "find_suitable w h = Inr found" "case found of None \<Rightarrow> True | Some b \<Rightarrow> b \<in> frees 0 bs \<and> w \<le> hsize h b"
    using find_suitable_ok [OF B frees_starts L w] by (metis (no_types, lifting) option.case_eq_if)
  show ?thesis
  proof (cases found)
    case None
    have "\<not> (w < MINIMUM_BLOCK_BYTES \<or> w mod BLOCK_ALIGNMENT \<noteq> 0)"
      using w by (simp add: size_ok_def MINIMUM_BLOCK_BYTES_def BLOCK_ALIGNMENT_def)
    then have "reserve \<lparr>ar_block_bytes = w, ar_type_id = t\<rparr> h = (Inr None, h)"
      using found(1) None by (simp add: reserve_def sseq_def sbind_def sguard_def)
    then show ?thesis using refused_small [OF rep w] found(1) None by auto
  next
    case (Some b)
    then have b: "b \<in> frees 0 bs" "w \<le> hsize h b" using found(2) by auto
    then obtain xs n ys where bs: "bs = xs @ (n, 0) # ys" "b = extent xs" by (elim frees_split)
    then have "w \<le> n" using b(2) r by auto
    then obtain h' where "reserve \<lparr>ar_block_bytes = w, ar_type_id = t\<rparr> h = (Inr (Some \<lparr>ra_block = extent xs, ra_type_id = t\<rparr>), h')"
        "heap_rep h' (xs @ taken w n @ ys)" "touches (link_area (frees 0 bs) \<union> {extent xs..<extent xs + n + 8}) h h'"
      using reserve_found [OF rep [unfolded bs(1)] w] found(1) Some bs by blast
    then show ?thesis using bs(1) \<open>w \<le> n\<close> by (intro exI conjI) (assumption, auto)
  qed
qed

subsection \<open>Freeing\<close>

definition absorb_left :: "blk list \<Rightarrow> blk list" where
  "absorb_left xs = (if xs \<noteq> [] \<and> snd (last xs) = 0 then butlast xs else xs)"

definition absorb_right :: "blk list \<Rightarrow> blk list" where
  "absorb_right ys = (if ys \<noteq> [] \<and> snd (hd ys) = 0 then tl ys else ys)"

lemma allocated_at:
  assumes "blocks_ok h B" "b \<in> B" "hflags h b = f" "flag_ok f"
  shows "block_allocated b h = Inr (f \<noteq> 0)"
  using block_allocated_eq [of h b] blocks_in [OF assms(1,2)] assms(3,4) by (auto simp: flag_ok_def)

lemma merge_previous_ok:
  assumes rep: "blocks_rep h (xs @ (n, f) # ys)" and f: "f \<noteq> 0"
  shows "\<exists>h' L'. merge_previous (extent xs) n (last_size 0 xs) h =
      (Inr (extent (absorb_left xs), extent xs + n - extent (absorb_left xs), last_size 0 (absorb_left xs)), h') \<and>
    touches (link_area (frees 0 (xs @ (n, f) # ys))) h h' \<and> blocks_at h' 0 0 (xs @ (n, f) # ys) \<and>
    lists_ok h' (frees 0 (absorb_left xs) \<union> frees (extent xs + n) ys) L' \<and> same_counts h h'"
proof (cases "xs \<noteq> [] \<and> snd (last xs) = 0")
  case False
  let ?bs = "xs @ (n, f) # ys"
  note r = blocks_repD [OF rep]
  have B: "blocks_ok h (set (starts 0 ?bs))" by (rule rep_blocks [OF rep])
  have left: "absorb_left xs = xs" using False unfolding absorb_left_def by (rule if_not_P)
  have F: "frees 0 ?bs = frees 0 xs \<union> frees (extent xs + n) ys" using f by simp
  have "merge_previous (extent xs) n (last_size 0 xs) h = (Inr (extent xs, n, last_size 0 xs), h)"
  proof (cases xs rule: rev_cases)
    case (snoc us a)
    have a: "size_ok (fst a)" "flag_ok (snd a)" "hflags h (extent us) = snd a" "snd a \<noteq> 0" using r snoc False by auto
    have "block_allocated (extent us) h = Inr True" using allocated_at [OF B _ a(3,2)] snoc a(4) by simp
    then show ?thesis using snoc a(1) by (simp add: merge_previous_def sbind_def checked_sub_def size_ok_def)
  qed (simp add: merge_previous_def)
  then show ?thesis using r unfolding left F by (auto simp: same_counts_def)
next
  case True
  let ?bs = "xs @ (n, f) # ys"
  note r = blocks_repD [OF rep]
  have B: "blocks_ok h (set (starts 0 ?bs))" by (rule rep_blocks [OF rep])
  obtain us p where xs: "xs = us @ [(p, 0)]" using True by (cases xs rule: rev_cases) auto
  have left: "absorb_left xs = us" using xs by (simp add: absorb_left_def)
  have at: "hflags h (extent us) = 0" "hsize h (extent us) = p" "hprev h (extent us) = last_size 0 us" "size_ok p" "shape_ok us"
    "extent us + p + n \<le> hp_arena_bytes h" using r xs by auto
  have u: "extent us \<in> set (starts 0 ?bs)" "extent us \<in> frees 0 ?bs" using xs by simp_all
  obtain L where L: "lists_ok h (frees 0 ?bs) L" using r by blast
  obtain h1 L1 where h1: "remove_free (extent us) h = (Inr (), h1)" "touches (link_area (frees 0 ?bs)) h h1" "blocks_at h1 0 0 ?bs"
      "lists_ok h1 (frees 0 ?bs - {extent us}) L1" "same_counts h h1"
    using take_free [OF r(1,2,3,5) frees_starts L u(2)] by blast
  have "frees 0 ?bs - {extent us} = frees 0 us \<union> frees (extent xs + n) ys"
    using frees_without [of us p "(n, f) # ys"] r xs f by (simp add: add.assoc)
  then have L1: "lists_ok h1 (frees 0 us \<union> frees (extent xs + n) ys) L1" using h1(4) by simp
  have a1: "arena_ok h1" "hp_arena_bytes h1 = hp_arena_bytes h" using touches_frames(5) [OF h1(2)] h1(2) r by (simp_all add: touches_def)
  have B1: "blocks_ok h1 (set (starts 0 ?bs))" by (rule blocks_ok_at [OF a1(1) _ r(3) h1(3)]) (simp only: a1(2) r(2))
  have at1: "hsize h1 (extent us) = p" "hprev h1 (extent us) = last_size 0 us" using h1(3) xs by auto
  have bounds: "last_size 0 us < 2 ^ 32" "n + p < 2 ^ 32" using last_size_bounds [OF at(5)] at(6) r by (auto simp: arena_ok_def)
  have "block_allocated (extent us) h = Inr False" using allocated_at [OF B u(1) at(1)] by (simp add: flag_ok_def)
  moreover have "block_size (extent us) h1 = Inr p" using block_size_in(1) [OF B1 u(1)] at1 by simp
  moreover have "read_previous_or_gray (extent us) h1 = Inr (last_size 0 us)"
    using read_previous_eq [of h1 "extent us"] blocks_in [OF B1 u(1)] at1(2) bounds(1) by simp
  ultimately have "merge_previous (extent xs) n (last_size 0 xs) h = (Inr (extent us, n + p, last_size 0 us), h1)"
    using h1(1) at(4) xs bounds(2) by (simp add: merge_previous_def sbind_def sseq_def checked_sub_def checked_add_def size_ok_def)
  then show ?thesis using h1(2,3,5) L1 xs unfolding left by (auto simp: add.commute)
qed

lemma merge_next_ok:
  assumes ok: "arena_ok h" "extent (xs @ (n, f) # ys) = hp_arena_bytes h" "shape_ok (xs @ (n, f) # ys)" "blocks_at h 0 0 (xs @ (n, f) # ys)"
    and L: "lists_ok h (G \<union> frees (extent xs + n) ys) L" and G: "G \<subseteq> set (starts 0 xs)" and q: "q \<le> extent xs"
  shows "\<exists>h' L'. merge_next q (extent xs + n - q) h = (Inr (extent xs + n + extent ys - extent (absorb_right ys) - q), h') \<and>
    touches (link_area (G \<union> frees (extent xs + n) ys)) h h' \<and> blocks_at h' 0 0 (xs @ (n, f) # ys) \<and>
    lists_ok h' (G \<union> frees (extent xs + n + extent ys - extent (absorb_right ys)) (absorb_right ys)) L' \<and> same_counts h h'"
proof (cases ys)
  case Nil
  then have "merge_next q (extent xs + n - q) h = (Inr (extent xs + n - q), h)"
    using ok(1,2) q by (simp add: merge_next_def sbind_def checked_add_def arena_ok_def)
  then show ?thesis using Nil ok(4) L by (auto simp: absorb_right_def same_counts_def)
next
  case (Cons y ys')
  let ?bs = "xs @ (n, f) # ys" and ?e = "extent xs + n"
  have B: "blocks_ok h (set (starts 0 ?bs))" by (rule blocks_ok_starts [OF ok(1-3) blocks_at_size [OF ok(4,3)]])
  have y: "size_ok (fst y)" "flag_ok (snd y)" "hflags h ?e = snd y" "hsize h ?e = fst y" using ok(3,4) Cons by auto
  have eB: "?e \<in> set (starts 0 ?bs)" using Cons by simp
  have e: "q + (?e - q) = ?e" "?e < hp_arena_bytes h" "?e + fst y < 2 ^ 30" using q ok(1,2) Cons y(1) by (auto simp: arena_ok_def size_ok_def)
  have alloc: "block_allocated ?e h = Inr (snd y \<noteq> 0)" by (rule allocated_at [OF B eB y(3,2)])
  show ?thesis
  proof (cases "snd y = 0")
    case False
    then have "merge_next q (?e - q) h = (Inr (?e - q), h)"
      using e alloc by (simp add: merge_next_def sbind_def checked_add_def)
    then show ?thesis using Cons False ok(4) L by (auto simp: absorb_right_def same_counts_def)
  next
    case True
    have sub: "G \<union> frees ?e ys \<subseteq> set (starts 0 ?bs)" "?e \<in> G \<union> frees ?e ys" using G frees_starts [of ?e ys] Cons True by auto
    obtain h1 L1 where h1: "remove_free ?e h = (Inr (), h1)" "touches (link_area (G \<union> frees ?e ys)) h h1" "blocks_at h1 0 0 ?bs"
        "lists_ok h1 (G \<union> frees ?e ys - {?e}) L1" "same_counts h h1"
      using take_free [OF ok sub(1) L sub(2)] by blast
    have a1: "arena_ok h1" "hp_arena_bytes h1 = hp_arena_bytes h" using touches_frames(5) [OF h1(2)] h1(2) ok(1) by (simp_all add: touches_def)
    have B1: "blocks_ok h1 (set (starts 0 ?bs))" by (rule blocks_ok_at [OF a1(1) _ ok(3) h1(3)]) (simp only: a1(2) ok(2))
    have "hsize h1 ?e = fst y" using h1(3) Cons by simp
    then have sz: "block_size ?e h1 = Inr (fst y)" using block_size_in(1) [OF B1 eB] by simp
    have "shape_ok xs" "shape_ok ys'" "size_ok n" using ok(3) Cons by auto
    then have "?e \<notin> G" "?e \<notin> frees (?e + fst y) ys'"
      using G block_sizes_pos [of xs ?e 0] frees_bounds [of ys' ?e "?e + fst y"] y(1) by (auto simp: size_ok_def)
    then have F: "G \<union> frees ?e ys - {?e} = G \<union> frees (?e + fst y) ys'" using Cons True by auto
    have "?e + extent ys - extent (absorb_right ys) = ?e + fst y" "absorb_right ys = ys'" using Cons True by (simp_all add: absorb_right_def)
    moreover have "merge_next q (?e - q) h = (Inr (?e + fst y - q), h1)"
      using e alloc True h1(1) sz q by (simp add: merge_next_def sbind_def sseq_def checked_add_def)
    ultimately show ?thesis using h1(2-5) unfolding F by metis
  qed
qed

lemma absorb_left_split:
  assumes "settled xs"
  obtains ls where "xs = absorb_left xs @ ls" "extent ls = free_bytes ls" "live_count ls = 0"
    "absorb_left xs = [] \<or> snd (last (absorb_left xs)) \<noteq> 0"
proof (cases xs rule: rev_cases)
  case (snoc us a)
  show thesis
  proof (cases "snd a = 0")
    case True
    then have "absorb_left xs = us" using snoc by (simp add: absorb_left_def)
    then show thesis using that [of "[a]"] snoc True assms by (auto simp: settled_append)
  next
    case False
    then have "absorb_left xs = xs" using snoc by (simp add: absorb_left_def)
    then show thesis using that [of "[]"] snoc False by simp
  qed
qed (use that [of "[]"] in \<open>simp add: absorb_left_def\<close>)

lemma absorb_right_split:
  assumes "settled ys"
  obtains rs where "ys = rs @ absorb_right ys" "extent rs = free_bytes rs" "live_count rs = 0"
    "absorb_right ys = [] \<or> snd (hd (absorb_right ys)) \<noteq> 0"
proof (cases ys)
  case (Cons a us)
  show thesis
  proof (cases "snd a = 0")
    case True
    then have "absorb_right ys = us" using Cons by (simp add: absorb_right_def)
    then show thesis using that [of "[a]"] Cons True assms by (auto simp: settled_Cons)
  next
    case False
    then have "absorb_right ys = ys" using Cons by (simp add: absorb_right_def)
    then show thesis using that [of "[]"] Cons False by simp
  qed
qed (use that [of "[]"] in \<open>simp add: absorb_right_def\<close>)

lemma middle_frame:
  assumes t: "touches S h h'" "same_lists h h'" "S \<subseteq> {extent us..<extent us + m}" and shape: "shape_ok us" "shape_ok zs"
    and at: "blocks_at h 0 0 us" "blocks_at h (extent us + m) pr zs" and L: "lists_ok h (frees 0 us \<union> frees (extent us + m) zs) L"
  shows "blocks_at h' 0 0 us" "blocks_at h' (extent us + m) pr zs" "lists_ok h' (frees 0 us \<union> frees (extent us + m) zs) L"
proof -
  have low: "{b..<b + 16} \<inter> S = {}" if "b + 16 \<le> extent us" for b using t(3) that by fastforce
  have high: "{b..<b + 16} \<inter> S = {}" if "extent us + m \<le> b" for b using t(3) that by fastforce
  have "{b..<b + 8} \<inter> S = {}" if "b \<in> set (starts 0 us)" for b using inter_sub [OF low, of b b "b + 8"] block_sizes_pos [OF shape(1) that] by simp
  then show "blocks_at h' 0 0 us" using blocks_frame [OF t(1), of 0 us 0] at(1) by blast
  have "{b..<b + 8} \<inter> S = {}" if "b \<in> set (starts (extent us + m) zs)" for b
    using inter_sub [OF high, of b b "b + 8"] block_sizes_pos [OF shape(2) that] by simp
  then show "blocks_at h' (extent us + m) pr zs" using blocks_frame [OF t(1), of "extent us + m" zs pr] at(2) by blast
  show "lists_ok h' (frees 0 us \<union> frees (extent us + m) zs) L"
  proof (rule lists_frame [OF t(1,2) _ L])
    fix b assume "b \<in> frees 0 us \<union> frees (extent us + m) zs"
    then show "{b..<b + 16} \<inter> S = {}" using low [of b] high [of b] frees_bounds [OF shape(1), of b 0] frees_bounds [OF shape(2), of b "extent us + m"] by auto
  qed
qed

text \<open>The merged block is written and put on its list.\<close>

lemma free_merged_ok:
  assumes ok: "arena_ok h" "shape_ok us" "shape_ok zs" "size_ok m" "extent us + m + extent zs = hp_arena_bytes h"
    and at: "blocks_at h 0 0 us" "blocks_at h (extent us + m) pr zs" and used: "zs = [] \<or> snd (hd zs) \<noteq> 0"
    and L: "lists_ok h (frees 0 us \<union> frees (extent us + m) zs) L"
  shows "\<exists>h' L'. sseq (write_header (extent us) m (last_size 0 us) False)
      (sseq (update_next_previous_size (extent us) m) (insert_free (extent us))) h = (Inr (), h') \<and>
    touches (link_area (frees 0 us \<union> frees (extent us + m) zs) \<union> {extent us..<extent us + m + 8}) h h' \<and>
    blocks_at h' 0 0 (us @ (m, 0) # zs) \<and> lists_ok h' (frees 0 (us @ (m, 0) # zs)) L' \<and> same_counts h h'"
proof -
  let ?q = "extent us" and ?bs = "us @ (m, 0) # zs"
  have m: "16 \<le> m" using ok(4) by (simp add: size_ok_def)
  obtain h4 where h4: "write_header ?q m (last_size 0 us) False h = (Inr (), h4)" "changes {?q..<?q + 16} h h4"
      "blocks_at h4 0 0 (us @ [(m, 0)])" "blocks_at h4 (?q + m) pr zs" "lists_ok h4 (frees 0 us \<union> frees (?q + m) zs) L"
    using put_header [OF ok at L, of False] by auto
  have a4: "arena_ok h4" "hp_arena_bytes h4 = hp_arena_bytes h" using changes_fields [OF h4(2)] ok(1) by simp_all
  have "c + 16 \<le> ?q + m" if "c \<in> frees 0 us" for c using frees_bounds [OF ok(2) that] by simp
  then obtain h5 where h5: "update_next_previous_size ?q m h4 = (Inr (), h5)" "changes {?q + m..<?q + m + 8} h4 h5"
      "blocks_at h5 (?q + m) m zs" "lists_ok h5 (frees 0 us \<union> frees (?q + m) zs) L"
    using put_next [OF a4(1) ok(3) extent_aligned [OF ok(2)] ok(4) _ h4(4) used h4(5)] ok(5) a4(2) by auto
  have "shape_ok (us @ [(m, 0)])" using ok(2,4) by (simp add: flag_ok_def)
  then have "{b..<b + 8} \<inter> {?q + m..<?q + m + 8} = {}" if "b \<in> set (starts 0 (us @ [(m, 0)]))" for b
    using block_sizes_pos [of "us @ [(m, 0)]" b 0] that by force
  then have "blocks_at h5 0 0 (us @ [(m, 0)])" using blocks_frame [OF touches_changes [OF h5(2)], of 0 "us @ [(m, 0)]" 0] h4(3) by blast
  then have at5: "blocks_at h5 0 0 ?bs" using h5(3) by simp
  have shape: "shape_ok ?bs" using ok(2-4) by (simp add: flag_ok_def)
  have a5: "arena_ok h5" "extent ?bs = hp_arena_bytes h5" using changes_fields [OF h5(2)] a4 ok(5) by simp_all
  have B5: "blocks_ok h5 (set (starts 0 ?bs))" by (rule blocks_ok_at [OF a5 shape at5])
  obtain h6 L' where h6: "insert_free ?q h5 = (Inr (), h6)" "touches (link_area (frees 0 ?bs)) h5 h6" "lists_ok h6 (frees 0 ?bs) L'" "same_counts h5 h6"
    using put_free [OF B5 shape h5(4)] by blast
  have at6: "blocks_at h6 0 0 ?bs" using blocks_at_touched [OF B5 frees_starts h6(2), of 0 ?bs 0] at5 by blast
  have t: "touches {?q..<?q + m + 8} h h5"
    by (rule touches_into [OF touches_changes [OF h4(2)] touches_changes [OF h5(2)]]) (use m in auto)
  have "link_area (frees 0 ?bs) \<subseteq> link_area (frees 0 us \<union> frees (?q + m) zs) \<union> {?q..<?q + m + 8}"
    by (rule link_area_within) (use m in auto)
  then have "touches (link_area (frees 0 us \<union> frees (?q + m) zs) \<union> {?q..<?q + m + 8}) h h6" by (intro touches_into [OF t h6(2)]) auto
  moreover have "same_counts h h6" using same_counts_changes [OF h4(2)] same_counts_changes [OF h5(2)] h6(4) by (meson same_counts_trans)
  ultimately show ?thesis using h4(1) h5(1) h6(1,3) at6 by (auto simp: sseq_def sbind_def)
qed

definition freed :: "blk list \<Rightarrow> nat \<Rightarrow> blk list \<Rightarrow> blk list" where
  "freed xs n ys = absorb_left xs @
     (extent xs + n + extent ys - extent (absorb_right ys) - extent (absorb_left xs), 0) # absorb_right ys"

lemma free_bytes_le: "free_bytes bs \<le> extent bs"
  by (induction bs) auto

lemma touches_both: "touches S h h' \<Longrightarrow> touches S h' h'' \<Longrightarrow> touches S h h''"
  by (rule touches_into) auto

lemma sseq_three:
  assumes "sseq f (sseq g k) h = (Inr (), h')"
  shows "sseq f (sseq g (sseq k l)) h = l h'"
  using assms by (auto simp: sseq_def sbind_def split: prod.splits sum.splits)

text \<open>The free block that takes the place of a freed one and of the free blocks beside it.\<close>

definition merged_size :: "blk list \<Rightarrow> nat \<Rightarrow> blk list \<Rightarrow> nat" where
  "merged_size xs n ys = extent xs + n + extent ys - extent (absorb_right ys) - extent (absorb_left xs)"

lemma merged_parts:
  assumes shape: "shape_ok (xs @ (n, f) # ys)" and st: "settled (xs @ (n, f) # ys)" and f: "f \<noteq> 0" and small: "extent (xs @ (n, f) # ys) < 2 ^ 30"
  shows "extent xs + n + extent ys - extent (absorb_right ys) = extent (absorb_left xs) + merged_size xs n ys"
    "extent (absorb_left xs) + merged_size xs n ys + extent (absorb_right ys) = extent (xs @ (n, f) # ys)"
    "shape_ok (freed xs n ys)" "settled (freed xs n ys)" "free_bytes (freed xs n ys) = free_bytes (xs @ (n, f) # ys) + n"
    "absorb_right ys = [] \<or> snd (hd (absorb_right ys)) \<noteq> 0"
    "frees 0 (absorb_left xs) \<subseteq> frees 0 xs" "frees (extent (absorb_left xs) + merged_size xs n ys) (absorb_right ys) \<subseteq> frees (extent xs + n) ys"
    "set (starts 0 (absorb_left xs)) \<subseteq> set (starts 0 xs)" "extent (absorb_left xs) \<le> extent xs"
    "{extent xs..<extent xs + 8} \<subseteq> {extent (absorb_left xs)..<extent (absorb_left xs) + merged_size xs n ys}"
    "blocks_at h 0 0 (xs @ (n, f) # ys) \<Longrightarrow>
      blocks_at h 0 0 (absorb_left xs) \<and> (\<exists>pr. blocks_at h (extent (absorb_left xs) + merged_size xs n ys) pr (absorb_right ys))"
proof -
  let ?us = "absorb_left xs" and ?zs = "absorb_right ys" and ?m = "merged_size xs n ys"
  have freed: "freed xs n ys = ?us @ (?m, 0) # ?zs" by (simp add: freed_def merged_size_def)
  have sxy: "settled xs" "settled ys" using st by (auto simp: settled_append settled_Cons)
  obtain ls where ls: "xs = ?us @ ls" "extent ls = free_bytes ls" "?us = [] \<or> snd (last ?us) \<noteq> 0" by (rule absorb_left_split [OF sxy(1)])
  obtain rs where rs: "ys = rs @ ?zs" "extent rs = free_bytes rs" "?zs = [] \<or> snd (hd ?zs) \<noteq> 0" by (rule absorb_right_split [OF sxy(2)])
  note l = arg_cong [OF ls(1)] and r = arg_cong [OF rs(1)]
  have ext: "extent xs = extent ?us + extent ls" "extent ys = extent rs + extent ?zs" using l [of extent] r [of extent] by simp_all
  have m: "?m = extent ls + n + extent rs" using ext by (simp add: merged_size_def)
  have sh: "shape_ok ?us" "shape_ok ?zs" "shape_ok ls" "shape_ok rs" "size_ok n" using shape l [of shape_ok] r [of shape_ok] by simp_all
  have e: "extent ?us + ?m = extent xs + n + extent rs" using ext m by simp
  show "extent xs + n + extent ys - extent ?zs = extent ?us + ?m" "extent ?us + ?m + extent ?zs = extent (xs @ (n, f) # ys)" "extent ?us \<le> extent xs"
    using ext m by simp_all
  have "size_ok ?m" using sh(5) extent_aligned [OF sh(3)] extent_aligned [OF sh(4)] m ext small by (auto simp: size_ok_def)
  then show "shape_ok (freed xs n ys)" using sh(1,2) unfolding freed by (simp add: flag_ok_def)
  have "settled ?us" "settled ?zs" using sxy l [of settled] r [of settled] by (simp_all add: settled_append)
  then show "settled (freed xs n ys)" using ls(3) rs(3) unfolding freed by (auto simp: settled_append settled_Cons)
  show "free_bytes (freed xs n ys) = free_bytes (xs @ (n, f) # ys) + n"
    using m ls(2) rs(2) l [of free_bytes] r [of free_bytes] f unfolding freed by simp
  show "?zs = [] \<or> snd (hd ?zs) \<noteq> 0" by (rule rs(3))
  show "frees 0 ?us \<subseteq> frees 0 xs" "set (starts 0 ?us) \<subseteq> set (starts 0 xs)" using l [of "frees 0"] l [of "\<lambda>l. set (starts 0 l)"] by auto
  show "frees (extent ?us + ?m) ?zs \<subseteq> frees (extent xs + n) ys" using r [of "frees (extent xs + n)"] unfolding e by simp
  show "{extent xs..<extent xs + 8} \<subseteq> {extent ?us..<extent ?us + ?m}" using ext m sh(5) by (auto simp: size_ok_def)
  assume at: "blocks_at h 0 0 (xs @ (n, f) # ys)"
  then have "blocks_at h 0 0 ?us" using l [of "blocks_at h 0 0"] by simp
  moreover have "\<exists>pr. blocks_at h (extent ?us + ?m) pr ?zs" using at r [of "blocks_at h (extent xs + n) n"] unfolding e by auto
  ultimately show "blocks_at h 0 0 ?us \<and> (\<exists>pr. blocks_at h (extent ?us + ?m) pr ?zs)" by blast
qed

lemma free_block_ok:
  assumes rep: "blocks_rep h (xs @ (n, f) # ys)" and f: "f \<noteq> 0"
  shows "\<exists>h'. free_block (extent xs) h = (Inr (), h') \<and> blocks_rep h' (freed xs n ys) \<and> hp_live_objects h' = hp_live_objects h \<and>
    touches (link_area (frees 0 (xs @ (n, f) # ys)) \<union>
      {extent (absorb_left xs)..<extent xs + n + extent ys - extent (absorb_right ys) + 8}) h h'"
proof -
  let ?bs = "xs @ (n, f) # ys" and ?us = "absorb_left xs" and ?zs = "absorb_right ys" and ?b = "extent xs" and ?m = "merged_size xs n ys"
  let ?U = "link_area (frees 0 ?bs) \<union> {extent ?us..<extent ?us + ?m + 8}"
  note r = blocks_repD [OF rep]
  have small: "extent ?bs < 2 ^ 30" using r(1,2) by (simp add: arena_ok_def)
  note p = merged_parts [OF r(3,4) f small]
  have freed: "freed xs n ys = ?us @ (?m, 0) # ?zs" by (simp add: freed_def merged_size_def)
  have sh: "shape_ok ?us" "shape_ok ?zs" "size_ok ?m" "shape_ok xs" "flag_ok f" using p(3) r(3) unfolding freed by simp_all
  have bB: "?b \<in> set (starts 0 ?bs)" by simp
  have B: "blocks_ok h (set (starts 0 ?bs))" by (rule rep_blocks [OF rep])
  have at: "hsize h ?b = n" "hflags h ?b = f" "hprev h ?b = last_size 0 xs" using r(5) by auto
  obtain h1 L1 where h1: "merge_previous ?b n (last_size 0 xs) h = (Inr (extent ?us, ?b + n - extent ?us, last_size 0 ?us), h1)"
      "touches (link_area (frees 0 ?bs)) h h1" "blocks_at h1 0 0 ?bs" "lists_ok h1 (frees 0 ?us \<union> frees (?b + n) ys) L1" "same_counts h h1"
    using merge_previous_ok [OF rep f] by blast
  have a1: "arena_ok h1" "extent ?bs = hp_arena_bytes h1" using touches_frames(5) [OF h1(2)] h1(2) r by (simp_all add: touches_def)
  have "frees 0 ?us \<subseteq> set (starts 0 xs)" using frees_starts [of 0 ?us] p(9) by blast
  then obtain h2 L2 where h2: "merge_next (extent ?us) (?b + n - extent ?us) h1 = (Inr ?m, h2)"
      "touches (link_area (frees 0 ?us \<union> frees (?b + n) ys)) h1 h2" "blocks_at h2 0 0 ?bs" "lists_ok h2 (frees 0 ?us \<union> frees (extent ?us + ?m) ?zs) L2" "same_counts h1 h2"
    using merge_next_ok [OF a1 r(3) h1(3,4) _ p(10)] unfolding p(1) diff_add_inverse by blast
  have a2: "arena_ok h2" "hp_arena_bytes h2 = hp_arena_bytes h" using touches_frames(5) [OF h2(2)] h2(2) a1 r(2) by (simp_all add: touches_def)
  have B2: "blocks_ok h2 (set (starts 0 ?bs))" by (rule blocks_ok_at [OF a2(1) _ r(3) h2(3)]) (simp only: a2(2) r(2))
  obtain pr where at2: "blocks_at h2 0 0 ?us" "blocks_at h2 (extent ?us + ?m) pr ?zs" using p(12) [OF h2(3)] by blast
  obtain h3 where h3: "(if extent ?us \<noteq> ?b then write_flags ?b 0 else sret ()) h2 = (Inr (), h3)" "changes {?b..<?b + 8} h2 h3"
    using write_flags_eq [of h2 ?b 0] blocks_in [OF B2 bB] by (cases "extent ?us = ?b") auto
  have a3: "arena_ok h3" "hp_arena_bytes h3 = hp_arena_bytes h" "same_lists h2 h3" using changes_fields [OF h3(2)] a2 by (simp_all add: same_lists_def)
  note at3 = middle_frame [OF touches_changes [OF h3(2)] a3(3) p(11) sh(1,2) at2 h2(4)]
  obtain h6 L' where h6: "sseq (write_header (extent ?us) ?m (last_size 0 ?us) False)
      (sseq (update_next_previous_size (extent ?us) ?m) (insert_free (extent ?us))) h3 = (Inr (), h6)"
      "touches (link_area (frees 0 ?us \<union> frees (extent ?us + ?m) ?zs) \<union> {extent ?us..<extent ?us + ?m + 8}) h3 h6"
      "blocks_at h6 0 0 (?us @ (?m, 0) # ?zs)" "lists_ok h6 (frees 0 (?us @ (?m, 0) # ?zs)) L'" "same_counts h3 h6"
    using free_merged_ok [OF a3(1) sh(1-3) _ at3(1,2) p(6) at3(3)] p(2) r(2) a3(2) by auto
  have cnt: "hp_total_free h6 = free_bytes ?bs" "hp_live_objects h6 = hp_live_objects h"
    using h1(5) h2(5) same_counts_changes [OF h3(2)] h6(5) r(7) by (simp_all add: same_counts_def)
  let ?h = "h6\<lparr>hp_total_free := free_bytes ?bs + n\<rparr>"
  have "free_bytes ?bs + n \<le> extent ?bs" using f free_bytes_le [of xs] free_bytes_le [of ys] by simp
  then have add: "checked_add 32 (free_bytes ?bs) n = Some (free_bytes ?bs + n)" using small by (simp add: checked_add_def)
  have alloc: "block_allocated ?b h = Inr True" using allocated_at [OF B bB at(2) sh(5)] f by simp
  have size: "block_size ?b h = Inr n" using block_size_in(1) [OF B bB] at(1) by simp
  have prev: "read_previous_or_gray ?b h = Inr (last_size 0 xs)"
    using read_previous_eq [of h ?b] blocks_in [OF B bB] at(3) last_size_bounds [OF sh(4)] small by auto
  have run: "free_block ?b h = (Inr (), ?h)"
    unfolding free_block_def
    by (simp add: sbind_step sseq_step sread_apply alloc size prev h1(1) h2(1) h3(1) sseq_three [OF h6(1)] cnt(1) add del: free_bytes_simps diff_diff_left)
  have a6: "arena_ok h6" "extent (freed xs n ys) = hp_arena_bytes h6"
    using touches_frames(5) [OF h6(2)] h6(2) a3 p(2) r(2) unfolding freed by (simp_all add: touches_def add.assoc)
  have rep': "blocks_rep ?h (freed xs n ys)" by (rule retotal [OF a6 p(3,4)]) (use h6(3,4) p(5) in \<open>simp_all only: freed\<close>)
  have "frees 0 ?us \<union> frees (?b + n) ys \<subseteq> frees 0 ?bs" "frees 0 ?us \<union> frees (extent ?us + ?m) ?zs \<subseteq> frees 0 ?bs" using p(7,8) f by auto
  note sub = link_area_mono [OF this(1)] link_area_mono [OF this(2)]
  have "touches ?U h h1" "touches ?U h1 h2" using touches_mono [OF h1(2)] touches_mono [OF h2(2)] sub(1) by blast+
  moreover have "touches ?U h2 h3" by (rule touches_mono [OF touches_changes [OF h3(2)]]) (use p(11) in auto)
  moreover have "touches ?U h3 h6" by (rule touches_mono [OF h6(2)]) (use sub(2) in auto)
  ultimately have "touches ?U h h6" by (blast intro: touches_both)
  then have "touches ?U h ?h" by (simp add: touches_def)
  then show ?thesis using run rep' cnt(2) unfolding p(1) by auto
qed

end
