(* ===== verification/Vm_Heap_Calls.thy ===== *)
theory Vm_Heap_Calls
  imports Vm_Heap_Ops
begin

unbundle bit_operations_syntax

text \<open>
  The calls of the heap between collections, on the list of blocks that \<open>Vm_Heap_Ops\<close> relates to the arena:
  which calls a client may make, what each does to the list, and that the contents of all other blocks stay.
\<close>

subsection \<open>Placed blocks\<close>

fun placed :: "nat \<Rightarrow> blk list \<Rightarrow> (nat \<times> blk) list" where
  "placed p [] = []"
| "placed p (b # bs) = (p, b) # placed (p + fst b) bs"

lemma placed_append [simp]: "placed p (xs @ ys) = placed p xs @ placed (p + extent xs) ys"
  by (induction xs arbitrary: p) (simp_all add: add.assoc)

lemma placed_bounds: "(c, b) \<in> set (placed p bs) \<Longrightarrow> p \<le> c \<and> c + fst b \<le> p + extent bs"
proof (induction bs arbitrary: p)
  case (Cons a bs)
  then have "(c, b) = (p, a) \<or> (c, b) \<in> set (placed (p + fst a) bs)" by simp
  then show ?case using Cons.IH [of "p + fst a"] by auto
qed simp

lemma placed_split:
  assumes "(c, b) \<in> set (placed 0 bs)"
  obtains xs ys where "bs = xs @ b # ys" "c = extent xs"
proof -
  have "(c, b) \<in> set (placed p bs) \<Longrightarrow> \<exists>xs ys. bs = xs @ b # ys \<and> c = p + extent xs" for p
  proof (induction bs arbitrary: p)
    case (Cons a bs)
    show ?case
    proof (cases "(c, b) = (p, a)")
      case True
      then have "a # bs = [] @ b # bs \<and> c = p + extent []" by simp
      then show ?thesis by blast
    next
      case False
      then obtain xs ys where "bs = xs @ b # ys" "c = p + fst a + extent xs" using Cons by fastforce
      then have "a # bs = (a # xs) @ b # ys \<and> c = p + extent (a # xs)" by simp
      then show ?thesis by blast
    qed
  qed simp
  from this [of 0] assms that show thesis by auto
qed

lemma placed_mem: "(extent xs, b) \<in> set (placed 0 (xs @ b # ys))"
  by simp

lemma frees_placed: "d \<in> frees p bs \<Longrightarrow> \<exists>n. (d, (n, 0)) \<in> set (placed p bs)"
proof (induction bs arbitrary: p)
  case (Cons a bs)
  show ?case
  proof (cases "d = p \<and> snd a = 0")
    case True
    then have "(d, (fst a, 0)) \<in> set (placed p (a # bs))" by (cases a) simp
    then show ?thesis by blast
  next
    case False
    then have "d \<in> frees (p + fst a) bs" using Cons.prems by (auto split: if_splits)
    then show ?thesis using Cons.IH by fastforce
  qed
qed simp

lemma placed_shape: "(c, b) \<in> set (placed p bs) \<Longrightarrow> shape_ok bs \<Longrightarrow> size_ok (fst b) \<and> flag_ok (snd b)"
  by (induction bs arbitrary: p) auto

lemma placed_apart:
  assumes "(c, a) \<in> set (placed p bs)" "(d, b) \<in> set (placed p bs)" "shape_ok bs"
  shows "c = d \<and> a = b \<or> c + fst a \<le> d \<or> d + fst b \<le> c"
  using assms
proof (induction bs arbitrary: p)
  case (Cons x bs)
  have "(c, a) = (p, x) \<or> (c, a) \<in> set (placed (p + fst x) bs)" "(d, b) = (p, x) \<or> (d, b) \<in> set (placed (p + fst x) bs)" using Cons.prems by auto
  then show ?case using Cons.IH [of "p + fst x"] Cons.prems(3) placed_bounds [of _ _ "p + fst x" bs] by fastforce
qed simp

subsection \<open>What stays\<close>

definition kept :: "heap \<Rightarrow> heap \<Rightarrow> nat \<times> blk \<Rightarrow> bool" where
  "kept h h' b \<longleftrightarrow> (\<forall>k\<in>{fst b + 8..<fst b + fst (snd b)}. hp_arena h' ! k = hp_arena h ! k)"

lemma kept_outside:
  assumes t: "touches (link_area (frees 0 bs) \<union> {p..<q + 8}) h h'" and shape: "shape_ok bs"
    and b: "(c, b) \<in> set (placed 0 bs)" "snd b \<noteq> 0" and out: "c + fst b \<le> p \<or> q \<le> c"
  shows "kept h h' (c, b)"
  unfolding kept_def
proof
  fix k assume k: "k \<in> {fst (c, b) + 8..<fst (c, b) + fst (snd (c, b))}"
  have "k \<notin> {d + 8..<d + 16}" if df: "d \<in> frees 0 bs" for d
  proof -
    obtain n where d: "(d, (n, 0)) \<in> set (placed 0 bs)" using frees_placed [OF df] by blast
    then have "16 \<le> n" using placed_shape [OF d shape] by (simp add: size_ok_def)
    then show ?thesis using placed_apart [OF d b(1) shape] b(2) k by auto
  qed
  then have "k \<notin> link_area (frees 0 bs) \<union> {p..<q + 8}" using k out by (auto simp: link_area_def)
  then show "hp_arena h' ! k = hp_arena h ! k" using t by (simp add: touches_def)
qed

lemma used_keeps:
  assumes "shape_ok (xs @ (n, f) # ys)" "touches (link_area (frees 0 (xs @ (n, f) # ys)) \<union> {extent xs..<extent xs + n + 8}) h h'"
    "(c, b) \<in> set (placed 0 (xs @ (n, f) # ys))" "snd b \<noteq> 0" "f = 0 \<or> c \<noteq> extent xs"
  shows "kept h h' (c, b)"
  using placed_apart [OF assms(3) placed_mem assms(1)] assms(4,5) by (intro kept_outside [OF assms(2,1,3,4)]) auto

text \<open>The used blocks beside a freed one are not absorbed.\<close>

lemma used_beside:
  assumes shape: "shape_ok (xs @ (n, f) # ys)" and st: "settled xs" "settled ys"
    and b: "(c, b) \<in> set (placed 0 (xs @ (n, f) # ys))" "snd b \<noteq> 0" "c \<noteq> extent xs"
  shows "(c, b) \<in> set (placed 0 (absorb_left xs)) \<or>
    (c, b) \<in> set (placed (extent xs + n + extent ys - extent (absorb_right ys)) (absorb_right ys))"
proof -
  obtain ls where ls: "xs = absorb_left xs @ ls" "extent ls = free_bytes ls" by (rule absorb_left_split [OF st(1)])
  obtain rs where rs: "ys = rs @ absorb_right ys" "extent rs = free_bytes rs" by (rule absorb_right_split [OF st(2)])
  have none: "snd b = 0" if "(c, b) \<in> set (placed p ws)" "extent ws = free_bytes ws" "shape_ok ws" for p ws
    using that
  proof (induction ws arbitrary: p)
    case (Cons w ws)
    have "snd w = 0" "extent ws = free_bytes ws" using Cons.prems(2,3) free_bytes_le [of ws] by (simp_all add: size_ok_def split: if_splits)
    then show ?case using Cons.IH [of "p + fst w"] Cons.prems(1,3) by auto
  qed simp
  have sh: "shape_ok ls" "shape_ok rs"
    using shape arg_cong [OF ls(1), of shape_ok] arg_cong [OF rs(1), of shape_ok] by simp_all
  have "extent ys = extent rs + extent (absorb_right ys)" by (subst rs(1), simp)
  then have e: "extent xs + n + extent ys - extent (absorb_right ys) = extent xs + n + extent rs" by simp
  have "(c, b) \<in> set (placed 0 xs) \<or> (c, b) = (extent xs, (n, f)) \<or> (c, b) \<in> set (placed (extent xs + n) ys)" using b(1) by auto
  then have "(c, b) \<in> set (placed 0 (absorb_left xs)) \<or> (c, b) \<in> set (placed (extent (absorb_left xs)) ls) \<or>
      (c, b) \<in> set (placed (extent xs + n) rs) \<or> (c, b) \<in> set (placed (extent xs + n + extent rs) (absorb_right ys))"
    using b(3) arg_cong [OF ls(1), of "\<lambda>l. set (placed 0 l)"] arg_cong [OF rs(1), of "\<lambda>l. set (placed (extent xs + n) l)"] by auto
  then show ?thesis using none [OF _ ls(2) sh(1)] none [OF _ rs(2) sh(2)] b(2) unfolding e by auto
qed

lemma absorb_extents: "settled xs \<Longrightarrow> settled ys \<Longrightarrow> extent (absorb_left xs) \<le> extent xs \<and> extent (absorb_right ys) \<le> extent ys"
proof -
  assume st: "settled xs" "settled ys"
  obtain ls where "xs = absorb_left xs @ ls" by (rule absorb_left_split [OF st(1)])
  then have "extent xs = extent (absorb_left xs) + extent ls" by (metis extent_simps(3))
  moreover obtain rs where "ys = rs @ absorb_right ys" by (rule absorb_right_split [OF st(2)])
  then have "extent ys = extent rs + extent (absorb_right ys)" by (metis extent_simps(3))
  ultimately show ?thesis by simp
qed

lemma freed_beside:
  assumes "shape_ok (xs @ (n, f) # ys)" "settled xs" "settled ys"
    "(c, b) \<in> set (placed 0 (xs @ (n, f) # ys))" "snd b \<noteq> 0" "c \<noteq> extent xs"
  shows "(c, b) \<in> set (placed 0 (freed xs n ys))"
proof -
  let ?e = "extent xs + n + extent ys - extent (absorb_right ys)"
  have "extent (absorb_left xs) + (?e - extent (absorb_left xs)) = ?e" using absorb_extents [OF assms(2,3)] by simp
  then show ?thesis using used_beside [OF assms] by (auto simp: freed_def)
qed

lemma free_keeps:
  assumes "shape_ok (xs @ (n, f) # ys)" "settled xs" "settled ys"
    "(c, b) \<in> set (placed 0 (xs @ (n, f) # ys))" "snd b \<noteq> 0" "c \<noteq> extent xs"
    and t: "touches (link_area (frees 0 (xs @ (n, f) # ys)) \<union> {extent (absorb_left xs)..<extent xs + n + extent ys - extent (absorb_right ys) + 8}) h h'"
  shows "kept h h' (c, b)"
  using used_beside [OF assms(1-6)] placed_bounds [of c b 0 "absorb_left xs"] placed_bounds [of c b _ "absorb_right ys"]
  by (intro kept_outside [OF t assms(1,4,5)]) fastforce

subsection \<open>References to blocks\<close>

definition object_ref :: "nat \<Rightarrow> ref32" where
  "object_ref b = of_nat (b + 8)"

lemma object_ref_ok:
  assumes "b + 8 < 2 ^ 30"
  shows "managed_reference (b + 8) = Inr (object_ref b)" "ref32_domain (object_ref b) = Managed" "unat (ref32_payload (object_ref b)) = b + 8"
proof -
  have "unat (of_nat k :: u32) = k" if "k < 2 ^ 30" for k using that by (simp add: unat_of_nat)
  then have u: "unat (object_ref b) = b + 8" unfolding object_ref_def using assms by blast
  then have "take_bit 30 (object_ref b) = object_ref b" 
    using assms unfolding word_unat_eq_iff unsigned_take_bit_eq u by (simp add: take_bit_eq_mod)
  then have t: "object_ref b \<le> MAX_PAYLOAD" "ref32_payload (object_ref b) = object_ref b"
    using payload_fits_iff [of "object_ref b"] by (simp_all add: ref32_payload_def MAX_PAYLOAD_mask take_bit_eq_mask)
  then show "unat (ref32_payload (object_ref b)) = b + 8" using u by simp
  have "unat (drop_bit 30 (object_ref b)) = 0" using assms unfolding unat_drop_bit_eq u by (simp add: drop_bit_eq_div)
  then show "ref32_domain (object_ref b) = Managed" by (simp add: ref32_domain_def DOMAIN_SHIFT_def Let_def word_unat_eq_iff)
  have "object_ref b \<noteq> 0" using u by auto
  then show "managed_reference (b + 8) = Inr (object_ref b)"
    using t(1) by (simp add: managed_reference_def ref32_managed_def ref32_new_def domain_code_def Let_def not_less [symmetric] object_ref_def)
qed

lemma rep_flags:
  assumes "heap_rep h (xs @ (n, f) # ys)"
  shows "arena_ok h" "on_block h (extent xs)" "read_flags (extent xs) h = Inr f" "block_allocated (extent xs) h = Inr (f \<noteq> 0)"
    "extent xs + 16 \<le> hp_arena_bytes h" "hp_arena_bytes h < 2 ^ 30"
proof -
  have rep: "blocks_rep h (xs @ (n, f) # ys)" using assms by (simp add: heap_rep_def)
  note r = blocks_repD [OF rep]
  have B: "blocks_ok h (set (starts 0 (xs @ (n, f) # ys)))" by (rule rep_blocks [OF rep])
  have b: "extent xs \<in> set (starts 0 (xs @ (n, f) # ys))" by simp
  have at: "hflags h (extent xs) = f" "flag_ok f" "size_ok n" using r(3,5) by auto
  show "arena_ok h" "on_block h (extent xs)" using blocks_in [OF B b] by auto
  then show "read_flags (extent xs) h = Inr f" using read_flags_eq at(1) by blast
  show "block_allocated (extent xs) h = Inr (f \<noteq> 0)" by (rule allocated_at [OF B b at(1,2)])
  show "extent xs + 16 \<le> hp_arena_bytes h" using r(2) at(3) by (auto simp: size_ok_def)
  show "hp_arena_bytes h < 2 ^ 30" using r(1) by (simp add: arena_ok_def)
qed

lemma live_block_ok:
  assumes "heap_rep h (xs @ (n, 5) # ys)"
  shows "live_block (object_ref (extent xs)) h = Inr (extent xs)"
proof -
  note f = rep_flags [OF assms]
  have "8 dvd extent xs" using f(2) by (simp add: on_block_def)
  then show ?thesis
    using object_ref_ok [of "extent xs"] f
    by (simp add: live_block_def Let_def OBJECT_TYPE_ID_def BLOCK_HEADER_BYTES_def BLOCK_ALIGNMENT_def checked_sub_def LIVE_def)
qed

lemma validate_ok:
  assumes "heap_rep h (xs @ (n, 1) # ys)"
  shows "validate_reservation \<lparr>ra_block = extent xs, ra_type_id = t\<rparr> h = Inr ()"
  using rep_flags [OF assms] by (simp add: validate_reservation_def LIVE_def)

subsection \<open>Committing\<close>

lemma live_count_le: "live_count bs \<le> length bs"
  by (simp add: live_count_def)

lemma length_extent: "shape_ok bs \<Longrightarrow> 16 * length bs \<le> extent bs"
  by (induction bs) (auto simp: size_ok_def)

text \<open>A change inside a used block that keeps its size and link.\<close>

lemma used_frame:
  assumes rep: "blocks_rep h (xs @ (n, f) # ys)" and t: "touches {extent xs..<extent xs + n} h h'" "same_lists h h'" "hp_total_free h' = hp_total_free h"
    and b: "hsize h' (extent xs) = n" "hprev h' (extent xs) = hprev h (extent xs)" "hflags h' (extent xs) = g" and g: "flag_ok g" "f \<noteq> 0" "g \<noteq> 0"
  shows "blocks_rep h' (xs @ (n, g) # ys)"
proof -
  note r = blocks_repD [OF rep]
  obtain L where L: "lists_ok h (frees 0 (xs @ (n, f) # ys)) L" using r(6) by blast
  have sh: "shape_ok xs" "shape_ok ys" "size_ok n" using r(3) by auto
  have F: "frees 0 (xs @ (n, f) # ys) = frees 0 xs \<union> frees (extent xs + n) ys" "frees 0 (xs @ (n, g) # ys) = frees 0 xs \<union> frees (extent xs + n) ys"
    using g by simp_all
  have at: "blocks_at h 0 0 xs" "blocks_at h (extent xs + n) n ys" "hprev h (extent xs) = last_size 0 xs" using r(5) by auto
  note k = middle_frame [OF t(1,2) subset_refl sh(1,2) at(1,2) L [unfolded F(1)]]
  have "blocks_at h' 0 0 (xs @ (n, g) # ys)" using k(1,2) b at(3) by simp
  moreover have "arena_ok h'" "hp_arena_bytes h' = hp_arena_bytes h" using touches_frames(5) [OF t(1)] t(1) r(1) by (simp_all add: touches_def)
  moreover have "settled (xs @ (n, g) # ys)" using r(4) g by (auto simp: settled_append settled_Cons)
  ultimately show ?thesis
    unfolding blocks_rep_def F(2) using k(3) r(2,3,7) t(3) g by (auto simp: flag_ok_def)
qed

lemma commit_ok:
  assumes rep: "heap_rep h (xs @ (n, 1) # ys)" and t: "type_fits h t"
  shows "\<exists>h'. heap_commit \<lparr>ra_block = extent xs, ra_type_id = t\<rparr> h = (Inr (object_ref (extent xs)), h') \<and> heap_rep h' (xs @ (n, 5) # ys) \<and>
    htype h' (extent xs) = t \<and> touches {extent xs..<extent xs + 12} h h'"
proof -
  let ?b = "extent xs" and ?bs = "xs @ (n, 1) # ys"
  have brep: "blocks_rep h ?bs" and live: "hp_live_objects h = live_count ?bs" using rep by (auto simp: heap_rep_def)
  note r = blocks_repD [OF brep] and f = rep_flags [OF rep]
  have at: "hsize h ?b = n" "hflags h ?b = 1" using r(5) by auto
  obtain h1 where h1: "write_type ?b t h = (Inr (), h1)" "changes {?b..<?b + 12} h h1" "htype h1 ?b = t" "hsize h1 ?b = n" "hflags h1 ?b = 1"
      "hprev h1 ?b = hprev h ?b"
    using write_type_eq [OF f(1,2) t] at by metis
  have a1: "arena_ok h1" "on_block h1 ?b" using changes_fields [OF h1(2)] f by simp_all
  obtain h2 where h2: "write_flags ?b 5 h1 = (Inr (), h2)" "changes {?b..<?b + 8} h1 h2" "hflags h2 ?b = 5" "hsize h2 ?b = n" "hprev h2 ?b = hprev h ?b"
      "htype h2 ?b = t"
    using write_flags_eq [OF a1, of 5] h1(3,4,6) by auto
  define v where "v = live_count ?bs + 1"
  let ?h = "h2\<lparr>hp_live_objects := v\<rparr>"
  have c: "changes {?b..<?b + 12} h h2" by (rule changes_into [OF h1(2) h2(2)]) auto
  have touch: "touches {?b..<?b + 12} h ?h" using touches_changes [OF c] by (simp add: touches_def)
  have n: "{?b..<?b + 12} \<subseteq> {?b..<?b + n}" using r(3) by (auto simp: size_ok_def)
  have lists: "same_lists h ?h" "hp_total_free ?h = hp_total_free h" using changes_fields [OF c] by (simp_all add: same_lists_def)
  have "hp_format ?h = hp_format h2" "hp_arena ?h = hp_arena h2" by simp_all
  note same = same_words [OF this]
  have rep': "blocks_rep ?h (xs @ (n, 5) # ys)"
    by (rule used_frame [OF brep touches_mono [OF touch n] lists]) (simp_all add: same h2(3-5) flag_ok_def)
  have "live_count ?bs < 2 ^ 30"
    using live_count_le [of ?bs] length_extent [OF r(3)] r(2) f(6) by linarith
  then have add: "checked_add 32 (hp_live_objects h2) 1 = Some v" using changes_fields(8) [OF c] live by (simp add: checked_add_def v_def)
  have flags: "read_flags ?b h1 = Inr 1" using read_flags_eq [OF a1] h1(5) by simp
  have "or 1 LIVE = 5" by (simp add: LIVE_def)
  moreover have "checked_add 32 ?b OBJECT_TYPE_ID = Some (?b + 8)" using f(5,6) by (simp add: checked_add_def OBJECT_TYPE_ID_def BLOCK_HEADER_BYTES_def)
  ultimately have "heap_commit \<lparr>ra_block = ?b, ra_type_id = t\<rparr> h = (Inr (object_ref ?b), ?h)"
    using validate_ok [OF rep, of t] h1(1) flags h2(1) add object_ref_ok(1) [of ?b] f(5,6)
    unfolding heap_commit_def by (simp add: sbind_def sseq_def sread_def smodify_def)
  moreover have "heap_rep ?h (xs @ (n, 5) # ys)" using rep' by (simp add: heap_rep_def v_def)
  ultimately show ?thesis using touch h2(6) same(4) by auto
qed

subsection \<open>Aborting and freeing\<close>

lemma freed_live:
  assumes "settled xs" "settled ys"
  shows "live_count (freed xs n ys) = live_count xs + live_count ys"
proof -
  obtain ls where "xs = absorb_left xs @ ls" "live_count ls = 0" by (rule absorb_left_split [OF assms(1)])
  then have l: "live_count xs = live_count (absorb_left xs)" by (metis add_0_right live_count_simps(3))
  obtain rs where "ys = rs @ absorb_right ys" "live_count rs = 0" by (rule absorb_right_split [OF assms(2)])
  then have "live_count ys = live_count (absorb_right ys)" by (metis add_0 live_count_simps(3))
  with l show ?thesis by (simp add: freed_def)
qed

lemma settled_parts: "settled (xs @ b # ys) \<Longrightarrow> settled xs \<and> settled ys"
  by (auto simp: settled_append settled_Cons)

lemma abort_ok:
  assumes rep: "heap_rep h (xs @ (n, 1) # ys)"
  shows "\<exists>h'. heap_abort \<lparr>ra_block = extent xs, ra_type_id = t\<rparr> h = (Inr (), h') \<and> heap_rep h' (freed xs n ys) \<and>
    touches (link_area (frees 0 (xs @ (n, 1) # ys)) \<union>
      {extent (absorb_left xs)..<extent xs + n + extent ys - extent (absorb_right ys) + 8}) h h'"
proof -
  have brep: "blocks_rep h (xs @ (n, 1) # ys)" and live: "hp_live_objects h = live_count (xs @ (n, 1) # ys)" using rep by (auto simp: heap_rep_def)
  obtain h' where h': "free_block (extent xs) h = (Inr (), h')" "blocks_rep h' (freed xs n ys)" "hp_live_objects h' = hp_live_objects h"
      "touches (link_area (frees 0 (xs @ (n, 1) # ys)) \<union>
        {extent (absorb_left xs)..<extent xs + n + extent ys - extent (absorb_right ys) + 8}) h h'"
    using free_block_ok [OF brep] by auto
  have "heap_rep h' (freed xs n ys)"
    using h'(2,3) live freed_live settled_parts [OF blocks_repD(4) [OF brep]] by (simp add: heap_rep_def)
  moreover have "heap_abort \<lparr>ra_block = extent xs, ra_type_id = t\<rparr> h = (Inr (), h')"
    using validate_ok [OF rep, of t] h'(1) by (simp add: heap_abort_def sseq_def sbind_def sread_def)
  ultimately show ?thesis using h'(4) by blast
qed

lemma heap_free_ok:
  assumes rep: "heap_rep h (xs @ (n, 5) # ys)"
  shows "\<exists>h'. heap_free (object_ref (extent xs)) h = (Inr True, h') \<and> heap_rep h' (freed xs n ys) \<and>
    touches (link_area (frees 0 (xs @ (n, 5) # ys)) \<union>
      {extent (absorb_left xs)..<extent xs + n + extent ys - extent (absorb_right ys) + 8}) h h'"
proof -
  let ?bs = "xs @ (n, 5) # ys" and ?S = "link_area (frees 0 (xs @ (n, 5) # ys)) \<union>
      {extent (absorb_left xs)..<extent xs + n + extent ys - extent (absorb_right ys) + 8}"
  have brep: "blocks_rep h ?bs" and live: "hp_live_objects h = live_count ?bs" using rep by (auto simp: heap_rep_def)
  define v where "v = live_count ?bs - 1"
  let ?h = "h\<lparr>hp_live_objects := v\<rparr>"
  have k: "touches {} h ?h" "same_lists h ?h" by (simp_all add: touches_def same_lists_def)
  have "blocks_rep ?h ?bs"
    using blocks_repD [OF brep] recount(3) [OF k] unfolding blocks_rep_def recount(1,2) [OF k] by auto
  then obtain h' where h': "free_block (extent xs) ?h = (Inr (), h')" "blocks_rep h' (freed xs n ys)" "hp_live_objects h' = hp_live_objects ?h" "touches ?S ?h h'"
    using free_block_ok [of ?h xs n 5 ys] by auto
  have "heap_rep h' (freed xs n ys)"
    using h'(2,3) freed_live settled_parts [OF blocks_repD(4) [OF brep]] by (simp add: heap_rep_def v_def)
  moreover have "checked_sub (live_count ?bs) 1 = Some v" by (simp add: checked_sub_def v_def)
  then have "heap_free (object_ref (extent xs)) h = (Inr True, h')"
    using live_block_ok [OF rep] object_ref_ok(2) [of "extent xs"] rep_flags(5,6) [OF rep] live h'(1)
    by (simp add: heap_free_def sseq_def sbind_def sread_def smodify_def del: live_count_simps)
  moreover have "touches ?S h h'" by (rule touches_into [OF k(1) h'(4)]) auto
  ultimately show ?thesis by blast
qed

subsection \<open>Payload\<close>

lemma store_loop_eq:
  "position + length bs \<le> length (hp_arena h) \<Longrightarrow> 16 dvd length (hp_arena h) \<Longrightarrow>
    store_loop position bs h = (Inr (), h\<lparr>hp_arena := store position bs (hp_arena h)\<rparr>)"
proof (induction bs arbitrary: position h)
  case (Cons b bs)
  have lt: "position < length (hp_arena h)" using Cons.prems(1) by simp
  then have "position div 16 < length (hp_arena h) div 16" using Cons.prems(2) by (auto elim!: dvdE)
  moreover have "store (position + 1) bs ((hp_arena h)[position := b]) = store position (b # bs) (hp_arena h)"
    using lt by (simp add: store_def take_Suc_conv_app_nth upd_conv_take_nth_drop add.commute)
  ultimately show ?case using Cons by simp
qed (simp add: store_def)

lemma load_loop_eq:
  "position + n \<le> length (hp_arena h) \<Longrightarrow> 16 dvd length (hp_arena h) \<Longrightarrow> load_loop position n h = Inr (take n (drop position (hp_arena h)))"
proof (induction n arbitrary: position)
  case (Suc n)
  have lt: "position < length (hp_arena h)" using Suc.prems(1) by simp
  then have "position div 16 < length (hp_arena h) div 16" using Suc.prems(2) by (auto elim!: dvdE)
  then show ?case using Suc lt by (simp add: Cons_nth_drop_Suc [symmetric])
qed simp

lemma header_bytes_range: "8 \<le> header_bytes f" "header_bytes f \<le> 16"
  by (simp_all add: header_bytes_def LEGACY_HEAP_HEADER_BYTES_def BLOCK_HEADER_BYTES_def split: header_format.split)

lemma payload_start_ok:
  assumes rep: "heap_rep h (xs @ (n, 5) # ys)" and room: "header_bytes (hp_format h) + offset + len \<le> n"
  shows "payload_start (extent xs) offset len h = Inr (extent xs + header_bytes (hp_format h) + offset)"
    "extent xs + n \<le> hp_arena_bytes h" "hp_arena_bytes h < 2 ^ 30" "length (hp_arena h) = hp_arena_bytes h" "16 dvd length (hp_arena h)"
proof -
  have brep: "blocks_rep h (xs @ (n, 5) # ys)" using rep by (simp add: heap_rep_def)
  note r = blocks_repD [OF brep]
  have "block_size (extent xs) h = Inr n" using block_size_in(1) [OF rep_blocks [OF brep], of "extent xs"] r(5) by simp
  moreover show "extent xs + n \<le> hp_arena_bytes h" using r(2) by simp
  moreover show lt: "hp_arena_bytes h < 2 ^ 30" "length (hp_arena h) = hp_arena_bytes h" "16 dvd length (hp_arena h)" using r(1) by (simp_all add: arena_ok_def)
  ultimately show "payload_start (extent xs) offset len h = Inr (extent xs + header_bytes (hp_format h) + offset)"
    using room by (simp add: payload_start_def payload_offset_def checked_sub_def checked_add_def)
qed

lemma write_payload_ok:
  assumes rep: "heap_rep h (xs @ (n, 5) # ys)" and room: "header_bytes (hp_format h) + offset + length bs \<le> n"
  shows "\<exists>h'. write_payload (object_ref (extent xs)) offset bs h = (Inr (), h') \<and> heap_rep h' (xs @ (n, 5) # ys) \<and>
    touches {extent xs + header_bytes (hp_format h) + offset..<extent xs + header_bytes (hp_format h) + offset + length bs} h h' \<and>
    take (length bs) (drop (extent xs + header_bytes (hp_format h) + offset) (hp_arena h')) = bs"
proof -
  note p = payload_start_ok [OF rep room]
  let ?s = "extent xs + header_bytes (hp_format h) + offset"
  define h' where "h' = h\<lparr>hp_arena := store ?s bs (hp_arena h)\<rparr>"
  have fit: "?s + length bs \<le> length (hp_arena h)" using room p(2,4) by simp
  have run: "write_payload (object_ref (extent xs)) offset bs h = (Inr (), h')"
    using live_block_ok [OF rep] p(1,3,4) store_loop_eq [OF fit p(5)] fit
    by (simp add: write_payload_def sbind_def sseq_def sguard_def h'_def)
  have t: "touches {?s..<?s + length bs} h h'" using fit store_outside [OF fit] by (auto simp: touches_def h'_def)
  have sub: "{?s..<?s + length bs} \<subseteq> {extent xs..<extent xs + n}" using room by auto
  have brep: "blocks_rep h (xs @ (n, 5) # ys)" using rep by (simp add: heap_rep_def)
  have disj: "{extent xs..<extent xs + 8} \<inter> {?s..<?s + length bs} = {}" using header_bytes_range(1) [of "hp_format h"] by auto
  have same: "same_lists h h'" "hp_total_free h' = hp_total_free h" by (simp_all add: h'_def same_lists_def)
  have at: "hsize h (extent xs) = n" "hflags h (extent xs) = 5" using blocks_repD(5) [OF brep] by auto
  have "blocks_rep h' (xs @ (n, 5) # ys)"
    by (rule used_frame [OF brep touches_mono [OF t sub] same]) (simp_all add: touches_frames(1-3) [OF t disj] at flag_ok_def)
  then have "heap_rep h' (xs @ (n, 5) # ys)" using rep by (simp add: heap_rep_def h'_def)
  moreover have "take (length bs) (drop ?s (hp_arena h')) = bs" using store_same [OF fit] by (simp add: h'_def)
  ultimately show ?thesis using run t by blast
qed

lemma write_payload_rejected:
  assumes rep: "heap_rep h (xs @ (n, 5) # ys)" and room: "n < header_bytes (hp_format h) + offset + length bs"
  shows "write_payload (object_ref (extent xs)) offset bs h = (Inl CorruptHeap, h)"
proof -
  have brep: "blocks_rep h (xs @ (n, 5) # ys)" using rep by (simp add: heap_rep_def)
  have "block_size (extent xs) h = Inr n" using block_size_in(1) [OF rep_blocks [OF brep], of "extent xs"] blocks_repD(5) [OF brep] by simp
  then have "payload_start (extent xs) offset (length bs) h = Inl CorruptHeap"
    using room by (auto simp: payload_start_def payload_offset_def checked_sub_def checked_add_def)
  then show ?thesis using live_block_ok [OF rep] by (simp add: write_payload_def sbind_def sseq_def sguard_def)
qed

lemma read_payload_ok:
  assumes rep: "heap_rep h (xs @ (n, 5) # ys)" and room: "header_bytes (hp_format h) + offset + len \<le> n" and len: "len \<le> 8"
  shows "read_payload (object_ref (extent xs)) offset len h =
    Inr (take len (drop (extent xs + header_bytes (hp_format h) + offset) (hp_arena h)) @ replicate (8 - len) 0)"
  using live_block_ok [OF rep] payload_start_ok [OF rep room] room len load_loop_eq by (simp add: read_payload_def)

subsection \<open>A new heap\<close>

lemma heap_new_ok:
  assumes N: "32 \<le> heap_arena_bytes plan" "16 dvd heap_arena_bytes plan" "heap_arena_bytes plan < 2 ^ 30"
    and fits: "format_fits (header_format plan) (heap_arena_bytes plan) type_count"
  shows "\<exists>h. heap_new plan = Inr h \<and> heap_rep h [(heap_arena_bytes plan, 0)] \<and> hp_format h = header_format plan"
proof -
  let ?N = "heap_arena_bytes plan"
  have max: "unat MAX_PAYLOAD = 2 ^ 30 - 1" by (simp add: MAX_PAYLOAD_def DOMAIN_SHIFT_def push_bit_of_1)
  define h0 where "h0 = \<lparr>hp_format = header_format plan, hp_arena = replicate ?N 0, hp_arena_bytes = ?N,
    hp_class_heads = replicate CLASS_COUNT NULL_OFFSET, hp_first_bitmap = 0, hp_second_bitmaps = replicate 32 0, hp_hint = NULL_OFFSET,
    hp_total_free = ?N, hp_live_objects = 0\<rparr>"
  have a0: "arena_ok h0" using N fits by (auto simp: h0_def arena_ok_def format_fits_def BLOCK_ALIGNMENT_def split: header_format.splits)
  have L0: "lists_ok h0 (frees 0 [] \<union> frees (extent [] + ?N) []) (\<lambda>_. [])"
    by (simp add: lists_ok_def list_of_def maps_ok_def h0_def CLASS_COUNT_def)
  have size: "size_ok ?N" using N by (auto simp: size_ok_def)
  obtain h1 where h1: "write_header 0 ?N 0 False h0 = (Inr (), h1)" "changes {0..<16} h0 h1" "blocks_at h1 0 0 [(?N, 0)]" "lists_ok h1 {} (\<lambda>_. [])"
    using put_header [OF a0 _ _ size _ _ _ L0, of 0 False] by (auto simp: h0_def)
  have a1: "arena_ok h1" "hp_arena_bytes h1 = ?N" "hp_total_free h1 = ?N" "hp_live_objects h1 = 0" "hp_format h1 = header_format plan"
    using changes_fields [OF h1(2)] a0 by (simp_all add: h0_def)
  have shape: "shape_ok ([] @ (?N, 0) # [])" using size by (simp add: flag_ok_def)
  have B1: "blocks_ok h1 (set (starts 0 ([] @ (?N, 0) # [])))" by (rule blocks_ok_at [OF a1(1) _ shape]) (use a1(2) h1(3) in simp_all)
  obtain h2 L where h2: "insert_free 0 h1 = (Inr (), h2)" "touches (link_area {0}) h1 h2" "lists_ok h2 {0} L" "same_counts h1 h2"
    using put_free [OF B1 shape, of "\<lambda>_. []"] h1(4) by auto
  have at2: "blocks_at h2 0 0 [(?N, 0)]" using blocks_at_touched [OF B1 _ h2(2), of 0 "[(?N, 0)]" 0] h1(3) by simp
  have "heap_new plan = Inr h2"
    using N max h1(1) h2(1) unfolding heap_new_def h0_def [symmetric] Let_def by (simp add: sseq_def sbind_def)
  moreover have "arena_ok h2" "hp_arena_bytes h2 = ?N" "hp_format h2 = header_format plan" using touches_frames(5) [OF h2(2)] h2(2) a1 by (simp_all add: touches_def)
  moreover have "hp_total_free h2 = ?N" "hp_live_objects h2 = 0" using h2(4) a1 by (simp_all add: same_counts_def)
  ultimately show ?thesis using at2 h2(3) shape by (auto simp: heap_rep_def blocks_rep_def)
qed

subsection \<open>The diagnostic scan\<close>

definition largest_free :: "blk list \<Rightarrow> nat" where
  "largest_free bs = Max (insert 0 {n. (n, 0) \<in> set bs})"

lemma finite_free: "finite {n. (n, 0) \<in> set (bs :: blk list)}"
  by (rule finite_subset [of _ "fst ` set bs"]) force+

lemma largest_free_Cons: "largest_free (b # bs) = (if snd b = 0 then max (fst b) (largest_free bs) else largest_free bs)"
proof -
  have "{n. (n, 0) \<in> set (b # bs)} = (if snd b = 0 then insert (fst b) {n. (n, 0) \<in> set bs} else {n. (n, 0) \<in> set bs})" by (cases b) auto
  then show ?thesis using finite_free [of bs] by (auto simp: largest_free_def insert_commute [of 0])
qed

lemma diagnostic_scan:
  assumes B: "blocks_ok h B" and "set (starts p bs) \<subseteq> B" "blocks_at h p pr bs" "shape_ok bs" "p + extent bs = hp_arena_bytes h" "length bs < fuel"
  shows "diagnostic_loop fuel p l h = max l (largest_free bs)"
  using assms(2-)
proof (induction bs arbitrary: fuel p pr l)
  case Nil
  then show ?case by (cases fuel) (simp_all add: largest_free_def)
next
  case (Cons b bs)
  then obtain k where k: "fuel = Suc k" "length bs < k" by (cases fuel) auto
  have at: "hsize h p = fst b" "hflags h p = snd b" "flag_ok (snd b)" "size_ok (fst b)" "p \<in> B" using Cons.prems by auto
  have N: "hp_arena_bytes h < 2 ^ 30" using B by (simp add: blocks_ok_def arena_ok_def)
  have p: "p < hp_arena_bytes h" "checked_add 32 p (fst b) = Some (p + fst b)" using Cons.prems(4) at(4) N by (auto simp: size_ok_def checked_add_def)
  have "diagnostic_loop k (p + fst b) l' h = max l' (largest_free bs)" for l'
    by (rule Cons.IH) (use Cons.prems k in auto)
  then show ?case
    using p block_size_in(1) [OF B at(5)] allocated_at [OF B at(5,2,3)] at(1) k(1) by (simp add: largest_free_Cons max.assoc Let_def)
qed

end
