(* ===== verification/Vm_Heap_Spec.thy ===== *)
theory Vm_Heap_Spec
  imports Vm_Heap_Calls
begin

text \<open>
  The abstract allocator behind \<open>src/src/execution/heap.rs\<close>: a list of blocks, free, reserved or live, that the
  calls cut, mark and merge. Every call the machine may make on the detailed heap answers as this allocator
  does and leaves the bytes of all other blocks in place.
\<close>

subsection \<open>Calls\<close>

datatype heap_call =
    Reserve nat nat
  | Commit reserved_allocation
  | Abort reserved_allocation
  | Free ref32
  | Write ref32 nat bytes

datatype heap_answer =
    Reserved "reserved_allocation option"
  | Committed ref32
  | Aborted
  | Freed bool
  | Written

definition heap_exec :: "heap_call \<Rightarrow> heap_answer heap_op" where
  "heap_exec c =
     (case c of
        Reserve n t \<Rightarrow> sbind (reserve \<lparr>ar_block_bytes = n, ar_type_id = t\<rparr>) (\<lambda>r. sret (Reserved r))
      | Commit r \<Rightarrow> sbind (heap_commit r) (\<lambda>reference. sret (Committed reference))
      | Abort r \<Rightarrow> sseq (heap_abort r) (sret Aborted)
      | Free reference \<Rightarrow> sbind (heap_free reference) (\<lambda>f. sret (Freed f))
      | Write reference offset bs \<Rightarrow> sseq (write_payload reference offset bs) (sret Written))"

subsection \<open>The abstract allocator\<close>

definition ref_block :: "ref32 \<Rightarrow> nat" where
  "ref_block reference = unat (ref32_payload reference) - 8"

fun change_at :: "nat \<Rightarrow> (nat \<Rightarrow> blk list) \<Rightarrow> blk list \<Rightarrow> blk list" where
  "change_at p f [] = []"
| "change_at p f (b # bs) = (if p = 0 then f (fst b) @ bs else b # change_at (p - fst b) f bs)"

fun coalesce :: "blk list \<Rightarrow> blk list" where
  "coalesce (a # b # bs) =
     (if snd a = 0 \<and> snd b = 0 then coalesce ((fst a + fst b, 0) # bs) else a # coalesce (b # bs))"
| "coalesce bs = bs"

fun blocks_after :: "heap_call \<Rightarrow> heap_answer \<Rightarrow> blk list \<Rightarrow> blk list" where
  "blocks_after (Reserve n t) (Reserved (Some r)) bs = change_at (ra_block r) (taken n) bs"
| "blocks_after (Commit r) _ bs = change_at (ra_block r) (\<lambda>n. [(n, 5)]) bs"
| "blocks_after (Abort r) _ bs = coalesce (change_at (ra_block r) (\<lambda>n. [(n, 0)]) bs)"
| "blocks_after (Free reference) _ bs = coalesce (change_at (ref_block reference) (\<lambda>n. [(n, 0)]) bs)"
| "blocks_after _ _ bs = bs"

definition block_is :: "blk list \<Rightarrow> nat \<Rightarrow> nat \<Rightarrow> nat \<Rightarrow> bool" where
  "block_is bs p f room \<longleftrightarrow> list_ex (\<lambda>(c, n, g). c = p \<and> g = f \<and> room \<le> n) (placed 0 bs)"

text \<open>
  The calls a client may make: sizes and types as a plan computes them, the end of a reservation it holds, the
  free of a live object, and writes inside the payload of one.
\<close>

fun allowed :: "heap \<Rightarrow> blk list \<Rightarrow> heap_call \<Rightarrow> bool" where
  "allowed h bs (Reserve n t) \<longleftrightarrow> size_ok n"
| "allowed h bs (Commit r) \<longleftrightarrow> block_is bs (ra_block r) 1 0 \<and> type_fits h (ra_type_id r)"
| "allowed h bs (Abort r) \<longleftrightarrow> block_is bs (ra_block r) 1 0"
| "allowed h bs (Free reference) \<longleftrightarrow> reference = object_ref (ref_block reference) \<and> block_is bs (ref_block reference) 5 0"
| "allowed h bs (Write reference offset new) \<longleftrightarrow> reference = object_ref (ref_block reference) \<and>
     block_is bs (ref_block reference) 5 (header_bytes (hp_format h) + offset + length new)"

text \<open>The answers: a reservation is refused only if every free block is below 9/8 of the size asked for.\<close>

fun answers :: "blk list \<Rightarrow> heap_call \<Rightarrow> heap_answer \<Rightarrow> bool" where
  "answers bs (Reserve n t) (Reserved None) \<longleftrightarrow> list_all (\<lambda>(m, f). f = 0 \<longrightarrow> 8 * m < 9 * n) bs"
| "answers bs (Reserve n t) (Reserved (Some r)) \<longleftrightarrow> ra_type_id r = t \<and> block_is bs (ra_block r) 0 n"
| "answers bs (Commit r) (Committed reference) \<longleftrightarrow> reference = object_ref (ra_block r)"
| "answers bs (Abort r) Aborted \<longleftrightarrow> True"
| "answers bs (Free reference) (Freed f) \<longleftrightarrow> f"
| "answers bs (Write reference offset new) Written \<longleftrightarrow> True"
| "answers _ _ _ \<longleftrightarrow> False"

fun target :: "heap_call \<Rightarrow> nat option" where
  "target (Reserve n t) = None"
| "target (Commit r) = Some (ra_block r)"
| "target (Abort r) = Some (ra_block r)"
| "target (Free reference) = Some (ref_block reference)"
| "target (Write reference offset new) = Some (ref_block reference)"

text \<open>The used blocks a call is not about keep their place and their bytes.\<close>

definition spared :: "heap \<Rightarrow> blk list \<Rightarrow> heap \<Rightarrow> blk list \<Rightarrow> heap_call \<Rightarrow> bool" where
  "spared h bs h' bs' c \<longleftrightarrow>
     list_all (\<lambda>(p, b). snd b \<noteq> 0 \<and> target c \<noteq> Some p \<longrightarrow> (p, b) \<in> set (placed 0 bs') \<and> kept h h' (p, b)) (placed 0 bs)"

text \<open>A client that leaves out the calls it may not make. \<open>None\<close> is a fault of the heap.\<close>

fun run_calls :: "heap_call list \<Rightarrow> heap \<Rightarrow> blk list \<Rightarrow> (heap \<times> blk list) option" where
  "run_calls [] h bs = Some (h, bs)"
| "run_calls (c # cs) h bs =
     (if allowed h bs c then
        (case heap_exec c h of
           (Inl _, _) \<Rightarrow> None
         | (Inr a, h') \<Rightarrow> run_calls cs h' (blocks_after c a bs))
      else run_calls cs h bs)"

subsection \<open>The block list after a call\<close>

lemma change_at_eq: "shape_ok xs \<Longrightarrow> change_at (extent xs) f (xs @ b # ys) = xs @ f (fst b) @ ys"
  by (induction xs) (auto simp: size_ok_def)

lemma coalesce_settled: "settled bs \<Longrightarrow> coalesce bs = bs"
  by (induction bs rule: coalesce.induct) auto

lemma coalesce_used: "settled xs \<Longrightarrow> xs = [] \<or> snd (last xs) \<noteq> 0 \<Longrightarrow> coalesce (xs @ ys) = xs @ coalesce ys"
proof (induction xs rule: settled.induct)
  case (2 b)
  then show ?case by (cases ys) auto
qed auto

lemma coalesce_hole:
  assumes "settled ys"
  shows "coalesce ((n, 0) # ys) = (n + extent ys - extent (absorb_right ys), 0) # absorb_right ys"
proof (cases ys)
  case (Cons a us)
  obtain m f where a: "a = (m, f)" by (cases a)
  have us: "settled us" "f = 0 \<Longrightarrow> us = [] \<or> snd (hd us) \<noteq> 0" using assms Cons a by (auto simp: settled_Cons)
  show ?thesis
  proof (cases "f = 0")
    case True
    then have "settled ((n + m, 0) # us)" using us by (auto simp: settled_Cons)
    then show ?thesis using Cons a True by (simp add: absorb_right_def coalesce_settled)
  next
    case False
    then show ?thesis using Cons a assms by (simp add: absorb_right_def coalesce_settled)
  qed
qed (simp add: absorb_right_def)

lemma coalesce_freed:
  assumes "settled xs" "settled ys"
  shows "coalesce (xs @ (n, 0) # ys) = freed xs n ys"
proof (cases "xs \<noteq> [] \<and> snd (last xs) = 0")
  case False
  then have "absorb_left xs = xs" unfolding absorb_left_def by (rule if_not_P)
  moreover have "coalesce (xs @ (n, 0) # ys) = xs @ coalesce ((n, 0) # ys)" using assms(1) False by (intro coalesce_used) auto
  ultimately show ?thesis using coalesce_hole [OF assms(2), of n] absorb_extents [OF assms] by (simp add: freed_def)
next
  case True
  then obtain us p where xs: "xs = us @ [(p, 0)]" by (cases xs rule: rev_cases) auto
  have us: "settled us" "us = [] \<or> snd (last us) \<noteq> 0" using assms(1) xs by (auto simp: settled_append)
  have "coalesce (xs @ (n, 0) # ys) = us @ coalesce ((p, 0) # (n, 0) # ys)" using coalesce_used [OF us, of "(p, 0) # (n, 0) # ys"] xs by simp
  then show ?thesis using coalesce_hole [OF assms(2), of "p + n"] absorb_extents [OF assms] xs by (simp add: freed_def absorb_left_def)
qed

lemma block_is_split:
  assumes "block_is bs p f room"
  obtains xs n ys where "bs = xs @ (n, f) # ys" "p = extent xs" "room \<le> n"
proof -
  obtain n where "(p, (n, f)) \<in> set (placed 0 bs)" "room \<le> n" using assms by (auto simp: block_is_def list_ex_iff)
  with that show thesis by (metis placed_split)
qed

lemma block_is_mem: "room \<le> n \<Longrightarrow> block_is (xs @ (n, f) # ys) (extent xs) f room"
  by (simp add: block_is_def)

subsection \<open>Every call refines the allocator\<close>

definition refined :: "heap \<Rightarrow> blk list \<Rightarrow> heap_call \<Rightarrow> bool" where
  "refined h bs c \<longleftrightarrow> (\<exists>a h'. heap_exec c h = (Inr a, h') \<and> answers bs c a \<and> heap_rep h' (blocks_after c a bs) \<and>
     spared h bs h' (blocks_after c a bs) c \<and> hp_format h' = hp_format h \<and> hp_arena_bytes h' = hp_arena_bytes h)"

lemma reserve_answers:
  assumes "answers bs (Reserve n t) a"
  obtains "a = Reserved None" "list_all (\<lambda>(m, f). f = 0 \<longrightarrow> 8 * m < 9 * n) bs"
  | r where "a = Reserved (Some r)" "ra_type_id r = t" "block_is bs (ra_block r) 0 n"
proof (cases a)
  case (Reserved r)
  then show thesis using assms that by (cases r) simp_all
qed (use assms in simp_all)

lemma refinedI:
  "heap_exec c h = (Inr a, h') \<Longrightarrow> answers bs c a \<Longrightarrow> blocks_after c a bs = bs' \<Longrightarrow> heap_rep h' bs' \<Longrightarrow> spared h bs h' bs' c \<Longrightarrow>
    touches S h h' \<Longrightarrow> refined h bs c"
  by (auto simp: refined_def touches_def)

lemma sparedI:
  "(\<And>p b. (p, b) \<in> set (placed 0 bs) \<Longrightarrow> snd b \<noteq> 0 \<Longrightarrow> target c \<noteq> Some p \<Longrightarrow> (p, b) \<in> set (placed 0 bs') \<and> kept h h' (p, b)) \<Longrightarrow>
    spared h bs h' bs' c"
  by (auto simp: spared_def list_all_iff)

lemma heap_repD:
  assumes "heap_rep h bs"
  shows "shape_ok bs" "settled bs"
  using assms by (auto simp: heap_rep_def dest: blocks_repD)

lemma reserve_refined:
  assumes rep: "heap_rep h bs" and n: "size_ok n"
  shows "refined h bs (Reserve n t)"
proof -
  obtain r h' where run: "reserve \<lparr>ar_block_bytes = n, ar_type_id = t\<rparr> h = (Inr r, h')"
    and post: "case r of None \<Rightarrow> h' = h \<and> (\<forall>m. (m, 0) \<in> set bs \<longrightarrow> 8 * m < 9 * n)
     | Some a \<Rightarrow> \<exists>xs m ys. bs = xs @ (m, 0) # ys \<and> n \<le> m \<and> a = \<lparr>ra_block = extent xs, ra_type_id = t\<rparr> \<and> heap_rep h' (xs @ taken n m @ ys) \<and>
         touches (link_area (frees 0 bs) \<union> {extent xs..<extent xs + m + 8}) h h'"
    using reserve_ok [OF rep n] by blast
  have exec: "heap_exec (Reserve n t) h = (Inr (Reserved r), h')" using run by (simp add: heap_exec_def sbind_def)
  show ?thesis
  proof (cases r)
    case None
    then have "h' = h" "answers bs (Reserve n t) (Reserved r)" using post by (auto simp: list_all_iff)
    moreover have "spared h bs h bs (Reserve n t)" by (rule sparedI) (simp add: kept_def)
    ultimately show ?thesis using exec rep None by (intro refinedI [OF exec]) auto
  next
    case (Some a)
    then obtain xs m ys where bs: "bs = xs @ (m, 0) # ys" "n \<le> m" and a: "a = \<lparr>ra_block = extent xs, ra_type_id = t\<rparr>"
      and rep': "heap_rep h' (xs @ taken n m @ ys)" and t: "touches (link_area (frees 0 bs) \<union> {extent xs..<extent xs + m + 8}) h h'"
      using post by auto
    have after: "blocks_after (Reserve n t) (Reserved r) bs = xs @ taken n m @ ys"
      using Some a bs(1) change_at_eq [of xs "taken n" "(m, 0)" ys] heap_repD(1) [OF rep] by simp
    have "spared h bs h' (xs @ taken n m @ ys) (Reserve n t)"
    proof (rule sparedI)
      fix p b assume b: "(p, b) \<in> set (placed 0 bs)" "snd b \<noteq> 0"
      have "kept h h' (p, b)" using used_keeps [of xs m 0 ys] heap_repD(1) [OF rep] t b bs(1) by simp
      moreover have "extent (taken n m) = m" using bs(2) by (auto simp: taken_def)
      ultimately show "(p, b) \<in> set (placed 0 (xs @ taken n m @ ys)) \<and> kept h h' (p, b)" using b bs(1) by auto
    qed
    moreover have "answers bs (Reserve n t) (Reserved r)" using Some a bs block_is_mem by simp
    ultimately show ?thesis using refinedI [OF exec _ after rep' _ t] by blast
  qed
qed

lemma inside_keeps:
  assumes rep: "heap_rep h (xs @ (n, f) # ys)" and t: "touches {extent xs..<extent xs + n} h h'" and c: "target c = Some (extent xs)"
  shows "spared h (xs @ (n, f) # ys) h' (xs @ (n, g) # ys) c"
proof (rule sparedI)
  fix p b assume b: "(p, b) \<in> set (placed 0 (xs @ (n, f) # ys))" "snd b \<noteq> 0" "target c \<noteq> Some p"
  have "touches (link_area (frees 0 (xs @ (n, f) # ys)) \<union> {extent xs..<extent xs + n + 8}) h h'" by (rule touches_mono [OF t]) auto
  then have "kept h h' (p, b)" using used_keeps [OF heap_repD(1) [OF rep] _ b(1,2)] b(3) c by auto
  then show "(p, b) \<in> set (placed 0 (xs @ (n, g) # ys)) \<and> kept h h' (p, b)" using b c by auto
qed

lemma commit_refined:
  assumes rep: "heap_rep h bs" and c: "block_is bs (ra_block r) 1 0" "type_fits h (ra_type_id r)"
  shows "refined h bs (Commit r)"
proof -
  obtain xs n ys where bs: "bs = xs @ (n, 1) # ys" "ra_block r = extent xs" using c(1) by (rule block_is_split)
  then have r: "r = \<lparr>ra_block = extent xs, ra_type_id = ra_type_id r\<rparr>" by simp
  obtain h' where h': "heap_commit \<lparr>ra_block = extent xs, ra_type_id = ra_type_id r\<rparr> h = (Inr (object_ref (extent xs)), h')"
      "heap_rep h' (xs @ (n, 5) # ys)" "touches {extent xs..<extent xs + 12} h h'"
    using commit_ok [OF rep [unfolded bs(1)] c(2)] by blast
  have "size_ok n" "shape_ok xs" using heap_repD(1) [OF rep] bs(1) by auto
  then have "{extent xs..<extent xs + 12} \<subseteq> {extent xs..<extent xs + n}" by (auto simp: size_ok_def)
  then have sp: "spared h bs h' (xs @ (n, 5) # ys) (Commit r)"
    using inside_keeps [OF rep [unfolded bs(1)] touches_mono [OF h'(3)], of "Commit r" 5] bs by simp
  have after: "blocks_after (Commit r) a bs = xs @ (n, 5) # ys" for a using change_at_eq [OF \<open>shape_ok xs\<close>] bs by simp
  have "heap_exec (Commit r) h = (Inr (Committed (object_ref (extent xs))), h')" using h'(1) r by (simp add: heap_exec_def sbind_def)
  then show ?thesis by (rule refinedI [OF _ _ after h'(2) sp h'(3)]) (simp add: bs(2))
qed

lemma write_refined:
  assumes rep: "heap_rep h bs" and c: "reference = object_ref (ref_block reference)"
    "block_is bs (ref_block reference) 5 (header_bytes (hp_format h) + offset + length new)"
  shows "refined h bs (Write reference offset new)"
proof -
  obtain xs n ys where bs: "bs = xs @ (n, 5) # ys" "ref_block reference = extent xs" "header_bytes (hp_format h) + offset + length new \<le> n"
    using c(2) by (rule block_is_split)
  let ?s = "extent xs + header_bytes (hp_format h) + offset"
  obtain h' where h': "write_payload reference offset new h = (Inr (), h')" "heap_rep h' bs" "touches {?s..<?s + length new} h h'"
    using write_payload_ok [OF rep [unfolded bs(1)] bs(3)] c(1) bs(1,2) by metis
  have "{?s..<?s + length new} \<subseteq> {extent xs..<extent xs + n}" using bs(3) by auto
  note t = touches_mono [OF h'(3) this]
  have "spared h bs h' bs (Write reference offset new)" using inside_keeps [OF rep [unfolded bs(1)] t, of "Write reference offset new" 5] bs by simp
  moreover have "heap_exec (Write reference offset new) h = (Inr Written, h')" using h'(1) by (simp add: heap_exec_def sseq_def sbind_def)
  ultimately show ?thesis using refinedI [OF _ _ _ h'(2) _ h'(3)] by simp
qed

lemma release_refined:
  assumes rep: "heap_rep h bs" and bs: "bs = xs @ (n, f) # ys" "f \<noteq> 0" "target c = Some (extent xs)"
    and after: "blocks_after c a bs = coalesce (change_at (extent xs) (\<lambda>n. [(n, 0)]) bs)" and a: "answers bs c a"
    and run: "heap_exec c h = (Inr a, h')" "heap_rep h' (freed xs n ys)"
      "touches (link_area (frees 0 bs) \<union> {extent (absorb_left xs)..<extent xs + n + extent ys - extent (absorb_right ys) + 8}) h h'"
  shows "refined h bs c"
proof -
  have shape: "shape_ok (xs @ (n, f) # ys)" and st: "settled xs" "settled ys"
    using heap_repD [OF rep] settled_parts unfolding bs(1) by blast+
  have list: "blocks_after c a bs = freed xs n ys"
    using after change_at_eq [of xs "\<lambda>n. [(n, 0)]" "(n, f)" ys] shape coalesce_freed [OF st] bs(1) by simp
  have "spared h bs h' (freed xs n ys) c"
    unfolding bs(1)
  proof (rule sparedI)
    fix p b assume b: "(p, b) \<in> set (placed 0 (xs @ (n, f) # ys))" "snd b \<noteq> 0" "target c \<noteq> Some p"
    then have p: "p \<noteq> extent xs" using bs(3) by simp
    show "(p, b) \<in> set (placed 0 (freed xs n ys)) \<and> kept h h' (p, b)"
      using freed_beside [OF shape st b(1,2) p] free_keeps [OF shape st b(1,2) p run(3) [unfolded bs(1)]] by blast
  qed
  then show ?thesis by (rule refinedI [OF run(1) a list run(2) _ run(3)])
qed

lemma abort_refined:
  assumes rep: "heap_rep h bs" and c: "block_is bs (ra_block r) 1 0"
  shows "refined h bs (Abort r)"
proof -
  obtain xs n ys where bs: "bs = xs @ (n, 1) # ys" "ra_block r = extent xs" using c by (rule block_is_split)
  then have r: "r = \<lparr>ra_block = extent xs, ra_type_id = ra_type_id r\<rparr>" by simp
  obtain h' where h': "heap_abort \<lparr>ra_block = extent xs, ra_type_id = ra_type_id r\<rparr> h = (Inr (), h')" "heap_rep h' (freed xs n ys)"
      "touches (link_area (frees 0 bs) \<union> {extent (absorb_left xs)..<extent xs + n + extent ys - extent (absorb_right ys) + 8}) h h'"
    using abort_ok [OF rep [unfolded bs(1)]] bs(1) by blast
  then have "heap_exec (Abort r) h = (Inr Aborted, h')" using r by (simp add: heap_exec_def sseq_def sbind_def)
  then show ?thesis by (intro release_refined [OF rep bs(1) _ _ _ _ _ h'(2,3)]) (use bs(2) in simp_all)
qed

lemma free_refined:
  assumes rep: "heap_rep h bs" and c: "reference = object_ref (ref_block reference)" "block_is bs (ref_block reference) 5 0"
  shows "refined h bs (Free reference)"
proof -
  obtain xs n ys where bs: "bs = xs @ (n, 5) # ys" "ref_block reference = extent xs" using c(2) by (rule block_is_split)
  obtain h' where h': "heap_free reference h = (Inr True, h')" "heap_rep h' (freed xs n ys)"
      "touches (link_area (frees 0 bs) \<union> {extent (absorb_left xs)..<extent xs + n + extent ys - extent (absorb_right ys) + 8}) h h'"
    using heap_free_ok [OF rep [unfolded bs(1)]] c(1) bs by metis
  then have "heap_exec (Free reference) h = (Inr (Freed True), h')" by (simp add: heap_exec_def sbind_def)
  then show ?thesis by (intro release_refined [OF rep bs(1) _ _ _ _ _ h'(2,3)]) (use bs(2) in simp_all)
qed

lemma call_refined:
  assumes "heap_rep h bs" "allowed h bs c"
  shows "refined h bs c"
  using assms by (cases c) (simp_all add: reserve_refined commit_refined abort_refined free_refined write_refined)

subsection \<open>Runs\<close>

lemma diagnostic_rep:
  assumes rep: "heap_rep h bs"
  shows "diagnostic_of h = \<lparr>hd_total_free = free_bytes bs, hd_largest_free_block = largest_free bs, hd_live_handles = live_count bs, hd_retired_handles = 0\<rparr>"
proof -
  have brep: "blocks_rep h bs" and live: "hp_live_objects h = live_count bs" using rep by (auto simp: heap_rep_def)
  note r = blocks_repD [OF brep]
  have "16 * length bs \<le> hp_arena_bytes h" using length_extent [OF r(3)] r(2) by simp
  then have "length bs < hp_arena_bytes h div MINIMUM_BLOCK_BYTES + 1" by (simp add: MINIMUM_BLOCK_BYTES_def)
  then have "diagnostic_loop (hp_arena_bytes h div MINIMUM_BLOCK_BYTES + 1) 0 0 h = largest_free bs"
    using diagnostic_scan [OF rep_blocks [OF brep] subset_refl r(5,3), of _ 0] r(2) by (simp del: diagnostic_loop.simps)
  then show ?thesis using r(7) live by (simp add: diagnostic_of_def)
qed

lemma run_calls_rep:
  assumes "heap_rep h bs"
  shows "\<exists>h' bs'. run_calls cs h bs = Some (h', bs') \<and> heap_rep h' bs'"
  using assms
proof (induction cs arbitrary: h bs)
  case (Cons c cs)
  show ?case
  proof (cases "allowed h bs c")
    case True
    then obtain a h' where "heap_exec c h = (Inr a, h')" "heap_rep h' (blocks_after c a bs)"
      using call_refined [OF Cons.prems] unfolding refined_def by blast
    then show ?thesis using True Cons.IH by simp
  qed (use Cons in simp)
qed simp

lemma run_calls_spare:
  assumes "heap_rep h bs" "(p, b) \<in> set (placed 0 bs)" "snd b \<noteq> 0" "\<forall>c\<in>set cs. target c \<noteq> Some p" "run_calls cs h bs = Some (h', bs')"
  shows "heap_rep h' bs' \<and> (p, b) \<in> set (placed 0 bs') \<and> kept h h' (p, b) \<and> hp_format h' = hp_format h \<and> hp_arena_bytes h' = hp_arena_bytes h"
  using assms
proof (induction cs arbitrary: h bs)
  case (Cons c cs)
  show ?case
  proof (cases "allowed h bs c")
    case True
    then obtain a k where k: "heap_exec c h = (Inr a, k)" "heap_rep k (blocks_after c a bs)" "spared h bs k (blocks_after c a bs) c"
      "hp_format k = hp_format h" "hp_arena_bytes k = hp_arena_bytes h"
      using call_refined [OF Cons.prems(1)] unfolding refined_def by blast
    have sp: "(p, b) \<in> set (placed 0 (blocks_after c a bs))" "kept h k (p, b)"
      using k(3) Cons.prems(2-4) by (auto simp: spared_def list_all_iff)
    have "run_calls cs k (blocks_after c a bs) = Some (h', bs')" using True k(1) Cons.prems(5) by simp
    then show ?thesis using Cons.IH [OF k(2) sp(1) Cons.prems(3)] Cons.prems(4) sp(2) k(4,5) by (simp add: kept_def)
  qed (use Cons in simp)
qed (simp add: kept_def)

lemma kept_slice:
  assumes "kept h h' (p, b)" "8 \<le> d" "d + len \<le> fst b" "length (hp_arena h') = length (hp_arena h)"
  shows "take len (drop (p + d) (hp_arena h')) = take len (drop (p + d) (hp_arena h))"
  using assms by (intro slice_cong) (auto simp: kept_def)

subsection \<open>Properties\<close>

text \<open>
  C5. On a heap that represents a list of blocks, every call a client may make succeeds and does what the abstract
  allocator does. A reservation gets a free block of at least the size asked for and returns the
  rest of it to the free list; it is refused only if every free block is below 9/8 of that size. A commit turns the
  reservation into a live object, an abort or a free merges the block with the free blocks beside
  it, and a write changes only the payload of its object. All other used blocks keep their place, size
  and state, and their bytes from the ninth on (the first eight belong to the header).
\<close>

theorem heap_calls_refine:
  assumes "heap_rep h bs" "allowed h bs c"
  shows "\<exists>a h'. heap_exec c h = (Inr a, h') \<and> answers bs c a \<and> heap_rep h' (blocks_after c a bs) \<and>
    spared h bs h' (blocks_after c a bs) c"
  using call_refined [OF assms] by (auto simp: refined_def)

definition example_plan :: storage_plan where
  "example_plan = \<lparr>heap_arena_bytes = 64, heap_allocator_bytes = 0, frame_arena_bytes = 0, frame_record_bytes = 0, task_scheduler_bytes = 0,
     channel_bytes = 0, static_bytes = 0, type_initialization_bytes = 0, external_root_bytes = 0, pending_state_bytes = 0,
     machine_fixed_bytes = 0, header_format = Compact 4 3, mutable_resident_bytes = 64\<rparr>"

lemma example_heap: "\<exists>h. heap_new example_plan = Inr h \<and> heap_rep h [(64, 0)] \<and> hp_format h = Compact 4 3"
  using heap_new_ok [of example_plan 1] by (simp add: example_plan_def format_fits_def BLOCK_ALIGNMENT_def)

theorem heap_calls_refine_witness:
  "\<exists>h a h'. heap_new example_plan = Inr h \<and> heap_rep h [(64, 0)] \<and> allowed h [(64, 0)] (Reserve 24 0) \<and> heap_exec (Reserve 24 0) h = (Inr a, h') \<and>
    answers [(64, 0)] (Reserve 24 0) a \<and> heap_rep h' (blocks_after (Reserve 24 0) a [(64, 0)])"
proof -
  obtain h where h: "heap_new example_plan = Inr h" "heap_rep h [(64, 0)]" using example_heap by blast
  have ok: "allowed h [(64, 0)] (Reserve 24 0)" by (simp add: size_ok_def)
  show ?thesis using heap_calls_refine [OF h(2) ok] h ok by blast
qed

text \<open>
  C22. A heap made by a plan whose header format fits its arena starts as one free block, and no sequence of
  allowed calls ever makes it fault: it always represents the list of blocks of the abstract allocator, and the
  diagnostic reports exactly the free bytes, the largest free block and the live objects of that list.
\<close>

theorem heap_runs_exact:
  assumes "32 \<le> heap_arena_bytes plan" "16 dvd heap_arena_bytes plan" "heap_arena_bytes plan < 2 ^ 30"
    "format_fits (header_format plan) (heap_arena_bytes plan) type_count"
  shows "\<exists>h\<^sub>0. heap_new plan = Inr h\<^sub>0 \<and>
    (\<forall>cs. \<exists>h bs. run_calls cs h\<^sub>0 [(heap_arena_bytes plan, 0)] = Some (h, bs) \<and> heap_rep h bs \<and>
       diagnostic_of h = \<lparr>hd_total_free = free_bytes bs, hd_largest_free_block = largest_free bs, hd_live_handles = live_count bs,
         hd_retired_handles = 0\<rparr>)"
  using heap_new_ok [OF assms] run_calls_rep diagnostic_rep by meson

theorem heap_runs_exact_witness:
  "\<exists>h\<^sub>0 h bs. heap_new example_plan = Inr h\<^sub>0 \<and> run_calls [Reserve 24 0, Commit \<lparr>ra_block = 0, ra_type_id = 0\<rparr>, Free (object_ref 0)] h\<^sub>0 [(64, 0)] = Some (h, bs) \<and>
    hd_total_free (diagnostic_of h) = free_bytes bs"
proof -
  have p: "32 \<le> heap_arena_bytes example_plan" "16 dvd heap_arena_bytes example_plan" "heap_arena_bytes example_plan < 2 ^ 30"
    "format_fits (header_format example_plan) (heap_arena_bytes example_plan) 1" "heap_arena_bytes example_plan = 64"
    by (simp_all add: example_plan_def format_fits_def BLOCK_ALIGNMENT_def)
  show ?thesis using heap_runs_exact [OF p(1-4)] unfolding p(5) by (metis heap_diagnostic.select_convs(1))
qed

lemma read_kept:
  assumes rep: "heap_rep k bs" and b: "(p, n, 5) \<in> set (placed 0 bs)" and cs: "\<forall>c\<in>set cs. target c \<noteq> Some p"
    and run: "run_calls cs k bs = Some (h', bs')" and fit: "header_bytes (hp_format k) + offset + len \<le> n" and len: "len \<le> 8"
  shows "read_payload (object_ref p) offset len h' =
    Inr (take len (drop (p + header_bytes (hp_format k) + offset) (hp_arena k)) @ replicate (8 - len) 0)"
proof -
  have post: "heap_rep h' bs'" "(p, n, 5) \<in> set (placed 0 bs')" "kept k h' (p, n, 5)" "hp_format h' = hp_format k" "length (hp_arena h') = length (hp_arena k)"
    using run_calls_spare [OF rep b _ cs run] rep by (auto simp: heap_rep_def blocks_rep_def arena_ok_def)
  obtain us vs where bs': "bs' = us @ (n, 5) # vs" "p = extent us" using placed_split [OF post(2)] by blast
  have "take len (drop (p + (header_bytes (hp_format k) + offset)) (hp_arena h')) = take len (drop (p + (header_bytes (hp_format k) + offset)) (hp_arena k))"
    using header_bytes_range(1) [of "hp_format k"] fit by (intro kept_slice [OF post(3) _ _ post(5)]) simp_all
  then show ?thesis using read_payload_ok [of h' us n vs offset len] post(1,4) bs' fit len by (simp add: add.assoc)
qed

text \<open>
  C21. A write to a live object that does not fit behind the header of its block is rejected and changes nothing. Any other
  write succeeds, whatever its length. After any sequence of calls on other blocks every read inside the
  written range returns the bytes written there, and every read of the object outside that range returns what it returned
  before the write: reservations, commits, aborts, frees and writes in between never reach the object. Reads are at
  most eight bytes long, as in the code.
\<close>

theorem payload_survives:
  assumes "heap_rep h bs" "(p, n, 5) \<in> set (placed 0 bs)" "\<forall>c\<in>set cs. target c \<noteq> Some p"
  shows "if n < header_bytes (hp_format h) + offset + length new
    then write_payload (object_ref p) offset new h = (Inl CorruptHeap, h)
    else \<exists>h\<^sub>1 h\<^sub>2 bs\<^sub>2. write_payload (object_ref p) offset new h = (Inr (), h\<^sub>1) \<and> run_calls cs h\<^sub>1 bs = Some (h\<^sub>2, bs\<^sub>2) \<and>
      (\<forall>i len. len \<le> 8 \<longrightarrow> i + len \<le> length new \<longrightarrow>
        read_payload (object_ref p) (offset + i) len h\<^sub>2 = Inr (take len (drop i new) @ replicate (8 - len) 0)) \<and>
      (\<forall>i len. len \<le> 8 \<longrightarrow> header_bytes (hp_format h) + i + len \<le> n \<longrightarrow> i + len \<le> offset \<or> offset + length new \<le> i \<longrightarrow>
        read_payload (object_ref p) i len h\<^sub>2 = read_payload (object_ref p) i len h)"
proof (cases "n < header_bytes (hp_format h) + offset + length new")
  case True
  then show ?thesis using write_payload_rejected assms(1,2) by (auto elim!: placed_split)
next
  case False
  let ?b = "p + header_bytes (hp_format h)"
  obtain xs ys where bs: "bs = xs @ (n, 5) # ys" "p = extent xs" using assms(2) by (rule placed_split)
  then obtain k where k: "write_payload (object_ref p) offset new h = (Inr (), k)" "heap_rep k bs"
      "touches {?b + offset..<?b + offset + length new} h k" "take (length new) (drop (?b + offset) (hp_arena k)) = new"
    using write_payload_ok [of h xs n ys offset new] assms(1) False by auto
  obtain h' bs' where run: "run_calls cs k bs = Some (h', bs')" using run_calls_rep [OF k(2)] by blast
  have fmt: "hp_format k = hp_format h" using k(3) by (simp add: touches_def)
  note reads = read_kept [OF k(2) assms(2,3) run, unfolded fmt]
  have "read_payload (object_ref p) (offset + i) len h' = Inr (take len (drop i new) @ replicate (8 - len) 0)"
    if "len \<le> 8" "i + len \<le> length new" for i len
  proof -
    have "take len (drop i new) = take len (drop (?b + (offset + i)) (hp_arena k))"
      using that(2) by (subst k(4) [symmetric]) (simp add: drop_take min_def ac_simps)
    then show ?thesis using reads [of "offset + i" len] that False by simp
  qed
  moreover have "read_payload (object_ref p) i len h' = read_payload (object_ref p) i len h"
    if i: "len \<le> 8" "header_bytes (hp_format h) + i + len \<le> n" "i + len \<le> offset \<or> offset + length new \<le> i" for i len
  proof -
    have "take len (drop (?b + i) (hp_arena k)) = take len (drop (?b + i) (hp_arena h))"
      using k(3) i(3) by (intro slice_cong) (auto simp: touches_def)
    then show ?thesis using reads [OF i(2,1)] read_payload_ok [OF assms(1) [unfolded bs(1)] i(2,1)] bs(2) by simp
  qed
  ultimately show ?thesis using k(1) run False by auto
qed

theorem payload_survives_witness:
  "\<exists>h h\<^sub>1 h\<^sub>2 bs\<^sub>2. heap_rep h [(24, 5), (40, 0)] \<and> write_payload (object_ref 0) 2 [1, 2, 3, 4, 5, 6, 7, 8, 9, 10] h = (Inr (), h\<^sub>1) \<and>
    run_calls [Reserve 16 0] h\<^sub>1 [(24, 5), (40, 0)] = Some (h\<^sub>2, bs\<^sub>2) \<and>
    read_payload (object_ref 0) 10 2 h\<^sub>2 = Inr ([9, 10] @ replicate 6 0)"
proof -
  obtain h\<^sub>0 where h\<^sub>0: "heap_rep h\<^sub>0 [(64, 0)]" "hp_format h\<^sub>0 = Compact 4 3"
    using example_heap by blast
  have "refined h\<^sub>0 [(64, 0)] (Reserve 24 0)" by (rule reserve_refined [OF h\<^sub>0(1)]) (simp add: size_ok_def)
  then obtain a k where a: "answers [(64, 0)] (Reserve 24 0) a" "heap_rep k (blocks_after (Reserve 24 0) a [(64, 0)])" "hp_format k = Compact 4 3"
    using h\<^sub>0(2) by (auto simp: refined_def)
  then have k: "heap_rep k ([] @ (24, 1) # [(40, 0)])"
    by (auto simp: block_is_def taken_def split: option.splits elim!: reserve_answers)
  have "type_fits k 0" using a(3) by (simp add: type_fits_def)
  then obtain h where h: "heap_rep h [(24, 5), (40, 0)]" "hp_format h = Compact 4 3"
    using commit_ok [OF k] a(3) by (fastforce simp: touches_def)
  let ?new = "[1, 2, 3, 4, 5, 6, 7, 8, 9, 10] :: bytes"
  have room: "\<not> 24 < header_bytes (hp_format h) + 2 + length ?new" using h(2) by (simp add: header_bytes_def BLOCK_HEADER_BYTES_def)
  have "(0, 24, 5) \<in> set (placed 0 [(24, 5), (40, 0)])" "\<forall>c\<in>set [Reserve 16 0]. target c \<noteq> Some 0" by simp_all
  from payload_survives [OF h(1) this, of 2 ?new] obtain h\<^sub>1 h\<^sub>2 bs\<^sub>2 where
    "write_payload (object_ref 0) 2 ?new h = (Inr (), h\<^sub>1)" "run_calls [Reserve 16 0] h\<^sub>1 [(24, 5), (40, 0)] = Some (h\<^sub>2, bs\<^sub>2)"
    and r: "\<forall>i len. len \<le> 8 \<longrightarrow> i + len \<le> length ?new \<longrightarrow>
        read_payload (object_ref 0) (2 + i) len h\<^sub>2 = Inr (take len (drop i ?new) @ replicate (8 - len) 0)"
    unfolding if_not_P [OF room] by blast
  moreover have "read_payload (object_ref 0) 10 2 h\<^sub>2 = Inr ([9, 10] @ replicate 6 0)" using r [rule_format, of 2 8] by simp
  ultimately show ?thesis using h(1) by blast
qed

end
