(* ===== verification/Terminal_Replication.thy ===== *)
theory Terminal_Replication
  imports Bytes Fifo
begin

text \<open>
  The replicated state of the terminal: cells, changes, deltas and snapshots, and the journal of committed
  deltas (\<open>src/src/terminal/replication.rs\<close>; the cell, position and rectangle types of
  \<open>src/src/terminal/state.rs\<close>). A client's copy of the screen is a \<open>terminal_view\<close>; \<open>apply_change\<close> is
  what \<open>docs/architecture/host-neutral-session-api.md\<close> asks of a client.
\<close>

definition TERMINAL_HISTORY_ROWS :: nat where "TERMINAL_HISTORY_ROWS = 512"
definition TERMINAL_WIDTH :: nat where "TERMINAL_WIDTH = 51"
definition TERMINAL_HEIGHT :: nat where "TERMINAL_HEIGHT = 19"
definition TERMINAL_PALETTE_SIZE :: nat where "TERMINAL_PALETTE_SIZE = 16"
definition CELL_COUNT :: nat where "CELL_COUNT = TERMINAL_WIDTH * TERMINAL_HEIGHT"
definition DEFAULT_FOREGROUND :: nat where "DEFAULT_FOREGROUND = 15"
definition DEFAULT_BACKGROUND :: nat where "DEFAULT_BACKGROUND = 0"

datatype terminal_error =
  InvalidPosition | InvalidRectangle | InvalidUnicodeScalar | InvalidPaletteIndex | PatchOutOfBounds
| ScrollOutOfBounds | InvalidConfig | TerminalPanicked

record terminal_cell =
  code_point :: nat
  cell_foreground :: nat
  cell_background :: nat

definition validate_palette :: "nat \<Rightarrow> terminal_error + unit" where
  "validate_palette i = (if TERMINAL_PALETTE_SIZE \<le> i then Inl InvalidPaletteIndex else Inr ())"

definition cell_new :: "nat \<Rightarrow> nat \<Rightarrow> nat \<Rightarrow> terminal_error + terminal_cell" where
  "cell_new scalar fg bg =
     (if \<not> is_scalar scalar then Inl InvalidUnicodeScalar
      else rbind (validate_palette fg) (\<lambda>_. rbind (validate_palette bg) (\<lambda>_.
        Inr \<lparr>code_point = scalar, cell_foreground = fg, cell_background = bg\<rparr>)))"

definition cell_blank :: "nat \<Rightarrow> nat \<Rightarrow> terminal_cell" where
  "cell_blank fg bg = \<lparr>code_point = 32, cell_foreground = fg, cell_background = bg\<rparr>"

definition default_cell :: terminal_cell where
  "default_cell = cell_blank DEFAULT_FOREGROUND DEFAULT_BACKGROUND"

record terminal_position =
  pos_x :: nat
  pos_y :: nat

definition position_new :: "nat \<Rightarrow> nat \<Rightarrow> terminal_error + terminal_position" where
  "position_new x y =
     (if TERMINAL_WIDTH \<le> x \<or> TERMINAL_HEIGHT \<le> y then Inl InvalidPosition else Inr \<lparr>pos_x = x, pos_y = y\<rparr>)"

record terminal_rectangle =
  rect_x :: nat
  rect_y :: nat
  rect_width :: nat
  rect_height :: nat

definition rectangle_new :: "nat \<Rightarrow> nat \<Rightarrow> nat \<Rightarrow> nat \<Rightarrow> terminal_error + terminal_rectangle" where
  "rectangle_new x y width height =
     (if width = 0 \<or> height = 0 \<or> TERMINAL_WIDTH \<le> x \<or> TERMINAL_HEIGHT \<le> y \<or>
         (case checked_add 16 x width of None \<Rightarrow> True | Some e \<Rightarrow> TERMINAL_WIDTH < e) \<or>
         (case checked_add 16 y height of None \<Rightarrow> True | Some e \<Rightarrow> TERMINAL_HEIGHT < e)
      then Inl InvalidRectangle
      else Inr \<lparr>rect_x = x, rect_y = y, rect_width = width, rect_height = height\<rparr>)"

subsection \<open>Changes and the journal\<close>

definition MAXIMUM_PENDING_CHANGES :: nat where "MAXIMUM_PENDING_CHANGES = 256"
definition MAXIMUM_ACCUMULATED_CHANGES :: nat where "MAXIMUM_ACCUMULATED_CHANGES = 4096"
definition MAXIMUM_ACCUMULATED_CELLS :: nat where "MAXIMUM_ACCUMULATED_CELLS = 8192"

datatype terminal_change =
  Patch nat "terminal_cell list"
| Fill nat nat nat nat terminal_cell
| Scroll nat terminal_cell
| Cursor terminal_position bool
| Reset
| HistoryAppend nat "terminal_cell list"
| HistoryReplace nat "terminal_cell list"

record terminal_delta =
  base_revision :: nat
  target_revision :: nat
  delta_changes :: "terminal_change list"

record terminal_snapshot =
  snap_revision :: nat
  snap_cells :: "terminal_cell list"
  snap_cursor :: terminal_position
  snap_cursor_visible :: bool
  snap_history_start :: nat
  snap_history_cells :: "terminal_cell list"

datatype terminal_commit = CommitUnchanged nat | Committed terminal_delta

datatype terminal_update = UpdateUnchanged nat | UpdateDelta terminal_delta | UpdateFull terminal_snapshot

record replication_state =
  rep_revision :: nat
  rep_journal_capacity :: nat
  rep_pending :: "terminal_change list"
  rep_journal :: "terminal_delta list"
  rep_requires_full :: bool

definition replication_new :: "nat \<Rightarrow> replication_state" where
  "replication_new capacity =
     \<lparr>rep_revision = 0, rep_journal_capacity = capacity, rep_pending = [], rep_journal = [], rep_requires_full = False\<rparr>"

definition joined_patch :: "terminal_change \<Rightarrow> terminal_change list \<Rightarrow> terminal_change option" where
  "joined_patch change pending =
     (case change of
        Patch start cells \<Rightarrow>
          (if pending = [] then None
           else (case last pending of
                   Patch previous_start previous_cells \<Rightarrow>
                     if previous_start + length previous_cells = start
                     then Some (Patch previous_start (previous_cells @ cells)) else None
                 | _ \<Rightarrow> None))
      | _ \<Rightarrow> None)"

definition record_change :: "terminal_change \<Rightarrow> replication_state \<Rightarrow> replication_state" where
  "record_change change r =
     (if rep_requires_full r then r
      else
        (case joined_patch change (rep_pending r) of
           Some joined \<Rightarrow> r\<lparr>rep_pending := butlast (rep_pending r) @ [joined]\<rparr>
         | None \<Rightarrow>
             (let pending = rep_pending r @ [change] in
              if MAXIMUM_PENDING_CHANGES < length pending then r\<lparr>rep_pending := [], rep_requires_full := True\<rparr>
              else r\<lparr>rep_pending := pending\<rparr>)))"

fun is_history :: "terminal_change \<Rightarrow> bool" where
  "is_history (HistoryAppend _ _) = True"
| "is_history (HistoryReplace _ _) = True"
| "is_history _ = False"

definition record_reset :: "replication_state \<Rightarrow> replication_state" where
  "record_reset r = record_change Reset (r\<lparr>rep_pending := filter is_history (rep_pending r)\<rparr>)"

fun encoded_cell_count :: "terminal_change \<Rightarrow> nat" where
  "encoded_cell_count (Patch _ cells) = length cells"
| "encoded_cell_count (HistoryAppend _ cells) = length cells"
| "encoded_cell_count (HistoryReplace _ cells) = length cells"
| "encoded_cell_count (Fill _ _ _ _ _) = 1"
| "encoded_cell_count (Scroll _ _) = 1"
| "encoded_cell_count (Cursor _ _) = 0"
| "encoded_cell_count Reset = 0"

definition encoded_cells :: "terminal_change list \<Rightarrow> nat" where
  "encoded_cells changes = sum_list (map encoded_cell_count changes)"

fun trim_journal :: "nat \<Rightarrow> terminal_delta list \<Rightarrow> terminal_delta list" where
  "trim_journal capacity [] = []"
| "trim_journal capacity (d # ds) =
     (if capacity < length (d # ds) then trim_journal capacity ds else d # ds)"

definition replication_commit :: "terminal_cell list option \<Rightarrow> terminal_position \<Rightarrow> bool \<Rightarrow> nat \<Rightarrow> terminal_cell list \<Rightarrow>
    (replication_state, terminal_error, terminal_commit) smonad" where
  "replication_commit full_cells cursor visible history_start history_cells r =
     (case (if rep_requires_full r
            then (case full_cells of
                    None \<Rightarrow> Inl TerminalPanicked
                  | Some cells \<Rightarrow>
                      Inr (r\<lparr>rep_pending := [Reset, Patch 0 cells, HistoryReplace history_start history_cells, Cursor cursor visible],
                             rep_requires_full := False\<rparr>))
            else Inr r) of
        Inl e \<Rightarrow> (Inl e, r)
      | Inr r \<Rightarrow>
          if rep_pending r = [] then (Inr (CommitUnchanged (rep_revision r)), r)
          else
            (case checked_add 64 (rep_revision r) 1 of
               None \<Rightarrow> (Inl TerminalPanicked, r)
             | Some revision \<Rightarrow>
                 (let delta = \<lparr>base_revision = rep_revision r, target_revision = revision, delta_changes = rep_pending r\<rparr>;
                      journal = (if MAXIMUM_ACCUMULATED_CELLS < encoded_cells (delta_changes delta) then []
                                 else rep_journal r @ [delta]) in
                  (Inr (Committed delta),
                   r\<lparr>rep_revision := revision, rep_pending := [],
                      rep_journal := trim_journal (rep_journal_capacity r) journal\<rparr>))))"

fun delta_loop :: "nat \<Rightarrow> nat \<Rightarrow> nat \<Rightarrow> terminal_change list \<Rightarrow> nat \<Rightarrow> terminal_delta list \<Rightarrow> terminal_update option" where
  "delta_loop revision base expected changes cells [] = None"
| "delta_loop revision base expected changes cells (d # ds) =
     (if target_revision d \<le> expected then delta_loop revision base expected changes cells ds
      else if base_revision d \<noteq> expected then None
      else if MAXIMUM_ACCUMULATED_CHANGES < length changes + length (delta_changes d) then None
      else
        (let cells = cells + encoded_cells (delta_changes d) in
         if MAXIMUM_ACCUMULATED_CELLS < cells then None
         else
           (let changes = changes @ delta_changes d in
            if target_revision d = revision
            then Some (UpdateDelta \<lparr>base_revision = base, target_revision = revision, delta_changes = changes\<rparr>)
            else delta_loop revision base (target_revision d) changes cells ds)))"

definition delta_since :: "nat \<Rightarrow> replication_state \<Rightarrow> terminal_update option" where
  "delta_since base r =
     (if base = rep_revision r then Some (UpdateUnchanged (rep_revision r))
      else if rep_revision r < base then None
      else delta_loop (rep_revision r) base base [] 0 (rep_journal r))"

subsection \<open>A client's copy\<close>

record terminal_view =
  v_cells :: "terminal_cell list"
  v_cursor :: terminal_position
  v_visible :: bool
  v_history_start :: nat
  v_history :: "terminal_cell list"

definition overwrite :: "nat \<Rightarrow> 'a list \<Rightarrow> 'a list \<Rightarrow> 'a list" where
  "overwrite start new xs = take start xs @ new @ drop (start + length new) xs"

definition fill_cells :: "nat \<Rightarrow> nat \<Rightarrow> nat \<Rightarrow> nat \<Rightarrow> 'a \<Rightarrow> 'a list \<Rightarrow> 'a list" where
  "fill_cells x y width height c =
     fold (\<lambda>row. fold (\<lambda>column xs. xs[row * TERMINAL_WIDTH + column := c]) [x..<x + width]) [y..<y + height]"

text \<open>Rows over the capacity leave at the front; the history start counts them.\<close>

function evict :: "nat \<Rightarrow> 'a list \<Rightarrow> nat \<times> 'a list" where
  "evict start h =
     (if TERMINAL_HISTORY_ROWS * TERMINAL_WIDTH < length h
      then evict (wrapping_add 64 start 1) (drop TERMINAL_WIDTH h) else (start, h))"
  by auto

termination
  by (relation "measure (length \<circ> snd)") (auto simp: TERMINAL_WIDTH_def)

declare evict.simps [simp del]

fun apply_change :: "terminal_view \<Rightarrow> terminal_change \<Rightarrow> terminal_view" where
  "apply_change v (Patch start cells) = v\<lparr>v_cells := overwrite start cells (v_cells v)\<rparr>"
| "apply_change v (Fill x y width height c) = v\<lparr>v_cells := fill_cells x y width height c (v_cells v)\<rparr>"
| "apply_change v (Scroll rows c) =
     v\<lparr>v_cells := drop (rows * TERMINAL_WIDTH) (v_cells v) @ replicate (rows * TERMINAL_WIDTH) c\<rparr>"
| "apply_change v (Cursor position visible) = v\<lparr>v_cursor := position, v_visible := visible\<rparr>"
| "apply_change v Reset =
     v\<lparr>v_cells := replicate CELL_COUNT default_cell, v_cursor := \<lparr>pos_x = 0, pos_y = 0\<rparr>, v_visible := True\<rparr>"
| "apply_change v (HistoryAppend first_row cells) =
     (let (start, history) = evict (v_history_start v) (v_history v @ cells) in
      v\<lparr>v_history_start := start, v_history := history\<rparr>)"
| "apply_change v (HistoryReplace first_row cells) = v\<lparr>v_history_start := first_row, v_history := cells\<rparr>"

definition apply_changes :: "terminal_view \<Rightarrow> terminal_change list \<Rightarrow> terminal_view" where
  "apply_changes = foldl apply_change"

definition snapshot_view :: "terminal_snapshot \<Rightarrow> terminal_view" where
  "snapshot_view s =
     \<lparr>v_cells = snap_cells s, v_cursor = snap_cursor s, v_visible = snap_cursor_visible s,
      v_history_start = snap_history_start s, v_history = snap_history_cells s\<rparr>"

lemma apply_changes_simps [simp]:
  "apply_changes v [] = v" "apply_changes v (c # cs) = apply_changes (apply_change v c) cs"
  "apply_changes v (cs @ ds) = apply_changes (apply_changes v cs) ds"
  by (simp_all add: apply_changes_def)

end
