(* ===== verification/Terminal_Input.thy ===== *)
theory Terminal_Input
  imports Bytes
begin

text \<open>
  The input queue of the terminal (\<open>src/src/terminal/input.rs\<close>): key codes, modifiers, the bounded queue of
  key and text events. Text is its list of scalars.
\<close>

datatype terminal_input_error = InvalidLimits | InvalidKey | InvalidModifiers | QueueFull | TextTooLarge

record terminal_input_limits =
  maximum_events :: nat
  maximum_text_code_points :: nat

definition input_limits_new :: "nat \<Rightarrow> nat \<Rightarrow> terminal_input_error + terminal_input_limits" where
  "input_limits_new events code_points =
     (if events = 0 \<or> code_points = 0 then Inl InvalidLimits
      else Inr \<lparr>maximum_events = events, maximum_text_code_points = code_points\<rparr>)"

definition default_input_limits :: terminal_input_limits where
  "default_input_limits = \<lparr>maximum_events = 256, maximum_text_code_points = 4096\<rparr>"

datatype terminal_key =
  KeyEscape | KeyBackspace | KeyTab | KeyEnter | KeyC | KeyS | KeyU | KeyT | KeyX | KeyInsert | KeyDelete
    | KeyHome | KeyEnd | KeyPageUp | KeyPageDown | KeyUp | KeyLeft | KeyDown | KeyRight | KeyF1 | KeyF2
    | KeyF3 | KeyF4 | KeyF5 | KeyF6 | KeyF7 | KeyF8 | KeyF9 | KeyF10 | KeyF11 | KeyF12

fun key_code :: "terminal_key \<Rightarrow> u16" where
  "key_code KeyEscape = 1"
| "key_code KeyBackspace = 8"
| "key_code KeyTab = 9"
| "key_code KeyEnter = 13"
| "key_code KeyC = 67"
| "key_code KeyS = 83"
| "key_code KeyU = 85"
| "key_code KeyT = 84"
| "key_code KeyX = 88"
| "key_code KeyInsert = 256"
| "key_code KeyDelete = 257"
| "key_code KeyHome = 258"
| "key_code KeyEnd = 259"
| "key_code KeyPageUp = 260"
| "key_code KeyPageDown = 261"
| "key_code KeyUp = 262"
| "key_code KeyLeft = 263"
| "key_code KeyDown = 264"
| "key_code KeyRight = 265"
| "key_code KeyF1 = 272"
| "key_code KeyF2 = 273"
| "key_code KeyF3 = 274"
| "key_code KeyF4 = 275"
| "key_code KeyF5 = 276"
| "key_code KeyF6 = 277"
| "key_code KeyF7 = 278"
| "key_code KeyF8 = 279"
| "key_code KeyF9 = 280"
| "key_code KeyF10 = 281"
| "key_code KeyF11 = 282"
| "key_code KeyF12 = 283"

definition key_try_from :: "u16 \<Rightarrow> terminal_input_error + terminal_key" where
  "key_try_from value =
     (if value = 1 then Inr KeyEscape else if value = 8 then Inr KeyBackspace else if value = 9 then Inr KeyTab
      else if value = 13 then Inr KeyEnter else if value = 67 then Inr KeyC else if value = 83 then Inr KeyS
      else if value = 85 then Inr KeyU else if value = 84 then Inr KeyT else if value = 88 then Inr KeyX
      else if value = 256 then Inr KeyInsert else if value = 257 then Inr KeyDelete else if value = 258 then Inr KeyHome
      else if value = 259 then Inr KeyEnd else if value = 260 then Inr KeyPageUp else if value = 261 then Inr KeyPageDown
      else if value = 262 then Inr KeyUp else if value = 263 then Inr KeyLeft else if value = 264 then Inr KeyDown
      else if value = 265 then Inr KeyRight else if value = 272 then Inr KeyF1 else if value = 273 then Inr KeyF2
      else if value = 274 then Inr KeyF3 else if value = 275 then Inr KeyF4 else if value = 276 then Inr KeyF5
      else if value = 277 then Inr KeyF6 else if value = 278 then Inr KeyF7 else if value = 279 then Inr KeyF8
      else if value = 280 then Inr KeyF9 else if value = 281 then Inr KeyF10 else if value = 282 then Inr KeyF11
      else if value = 283 then Inr KeyF12
      else Inl InvalidKey)"

datatype terminal_key_action = Press | Repeat

definition SHIFT :: u8 where "SHIFT = push_bit 0 1"
definition CONTROL :: u8 where "CONTROL = push_bit 1 1"
definition ALT :: u8 where "ALT = push_bit 2 1"
definition SUPER :: u8 where "SUPER = push_bit 3 1"

definition ALL_MODIFIERS :: u8 where
  "ALL_MODIFIERS = or (or (or SHIFT CONTROL) ALT) SUPER"

definition modifiers_new :: "u8 \<Rightarrow> terminal_input_error + u8" where
  "modifiers_new bits = (if and bits (not ALL_MODIFIERS) \<noteq> 0 then Inl InvalidModifiers else Inr bits)"

record terminal_key_event =
  ke_key :: terminal_key
  ke_action :: terminal_key_action
  ke_modifiers :: u8

datatype terminal_input_event = KeyEvent terminal_key_event | TextEvent "nat list"

record terminal_input_queue =
  iq_limits :: terminal_input_limits
  iq_events :: "terminal_input_event list"

type_synonym 'a input_op = "(terminal_input_queue, terminal_input_error, 'a) smonad"

definition input_queue_new :: "terminal_input_limits \<Rightarrow> terminal_input_queue" where
  "input_queue_new limits = \<lparr>iq_limits = limits, iq_events = []\<rparr>"

definition ensure_capacity :: "terminal_input_queue \<Rightarrow> terminal_input_error + unit" where
  "ensure_capacity q =
     (if maximum_events (iq_limits q) \<le> length (iq_events q) then Inl QueueFull else Inr ())"

definition push_key :: "terminal_key_event \<Rightarrow> unit input_op" where
  "push_key event =
     sseq (sread ensure_capacity) (smodify (\<lambda>q. q\<lparr>iq_events := iq_events q @ [KeyEvent event]\<rparr>))"

definition push_text :: "nat list \<Rightarrow> unit input_op" where
  "push_text chars =
     sseq (sread (\<lambda>q. rguard (length chars \<le> maximum_text_code_points (iq_limits q)) TextTooLarge))
     (sseq (sread ensure_capacity) (smodify (\<lambda>q. q\<lparr>iq_events := iq_events q @ [TextEvent chars]\<rparr>)))"

definition input_poll :: "terminal_input_queue \<Rightarrow> terminal_input_event option \<times> terminal_input_queue" where
  "input_poll q =
     (case iq_events q of [] \<Rightarrow> (None, q) | e # es \<Rightarrow> (Some e, q\<lparr>iq_events := es\<rparr>))"

definition input_is_empty :: "terminal_input_queue \<Rightarrow> bool" where
  "input_is_empty q \<longleftrightarrow> iq_events q = []"

subsection \<open>Properties\<close>

lemma key_try_from_code: "key_try_from (key_code k) = Inr k"
  by (cases k) (simp_all add: key_try_from_def)

lemma key_try_from_Inr: "key_try_from v = Inr k \<longleftrightarrow> v = key_code k"
proof
  assume "key_try_from v = Inr k"
  then show "v = key_code k" unfolding key_try_from_def by (auto split: if_splits)
qed (simp add: key_try_from_code)

lemma modifiers_mask: "ALL_MODIFIERS = 15"
  by (simp add: ALL_MODIFIERS_def SHIFT_def CONTROL_def ALT_def SUPER_def)

text \<open>
  C29. Key codes and modifier bits are exact: a code is accepted exactly when it is the code of a key, and
  then gives that key; a modifier byte is accepted, unchanged, exactly when it has no bit above the four
  defined ones.
\<close>

theorem input_codes_exact:
  "(key_try_from v = Inr k \<longleftrightarrow> v = key_code k) \<and> (modifiers_new b = Inr m \<longleftrightarrow> m = b \<and> b < 16)"
proof -
  have "and b (not 15) = 0 \<longleftrightarrow> b < 16" for b :: u8
  proof -
    have m: "(15 :: u8) = mask 4" by (simp add: mask_eq_exp_minus_1)
    have "and b (not 15) = 0 \<longleftrightarrow> take_bit 4 b = b" unfolding m by (auto simp: bit_eq_iff bit_simps)
    also have "\<dots> \<longleftrightarrow> b < 16"
      by (simp add: word_unat_eq_iff unsigned_take_bit_eq word_less_nat_alt take_bit_nat_eq_self_iff)
    finally show ?thesis .
  qed
  then show ?thesis by (auto simp: key_try_from_Inr modifiers_new_def modifiers_mask)
qed

text \<open>Any sequence of calls on the queue, with the events that were accepted and those that were polled.\<close>

datatype input_call = InKey terminal_key_event | InText "nat list" | InPoll

fun input_step :: "terminal_input_queue \<times> terminal_input_event list \<times> terminal_input_event list \<Rightarrow> input_call \<Rightarrow>
    terminal_input_queue \<times> terminal_input_event list \<times> terminal_input_event list" where
  "input_step (q, accepted, polled) (InKey k) =
     (case push_key k q of (Inr _, q') \<Rightarrow> (q', accepted @ [KeyEvent k], polled) | (Inl _, q') \<Rightarrow> (q', accepted, polled))"
| "input_step (q, accepted, polled) (InText cs) =
     (case push_text cs q of (Inr _, q') \<Rightarrow> (q', accepted @ [TextEvent cs], polled) | (Inl _, q') \<Rightarrow> (q', accepted, polled))"
| "input_step (q, accepted, polled) InPoll =
     (case input_poll q of (Some e, q') \<Rightarrow> (q', accepted, polled @ [e]) | (None, q') \<Rightarrow> (q', accepted, polled))"

definition input_run_ok :: "terminal_input_limits \<Rightarrow>
    terminal_input_queue \<times> terminal_input_event list \<times> terminal_input_event list \<Rightarrow> bool" where
  "input_run_ok limits = (\<lambda>(q, accepted, polled). iq_limits q = limits \<and> accepted = polled @ iq_events q \<and>
     length (iq_events q) \<le> maximum_events limits \<and>
     (\<forall>cs. TextEvent cs \<in> set accepted \<longrightarrow> length cs \<le> maximum_text_code_points limits))"

lemma push_key_eq:
  "push_key k q = (if length (iq_events q) < maximum_events (iq_limits q)
     then (Inr (), q\<lparr>iq_events := iq_events q @ [KeyEvent k]\<rparr>) else (Inl QueueFull, q))"
  by (simp add: push_key_def sseq_def sbind_def ensure_capacity_def)

lemma push_text_eq:
  "push_text cs q = (if maximum_text_code_points (iq_limits q) < length cs then (Inl TextTooLarge, q)
     else if length (iq_events q) < maximum_events (iq_limits q)
     then (Inr (), q\<lparr>iq_events := iq_events q @ [TextEvent cs]\<rparr>) else (Inl QueueFull, q))"
  by (simp add: push_text_def sseq_def sbind_def ensure_capacity_def rguard_def)

lemma input_step_ok: "input_run_ok limits s \<Longrightarrow> input_run_ok limits (input_step s c)"
  by (cases s; cases c)
    (auto simp: input_run_ok_def push_key_eq push_text_eq input_poll_def not_less split: list.splits)

text \<open>
  C30. Input arrives in order and bounded: after any sequence of pushes and polls on a new queue, the events
  accepted so far are those polled followed by those queued, at most \<open>maximum_events\<close> are queued, and no
  accepted text is longer than the limit.
\<close>

theorem input_in_order:
  "input_run_ok limits (foldl input_step (input_queue_new limits, [], []) calls)"
  by (induction calls rule: rev_induct) (simp_all add: input_step_ok, simp add: input_run_ok_def input_queue_new_def)

end
