(* ===== verification/Terminal_Device.thy ===== *)
theory Terminal_Device
  imports Terminal_Replication Terminal_Input
begin

text \<open>
  The terminal device (\<open>src/src/terminal/state.rs\<close>): a grid of cells stored as a ring of rows, the
  history of rows that scrolled off, the cursor, the current colours, the input queue and the replication
  state. The last section shows that clients which follow the changes see the device's screen.
\<close>

record terminal_config =
  cfg_input :: terminal_input_limits
  cfg_journal_revisions :: nat

definition default_config :: terminal_config where
  "default_config = \<lparr>cfg_input = default_input_limits, cfg_journal_revisions = 64\<rparr>"

record terminal_device =
  td_cells :: "terminal_cell list"
  td_row_head :: nat
  td_history :: "terminal_cell list"
  td_history_start :: nat
  td_cursor :: terminal_position
  td_cursor_visible :: bool
  td_foreground :: nat
  td_background :: nat
  td_input :: terminal_input_queue
  td_replication :: replication_state

type_synonym 'a device_op = "(terminal_device, terminal_error, 'a) smonad"

definition ORIGIN :: terminal_position where "ORIGIN = \<lparr>pos_x = 0, pos_y = 0\<rparr>"

definition with_config :: "terminal_config \<Rightarrow> terminal_error + terminal_device" where
  "with_config config =
     (if cfg_journal_revisions config = 0 then Inl InvalidConfig
      else Inr \<lparr>td_cells = replicate CELL_COUNT default_cell, td_row_head = 0, td_history = [], td_history_start = 0,
                td_cursor = ORIGIN, td_cursor_visible = True, td_foreground = DEFAULT_FOREGROUND,
                td_background = DEFAULT_BACKGROUND, td_input = input_queue_new (cfg_input config),
                td_replication = replication_new (cfg_journal_revisions config)\<rparr>)"

definition physical_index :: "terminal_device \<Rightarrow> terminal_position \<Rightarrow> nat" where
  "physical_index d p = ((td_row_head d + pos_y p) mod TERMINAL_HEIGHT) * TERMINAL_WIDTH + pos_x p"

definition position_of :: "nat \<Rightarrow> terminal_position" where
  "position_of logical = \<lparr>pos_x = logical mod TERMINAL_WIDTH, pos_y = logical div TERMINAL_WIDTH\<rparr>"

definition logical_index :: "terminal_position \<Rightarrow> nat" where
  "logical_index p = pos_y p * TERMINAL_WIDTH + pos_x p"

text \<open>Indexing the cell array; every position the device computes is in range (\<open>physical_in_range\<close>).\<close>

definition get_cell :: "terminal_device \<Rightarrow> terminal_position \<Rightarrow> terminal_cell" where
  "get_cell d p = td_cells d ! physical_index d p"

definition set_cell :: "terminal_position \<Rightarrow> terminal_cell \<Rightarrow> terminal_device \<Rightarrow> terminal_device" where
  "set_cell p c d = d\<lparr>td_cells := (td_cells d)[physical_index d p := c]\<rparr>"

definition cell_at :: "terminal_device \<Rightarrow> nat \<Rightarrow> nat \<Rightarrow> terminal_error + terminal_cell" where
  "cell_at d x y = rbind (position_new x y) (\<lambda>p. Inr (get_cell d p))"

definition logical_cells :: "terminal_device \<Rightarrow> terminal_cell list" where
  "logical_cells d = map (\<lambda>logical. get_cell d (position_of logical)) [0..<CELL_COUNT]"

definition record_in :: "terminal_change \<Rightarrow> terminal_device \<Rightarrow> terminal_device" where
  "record_in change d = d\<lparr>td_replication := record_change change (td_replication d)\<rparr>"

definition record_cursor :: "terminal_device \<Rightarrow> terminal_device" where
  "record_cursor d = record_in (Cursor (td_cursor d) (td_cursor_visible d)) d"

definition set_cursor :: "terminal_position \<Rightarrow> terminal_device \<Rightarrow> terminal_device" where
  "set_cursor p d = (if td_cursor d = p then d else record_cursor (d\<lparr>td_cursor := p\<rparr>))"

definition set_cursor_visible :: "bool \<Rightarrow> terminal_device \<Rightarrow> terminal_device" where
  "set_cursor_visible visible d =
     (if td_cursor_visible d = visible then d else record_cursor (d\<lparr>td_cursor_visible := visible\<rparr>))"

definition set_colors :: "nat \<Rightarrow> nat \<Rightarrow> unit device_op" where
  "set_colors fg bg =
     sseq (sread (\<lambda>_. validate_palette fg)) (sseq (sread (\<lambda>_. validate_palette bg))
     (smodify (\<lambda>d. d\<lparr>td_foreground := fg, td_background := bg\<rparr>)))"

fun patch_loop :: "nat \<Rightarrow> terminal_cell list \<Rightarrow> terminal_device \<Rightarrow> terminal_device" where
  "patch_loop logical [] d = d"
| "patch_loop logical (c # cs) d = patch_loop (logical + 1) cs (set_cell (position_of logical) c d)"

definition patch :: "terminal_position \<Rightarrow> terminal_cell list \<Rightarrow> unit device_op" where
  "patch start cells d =
     (let logical_start = logical_index start in
      if (case checked_add 64 logical_start (length cells) of None \<Rightarrow> True | Some e \<Rightarrow> CELL_COUNT < e)
      then (Inl PatchOutOfBounds, d)
      else
        (let d = patch_loop logical_start cells d in
         (Inr (), if cells \<noteq> [] then record_in (Patch logical_start cells) d else d)))"

definition REPLACEMENT_CHARACTER :: nat where "REPLACEMENT_CHARACTER = 0xFFFD"

definition scalar_of :: "u16 + nat \<Rightarrow> nat" where
  "scalar_of decoded = (case decoded of Inl _ \<Rightarrow> REPLACEMENT_CHARACTER | Inr scalar \<Rightarrow> scalar)"

definition write_at :: "terminal_position \<Rightarrow> u16 list \<Rightarrow> unit device_op" where
  "write_at start units d =
     (let remaining = TERMINAL_WIDTH - pos_x start;
          cells = map (\<lambda>decoded. \<lparr>code_point = scalar_of decoded, cell_foreground = td_foreground d,
                                  cell_background = td_background d\<rparr>)
                    (take remaining (decode_utf16 units)) in
      patch start cells d)"

definition fill :: "terminal_rectangle \<Rightarrow> terminal_cell \<Rightarrow> unit device_op" where
  "fill rectangle cell d =
     (let d = fold (\<lambda>y. fold (\<lambda>x. set_cell \<lparr>pos_x = x, pos_y = y\<rparr> cell)
                        [rect_x rectangle..<rect_x rectangle + rect_width rectangle])
                [rect_y rectangle..<rect_y rectangle + rect_height rectangle] d in
      (Inr (), record_in (Fill (rect_x rectangle) (rect_y rectangle) (rect_width rectangle) (rect_height rectangle) cell) d))"

definition fill_with_current_colors :: "terminal_rectangle \<Rightarrow> nat \<Rightarrow> unit device_op" where
  "fill_with_current_colors rectangle scalar =
     sbind (sread (\<lambda>d. cell_new scalar (td_foreground d) (td_background d))) (\<lambda>cell. fill rectangle cell)"

definition scroll_row :: "terminal_cell \<Rightarrow> terminal_device \<Rightarrow> terminal_device" where
  "scroll_row c d =
     (let head = (td_row_head d + 1) mod TERMINAL_HEIGHT;
          reclaimed_row = (head + TERMINAL_HEIGHT - 1) mod TERMINAL_HEIGHT;
          start = reclaimed_row * TERMINAL_WIDTH in
      d\<lparr>td_row_head := head, td_cells := overwrite start (replicate TERMINAL_WIDTH c) (td_cells d)\<rparr>)"

definition scroll_with :: "nat \<Rightarrow> terminal_cell \<Rightarrow> terminal_device \<Rightarrow> terminal_device" where
  "scroll_with rows c d =
     (let first_row = wrapping_add 64 (td_history_start d) (length (td_history d) div TERMINAL_WIDTH);
          removed = concat (map (\<lambda>y. map (\<lambda>x. get_cell d \<lparr>pos_x = x, pos_y = y\<rparr>) [0..<TERMINAL_WIDTH]) [0..<rows]);
          (start, history) = evict (td_history_start d) (td_history d @ removed);
          d = d\<lparr>td_history := history, td_history_start := start\<rparr>;
          d = (if rows \<noteq> 0 then record_in (HistoryAppend first_row removed) d else d) in
      (scroll_row c ^^ rows) d)"

definition scroll :: "nat \<Rightarrow> unit device_op" where
  "scroll rows d =
     (if TERMINAL_HEIGHT < rows then (Inl ScrollOutOfBounds, d)
      else
        (let d = scroll_with rows default_cell d in
         (Inr (), if rows \<noteq> 0 then record_in (Scroll rows default_cell) d else d)))"

definition newline :: "terminal_device \<Rightarrow> terminal_device" where
  "newline d =
     (let d = d\<lparr>td_cursor := (td_cursor d)\<lparr>pos_x := 0\<rparr>\<rparr> in
      if pos_y (td_cursor d) + 1 < TERMINAL_HEIGHT
      then d\<lparr>td_cursor := (td_cursor d)\<lparr>pos_y := pos_y (td_cursor d) + 1\<rparr>\<rparr>
      else
        (let c = cell_blank (td_foreground d) (td_background d) in
         record_in (Scroll 1 c) (scroll_with 1 c d)))"

definition write_scalar :: "nat \<Rightarrow> terminal_device \<Rightarrow> terminal_device" where
  "write_scalar scalar d =
     (let cell = (cell_blank (td_foreground d) (td_background d))\<lparr>code_point := scalar\<rparr>;
          d = record_in (Patch (logical_index (td_cursor d)) [cell]) (set_cell (td_cursor d) cell d) in
      if pos_x (td_cursor d) + 1 < TERMINAL_WIDTH
      then d\<lparr>td_cursor := (td_cursor d)\<lparr>pos_x := pos_x (td_cursor d) + 1\<rparr>\<rparr>
      else newline d)"

definition write_decoded :: "u16 + nat \<Rightarrow> terminal_device \<Rightarrow> terminal_device" where
  "write_decoded decoded d =
     (if scalar_of decoded = 10 then newline d
      else if scalar_of decoded = 13 then d\<lparr>td_cursor := (td_cursor d)\<lparr>pos_x := 0\<rparr>\<rparr>
      else write_scalar (scalar_of decoded) d)"

definition write_utf16 :: "u16 list \<Rightarrow> terminal_device \<Rightarrow> terminal_device" where
  "write_utf16 units d =
     (let initial_cursor = td_cursor d;
          d = fold write_decoded (decode_utf16 units) d in
      if td_cursor d \<noteq> initial_cursor then record_cursor d else d)"

definition erase_previous :: "terminal_device \<Rightarrow> terminal_device" where
  "erase_previous d =
     (if pos_x (td_cursor d) = 0 \<and> pos_y (td_cursor d) = 0 then d
      else
        (let cursor = (if 0 < pos_x (td_cursor d) then (td_cursor d)\<lparr>pos_x := pos_x (td_cursor d) - 1\<rparr>
                       else \<lparr>pos_x = TERMINAL_WIDTH - 1, pos_y = pos_y (td_cursor d) - 1\<rparr>);
             d = d\<lparr>td_cursor := cursor\<rparr>;
             blank = cell_blank (td_foreground d) (td_background d) in
         record_cursor (record_in (Patch (logical_index cursor) [blank]) (set_cell cursor blank d))))"

definition clear :: "terminal_device \<Rightarrow> terminal_device" where
  "clear d =
     d\<lparr>td_cells := replicate CELL_COUNT default_cell, td_row_head := 0, td_cursor := ORIGIN, td_cursor_visible := True,
       td_foreground := DEFAULT_FOREGROUND, td_background := DEFAULT_BACKGROUND,
       td_replication := record_reset (td_replication d)\<rparr>"

definition last_content_row :: "terminal_device \<Rightarrow> nat option" where
  "last_content_row d =
     find (\<lambda>y. \<exists>x\<in>set [0..<TERMINAL_WIDTH]. code_point (get_cell d \<lparr>pos_x = x, pos_y = y\<rparr>) \<noteq> 32)
       (rev [0..<TERMINAL_HEIGHT])"

definition resume_console_output :: "terminal_device \<Rightarrow> terminal_device" where
  "resume_console_output d =
     (let content = last_content_row d;
          d = set_cursor_visible True (d\<lparr>td_foreground := DEFAULT_FOREGROUND, td_background := DEFAULT_BACKGROUND\<rparr>) in
      (case content of
         Some y \<Rightarrow>
           if pos_y (td_cursor d) \<le> y then record_cursor (newline (set_cursor \<lparr>pos_x = 0, pos_y = y\<rparr> d))
           else set_cursor \<lparr>pos_x = 0, pos_y = pos_y (td_cursor d)\<rparr> d
       | None \<Rightarrow> set_cursor \<lparr>pos_x = 0, pos_y = pos_y (td_cursor d)\<rparr> d))"

definition device_push_key :: "terminal_key_event \<Rightarrow> (terminal_device, terminal_input_error, unit) smonad" where
  "device_push_key event d = (let (r, q) = push_key event (td_input d) in (r, d\<lparr>td_input := q\<rparr>))"

definition device_push_text :: "nat list \<Rightarrow> (terminal_device, terminal_input_error, unit) smonad" where
  "device_push_text chars d = (let (r, q) = push_text chars (td_input d) in (r, d\<lparr>td_input := q\<rparr>))"

definition poll_input :: "terminal_device \<Rightarrow> terminal_input_event option \<times> terminal_device" where
  "poll_input d = (let (e, q) = input_poll (td_input d) in (e, d\<lparr>td_input := q\<rparr>))"

definition device_commit :: "terminal_commit device_op" where
  "device_commit d =
     (let full_cells = (if rep_requires_full (td_replication d) then Some (logical_cells d) else None);
          (r, replication) = replication_commit full_cells (td_cursor d) (td_cursor_visible d) (td_history_start d)
                               (td_history d) (td_replication d) in
      (r, d\<lparr>td_replication := replication\<rparr>))"

definition snapshot :: "terminal_device \<Rightarrow> terminal_snapshot" where
  "snapshot d =
     \<lparr>snap_revision = rep_revision (td_replication d), snap_cells = logical_cells d, snap_cursor = td_cursor d,
      snap_cursor_visible = td_cursor_visible d, snap_history_start = td_history_start d,
      snap_history_cells = td_history d\<rparr>"

definition changes_since :: "nat \<Rightarrow> terminal_device \<Rightarrow> terminal_update" where
  "changes_since base d =
     (case delta_since base (td_replication d) of Some u \<Rightarrow> u | None \<Rightarrow> UpdateFull (snapshot d))"

subsection \<open>The ring of rows\<close>

definition view_of :: "terminal_device \<Rightarrow> terminal_view" where
  "view_of d =
     \<lparr>v_cells = logical_cells d, v_cursor = td_cursor d, v_visible = td_cursor_visible d,
      v_history_start = td_history_start d, v_history = td_history d\<rparr>"

definition position_ok :: "terminal_position \<Rightarrow> bool" where
  "position_ok p \<longleftrightarrow> pos_x p < TERMINAL_WIDTH \<and> pos_y p < TERMINAL_HEIGHT"

definition grid_ok :: "terminal_device \<Rightarrow> bool" where
  "grid_ok d \<longleftrightarrow> length (td_cells d) = CELL_COUNT \<and> td_row_head d < TERMINAL_HEIGHT \<and>
     TERMINAL_WIDTH dvd length (td_history d) \<and> length (td_history d) \<le> TERMINAL_HISTORY_ROWS * TERMINAL_WIDTH"

lemma sizes_pos [simp]: "0 < TERMINAL_WIDTH" "0 < TERMINAL_HEIGHT" "0 < CELL_COUNT"
  by (simp_all add: TERMINAL_WIDTH_def TERMINAL_HEIGHT_def CELL_COUNT_def)

lemma physical_in_range: "pos_x p < TERMINAL_WIDTH \<Longrightarrow> physical_index d p < CELL_COUNT"
proof -
  assume x: "pos_x p < TERMINAL_WIDTH"
  have "(td_row_head d + pos_y p) mod TERMINAL_HEIGHT < TERMINAL_HEIGHT" by simp
  then have "Suc ((td_row_head d + pos_y p) mod TERMINAL_HEIGHT) * TERMINAL_WIDTH \<le> TERMINAL_HEIGHT * TERMINAL_WIDTH"
    by (intro mult_le_mono1) (simp add: Suc_le_eq)
  with x show ?thesis by (simp add: physical_index_def CELL_COUNT_def mult.commute)
qed

lemma position_of_logical: "position_ok p \<Longrightarrow> position_of (logical_index p) = p"
  by (simp add: position_of_def logical_index_def position_ok_def)

lemma position_of_ok: "l < CELL_COUNT \<Longrightarrow> position_ok (position_of l)"
  by (simp add: position_ok_def position_of_def CELL_COUNT_def less_mult_imp_div_less mult.commute)

lemma logical_in_range: "position_ok p \<Longrightarrow> logical_index p < CELL_COUNT"
proof -
  assume p: "position_ok p"
  then have "Suc (pos_y p) * TERMINAL_WIDTH \<le> TERMINAL_HEIGHT * TERMINAL_WIDTH"
    by (intro mult_le_mono1) (simp add: position_ok_def Suc_le_eq)
  with p show ?thesis by (simp add: logical_index_def CELL_COUNT_def position_ok_def mult.commute)
qed

text \<open>In logical order the grid is the cell array read as a ring from the first row.\<close>

lemma physical_ring: "physical_index d (position_of l) = (td_row_head d * TERMINAL_WIDTH + l) mod CELL_COUNT"
  unfolding CELL_COUNT_def mod_mult2_eq physical_index_def position_of_def by (simp add: mult.commute)

lemma logical_ring:
  "logical_cells d = ring (\<lambda>i. td_cells d ! i) CELL_COUNT (td_row_head d * TERMINAL_WIDTH) CELL_COUNT"
  by (simp add: logical_cells_def ring_def get_cell_def physical_ring)

lemma length_logical [simp]: "length (logical_cells d) = CELL_COUNT"
  by (simp add: logical_cells_def)

lemma logical_nth: "l < CELL_COUNT \<Longrightarrow> logical_cells d ! l = get_cell d (position_of l)"
  by (simp add: logical_cells_def)

lemma set_cell_logical:
  assumes "grid_ok d" "position_ok p"
  shows "logical_cells (set_cell p c d) = (logical_cells d)[logical_index p := c]"
proof (rule nth_equalityI)
  fix l
  assume "l < length (logical_cells (set_cell p c d))"
  then have l: "l < CELL_COUNT" by simp
  have p: "p = position_of (logical_index p)" "logical_index p < CELL_COUNT"
    using assms(2) by (simp_all add: position_of_logical logical_in_range)
  have same: "physical_index d p = physical_index d (position_of l) \<longleftrightarrow> logical_index p = l"
    using ring_slot_inj [OF l p(2)] p(1) by (metis physical_ring)
  have range: "physical_index d p < length (td_cells d)"
    using assms by (simp add: grid_ok_def physical_in_range position_ok_def)
  have "logical_cells (set_cell p c d) ! l = (td_cells d)[physical_index d p := c] ! physical_index d (position_of l)"
    using l by (simp add: logical_nth get_cell_def) (simp add: set_cell_def physical_index_def)
  also have "\<dots> = (if logical_index p = l then c else logical_cells d ! l)"
    using range same by (simp add: nth_list_update logical_nth [OF l] get_cell_def)
  also have "\<dots> = (logical_cells d)[logical_index p := c] ! l" using l by (simp add: nth_list_update)
  finally show "logical_cells (set_cell p c d) ! l = (logical_cells d)[logical_index p := c] ! l" .
qed simp

lemma nth_overwrite:
  assumes "start + length new \<le> length xs" "i < length xs"
  shows "overwrite start new xs ! i = (if start \<le> i \<and> i < start + length new then new ! (i - start) else xs ! i)"
  using assms by (auto simp: overwrite_def nth_append min_def)

lemma length_overwrite [simp]: "start + length new \<le> length xs \<Longrightarrow> length (overwrite start new xs) = length xs"
  by (simp add: overwrite_def)

lemma row_slice: "r * w \<le> q * w + x \<and> q * w + x < r * w + w \<longleftrightarrow> q = (r :: nat)" if "x < w"
proof
  assume "r * w \<le> q * w + x \<and> q * w + x < r * w + w"
  then have "(q * w + x) div w = r" by (intro div_nat_eqI) (simp_all add: mult.commute)
  with that show "q = r" by simp
qed (use that in simp)

lemma reclaimed: "h < n \<Longrightarrow> ((h + 1) mod n + n - 1) mod n = (h :: nat)"
  by (cases "h + 1 = n") auto

lemma scroll_row_logical:
  assumes ok: "grid_ok d"
  shows "logical_cells (scroll_row c d) = drop TERMINAL_WIDTH (logical_cells d) @ replicate TERMINAL_WIDTH c"
    "grid_ok (scroll_row c d)"
proof -
  let ?W = TERMINAL_WIDTH and ?H = TERMINAL_HEIGHT and ?h = "td_row_head d"
  let ?cs = "overwrite (?h * ?W) (replicate ?W c) (td_cells d)"
  have d: "scroll_row c d = d\<lparr>td_row_head := (?h + 1) mod ?H, td_cells := ?cs\<rparr>"
    using ok reclaimed [of ?h ?H] by (simp add: scroll_row_def Let_def grid_ok_def)
  have "Suc ?h * ?W \<le> ?H * ?W" using ok by (intro mult_le_mono1) (simp add: grid_ok_def Suc_le_eq)
  then have fits: "?h * ?W + ?W \<le> CELL_COUNT" by (simp add: CELL_COUNT_def mult.commute)
  show "grid_ok (scroll_row c d)" using ok fits by (simp add: d grid_ok_def)
  show "logical_cells (scroll_row c d) = drop ?W (logical_cells d) @ replicate ?W c"
  proof (rule nth_equalityI)
    fix l
    assume "l < length (logical_cells (scroll_row c d))"
    then have l: "l < CELL_COUNT" by simp
    let ?q = "(?h + Suc (l div ?W)) mod ?H"
    have row: "l div ?W < ?H" using position_of_ok [OF l] by (simp add: position_ok_def position_of_def)
    have i: "physical_index (scroll_row c d) (position_of l) = ?q * ?W + l mod ?W"
      by (simp add: d physical_index_def position_of_def mod_add_left_eq)
    have range: "?q * ?W + l mod ?W < CELL_COUNT"
      using physical_in_range [of "position_of l" "scroll_row c d"] i by (simp add: position_of_def)
    have "td_cells (scroll_row c d) = ?cs" by (simp add: d)
    then have "logical_cells (scroll_row c d) ! l = ?cs ! (?q * ?W + l mod ?W)"
      using l i by (simp add: logical_nth get_cell_def)
    also have "\<dots> = (if ?q = ?h then c else td_cells d ! (?q * ?W + l mod ?W))"
      using ok fits range row_slice [of "l mod ?W" ?W ?h ?q] by (simp add: nth_overwrite grid_ok_def)
    finally have cell: "logical_cells (scroll_row c d) ! l = (if ?q = ?h then c else td_cells d ! (?q * ?W + l mod ?W))" .
    have q: "?q = ?h \<longleftrightarrow> Suc (l div ?W) = ?H"
    proof
      assume "?q = ?h"
      with ok ring_slot_inj [of "Suc (l div ?W)" ?H 0 ?h] row show "Suc (l div ?W) = ?H"
        by (auto simp: grid_ok_def Suc_le_eq intro: ccontr)
    qed (use ok in \<open>simp add: grid_ok_def\<close>)
    have "CELL_COUNT - ?W = (?H - 1) * ?W" by (simp add: CELL_COUNT_def diff_mult_distrib2 mult.commute)
    then have edge: "Suc (l div ?W) = ?H \<longleftrightarrow> CELL_COUNT - ?W \<le> l"
      using row by (simp add: less_eq_div_iff_mult_less_eq [symmetric]) linarith
    show "logical_cells (scroll_row c d) ! l = (drop ?W (logical_cells d) @ replicate ?W c) ! l"
    proof (cases "CELL_COUNT - ?W \<le> l")
      case True
      with cell q edge l show ?thesis by (simp add: nth_append)
    next
      case False
      have "(l + ?W) div ?W = Suc (l div ?W)" using sizes_pos(1) by (simp add: div_add_self2)
      then have "physical_index d (position_of (l + ?W)) = ?q * ?W + l mod ?W"
        by (simp add: physical_index_def position_of_def)
      with False cell q edge l show ?thesis by (simp add: nth_append logical_nth get_cell_def add.commute)
    qed
  qed (use fits in simp)
qed

lemma scroll_rows_logical:
  assumes "grid_ok d" "rows \<le> TERMINAL_HEIGHT"
  shows "grid_ok ((scroll_row c ^^ rows) d) \<and> logical_cells ((scroll_row c ^^ rows) d) =
    drop (rows * TERMINAL_WIDTH) (logical_cells d) @ replicate (rows * TERMINAL_WIDTH) c"
  using assms(2)
proof (induction rows)
  case (Suc n)
  let ?W = TERMINAL_WIDTH and ?e = "(scroll_row c ^^ n) d"
  have "Suc n * ?W \<le> TERMINAL_HEIGHT * ?W" using Suc.prems by (rule mult_le_mono1)
  then have fits: "?W \<le> CELL_COUNT - n * ?W" by (simp add: CELL_COUNT_def mult.commute)
  from Suc have e: "grid_ok ?e" "logical_cells ?e = drop (n * ?W) (logical_cells d) @ replicate (n * ?W) c" by simp_all
  from scroll_row_logical [OF e(1), of c] e(2) fits show ?case by (simp add: replicate_add [symmetric] add.commute)
qed (use assms(1) in simp)

lemma scroll_row_frame [simp]:
  "td_history ((scroll_row c ^^ rows) d) = td_history d" "td_history_start ((scroll_row c ^^ rows) d) = td_history_start d"
  "td_cursor ((scroll_row c ^^ rows) d) = td_cursor d" "td_cursor_visible ((scroll_row c ^^ rows) d) = td_cursor_visible d"
  "td_replication ((scroll_row c ^^ rows) d) = td_replication d"
  by (induction rows) (simp_all add: scroll_row_def Let_def)

lemma grid_frame [simp]:
  "grid_ok (d\<lparr>td_cursor := q\<rparr>) = grid_ok d" "grid_ok (d\<lparr>td_cursor_visible := x\<rparr>) = grid_ok d"
  "grid_ok (d\<lparr>td_replication := r\<rparr>) = grid_ok d" "grid_ok (d\<lparr>td_history_start := n\<rparr>) = grid_ok d"
  "grid_ok (d\<lparr>td_input := i\<rparr>) = grid_ok d" "grid_ok (d\<lparr>td_foreground := fg\<rparr>) = grid_ok d"
  "grid_ok (d\<lparr>td_background := bg\<rparr>) = grid_ok d"
  by (simp_all add: grid_ok_def)

lemma evict_bounds:
  assumes "TERMINAL_WIDTH dvd length h"
  shows "TERMINAL_WIDTH dvd length (snd (evict n h)) \<and> length (snd (evict n h)) \<le> TERMINAL_HISTORY_ROWS * TERMINAL_WIDTH"
  using assms
proof (induction n h rule: evict.induct)
  case (1 n h)
  then have "TERMINAL_WIDTH dvd length (drop TERMINAL_WIDTH h)" by (simp add: dvd_diff_nat)
  with 1 show ?case by (subst evict.simps) (simp add: evict.simps [of n h] not_less)
qed

lemma evict_none: "length h \<le> TERMINAL_HISTORY_ROWS * TERMINAL_WIDTH \<Longrightarrow> evict n h = (n, h)"
  by (simp add: evict.simps)

subsection \<open>What the pending changes say\<close>

fun change_ok :: "terminal_change \<Rightarrow> bool" where
  "change_ok (Patch start cells) \<longleftrightarrow> start + length cells \<le> CELL_COUNT"
| "change_ok (Scroll rows _) \<longleftrightarrow> rows \<le> TERMINAL_HEIGHT"
| "change_ok (HistoryAppend _ _) \<longleftrightarrow> True"
| "change_ok _ \<longleftrightarrow> True"

definition tracked :: "terminal_view \<Rightarrow> replication_state \<Rightarrow> terminal_view \<Rightarrow> bool" where
  "tracked v r w \<longleftrightarrow> length (v_cells v) = CELL_COUNT \<and>
     (rep_requires_full r \<or> apply_changes v (rep_pending r) = w \<and> list_all change_ok (rep_pending r))"

lemma length_fill [simp]: "length (fill_cells x y w h c xs) = length xs"
proof -
  have "length (fold (\<lambda>column xs. xs[row * TERMINAL_WIDTH + column := c]) cols xs) = length xs" for row cols and xs :: "'a list"
    by (induction cols arbitrary: xs) simp_all
  then have "length (fold (\<lambda>row. fold (\<lambda>column xs. xs[row * TERMINAL_WIDTH + column := c]) [x..<x + w]) rows xs) = length xs"
    for rows and xs :: "'a list"
    by (induction rows arbitrary: xs) simp_all
  then show ?thesis by (simp add: fill_cells_def)
qed

lemma apply_change_length:
  "length (v_cells v) = CELL_COUNT \<Longrightarrow> change_ok ch \<Longrightarrow> length (v_cells (apply_change v ch)) = CELL_COUNT"
  by (cases ch) (auto simp: CELL_COUNT_def mult.commute split: prod.splits)

lemma apply_changes_length:
  "length (v_cells v) = CELL_COUNT \<Longrightarrow> list_all change_ok cs \<Longrightarrow> length (v_cells (apply_changes v cs)) = CELL_COUNT"
  by (induction cs arbitrary: v) (simp_all add: apply_change_length)

lemma overwrite_join:
  assumes "s + length a + length b \<le> length xs"
  shows "overwrite (s + length a) b (overwrite s a xs) = overwrite s (a @ b) xs"
  using assms by (simp add: overwrite_def ac_simps)

lemma joined_patchE:
  assumes "joined_patch ch pending = Some joined"
  obtains ps s a b where "pending = ps @ [Patch s a]" "ch = Patch (s + length a) b" "joined = Patch s (a @ b)"
  using assms
  by (cases ch; cases pending rule: rev_cases)
    (auto simp: joined_patch_def split: terminal_change.splits if_splits)

lemma record_tracked:
  assumes t: "tracked v r w" and ch: "change_ok ch"
  shows "tracked v (record_change ch r) (apply_change w ch)"
proof (cases "rep_requires_full r")
  case True
  with t show ?thesis by (simp add: tracked_def record_change_def)
next
  case False
  with t have len: "length (v_cells v) = CELL_COUNT" and w: "apply_changes v (rep_pending r) = w"
    and ok: "list_all change_ok (rep_pending r)" by (simp_all add: tracked_def)
  show ?thesis
  proof (cases "joined_patch ch (rep_pending r)")
    case None
    with False len w ok ch show ?thesis by (auto simp: tracked_def record_change_def Let_def)
  next
    case (Some joined)
    from joined_patchE [OF this] obtain ps s a b where j: "rep_pending r = ps @ [Patch s a]"
      "ch = Patch (s + length a) b" "joined = Patch s (a @ b)" by blast
    have "length (v_cells (apply_changes v ps)) = CELL_COUNT" using len ok j(1) by (simp add: apply_changes_length)
    then have "apply_change w ch = apply_change (apply_changes v ps) joined"
      using ch overwrite_join [of s a b "v_cells (apply_changes v ps)"] unfolding w [symmetric] j by (simp add: add.assoc)
    with False Some len ok ch j show ?thesis by (simp add: tracked_def record_change_def)
  qed
qed

lemma history_only:
  assumes "v_history_start u = v_history_start v" "v_history u = v_history v"
  shows "v_history_start (apply_changes u (filter is_history cs)) = v_history_start (apply_changes v cs) \<and>
    v_history (apply_changes u (filter is_history cs)) = v_history (apply_changes v cs)"
  using assms
proof (induction cs arbitrary: u v)
  case (Cons ch cs)
  show ?case
  proof (cases ch)
    case (HistoryAppend first cells)
    with Cons.prems show ?thesis by (auto intro!: Cons.IH split: prod.splits)
  qed (use Cons.prems in \<open>auto intro!: Cons.IH\<close>)
qed simp

lemma reset_tracked:
  assumes t: "tracked v r w"
  shows "tracked v (record_reset r) (apply_change w Reset)"
proof (cases "rep_requires_full r")
  case True
  with t show ?thesis by (simp add: tracked_def record_change_def record_reset_def)
next
  case False
  let ?r = "r\<lparr>rep_pending := filter is_history (rep_pending r)\<rparr>"
  have "tracked v ?r (apply_changes v (filter is_history (rep_pending r)))"
    using t False by (auto simp: tracked_def list_all_iff)
  from record_tracked [OF this, of Reset]
  have "tracked v (record_reset r) (apply_change (apply_changes v (filter is_history (rep_pending r))) Reset)"
    by (simp add: record_reset_def)
  moreover have "apply_change (apply_changes v (filter is_history (rep_pending r))) Reset = apply_change w Reset"
    using history_only [of v v "rep_pending r"] t False by (simp add: tracked_def)
  ultimately show ?thesis by simp
qed

subsection \<open>Every operation keeps the changes in step with the screen\<close>

text \<open>The pending changes turn the committed view \<open>v\<close> into the current screen, except that the recorded
  cursor may lag behind as \<open>p\<close> and \<open>b\<close> while an operation runs.\<close>

definition sync_at :: "terminal_view \<Rightarrow> terminal_position \<Rightarrow> bool \<Rightarrow> terminal_device \<Rightarrow> bool" where
  "sync_at v p b d \<longleftrightarrow> grid_ok d \<and> position_ok (td_cursor d) \<and>
     tracked v (td_replication d) ((view_of d)\<lparr>v_cursor := p, v_visible := b\<rparr>)"

definition in_sync :: "terminal_view \<Rightarrow> terminal_device \<Rightarrow> bool" where
  "in_sync v d \<longleftrightarrow> sync_at v (td_cursor d) (td_cursor_visible d) d"

lemma view_of_fields [simp]:
  "v_cells (view_of d) = logical_cells d" "v_cursor (view_of d) = td_cursor d" "v_visible (view_of d) = td_cursor_visible d"
  "v_history_start (view_of d) = td_history_start d" "v_history (view_of d) = td_history d"
  by (simp_all add: view_of_def)

lemma logical_frame [simp]:
  "logical_cells (d\<lparr>td_cursor := q\<rparr>) = logical_cells d" "logical_cells (d\<lparr>td_cursor_visible := x\<rparr>) = logical_cells d"
  "logical_cells (d\<lparr>td_replication := r\<rparr>) = logical_cells d" "logical_cells (d\<lparr>td_history := h\<rparr>) = logical_cells d"
  "logical_cells (d\<lparr>td_history_start := n\<rparr>) = logical_cells d" "logical_cells (d\<lparr>td_input := i\<rparr>) = logical_cells d"
  "logical_cells (d\<lparr>td_foreground := fg\<rparr>) = logical_cells d" "logical_cells (d\<lparr>td_background := bg\<rparr>) = logical_cells d"
  by (simp_all add: logical_cells_def get_cell_def physical_index_def)

lemma view_eqI:
  "v_cells v = v_cells w \<Longrightarrow> v_cursor v = v_cursor w \<Longrightarrow> v_visible v = v_visible w \<Longrightarrow>
   v_history_start v = v_history_start w \<Longrightarrow> v_history v = v_history w \<Longrightarrow> v = (w :: terminal_view)"
  by simp

lemma sync_atD:
  assumes "sync_at v p b d"
  shows "grid_ok d" "position_ok (td_cursor d)" "tracked v (td_replication d) ((view_of d)\<lparr>v_cursor := p, v_visible := b\<rparr>)"
  using assms by (simp_all add: sync_at_def)

text \<open>An operation that changes the device and records the matching change.\<close>

lemma sync_record:
  assumes sync: "sync_at v p b d" and ch: "change_ok ch"
    and d': "td_replication d' = record_change ch (td_replication d)" "grid_ok d'" "position_ok (td_cursor d')"
    and view: "(view_of d')\<lparr>v_cursor := p', v_visible := b'\<rparr> = apply_change ((view_of d)\<lparr>v_cursor := p, v_visible := b\<rparr>) ch"
  shows "sync_at v p' b' d'"
  unfolding sync_at_def d'(1) view using record_tracked [OF sync_atD(3) [OF sync] ch] d'(2,3) by simp

lemma sync_record_cursor:
  assumes sync: "sync_at v p b d"
  shows "in_sync v (record_cursor d)"
  unfolding in_sync_def
  by (rule sync_record [OF sync, where ch = "Cursor (td_cursor d) (td_cursor_visible d)"])
    (use sync_atD [OF sync] in \<open>auto simp: record_cursor_def record_in_def grid_ok_def intro!: view_eqI\<close>)

lemma sync_move: "sync_at v p b d \<Longrightarrow> position_ok q \<Longrightarrow> sync_at v p b (d\<lparr>td_cursor := q\<rparr>)"
  by (simp add: sync_at_def grid_ok_def view_of_def)

lemma sync_visible: "sync_at v p b d \<Longrightarrow> sync_at v p b (d\<lparr>td_cursor_visible := x\<rparr>)"
  by (simp add: sync_at_def grid_ok_def view_of_def)

lemma sync_colors: "sync_at v p b d \<Longrightarrow> sync_at v p b (d\<lparr>td_foreground := fg, td_background := bg\<rparr>)"
  by (simp add: sync_at_def grid_ok_def view_of_def)

lemma sync_input: "sync_at v p b d \<Longrightarrow> sync_at v p b (d\<lparr>td_input := i\<rparr>)"
  by (simp add: sync_at_def grid_ok_def view_of_def)

lemma set_cursor_sync: "in_sync v d \<Longrightarrow> position_ok q \<Longrightarrow> in_sync v (set_cursor q d)"
  unfolding set_cursor_def in_sync_def [of _ d]
  using sync_record_cursor [OF sync_move] by (auto simp: in_sync_def)

lemma set_cursor_visible_sync: "in_sync v d \<Longrightarrow> in_sync v (set_cursor_visible x d)"
  unfolding set_cursor_visible_def in_sync_def [of _ d]
  using sync_record_cursor [OF sync_visible] by (auto simp: in_sync_def)

lemma set_cell_grid: "grid_ok d \<Longrightarrow> grid_ok (set_cell q c d)"
  by (simp add: grid_ok_def set_cell_def)

lemma set_cell_fields [simp]:
  "td_cursor (set_cell q c d) = td_cursor d" "td_cursor_visible (set_cell q c d) = td_cursor_visible d"
  "td_history (set_cell q c d) = td_history d" "td_history_start (set_cell q c d) = td_history_start d"
  "td_replication (set_cell q c d) = td_replication d" "td_foreground (set_cell q c d) = td_foreground d"
  "td_background (set_cell q c d) = td_background d"
  by (simp_all add: set_cell_def)

lemma record_in_fields [simp]:
  "td_cursor (record_in ch d) = td_cursor d" "td_cursor_visible (record_in ch d) = td_cursor_visible d"
  "td_history (record_in ch d) = td_history d" "td_history_start (record_in ch d) = td_history_start d"
  "td_replication (record_in ch d) = record_change ch (td_replication d)" "grid_ok (record_in ch d) = grid_ok d"
  "td_foreground (record_in ch d) = td_foreground d" "td_background (record_in ch d) = td_background d"
  "logical_cells (record_in ch d) = logical_cells d"
  by (simp_all add: record_in_def grid_ok_def)

lemma overwrite_single: "i < length xs \<Longrightarrow> overwrite i [c] xs = xs[i := c]"
  by (simp add: overwrite_def upd_conv_take_nth_drop)

lemma patch_one_sync:
  assumes "sync_at v p b d" "position_ok q"
  shows "sync_at v p b (record_in (Patch (logical_index q) [c]) (set_cell q c d))"
proof (rule sync_record [OF assms(1)])
  note g = sync_atD(1) [OF assms(1)]
  show "change_ok (Patch (logical_index q) [c])" using logical_in_range [OF assms(2)] by simp
  show "(view_of (record_in (Patch (logical_index q) [c]) (set_cell q c d)))\<lparr>v_cursor := p, v_visible := b\<rparr> =
    apply_change ((view_of d)\<lparr>v_cursor := p, v_visible := b\<rparr>) (Patch (logical_index q) [c])"
    using set_cell_logical [OF g assms(2)] logical_in_range [OF assms(2)]
    by (intro view_eqI) (simp_all add: overwrite_single)
qed (use assms set_cell_grid sync_atD in auto)

lemma patch_loop_logical:
  assumes "grid_ok d" "logical + length cells \<le> CELL_COUNT"
  shows "grid_ok (patch_loop logical cells d) \<and>
    logical_cells (patch_loop logical cells d) = overwrite logical cells (logical_cells d)"
  using assms
proof (induction logical cells d rule: patch_loop.induct)
  case (2 logical c cs d)
  then have l: "logical < CELL_COUNT" by simp
  have q: "logical_index (position_of logical) = logical" by (simp add: logical_index_def position_of_def)
  note step = set_cell_logical [OF 2(2) position_of_ok [OF l], of c, unfolded q]
  from 2 set_cell_grid have ih: "grid_ok (patch_loop (logical + 1) cs (set_cell (position_of logical) c d))"
    "logical_cells (patch_loop (logical + 1) cs (set_cell (position_of logical) c d)) =
       overwrite (logical + 1) cs (logical_cells (set_cell (position_of logical) c d))" by simp_all
  have "overwrite (logical + 1) cs ((logical_cells d)[logical := c]) = overwrite logical (c # cs) (logical_cells d)"
    using overwrite_join [of logical "[c]" cs "logical_cells d"] l 2(3) by (simp add: overwrite_single)
  with ih step show ?case by simp
qed (simp add: overwrite_def)

lemma patch_loop_fields [simp]:
  "td_cursor (patch_loop l cs d) = td_cursor d" "td_cursor_visible (patch_loop l cs d) = td_cursor_visible d"
  "td_history (patch_loop l cs d) = td_history d" "td_history_start (patch_loop l cs d) = td_history_start d"
  "td_replication (patch_loop l cs d) = td_replication d"
  by (induction l cs d rule: patch_loop.induct) simp_all

lemma patch_sync:
  assumes "in_sync v d" "position_ok start"
  shows "in_sync v (snd (patch start cells d))"
proof (cases "logical_index start + length cells \<le> CELL_COUNT \<and> cells \<noteq> []")
  case True
  note s = assms(1) [unfolded in_sync_def] and sync = sync_atD [OF assms(1) [unfolded in_sync_def]]
  have small: "logical_index start + length cells < 2 ^ 64" using True by (simp add: CELL_COUNT_def TERMINAL_WIDTH_def TERMINAL_HEIGHT_def)
  let ?d = "record_in (Patch (logical_index start) cells) (patch_loop (logical_index start) cells d)"
  have "snd (patch start cells d) = ?d" using True small by (simp add: patch_def Let_def checked_add_def)
  moreover have "sync_at v (td_cursor d) (td_cursor_visible d) ?d"
    using True patch_loop_logical [OF sync(1), of "logical_index start" cells] sync
    by (intro sync_record [OF s, where ch = "Patch (logical_index start) cells"] view_eqI) simp_all
  ultimately show ?thesis by (simp add: in_sync_def)
next
  case False
  have "snd (patch start cells d) = d"
    using False logical_in_range [OF assms(2)] by (auto simp: patch_def Let_def checked_add_def split: option.splits)
  with assms(1) show ?thesis by simp
qed

definition rectangle_ok :: "terminal_rectangle \<Rightarrow> bool" where
  "rectangle_ok r \<longleftrightarrow> rect_x r + rect_width r \<le> TERMINAL_WIDTH \<and> rect_y r + rect_height r \<le> TERMINAL_HEIGHT"

lemma constructed_ok:
  "position_new x y = Inr p \<Longrightarrow> position_ok p"
  "rectangle_new x y w h = Inr r \<Longrightarrow> rectangle_ok r"
  by (auto simp: position_new_def position_ok_def rectangle_new_def rectangle_ok_def checked_add_def split: if_splits)

lemma fill_row_logical:
  assumes "grid_ok d" "y < TERMINAL_HEIGHT" "\<forall>x\<in>set cols. x < TERMINAL_WIDTH"
  shows "grid_ok (fold (\<lambda>x. set_cell \<lparr>pos_x = x, pos_y = y\<rparr> c) cols d) \<and>
    logical_cells (fold (\<lambda>x. set_cell \<lparr>pos_x = x, pos_y = y\<rparr> c) cols d) =
      fold (\<lambda>x xs. xs[y * TERMINAL_WIDTH + x := c]) cols (logical_cells d)"
  using assms
proof (induction cols arbitrary: d)
  case (Cons x cols)
  then show ?case
    using set_cell_grid [OF Cons.prems(1)] set_cell_logical [OF Cons.prems(1), of "\<lparr>pos_x = x, pos_y = y\<rparr>" c]
    by (simp add: position_ok_def logical_index_def)
qed simp

lemma fill_grid_logical:
  assumes "grid_ok d" "\<forall>y\<in>set rows. y < TERMINAL_HEIGHT" "\<forall>x\<in>set cols. x < TERMINAL_WIDTH"
  shows "grid_ok (fold (\<lambda>y. fold (\<lambda>x. set_cell \<lparr>pos_x = x, pos_y = y\<rparr> c) cols) rows d) \<and>
    logical_cells (fold (\<lambda>y. fold (\<lambda>x. set_cell \<lparr>pos_x = x, pos_y = y\<rparr> c) cols) rows d) =
      fold (\<lambda>y. fold (\<lambda>x xs. xs[y * TERMINAL_WIDTH + x := c]) cols) rows (logical_cells d)"
  using assms
proof (induction rows arbitrary: d)
  case (Cons y rows)
  then show ?case using fill_row_logical [OF Cons.prems(1) _ Cons.prems(3), of y c] by simp
qed simp

lemma fold_cells_frame:
  assumes "\<And>x d. \<exists>cells. f x d = d\<lparr>td_cells := cells\<rparr>"
  shows "\<exists>cells. fold f xs d = d\<lparr>td_cells := cells\<rparr>"
proof (induction xs arbitrary: d)
  case (Cons x xs)
  obtain a where "f x d = d\<lparr>td_cells := a\<rparr>" using assms by blast
  moreover obtain b where "fold f xs (d\<lparr>td_cells := a\<rparr>) = d\<lparr>td_cells := a\<rparr>\<lparr>td_cells := b\<rparr>" using Cons by blast
  ultimately show ?case by auto
qed (metis fold_simps(1) terminal_device.surjective terminal_device.update_convs(1))

lemma fill_sync:
  assumes "in_sync v d" "rectangle_ok rect"
  shows "in_sync v (snd (fill rect cell d))"
proof -
  let ?rows = "[rect_y rect..<rect_y rect + rect_height rect]" and ?cols = "[rect_x rect..<rect_x rect + rect_width rect]"
  let ?e = "fold (\<lambda>y. fold (\<lambda>x. set_cell \<lparr>pos_x = x, pos_y = y\<rparr> cell) ?cols) ?rows d"
  let ?ch = "Fill (rect_x rect) (rect_y rect) (rect_width rect) (rect_height rect) cell"
  note s = assms(1) [unfolded in_sync_def] and sync = sync_atD [OF assms(1) [unfolded in_sync_def]]
  have "\<exists>cells. set_cell q c d = d\<lparr>td_cells := cells\<rparr>" for q c d by (auto simp: set_cell_def)
  then have "\<exists>cells. ?e = d\<lparr>td_cells := cells\<rparr>" by (intro fold_cells_frame) blast
  then have f: "td_cursor ?e = td_cursor d" "td_cursor_visible ?e = td_cursor_visible d" "td_history ?e = td_history d"
    "td_history_start ?e = td_history_start d" "td_replication ?e = td_replication d" by auto
  have "grid_ok ?e \<and> logical_cells ?e = fill_cells (rect_x rect) (rect_y rect) (rect_width rect) (rect_height rect) cell (logical_cells d)"
    unfolding fill_cells_def using assms(2) by (intro fill_grid_logical sync(1)) (auto simp: rectangle_ok_def)
  with f sync have "sync_at v (td_cursor d) (td_cursor_visible d) (record_in ?ch ?e)"
    by (intro sync_record [OF s, where ch = ?ch] view_eqI) simp_all
  with f show ?thesis by (simp add: fill_def Let_def in_sync_def)
qed

lemma scroll_with_sync:
  assumes "sync_at v p b d" "rows \<le> TERMINAL_HEIGHT" "rows \<noteq> 0"
  shows "sync_at v p b (record_in (Scroll rows c) (scroll_with rows c d)) \<and> td_cursor (scroll_with rows c d) = td_cursor d \<and>
    td_cursor_visible (scroll_with rows c d) = td_cursor_visible d"
proof -
  let ?first = "wrapping_add 64 (td_history_start d) (length (td_history d) div TERMINAL_WIDTH)"
  let ?removed = "concat (map (\<lambda>y. map (\<lambda>x. get_cell d \<lparr>pos_x = x, pos_y = y\<rparr>) [0..<TERMINAL_WIDTH]) [0..<rows])"
  obtain start history where ev: "evict (td_history_start d) (td_history d @ ?removed) = (start, history)" by fastforce
  let ?a = "record_in (HistoryAppend ?first ?removed) (d\<lparr>td_history := history, td_history_start := start\<rparr>)"
  note sync = sync_atD [OF assms(1)]
  have e: "scroll_with rows c d = (scroll_row c ^^ rows) ?a" using ev assms(3) by (simp add: scroll_with_def Let_def)
  have "length ?removed = rows * TERMINAL_WIDTH" by (simp add: length_concat o_def sum_list_triv)
  then have "TERMINAL_WIDTH dvd length (td_history d @ ?removed)" using sync(1) by (simp add: grid_ok_def)
  from evict_bounds [OF this, of "td_history_start d"] sync(1)
  have "grid_ok (d\<lparr>td_history := history, td_history_start := start\<rparr>)" by (simp add: ev grid_ok_def)
  then have a: "sync_at v p b ?a"
    using sync ev by (intro sync_record [OF assms(1), where ch = "HistoryAppend ?first ?removed"] view_eqI) simp_all
  have "sync_at v p b (record_in (Scroll rows c) ((scroll_row c ^^ rows) ?a))"
    using scroll_rows_logical [OF sync_atD(1) [OF a] assms(2), of c] sync_atD(2) [OF a] assms(2)
    by (intro sync_record [OF a, where ch = "Scroll rows c"] view_eqI) simp_all
  then show ?thesis unfolding e by simp
qed

lemma scroll_sync:
  assumes "in_sync v d"
  shows "in_sync v (snd (scroll rows d))"
proof (cases "rows = 0 \<or> TERMINAL_HEIGHT < rows")
  case True
  have "evict (td_history_start d) (td_history d) = (td_history_start d, td_history d)"
    using assms by (simp add: in_sync_def sync_at_def grid_ok_def evict_none)
  with True have "snd (scroll rows d) = d" by (auto simp: scroll_def Let_def scroll_with_def)
  with assms show ?thesis by simp
next
  case False
  then show ?thesis using scroll_with_sync [OF assms [unfolded in_sync_def], of rows default_cell]
    by (simp add: scroll_def Let_def in_sync_def)
qed

lemma visible_kept [simp]:
  "td_cursor_visible (scroll_with rows c d) = td_cursor_visible d" "td_cursor_visible (newline d) = td_cursor_visible d"
  "td_cursor_visible (write_scalar scalar d) = td_cursor_visible d"
  "td_cursor_visible (write_decoded x d) = td_cursor_visible d"
proof -
  show scroll: "td_cursor_visible (scroll_with rows c d) = td_cursor_visible d" for rows c d
    by (simp add: scroll_with_def Let_def split: prod.split)
  show newline: "td_cursor_visible (newline d) = td_cursor_visible d" for d by (simp add: newline_def Let_def scroll)
  show scalar: "td_cursor_visible (write_scalar scalar d) = td_cursor_visible d" for scalar
    by (simp add: write_scalar_def Let_def newline)
  show "td_cursor_visible (write_decoded x d) = td_cursor_visible d" by (simp add: write_decoded_def newline scalar)
qed

lemma newline_sync:
  assumes "sync_at v p b d"
  shows "sync_at v p b (newline d)"
proof -
  let ?d = "d\<lparr>td_cursor := (td_cursor d)\<lparr>pos_x := 0\<rparr>\<rparr>"
  have ok: "position_ok (td_cursor d)" using sync_atD(2) [OF assms] .
  then have d: "sync_at v p b ?d" by (intro sync_move assms) (simp add: position_ok_def)
  show ?thesis
  proof (cases "pos_y (td_cursor d) + 1 < TERMINAL_HEIGHT")
    case True
    then have "sync_at v p b (?d\<lparr>td_cursor := (td_cursor ?d)\<lparr>pos_y := pos_y (td_cursor ?d) + 1\<rparr>\<rparr>)"
      by (intro sync_move d) (simp add: position_ok_def)
    with True show ?thesis by (simp add: newline_def Let_def)
  next
    case False
    then show ?thesis using scroll_with_sync [OF d, of 1] by (simp add: newline_def Let_def Suc_le_eq)
  qed
qed

lemma write_scalar_sync:
  assumes "sync_at v p b d"
  shows "sync_at v p b (write_scalar scalar d)"
proof -
  let ?cell = "(cell_blank (td_foreground d) (td_background d))\<lparr>code_point := scalar\<rparr>"
  let ?d = "record_in (Patch (logical_index (td_cursor d)) [?cell]) (set_cell (td_cursor d) ?cell d)"
  have ok: "position_ok (td_cursor d)" using sync_atD(2) [OF assms] .
  have d: "sync_at v p b ?d" by (rule patch_one_sync [OF assms ok])
  show ?thesis
  proof (cases "pos_x (td_cursor d) + 1 < TERMINAL_WIDTH")
    case True
    have "sync_at v p b (?d\<lparr>td_cursor := (td_cursor d)\<lparr>pos_x := pos_x (td_cursor d) + 1\<rparr>\<rparr>)"
      using ok True by (intro sync_move d) (simp add: position_ok_def)
    with True show ?thesis by (simp add: write_scalar_def Let_def)
  next
    case False
    with newline_sync [OF d] show ?thesis by (simp add: write_scalar_def Let_def)
  qed
qed

lemma write_utf16_sync:
  assumes "in_sync v d"
  shows "in_sync v (write_utf16 units d)"
proof -
  have step: "sync_at v p b (write_decoded x e)" if "sync_at v p b e" for p b x e
    using that newline_sync [OF that] write_scalar_sync [OF that] sync_move [OF that] sync_atD(2) [OF that]
    by (auto simp: write_decoded_def position_ok_def)
  have loop: "sync_at v p b (fold write_decoded xs e)" if "sync_at v p b e" for p b xs e
    using that by (induction xs arbitrary: e) (auto intro: step)
  let ?e = "fold write_decoded (decode_utf16 units) d"
  have e: "sync_at v (td_cursor d) (td_cursor_visible d) ?e" using loop assms by (simp add: in_sync_def)
  show ?thesis
  proof (cases "td_cursor ?e = td_cursor d")
    case True
    have "td_cursor_visible (fold write_decoded xs e) = td_cursor_visible e" for xs e
      by (induction xs arbitrary: e) simp_all
    then have vis: "td_cursor_visible ?e = td_cursor_visible d" .
    with True e show ?thesis by (simp add: write_utf16_def Let_def in_sync_def)
  next
    case False
    with sync_record_cursor [OF e] show ?thesis by (simp add: write_utf16_def Let_def)
  qed
qed

lemma erase_previous_sync:
  assumes "in_sync v d"
  shows "in_sync v (erase_previous d)"
proof (cases "pos_x (td_cursor d) = 0 \<and> pos_y (td_cursor d) = 0")
  case True
  with assms show ?thesis by (simp add: erase_previous_def)
next
  case False
  let ?q = "if 0 < pos_x (td_cursor d) then (td_cursor d)\<lparr>pos_x := pos_x (td_cursor d) - 1\<rparr>
    else \<lparr>pos_x = TERMINAL_WIDTH - 1, pos_y = pos_y (td_cursor d) - 1\<rparr>"
  have ok: "position_ok (td_cursor d)" using assms by (simp add: in_sync_def sync_at_def)
  then have q: "position_ok ?q" by (auto simp: position_ok_def)
  have "sync_at v (td_cursor d) (td_cursor_visible d) (d\<lparr>td_cursor := ?q\<rparr>)"
    using assms q by (intro sync_move) (simp_all add: in_sync_def)
  from sync_record_cursor [OF patch_one_sync [OF this q]] False show ?thesis
    by (auto simp: erase_previous_def Let_def)
qed

lemma clear_sync:
  assumes "in_sync v d"
  shows "in_sync v (clear d)"
proof -
  note sync = sync_atD [OF assms [unfolded in_sync_def]]
  have "logical_cells (clear d) = replicate CELL_COUNT default_cell"
    by (rule nth_equalityI) (simp_all add: logical_nth get_cell_def clear_def physical_in_range position_of_def)
  then have "view_of (clear d) = apply_change ((view_of d)\<lparr>v_cursor := td_cursor d, v_visible := td_cursor_visible d\<rparr>) Reset"
    by (intro view_eqI) (simp_all add: clear_def ORIGIN_def)
  moreover have "(view_of (clear d))\<lparr>v_cursor := td_cursor (clear d), v_visible := td_cursor_visible (clear d)\<rparr> = view_of (clear d)"
    by (intro view_eqI) simp_all
  moreover have "td_replication (clear d) = record_reset (td_replication d)" by (simp add: clear_def)
  moreover have "grid_ok (clear d)" "position_ok (td_cursor (clear d))"
    using sync(1) by (simp_all add: clear_def grid_ok_def ORIGIN_def position_ok_def)
  ultimately show ?thesis using reset_tracked [OF sync(3)] by (simp add: in_sync_def sync_at_def)
qed

lemma last_content_row_less: "last_content_row d = Some y \<Longrightarrow> y < TERMINAL_HEIGHT"
  unfolding last_content_row_def find_Some_iff by (auto simp: rev_nth)

lemma resume_sync:
  assumes "in_sync v d"
  shows "in_sync v (resume_console_output d)"
proof -
  let ?d = "set_cursor_visible True (d\<lparr>td_foreground := DEFAULT_FOREGROUND, td_background := DEFAULT_BACKGROUND\<rparr>)"
  have "in_sync v (d\<lparr>td_foreground := DEFAULT_FOREGROUND, td_background := DEFAULT_BACKGROUND\<rparr>)"
    using sync_colors [OF assms [unfolded in_sync_def]] by (simp add: in_sync_def)
  then have d: "in_sync v ?d" by (rule set_cursor_visible_sync)
  then have "pos_y (td_cursor ?d) < TERMINAL_HEIGHT" by (simp add: in_sync_def sync_at_def position_ok_def)
  then have here: "in_sync v (set_cursor \<lparr>pos_x = 0, pos_y = pos_y (td_cursor ?d)\<rparr> ?d)"
    by (intro set_cursor_sync d) (simp add: position_ok_def)
  have below: "in_sync v (record_cursor (newline (set_cursor \<lparr>pos_x = 0, pos_y = y\<rparr> ?d)))" if "y < TERMINAL_HEIGHT" for y
  proof -
    have "in_sync v (set_cursor \<lparr>pos_x = 0, pos_y = y\<rparr> ?d)" using that by (intro set_cursor_sync d) (simp add: position_ok_def)
    from sync_record_cursor [OF newline_sync [OF this [unfolded in_sync_def]]] show ?thesis .
  qed
  show ?thesis
  proof (cases "last_content_row d")
    case None
    with here show ?thesis by (simp add: resume_console_output_def Let_def)
  next
    case (Some y)
    with here below [OF last_content_row_less [OF Some]] show ?thesis by (simp add: resume_console_output_def Let_def)
  qed
qed

subsection \<open>The screen in reading order\<close>

lemma cell_at_logical:
  "cell_at d x y = (if x < TERMINAL_WIDTH \<and> y < TERMINAL_HEIGHT
     then Inr (logical_cells d ! (y * TERMINAL_WIDTH + x)) else Inl InvalidPosition)"
proof -
  let ?p = "\<lparr>pos_x = x, pos_y = y\<rparr>"
  have "logical_cells d ! (y * TERMINAL_WIDTH + x) = get_cell d ?p" if "x < TERMINAL_WIDTH" "y < TERMINAL_HEIGHT"
  proof -
    have ok: "position_ok ?p" using that by (simp add: position_ok_def)
    from logical_nth [OF logical_in_range [OF ok], of d] position_of_logical [OF ok] show ?thesis
      by (simp add: logical_index_def)
  qed
  then show ?thesis by (auto simp: cell_at_def position_new_def)
qed

lemma patch_eq:
  assumes "grid_ok d" "position_ok p"
  shows "if logical_index p + length cells \<le> CELL_COUNT
    then is_ok (fst (patch p cells d)) \<and>
      logical_cells (snd (patch p cells d)) = overwrite (logical_index p) cells (logical_cells d)
    else patch p cells d = (Inl PatchOutOfBounds, d)"
proof -
  have small: "CELL_COUNT < 2 ^ 64" by (simp add: CELL_COUNT_def TERMINAL_WIDTH_def TERMINAL_HEIGHT_def)
  show ?thesis
    using patch_loop_logical [OF assms(1), of "logical_index p" cells] small
    by (auto simp: patch_def Let_def checked_add_def)
qed

lemma scrolled_off:
  assumes "rows \<le> TERMINAL_HEIGHT"
  shows "concat (map (\<lambda>y. map (\<lambda>x. get_cell d \<lparr>pos_x = x, pos_y = y\<rparr>) [0..<TERMINAL_WIDTH]) [0..<rows]) =
    take (rows * TERMINAL_WIDTH) (logical_cells d)"
  using assms
proof (induction rows)
  case (Suc n)
  let ?W = TERMINAL_WIDTH
  have "Suc n * ?W \<le> TERMINAL_HEIGHT * ?W" using Suc.prems by (rule mult_le_mono1)
  then have fits: "n * ?W + ?W \<le> CELL_COUNT" by (simp add: CELL_COUNT_def mult.commute)
  have "map (\<lambda>x. get_cell d \<lparr>pos_x = x, pos_y = n\<rparr>) [0..<?W] = take ?W (drop (n * ?W) (logical_cells d))"
  proof (rule nth_equalityI)
    fix x
    assume "x < length (map (\<lambda>x. get_cell d \<lparr>pos_x = x, pos_y = n\<rparr>) [0..<?W])"
    then have x: "x < ?W" by simp
    have "position_of (n * ?W + x) = \<lparr>pos_x = x, pos_y = n\<rparr>" using x by (simp add: position_of_def)
    with x fits show "map (\<lambda>x. get_cell d \<lparr>pos_x = x, pos_y = n\<rparr>) [0..<?W] ! x = take ?W (drop (n * ?W) (logical_cells d)) ! x"
      by (simp add: logical_nth)
  qed (use fits in simp)
  moreover have "Suc n * ?W = n * ?W + ?W" by simp
  ultimately show ?case using Suc by (simp only: take_add) simp
qed simp

lemma scroll_with_eq:
  assumes "grid_ok d" "rows \<le> TERMINAL_HEIGHT"
  shows "logical_cells (scroll_with rows c d) = drop (rows * TERMINAL_WIDTH) (logical_cells d) @ replicate (rows * TERMINAL_WIDTH) c"
    "(td_history_start (scroll_with rows c d), td_history (scroll_with rows c d)) =
      evict (td_history_start d) (td_history d @ take (rows * TERMINAL_WIDTH) (logical_cells d))"
    "td_cursor (scroll_with rows c d) = td_cursor d"
proof -
  let ?removed = "take (rows * TERMINAL_WIDTH) (logical_cells d)"
  let ?first = "wrapping_add 64 (td_history_start d) (length (td_history d) div TERMINAL_WIDTH)"
  obtain start history where ev: "evict (td_history_start d) (td_history d @ ?removed) = (start, history)" by fastforce
  let ?a = "d\<lparr>td_history := history, td_history_start := start\<rparr>"
  let ?b = "if rows \<noteq> 0 then record_in (HistoryAppend ?first ?removed) ?a else ?a"
  have e: "scroll_with rows c d = (scroll_row c ^^ rows) ?b"
    unfolding scroll_with_def Let_def scrolled_off [OF assms(2)] ev by simp
  have "length ?removed = rows * TERMINAL_WIDTH" using assms(2) by (simp add: CELL_COUNT_def mult.commute mult_le_mono2)
  then have "TERMINAL_WIDTH dvd length (td_history d @ ?removed)" using assms(1) by (simp add: grid_ok_def)
  from evict_bounds [OF this, of "td_history_start d"] have "grid_ok ?a" using assms(1) by (simp add: ev grid_ok_def)
  then have b: "grid_ok ?b" by (simp only: record_in_fields split: if_split) simp
  show "logical_cells (scroll_with rows c d) = drop (rows * TERMINAL_WIDTH) (logical_cells d) @ replicate (rows * TERMINAL_WIDTH) c"
    using scroll_rows_logical [OF b assms(2), of c] e by (cases "rows = 0") simp_all
  show "(td_history_start (scroll_with rows c d), td_history (scroll_with rows c d)) = evict (td_history_start d) (td_history d @ ?removed)"
    "td_cursor (scroll_with rows c d) = td_cursor d"
    unfolding e ev by (cases "rows = 0"; simp)+
qed

lemma scroll_eq:
  assumes "grid_ok d"
  shows "if rows \<le> TERMINAL_HEIGHT
    then is_ok (fst (scroll rows d)) \<and> logical_cells (snd (scroll rows d)) =
        drop (rows * TERMINAL_WIDTH) (logical_cells d) @ replicate (rows * TERMINAL_WIDTH) default_cell \<and>
      (td_history_start (snd (scroll rows d)), td_history (snd (scroll rows d))) =
        evict (td_history_start d) (td_history d @ take (rows * TERMINAL_WIDTH) (logical_cells d))
    else scroll rows d = (Inl ScrollOutOfBounds, d)"
proof (cases "rows \<le> TERMINAL_HEIGHT")
  case True
  then show ?thesis using scroll_with_eq [OF assms True, of default_cell] by (cases "rows = 0") (simp_all add: scroll_def Let_def)
qed (simp add: scroll_def)

lemma fold_columns_nth:
  assumes "\<forall>x\<in>set cols. r + x < length xs" "i < length xs"
  shows "length (fold (\<lambda>x xs. xs[r + x := c]) cols xs) = length xs \<and>
    fold (\<lambda>x xs. xs[r + x := c]) cols xs ! i = (if \<exists>x\<in>set cols. i = r + x then c else xs ! i)"
  using assms by (induction cols arbitrary: xs) (auto simp: nth_list_update)

lemma fold_rows_nth:
  assumes "\<forall>y\<in>set rows. \<forall>x\<in>set cols. y * w + x < length xs" "i < length xs"
  shows "length (fold (\<lambda>y. fold (\<lambda>x xs. xs[y * w + x := c]) cols) rows xs) = length xs \<and>
    fold (\<lambda>y. fold (\<lambda>x xs. xs[y * w + x := c]) cols) rows xs ! i =
      (if \<exists>y\<in>set rows. \<exists>x\<in>set cols. i = y * w + x then c else xs ! i)"
  using assms
proof (induction rows arbitrary: xs)
  case (Cons y rows)
  let ?ys = "fold (\<lambda>x xs. xs[y * w + x := c]) cols xs"
  have y: "length ?ys = length xs" "?ys ! i = (if \<exists>x\<in>set cols. i = y * w + x then c else xs ! i)"
    using fold_columns_nth [of cols "y * w" xs i c] Cons.prems by auto
  show ?case using Cons.IH [of ?ys] Cons.prems y by auto
qed simp

text \<open>Filling a rectangle, stated for each cell of the screen.\<close>

lemma fill_eq:
  assumes d: "grid_ok d" and rect: "rectangle_ok r"
  shows "fst (fill r c d) = Inr () \<and> logical_cells (snd (fill r c d)) =
    map (\<lambda>i. if rect_x r \<le> i mod TERMINAL_WIDTH \<and> i mod TERMINAL_WIDTH < rect_x r + rect_width r \<and>
      rect_y r \<le> i div TERMINAL_WIDTH \<and> i div TERMINAL_WIDTH < rect_y r + rect_height r
      then c else logical_cells d ! i) [0..<CELL_COUNT]"
proof -
  let ?rows = "[rect_y r..<rect_y r + rect_height r]" and ?cols = "[rect_x r..<rect_x r + rect_width r]" and ?W = TERMINAL_WIDTH
  let ?e = "fold (\<lambda>y. fold (\<lambda>x. set_cell \<lparr>pos_x = x, pos_y = y\<rparr> c) ?cols) ?rows d"
  have e: "logical_cells ?e = fold (\<lambda>y. fold (\<lambda>x xs. xs[y * ?W + x := c]) ?cols) ?rows (logical_cells d)"
    using fill_grid_logical [OF d, of ?rows ?cols c] rect by (auto simp: rectangle_ok_def)
  have "y * ?W + x < CELL_COUNT" if "y < TERMINAL_HEIGHT" "x < ?W" for x y
    using logical_in_range [of "\<lparr>pos_x = x, pos_y = y\<rparr>"] that by (simp add: position_ok_def logical_index_def)
  then have fits: "\<forall>y\<in>set ?rows. \<forall>x\<in>set ?cols. y * ?W + x < length (logical_cells d)" using rect by (auto simp: rectangle_ok_def)
  have inside: "(\<exists>y\<in>set ?rows. \<exists>x\<in>set ?cols. i = y * ?W + x) \<longleftrightarrow> i mod ?W \<in> set ?cols \<and> i div ?W \<in> set ?rows" for i
  proof
    assume "\<exists>y\<in>set ?rows. \<exists>x\<in>set ?cols. i = y * ?W + x"
    then obtain x y where "y \<in> set ?rows" "x \<in> set ?cols" "i = y * ?W + x" "x < ?W" using rect by (auto simp: rectangle_ok_def)
    then show "i mod ?W \<in> set ?cols \<and> i div ?W \<in> set ?rows" by simp
  next
    assume "i mod ?W \<in> set ?cols \<and> i div ?W \<in> set ?rows"
    then show "\<exists>y\<in>set ?rows. \<exists>x\<in>set ?cols. i = y * ?W + x" by (metis div_mult_mod_eq)
  qed
  have "logical_cells ?e = map (\<lambda>i. if i mod ?W \<in> set ?cols \<and> i div ?W \<in> set ?rows then c else logical_cells d ! i) [0..<CELL_COUNT]"
  proof (rule nth_equalityI)
    fix i assume "i < length (logical_cells ?e)"
    then have i: "i < length (logical_cells d)" by simp
    show "logical_cells ?e ! i = map (\<lambda>i. if i mod ?W \<in> set ?cols \<and> i div ?W \<in> set ?rows then c else logical_cells d ! i) [0..<CELL_COUNT] ! i"
      using fold_rows_nth [OF fits i, of c] i unfolding e inside by simp
  qed simp
  then show ?thesis by (simp add: fill_def Let_def conj_ac)
qed

lemma write_scalar_eq:
  assumes d: "grid_ok d" "position_ok (td_cursor d)"
    and cells_def: "cells = (logical_cells d)[logical_index (td_cursor d) := (cell_blank (td_foreground d) (td_background d))\<lparr>code_point := scalar\<rparr>]"
  shows "if pos_x (td_cursor d) + 1 < TERMINAL_WIDTH \<or> pos_y (td_cursor d) + 1 < TERMINAL_HEIGHT
    then logical_cells (write_scalar scalar d) = cells \<and> td_history (write_scalar scalar d) = td_history d \<and>
      position_ok (td_cursor (write_scalar scalar d)) \<and>
      logical_index (td_cursor (write_scalar scalar d)) = logical_index (td_cursor d) + 1
    else logical_cells (write_scalar scalar d) =
        drop TERMINAL_WIDTH cells @ replicate TERMINAL_WIDTH (cell_blank (td_foreground d) (td_background d)) \<and>
      (td_history_start (write_scalar scalar d), td_history (write_scalar scalar d)) =
        evict (td_history_start d) (td_history d @ take TERMINAL_WIDTH cells) \<and>
      td_cursor (write_scalar scalar d) = (td_cursor d)\<lparr>pos_x := 0\<rparr>"
proof -
  let ?cell = "(cell_blank (td_foreground d) (td_background d))\<lparr>code_point := scalar\<rparr>" and ?p = "td_cursor d"
  let ?d = "record_in (Patch (logical_index ?p) [?cell]) (set_cell ?p ?cell d)"
  let ?n = "?d\<lparr>td_cursor := (td_cursor ?d)\<lparr>pos_x := 0\<rparr>\<rparr>"
  have f: "td_cursor ?d = ?p" "td_history ?d = td_history d" "td_history_start ?d = td_history_start d"
    "td_foreground ?d = td_foreground d" "td_background ?d = td_background d" "grid_ok ?d"
    using set_cell_grid [OF d(1)] by (simp_all add: record_in_def set_cell_def)
  have cells: "logical_cells ?d = cells" using set_cell_logical [OF d] by (simp add: cells_def)
  have "grid_ok ?n" using f(6) by (simp add: grid_ok_def)
  then have sc: "logical_cells (scroll_with 1 c ?n) = drop TERMINAL_WIDTH cells @ replicate TERMINAL_WIDTH c"
    "(td_history_start (scroll_with 1 c ?n), td_history (scroll_with 1 c ?n)) = evict (td_history_start d) (td_history d @ take TERMINAL_WIDTH cells)"
    "td_cursor (scroll_with 1 c ?n) = ?p\<lparr>pos_x := 0\<rparr>" for c
    using scroll_with_eq [of ?n 1 c] f cells by (simp_all add: TERMINAL_HEIGHT_def)
  show ?thesis
    using d(2) f cells sc [of "cell_blank (td_foreground d) (td_background d)"]
    by (auto simp: write_scalar_def newline_def Let_def position_ok_def logical_index_def)
qed

subsection \<open>Runs of a device\<close>

datatype terminal_call =
  TcCursor terminal_position | TcVisible bool | TcColors nat nat | TcPatch terminal_position "terminal_cell list"
| TcWriteAt terminal_position "u16 list" | TcFill terminal_rectangle terminal_cell | TcFillCurrent terminal_rectangle nat
| TcScroll nat | TcWrite "u16 list" | TcErase | TcClear | TcResume | TcKey terminal_key_event | TcText "nat list" | TcPoll

fun terminal_exec :: "terminal_call \<Rightarrow> terminal_device \<Rightarrow> terminal_device" where
  "terminal_exec (TcCursor p) d = set_cursor p d"
| "terminal_exec (TcVisible b) d = set_cursor_visible b d"
| "terminal_exec (TcColors fg bg) d = snd (set_colors fg bg d)"
| "terminal_exec (TcPatch p cells) d = snd (patch p cells d)"
| "terminal_exec (TcWriteAt p units) d = snd (write_at p units d)"
| "terminal_exec (TcFill r c) d = snd (fill r c d)"
| "terminal_exec (TcFillCurrent r scalar) d = snd (fill_with_current_colors r scalar d)"
| "terminal_exec (TcScroll rows) d = snd (scroll rows d)"
| "terminal_exec (TcWrite units) d = write_utf16 units d"
| "terminal_exec TcErase d = erase_previous d"
| "terminal_exec TcClear d = clear d"
| "terminal_exec TcResume d = resume_console_output d"
| "terminal_exec (TcKey event) d = snd (device_push_key event d)"
| "terminal_exec (TcText chars) d = snd (device_push_text chars d)"
| "terminal_exec TcPoll d = snd (poll_input d)"

text \<open>Positions and rectangles only exist as results of their checked constructors.\<close>

fun call_ok :: "terminal_call \<Rightarrow> bool" where
  "call_ok (TcCursor p) \<longleftrightarrow> position_ok p"
| "call_ok (TcPatch p _) \<longleftrightarrow> position_ok p"
| "call_ok (TcWriteAt p _) \<longleftrightarrow> position_ok p"
| "call_ok (TcFill r _) \<longleftrightarrow> rectangle_ok r"
| "call_ok (TcFillCurrent r _) \<longleftrightarrow> rectangle_ok r"
| "call_ok _ \<longleftrightarrow> True"

lemma terminal_exec_sync:
  assumes "in_sync v d" "call_ok c"
  shows "in_sync v (terminal_exec c d)"
proof -
  note at = assms(1) [unfolded in_sync_def]
  have colors: "in_sync v (snd (set_colors fg bg d))" for fg bg
    using sync_colors [OF at] assms(1)
    by (auto simp: set_colors_def sseq_def sbind_def in_sync_def split: sum.splits)
  have inputs: "in_sync v (d\<lparr>td_input := i\<rparr>)" for i using sync_input [OF at] by (simp add: in_sync_def)
  have current: "in_sync v (snd (fill_with_current_colors r scalar d))" if "rectangle_ok r" for r scalar
    using fill_sync [OF assms(1) that] assms(1) by (auto simp: fill_with_current_colors_def sbind_def split: sum.splits)
  show ?thesis
    using assms colors current inputs
    by (cases c) (auto simp: set_cursor_sync set_cursor_visible_sync patch_sync fill_sync scroll_sync write_utf16_sync
        erase_previous_sync clear_sync resume_sync write_at_def Let_def device_push_key_def device_push_text_def
        poll_input_def split: prod.splits)
qed

text \<open>A run of a device with the list of committed screens: element \<open>r\<close> is the screen of revision \<open>r\<close>.\<close>

inductive device_run :: "terminal_config \<Rightarrow> terminal_device \<Rightarrow> terminal_view list \<Rightarrow> bool" for config where
  run_new: "with_config config = Inr d \<Longrightarrow> device_run config d [view_of d]"
| run_call: "device_run config d vs \<Longrightarrow> call_ok c \<Longrightarrow> device_run config (terminal_exec c d) vs"
| run_commit: "device_run config d vs \<Longrightarrow> device_commit d = (Inr (Committed delta), d') \<Longrightarrow>
    device_run config d' (vs @ [view_of d])"
| run_unchanged: "device_run config d vs \<Longrightarrow> device_commit d = (Inr (CommitUnchanged r), d') \<Longrightarrow> device_run config d' vs"

fun chain :: "terminal_view list \<Rightarrow> nat \<Rightarrow> terminal_delta list \<Rightarrow> nat \<Rightarrow> bool" where
  "chain vs n [] m \<longleftrightarrow> n = m"
| "chain vs n (d # ds) m \<longleftrightarrow> base_revision d = n \<and> target_revision d = n + 1 \<and> n < m \<and>
     apply_changes (vs ! n) (delta_changes d) = vs ! (n + 1) \<and> chain vs (n + 1) ds m"

lemma chain_snoc:
  assumes "chain vs n ds m" "base_revision d = m" "target_revision d = m + 1"
    "apply_changes (vs ! m) (delta_changes d) = w" "length vs = m + 1"
  shows "chain (vs @ [w]) n (ds @ [d]) (m + 1)"
  using assms
proof (induction vs n ds m rule: chain.induct)
  case (1 vs n m)
  then show ?case by (simp add: nth_append)
next
  case (2 vs n d' ds m)
  then show ?case by (simp add: nth_append)
qed

lemma chain_trim: "chain vs n ds m \<Longrightarrow> \<exists>k. chain vs k (trim_journal cap ds) m"
  by (induction vs n ds m rule: chain.induct) (auto intro: exI [of _ "_ :: nat"])

lemma length_trim: "length (trim_journal cap ds) \<le> cap"
  by (induction cap ds rule: trim_journal.induct) auto

text \<open>Calls touch the replication state only by recording changes.\<close>

inductive recorded :: "replication_state \<Rightarrow> replication_state \<Rightarrow> bool" for r where
  rec_refl [simp]: "recorded r r"
| rec_change [simp]: "recorded r s \<Longrightarrow> recorded r (record_change ch s)"
| rec_reset [simp]: "recorded r s \<Longrightarrow> recorded r (record_reset s)"

definition pending_ok :: "replication_state \<Rightarrow> bool" where
  "pending_ok r \<longleftrightarrow> length (rep_pending r) \<le> MAXIMUM_PENDING_CHANGES \<and> (rep_requires_full r \<longrightarrow> rep_pending r = [])"

lemma record_change_keeps:
  "rep_revision (record_change ch r) = rep_revision r \<and> rep_journal (record_change ch r) = rep_journal r \<and>
   rep_journal_capacity (record_change ch r) = rep_journal_capacity r \<and> (pending_ok r \<longrightarrow> pending_ok (record_change ch r))"
proof (cases "joined_patch ch (rep_pending r)")
  case None
  then show ?thesis by (auto simp: record_change_def Let_def pending_ok_def)
next
  case (Some joined)
  then have "rep_pending r \<noteq> []" by (auto simp: joined_patch_def split: terminal_change.splits if_splits)
  with Some show ?thesis by (auto simp: record_change_def pending_ok_def Suc_le_eq)
qed

lemma recorded_keeps:
  assumes "recorded r s"
  shows "rep_revision s = rep_revision r \<and> rep_journal s = rep_journal r \<and>
    rep_journal_capacity s = rep_journal_capacity r \<and> (pending_ok r \<longrightarrow> pending_ok s)"
  using assms
proof (induction rule: recorded.induct)
  case (rec_change s ch)
  with record_change_keeps [of ch s] show ?case by auto
next
  case (rec_reset s)
  have "pending_ok s \<longrightarrow> pending_ok (s\<lparr>rep_pending := filter is_history (rep_pending s)\<rparr>)"
    using le_trans [OF length_filter_le] by (auto simp: pending_ok_def)
  with rec_reset record_change_keeps [of Reset "s\<lparr>rep_pending := filter is_history (rep_pending s)\<rparr>"]
  show ?case by (simp add: record_reset_def)
qed simp

lemma recorded_scroll_with [simp]: "recorded r (td_replication d) \<Longrightarrow> recorded r (td_replication (scroll_with rows c d))"
  by (simp add: scroll_with_def Let_def split: prod.splits)

lemma recorded_newline [simp]: "recorded r (td_replication d) \<Longrightarrow> recorded r (td_replication (newline d))"
  by (simp add: newline_def Let_def)

lemma recorded_decoded [simp]: "recorded r (td_replication d) \<Longrightarrow> recorded r (td_replication (write_decoded x d))"
  by (simp add: write_decoded_def write_scalar_def Let_def)

lemma recorded_write [simp]: "recorded r (td_replication d) \<Longrightarrow> recorded r (td_replication (fold write_decoded xs d))"
  by (induction xs arbitrary: d) simp_all

lemma recorded_cursor [simp]:
  "recorded r (td_replication d) \<Longrightarrow> recorded r (td_replication (record_cursor d))"
  "recorded r (td_replication d) \<Longrightarrow> recorded r (td_replication (set_cursor p d))"
  "recorded r (td_replication d) \<Longrightarrow> recorded r (td_replication (set_cursor_visible b d))"
  by (simp_all add: set_cursor_def set_cursor_visible_def record_cursor_def)

lemma recorded_fill [simp]: "recorded r (td_replication d) \<Longrightarrow> recorded r (td_replication (snd (fill rect c d)))"
proof -
  assume r: "recorded r (td_replication d)"
  have row: "td_replication (fold (\<lambda>x. set_cell \<lparr>pos_x = x, pos_y = y\<rparr> c) cols e) = td_replication e" for y cols e
    by (induction cols arbitrary: e) simp_all
  have "td_replication (fold (\<lambda>y. fold (\<lambda>x. set_cell \<lparr>pos_x = x, pos_y = y\<rparr> c) cols) rows e) = td_replication e" for cols rows e
    by (induction rows arbitrary: e) (simp_all add: row)
  with r show ?thesis by (simp add: fill_def Let_def)
qed

lemma recorded_patch [simp]: "recorded r (td_replication d) \<Longrightarrow> recorded r (td_replication (snd (patch p cells d)))"
  by (simp add: patch_def Let_def split: option.splits)

lemma terminal_exec_recorded: "recorded (td_replication d) (td_replication (terminal_exec c d))"
  by (cases c) (simp_all add: set_colors_def sseq_def sbind_def write_at_def Let_def write_utf16_def
      fill_with_current_colors_def scroll_def erase_previous_def clear_def resume_console_output_def device_push_key_def
      device_push_text_def poll_input_def split: sum.splits prod.splits option.splits)

definition device_inv :: "terminal_config \<Rightarrow> terminal_device \<Rightarrow> terminal_view list \<Rightarrow> bool" where
  "device_inv config d vs \<longleftrightarrow> in_sync (last vs) d \<and> length vs = rep_revision (td_replication d) + 1 \<and>
     (\<exists>n. chain vs n (rep_journal (td_replication d)) (rep_revision (td_replication d))) \<and>
     length (rep_journal (td_replication d)) \<le> cfg_journal_revisions config \<and>
     rep_journal_capacity (td_replication d) = cfg_journal_revisions config \<and> pending_ok (td_replication d)"

lemma last_at: "length xs = n + 1 \<Longrightarrow> last xs = xs ! n \<and> xs \<noteq> []"
  by (cases xs rule: rev_cases) auto

lemma full_replacement:
  "length (v_cells v) = CELL_COUNT \<Longrightarrow>
   apply_changes v [Reset, Patch 0 (logical_cells d), HistoryReplace (td_history_start d) (td_history d),
     Cursor (td_cursor d) (td_cursor_visible d)] = view_of d"
  by (intro view_eqI) (simp_all add: overwrite_def)

lemma in_sync_tracked: "in_sync v d \<Longrightarrow> tracked v (td_replication d) (view_of d)"
  by (simp add: in_sync_def sync_at_def view_of_def)

lemma in_sync_frame:
  assumes "in_sync v d" "tracked w r (view_of d)"
  shows "in_sync w (d\<lparr>td_replication := r\<rparr>)"
  using assms by (simp add: in_sync_def sync_at_def view_of_def)

text \<open>A commit turns the pending changes into a delta from the last committed screen to the current one.\<close>

lemma device_commit_ok:
  assumes inv: "device_inv config d vs" and commit: "device_commit d = (Inr c, d')"
  shows "(\<exists>r. c = CommitUnchanged r) \<and> d' = d \<and> view_of d = last vs \<and> rep_pending (td_replication d) = [] \<or>
    (\<exists>delta. c = Committed delta) \<and> device_inv config d' (vs @ [view_of d]) \<and> view_of d' = view_of d \<and>
      rep_pending (td_replication d') = []"
proof -
  let ?r = "td_replication d"
  let ?full = "[Reset, Patch 0 (logical_cells d), HistoryReplace (td_history_start d) (td_history d),
    Cursor (td_cursor d) (td_cursor_visible d)]"
  let ?changes = "if rep_requires_full ?r then ?full else rep_pending ?r"
  let ?delta = "\<lparr>base_revision = rep_revision ?r, target_revision = rep_revision ?r + 1, delta_changes = ?changes\<rparr>"
  let ?journal = "if MAXIMUM_ACCUMULATED_CELLS < encoded_cells ?changes then [] else rep_journal ?r @ [?delta]"
  let ?s = "?r\<lparr>rep_revision := rep_revision ?r + 1, rep_pending := [], rep_requires_full := False,
    rep_journal := trim_journal (rep_journal_capacity ?r) ?journal\<rparr>"
  have sync: "in_sync (last vs) d" and vs: "length vs = rep_revision ?r + 1" "last vs = vs ! rep_revision ?r" "vs \<noteq> []"
    using inv last_at [of vs "rep_revision ?r"] by (auto simp: device_inv_def)
  from in_sync_tracked [OF sync] have new: "apply_changes (last vs) ?changes = view_of d"
    using full_replacement [of "last vs" d] by (auto simp: tracked_def)
  show ?thesis
  proof (cases "?changes = []")
    case True
    then have "\<not> rep_requires_full ?r" "rep_pending ?r = []" by (auto split: if_splits)
    with commit have "c = CommitUnchanged (rep_revision ?r)" "d' = d" by (auto simp: device_commit_def replication_commit_def)
    with True new \<open>rep_pending ?r = []\<close> show ?thesis by simp
  next
    case False
    then have c: "c = Committed ?delta" "d' = d\<lparr>td_replication := ?s\<rparr>"
      using commit by (auto simp: device_commit_def replication_commit_def checked_add_def Let_def split: if_splits)
    obtain n where n: "chain vs n (rep_journal ?r) (rep_revision ?r)" using inv by (auto simp: device_inv_def)
    have "\<exists>n. chain (vs @ [view_of d]) n ?journal (rep_revision ?r + 1)"
      using chain_snoc [OF n, of ?delta "view_of d"] new vs by auto
    then obtain k where "chain (vs @ [view_of d]) k (trim_journal (rep_journal_capacity ?r) ?journal) (rep_revision ?r + 1)"
      using chain_trim by blast
    moreover have "in_sync (view_of d) (d\<lparr>td_replication := ?s\<rparr>)"
      by (rule in_sync_frame [OF sync]) (simp add: tracked_def)
    ultimately have "device_inv config d' (vs @ [view_of d])"
      using inv vs(1) length_trim [of "rep_journal_capacity ?r" ?journal] unfolding c(2) device_inv_def
      by (auto simp: pending_ok_def)
    then show ?thesis using c by (auto intro!: view_eqI)
  qed
qed

lemma device_run_inv: "device_run config d vs \<Longrightarrow> device_inv config d vs"
proof (induction rule: device_run.induct)
  case (run_new d)
  then show ?case
    by (auto simp: with_config_def device_inv_def in_sync_def sync_at_def grid_ok_def tracked_def position_ok_def
        ORIGIN_def replication_new_def pending_ok_def split: if_splits intro!: view_eqI)
next
  case (run_call d vs c)
  with recorded_keeps [OF terminal_exec_recorded [of d c]] terminal_exec_sync [of "last vs" d c]
  show ?case by (auto simp: device_inv_def)
next
  case (run_commit d vs delta d')
  from device_commit_ok [OF run_commit.IH run_commit.hyps(2)] show ?case by auto
next
  case (run_unchanged d vs r d')
  from device_commit_ok [OF run_unchanged.IH run_unchanged.hyps(2)] run_unchanged.IH show ?case by auto
qed

lemma delta_loop_ok:
  assumes "chain vs n ds goal_rev" "apply_changes (vs ! base) changes = vs ! expected" "cells = encoded_cells changes"
    "delta_loop goal_rev base expected changes cells ds = Some u"
  shows "\<exists>cs. u = UpdateDelta \<lparr>base_revision = base, target_revision = goal_rev, delta_changes = cs\<rparr> \<and>
    apply_changes (vs ! base) cs = vs ! goal_rev \<and> length cs \<le> MAXIMUM_ACCUMULATED_CHANGES \<and>
    encoded_cells cs \<le> MAXIMUM_ACCUMULATED_CELLS"
  using assms
proof (induction ds arbitrary: n expected changes cells)
  case (Cons d ds)
  show ?case
  proof (cases "target_revision d \<le> expected")
    case True
    with Cons.prems show ?thesis by (intro Cons.IH [where n = "n + 1" and expected = expected and changes = changes and cells = cells]) simp_all
  next
    case False
    let ?cells = "cells + encoded_cells (delta_changes d)" and ?changes = "changes @ delta_changes d"
    from False Cons.prems(1,4) have n: "expected = n" "length ?changes \<le> MAXIMUM_ACCUMULATED_CHANGES"
      "?cells \<le> MAXIMUM_ACCUMULATED_CELLS" by (auto simp: Let_def split: if_splits)
    have cells: "?cells = encoded_cells ?changes" using Cons.prems(3) by (simp add: encoded_cells_def)
    have applied: "apply_changes (vs ! base) ?changes = vs ! (n + 1)" using Cons.prems(1,2) n(1) by simp
    show ?thesis
    proof (cases "n + 1 = goal_rev")
      case True
      with Cons.prems False n cells applied show ?thesis by (auto simp: Let_def)
    next
      case rest: False
      with Cons.prems False n have "delta_loop goal_rev base (n + 1) ?changes ?cells ds = Some u" by (auto simp: Let_def)
      with Cons.prems(1) applied cells show ?thesis by (intro Cons.IH [where n = "n + 1" and expected = "n + 1" and changes = ?changes and cells = ?cells]) simp_all
    qed
  qed
qed simp

lemma changes_since_ok:
  assumes inv: "device_inv config d vs" and base: "base < length vs"
  shows "changes_since base d = UpdateUnchanged (rep_revision (td_replication d)) \<and> vs ! base = last vs \<or>
    (\<exists>cs. changes_since base d = UpdateDelta \<lparr>base_revision = base, target_revision = rep_revision (td_replication d),
       delta_changes = cs\<rparr> \<and> apply_changes (vs ! base) cs = last vs \<and> length cs \<le> MAXIMUM_ACCUMULATED_CHANGES \<and>
       encoded_cells cs \<le> MAXIMUM_ACCUMULATED_CELLS) \<or>
    changes_since base d = UpdateFull (snapshot d)"
proof -
  let ?r = "td_replication d"
  have last: "last vs = vs ! rep_revision ?r" and len: "length vs = rep_revision ?r + 1"
    using inv last_at [of vs "rep_revision ?r"] by (auto simp: device_inv_def)
  obtain n where n: "chain vs n (rep_journal ?r) (rep_revision ?r)" using inv by (auto simp: device_inv_def)
  show ?thesis
  proof (cases "delta_since base ?r")
    case None
    then show ?thesis by (simp add: changes_since_def)
  next
    case (Some u)
    then have u: "changes_since base d = u" by (simp add: changes_since_def)
    show ?thesis
    proof (cases "base = rep_revision ?r")
      case True
      with Some u last show ?thesis by (simp add: delta_since_def)
    next
      case False
      with Some base len have "delta_loop (rep_revision ?r) base base [] 0 (rep_journal ?r) = Some u"
        by (simp add: delta_since_def)
      from delta_loop_ok [OF n _ _ this] u last show ?thesis by (simp add: encoded_cells_def)
    qed
  qed
qed

subsection \<open>Properties\<close>

definition client_update :: "terminal_view \<Rightarrow> terminal_update \<Rightarrow> terminal_view" where
  "client_update v u =
     (case u of UpdateUnchanged _ \<Rightarrow> v | UpdateDelta delta \<Rightarrow> apply_changes v (delta_changes delta) | UpdateFull s \<Rightarrow> snapshot_view s)"

definition update_revision :: "terminal_update \<Rightarrow> nat" where
  "update_revision u =
     (case u of UpdateUnchanged r \<Rightarrow> r | UpdateDelta delta \<Rightarrow> target_revision delta | UpdateFull s \<Rightarrow> snap_revision s)"

lemma snapshot_view_of [simp]: "snapshot_view (snapshot d) = view_of d"
  by (simp add: snapshot_view_def snapshot_def view_of_def)

lemma committed_update:
  assumes inv: "device_inv config d vs" and clean: "view_of d = last vs" and base: "base < length vs"
  shows "client_update (vs ! base) (changes_since base d) = view_of d \<and>
    update_revision (changes_since base d) = rep_revision (td_replication d)"
  using changes_since_ok [OF inv base] clean
  by (elim disjE exE conjE) (simp_all add: client_update_def update_revision_def, simp add: snapshot_def)

text \<open>
  C25. Clients converge: after any calls and commits, a client that holds the screen of any earlier revision
  and asks for the changes since that revision right after a commit has exactly the screen of the device,
  with its cursor and its history, at the revision just committed, whether it is sent nothing, a delta or a full snapshot.
\<close>

theorem clients_converge:
  assumes "device_run config d vs" "device_commit d = (Inr c, d')" "base < length vs"
  shows "client_update (vs ! base) (changes_since base d') = view_of d \<and>
    update_revision (changes_since base d') = rep_revision (td_replication d')"
proof -
  note inv = device_run_inv [OF assms(1)]
  from device_commit_ok [OF inv assms(2)] consider
      "d' = d" "view_of d = last vs"
    | "device_inv config d' (vs @ [view_of d])" "view_of d' = view_of d" by blast
  then show ?thesis
  proof cases
    case 1
    with committed_update [OF inv] assms(3) show ?thesis by simp
  next
    case 2
    from committed_update [OF 2(1), of base] 2(2) assms(3) show ?thesis by (simp add: nth_append)
  qed
qed

lemma commit_succeeds:
  assumes "rep_revision (td_replication d) + 1 < 2 ^ 64"
  shows "\<exists>c d'. device_commit d = (Inr c, d')"
  using assms by (simp add: device_commit_def replication_commit_def checked_add_def Let_def)

definition default_device :: terminal_device where
  "default_device =
     \<lparr>td_cells = replicate CELL_COUNT default_cell, td_row_head = 0, td_history = [], td_history_start = 0,
      td_cursor = ORIGIN, td_cursor_visible = True, td_foreground = DEFAULT_FOREGROUND,
      td_background = DEFAULT_BACKGROUND, td_input = input_queue_new default_input_limits,
      td_replication = replication_new 64\<rparr>"

lemma default_run: "device_run default_config default_device [view_of default_device]"
  by (rule run_new) (simp add: with_config_def default_config_def default_device_def)

lemma default_scrolled: "device_run default_config (terminal_exec (TcScroll 1) default_device) [view_of default_device]"
  by (rule run_call [OF default_run]) simp

lemma scrolled_revision: "rep_revision (td_replication (terminal_exec (TcScroll 1) default_device)) = 0"
  using recorded_keeps [OF terminal_exec_recorded [of default_device "TcScroll 1"]]
  by (simp add: default_device_def replication_new_def)

theorem clients_converge_witness:
  "\<exists>c d'. device_commit (terminal_exec (TcScroll 1) default_device) = (Inr c, d') \<and>
     client_update (view_of default_device) (changes_since 0 d') = view_of (terminal_exec (TcScroll 1) default_device)"
proof -
  let ?d = "terminal_exec (TcScroll 1) default_device"
  obtain c d' where c: "device_commit ?d = (Inr c, d')" using commit_succeeds [of ?d] scrolled_revision by auto
  from clients_converge [OF default_scrolled this, of 0] c show ?thesis by (simp del: terminal_exec.simps)
qed

text \<open>
  C28. The terminal stays within its bounds: after any calls and commits the cursor is on the screen, the
  history holds whole rows and at most 512 of them, at most 256 changes are pending, the journal keeps at
  most the configured number of revisions, an update never carries more than 4096 changes or 8192 cells,
  and a commit can only fail when the 64-bit revision is exhausted.
\<close>

theorem terminal_bounds:
  assumes "device_run config d vs"
  shows "position_ok (td_cursor d) \<and> TERMINAL_WIDTH dvd length (td_history d) \<and>
    length (td_history d) \<le> TERMINAL_HISTORY_ROWS * TERMINAL_WIDTH \<and>
    length (rep_pending (td_replication d)) \<le> MAXIMUM_PENDING_CHANGES \<and>
    length (rep_journal (td_replication d)) \<le> cfg_journal_revisions config \<and>
    (\<forall>base delta. base < length vs \<longrightarrow> changes_since base d = UpdateDelta delta \<longrightarrow>
       length (delta_changes delta) \<le> MAXIMUM_ACCUMULATED_CHANGES \<and>
       encoded_cells (delta_changes delta) \<le> MAXIMUM_ACCUMULATED_CELLS) \<and>
    (rep_revision (td_replication d) + 1 < 2 ^ 64 \<longrightarrow> (\<exists>c d'. device_commit d = (Inr c, d')))"
proof -
  note inv = device_run_inv [OF assms]
  then have "position_ok (td_cursor d)" "grid_ok d" "pending_ok (td_replication d)"
    "length (rep_journal (td_replication d)) \<le> cfg_journal_revisions config"
    by (auto simp: device_inv_def in_sync_def sync_at_def)
  moreover have "length (delta_changes delta) \<le> MAXIMUM_ACCUMULATED_CHANGES \<and>
      encoded_cells (delta_changes delta) \<le> MAXIMUM_ACCUMULATED_CELLS"
    if "base < length vs" "changes_since base d = UpdateDelta delta" for base delta
    using changes_since_ok [OF inv that(1)] that(2) by auto
  ultimately show ?thesis using commit_succeeds by (auto simp: grid_ok_def pending_ok_def)
qed

theorem terminal_bounds_witness: "length (td_history (terminal_exec (TcScroll 1) default_device)) \<le> 26112"
  using terminal_bounds [OF default_scrolled]
  by (simp add: TERMINAL_HISTORY_ROWS_def TERMINAL_WIDTH_def del: terminal_exec.simps)

text \<open>
  C26. The ring of rows is invisible: in every reachable device reading a cell, patching, filling, writing a
  character and scrolling act on the screen in reading order. Reads, patches and scrolls fail exactly outside it. A fill
  changes exactly the cells of its rectangle. A character goes to the cursor, which then moves one cell on in
  reading order, or stays in the last row while the screen scrolls by one. The rows that scroll off are appended to
  the history, oldest rows leaving when it is full.
\<close>

theorem terminal_grid_refines:
  assumes "device_run config d vs"
  shows "cell_at d x y = (if x < TERMINAL_WIDTH \<and> y < TERMINAL_HEIGHT
      then Inr (logical_cells d ! (y * TERMINAL_WIDTH + x)) else Inl InvalidPosition) \<and>
    (position_ok p \<longrightarrow> (if logical_index p + length cells \<le> CELL_COUNT
      then is_ok (fst (patch p cells d)) \<and>
        logical_cells (snd (patch p cells d)) = overwrite (logical_index p) cells (logical_cells d)
      else patch p cells d = (Inl PatchOutOfBounds, d))) \<and>
    (rectangle_ok r \<longrightarrow> fst (fill r c d) = Inr () \<and> logical_cells (snd (fill r c d)) =
      map (\<lambda>i. if rect_x r \<le> i mod TERMINAL_WIDTH \<and> i mod TERMINAL_WIDTH < rect_x r + rect_width r \<and>
        rect_y r \<le> i div TERMINAL_WIDTH \<and> i div TERMINAL_WIDTH < rect_y r + rect_height r
        then c else logical_cells d ! i) [0..<CELL_COUNT]) \<and>
    (let blank = cell_blank (td_foreground d) (td_background d);
         cells = (logical_cells d)[logical_index (td_cursor d) := blank\<lparr>code_point := scalar\<rparr>];
         e = write_scalar scalar d in
     if pos_x (td_cursor d) + 1 < TERMINAL_WIDTH \<or> pos_y (td_cursor d) + 1 < TERMINAL_HEIGHT
     then logical_cells e = cells \<and> td_history e = td_history d \<and> position_ok (td_cursor e) \<and>
       logical_index (td_cursor e) = logical_index (td_cursor d) + 1
     else logical_cells e = drop TERMINAL_WIDTH cells @ replicate TERMINAL_WIDTH blank \<and>
       (td_history_start e, td_history e) = evict (td_history_start d) (td_history d @ take TERMINAL_WIDTH cells) \<and>
       td_cursor e = (td_cursor d)\<lparr>pos_x := 0\<rparr>) \<and>
    (if rows \<le> TERMINAL_HEIGHT
     then is_ok (fst (scroll rows d)) \<and> logical_cells (snd (scroll rows d)) =
         drop (rows * TERMINAL_WIDTH) (logical_cells d) @ replicate (rows * TERMINAL_WIDTH) default_cell \<and>
       (td_history_start (snd (scroll rows d)), td_history (snd (scroll rows d))) =
         evict (td_history_start d) (td_history d @ take (rows * TERMINAL_WIDTH) (logical_cells d))
     else scroll rows d = (Inl ScrollOutOfBounds, d))"
proof -
  have grid: "grid_ok d" "position_ok (td_cursor d)"
    using device_run_inv [OF assms] by (simp_all add: device_inv_def in_sync_def sync_at_def)
  show ?thesis
    unfolding Let_def
    by (intro conjI impI cell_at_logical patch_eq [OF grid(1)] fill_eq [OF grid(1)] write_scalar_eq [OF grid refl] scroll_eq [OF grid(1)])
qed

theorem terminal_grid_refines_witness:
  "cell_at default_device 50 18 = Inr (logical_cells default_device ! 968) \<and>
   cell_at default_device 51 0 = Inl InvalidPosition \<and>
   logical_cells (snd (fill \<lparr>rect_x = 1, rect_y = 0, rect_width = 2, rect_height = 1\<rparr> (cell_blank 3 4) default_device)) ! 2 = cell_blank 3 4"
  using terminal_grid_refines [OF default_run, of 50 18 ORIGIN "[]" "\<lparr>rect_x = 1, rect_y = 0, rect_width = 2, rect_height = 1\<rparr>" "cell_blank 3 4" 65 0]
    terminal_grid_refines [OF default_run, of 51 0 ORIGIN "[]" "\<lparr>rect_x = 1, rect_y = 0, rect_width = 2, rect_height = 1\<rparr>" "cell_blank 3 4" 65 0]
  by (simp add: TERMINAL_WIDTH_def TERMINAL_HEIGHT_def CELL_COUNT_def rectangle_ok_def)

lemma delta_loop_skip:
  "\<forall>x\<in>set ds. target_revision x \<le> expected \<Longrightarrow>
   delta_loop final base expected changes cells (ds @ es) = delta_loop final base expected changes cells es"
  by (induction ds) simp_all

lemma chain_targets: "chain vs n ds m \<Longrightarrow> x \<in> set ds \<Longrightarrow> target_revision x \<le> m"
  by (induction vs n ds m rule: chain.induct) auto

lemma trim_snoc: "0 < cap \<Longrightarrow> \<exists>ys. trim_journal cap (xs @ [x]) = ys @ [x] \<and> set ys \<subseteq> set xs"
proof (induction xs)
  case (Cons y xs)
  then show ?case by (cases "cap < length ((y # xs) @ [x])") (auto intro: exI [of _ "y # xs"])
qed auto

text \<open>What a client that already has the last committed revision is sent after the next commit.\<close>

lemma next_delta:
  assumes inv: "device_inv config d vs" and cap: "0 < cfg_journal_revisions config"
    and r: "\<not> rep_requires_full (td_replication d)" "rep_pending (td_replication d) \<noteq> []"
      "encoded_cells (rep_pending (td_replication d)) \<le> MAXIMUM_ACCUMULATED_CELLS"
    and commit: "device_commit d = (Inr c, d')"
  shows "changes_since (rep_revision (td_replication d)) d' = UpdateDelta
    \<lparr>base_revision = rep_revision (td_replication d), target_revision = rep_revision (td_replication d) + 1,
     delta_changes = rep_pending (td_replication d)\<rparr>"
proof -
  let ?r = "td_replication d"
  let ?delta = "\<lparr>base_revision = rep_revision ?r, target_revision = rep_revision ?r + 1, delta_changes = rep_pending ?r\<rparr>"
  have len: "length (rep_pending ?r) \<le> MAXIMUM_ACCUMULATED_CHANGES"
    using inv by (simp add: device_inv_def pending_ok_def MAXIMUM_PENDING_CHANGES_def MAXIMUM_ACCUMULATED_CHANGES_def)
  obtain n where "chain vs n (rep_journal ?r) (rep_revision ?r)" using inv by (auto simp: device_inv_def)
  from chain_targets [OF this] have old: "\<forall>x\<in>set (rep_journal ?r). target_revision x \<le> rep_revision ?r" by blast
  have d': "rep_revision (td_replication d') = rep_revision ?r + 1"
    "rep_journal (td_replication d') = trim_journal (rep_journal_capacity ?r) (rep_journal ?r @ [?delta])"
    using commit r by (auto simp: device_commit_def replication_commit_def checked_add_def Let_def not_less split: if_splits)
  obtain ys where ys: "rep_journal (td_replication d') = ys @ [?delta]" "set ys \<subseteq> set (rep_journal ?r)"
    using trim_snoc [of "rep_journal_capacity ?r" "rep_journal ?r" ?delta] cap inv unfolding d'(2) by (auto simp: device_inv_def)
  have "delta_loop (rep_revision ?r + 1) (rep_revision ?r) (rep_revision ?r) [] 0 (ys @ [?delta]) =
      delta_loop (rep_revision ?r + 1) (rep_revision ?r) (rep_revision ?r) [] 0 [?delta]"
    by (rule delta_loop_skip) (use old ys(2) in blast)
  then show ?thesis using len r(3) by (simp add: changes_since_def delta_since_def d'(1) ys(1))
qed

lemma scroll_pending:
  assumes "rep_pending (td_replication d) = []" "\<not> rep_requires_full (td_replication d)"
  shows "\<exists>first. rep_pending (td_replication (snd (scroll 1 d))) =
      [HistoryAppend first (take TERMINAL_WIDTH (logical_cells d)), Scroll 1 default_cell] \<and>
    \<not> rep_requires_full (td_replication (snd (scroll 1 d)))"
  using assms scrolled_off [of 1 d] scroll_row_frame(5) [where rows = 1]
  by (auto simp: scroll_def Let_def scroll_with_def record_change_def joined_patch_def MAXIMUM_PENDING_CHANGES_def
      Suc_le_eq not_less split: prod.splits)

text \<open>
  C27. A snapshot taken between a change and its commit is mislabelled: it shows the uncommitted change but
  carries the committed revision. When a row is scrolled off, a client that attaches then, and follows
  the device after the commit, is sent the scroll again and ends with a screen the device does not have.
\<close>

theorem snapshot_before_commit_diverges:
  assumes "device_run config d vs" "rep_pending (td_replication d) = []" "\<not> rep_requires_full (td_replication d)"
    "length (td_history d) + 2 * TERMINAL_WIDTH \<le> TERMINAL_HISTORY_ROWS * TERMINAL_WIDTH" "0 < cfg_journal_revisions config"
    "device_commit (snd (scroll 1 d)) = (Inr c, d')" "attach = changes_since (2 ^ 64 - 1) (snd (scroll 1 d))"
    "rep_revision (td_replication d) < 2 ^ 64 - 1"
  shows "client_update (client_update v attach) (changes_since (update_revision attach) d') \<noteq> view_of d'"
proof -
  let ?e = "snd (scroll 1 d)" and ?row = "take TERMINAL_WIDTH (logical_cells d)"
  have "device_run config ?e vs" using run_call [OF assms(1), of "TcScroll 1"] by simp
  note inv = device_run_inv [OF this]
  have grid: "grid_ok d" using device_run_inv [OF assms(1)] by (simp add: device_inv_def in_sync_def sync_at_def)
  obtain first where p: "rep_pending (td_replication ?e) = [HistoryAppend first ?row, Scroll 1 default_cell]"
    "\<not> rep_requires_full (td_replication ?e)" using scroll_pending [OF assms(2,3)] by blast
  have rev: "rep_revision (td_replication ?e) = rep_revision (td_replication d)"
    using recorded_keeps [OF terminal_exec_recorded [of d "TcScroll 1"]] by simp
  have row: "length ?row = TERMINAL_WIDTH" by (simp add: CELL_COUNT_def TERMINAL_HEIGHT_def)
  have hist: "td_history ?e = td_history d @ ?row"
    using scroll_eq [OF grid, of 1] assms(4) row by (simp add: Suc_le_eq evict_none)
  have attach: "attach = UpdateFull (snapshot ?e)" using assms(7,8) rev by (simp add: changes_since_def delta_since_def)
  have small: "encoded_cells (rep_pending (td_replication ?e)) \<le> MAXIMUM_ACCUMULATED_CELLS"
    unfolding p(1) using row by (simp add: encoded_cells_def MAXIMUM_ACCUMULATED_CELLS_def TERMINAL_WIDTH_def)
  have upd: "changes_since (update_revision attach) d' = UpdateDelta \<lparr>base_revision = rep_revision (td_replication ?e),
      target_revision = rep_revision (td_replication ?e) + 1, delta_changes = rep_pending (td_replication ?e)\<rparr>"
    using next_delta [OF inv assms(5) p(2) _ small assms(6)] p(1) by (simp add: attach update_revision_def snapshot_def)
  have "v_history (client_update (client_update v attach) (changes_since (update_revision attach) d')) = td_history ?e @ ?row"
    unfolding upd p(1) using hist assms(4) row by (simp add: client_update_def attach evict_none)
  moreover have "td_history d' = td_history ?e"
    using assms(6) by (auto simp: device_commit_def Let_def split: prod.splits)
  ultimately show ?thesis using row
    by (metis append_self_conv length_0_conv sizes_pos(1) less_irrefl view_of_fields(5))
qed

theorem snapshot_before_commit_diverges_witness:
  "\<exists>c d'. device_commit (snd (scroll 1 default_device)) = (Inr c, d') \<and>
     client_update (view_of (snd (scroll 1 default_device))) (changes_since 0 d') \<noteq> view_of d'"
proof -
  let ?e = "snd (scroll 1 default_device)" and ?attach = "changes_since (2 ^ 64 - 1) (snd (scroll 1 default_device))"
  have rev: "rep_revision (td_replication ?e) = 0" using scrolled_revision by simp
  then obtain c d' where c: "device_commit ?e = (Inr c, d')" using commit_succeeds [of ?e] by auto
  have attach: "?attach = UpdateFull (snapshot ?e)" using rev by (simp add: changes_since_def delta_since_def)
  have "client_update (client_update (view_of default_device) ?attach) (changes_since (update_revision ?attach) d') \<noteq> view_of d'"
    by (rule snapshot_before_commit_diverges [OF default_run _ _ _ _ c refl])
      (simp_all add: default_device_def replication_new_def default_config_def TERMINAL_HISTORY_ROWS_def)
  moreover have "client_update (view_of default_device) ?attach = view_of ?e" "update_revision ?attach = 0"
    unfolding attach using rev by (simp_all add: client_update_def update_revision_def) (simp add: snapshot_def)
  ultimately show ?thesis using c by auto
qed

end
