(* ===== verification/Redstone.thy ===== *)
theory Redstone
  imports Prelude "HOL-Library.Product_Lexorder"
begin

unbundle bit_operations_syntax

text \<open>
  The redstone device (\<open>src/src/redstone.rs\<close>): packed input levels of six sides, the confirmed output
  register and the waiters for input changes. Sides, signals, tasks and requests are natural numbers, the
  packed registers are 32-bit words.
\<close>

definition SIDE_COUNT :: nat where "SIDE_COUNT = 6"
definition ALL_SIDES_MASK :: u32 where "ALL_SIDES_MASK = 0x3f"
definition REGISTER_MASK :: u32 where "REGISTER_MASK = 0x3fffffff"
definition INPUT_LEVEL_MASK :: u32 where "INPUT_LEVEL_MASK = 0x00ffffff"
definition SIGNAL_MASK :: nat where "SIGNAL_MASK = 0x0f"

datatype redstone_error = ReservedBits | InvalidSide | InvalidSignal | DuplicateWaiter | WaiterLimit

datatype input_predicate = Changed | Exact nat | AtLeast nat | AtMost nat

record redstone_waiter =
  rw_task :: nat
  rw_request :: nat
  rw_side :: nat
  rw_predicate :: input_predicate

record redstone_wakeup =
  wk_task :: nat
  wk_request :: nat
  wk_level :: nat

datatype wait_registration = RegReady nat | RegPending

record redstone_device =
  input_levels :: u32
  confirmed_output :: u32
  rd_waiters :: "redstone_waiter list"
  maximum_waiters :: nat

type_synonym 'a redstone_op = "(redstone_device, redstone_error, 'a) smonad"

definition redstone_new :: "nat \<Rightarrow> redstone_device" where
  "redstone_new limit = \<lparr>input_levels = 0, confirmed_output = 0, rd_waiters = [], maximum_waiters = limit\<rparr>"

definition validate_register :: "u32 \<Rightarrow> redstone_error + unit" where
  "validate_register v = (if v AND NOT REGISTER_MASK = 0 then Inr () else Inl ReservedBits)"

definition validate_side :: "nat \<Rightarrow> redstone_error + unit" where
  "validate_side side = (if side < SIDE_COUNT then Inr () else Inl InvalidSide)"

definition validate_signal :: "nat \<Rightarrow> redstone_error + unit" where
  "validate_signal signal = (if signal \<le> SIGNAL_MASK then Inr () else Inl InvalidSignal)"

fun predicate_matches :: "input_predicate \<Rightarrow> nat \<Rightarrow> bool" where
  "predicate_matches Changed level = True"
| "predicate_matches (Exact signal) level = (level = signal)"
| "predicate_matches (AtLeast signal) level = (signal \<le> level)"
| "predicate_matches (AtMost signal) level = (level \<le> signal)"

definition redstone_input :: "nat \<Rightarrow> redstone_device \<Rightarrow> redstone_error + nat" where
  "redstone_input side d =
     rbind (validate_side side) (\<lambda>_. Inr (unat (drop_bit (side * 4) (input_levels d) AND of_nat SIGNAL_MASK)))"

definition contains_waiter :: "nat \<Rightarrow> nat \<Rightarrow> redstone_device \<Rightarrow> bool" where
  "contains_waiter task request d = list_ex (\<lambda>w. rw_task w = task \<and> rw_request w = request) (rd_waiters d)"

definition confirm_output :: "u32 \<Rightarrow> unit redstone_op" where
  "confirm_output packed =
     sseq (sread (\<lambda>_. validate_register packed)) (smodify (\<lambda>d. d\<lparr>confirmed_output := packed\<rparr>))"

fun submit_loop :: "u32 \<Rightarrow> redstone_device \<Rightarrow> redstone_waiter list \<Rightarrow> redstone_wakeup list \<Rightarrow> redstone_waiter list \<Rightarrow>
    redstone_error + redstone_wakeup list \<times> redstone_waiter list" where
  "submit_loop changed d [] ready pending = Inr (ready, pending)"
| "submit_loop changed d (w # ws) ready pending =
     (if changed AND push_bit (rw_side w) 1 = 0 then submit_loop changed d ws ready (pending @ [w])
      else rbind (redstone_input (rw_side w) d) (\<lambda>level.
        if predicate_matches (rw_predicate w) level
        then submit_loop changed d ws
               (ready @ [\<lparr>wk_task = rw_task w, wk_request = rw_request w, wk_level = level\<rparr>]) pending
        else submit_loop changed d ws ready (pending @ [w])))"

definition submit_input :: "u32 \<Rightarrow> redstone_wakeup list redstone_op" where
  "submit_input packet =
     sseq (sread (\<lambda>_. validate_register packet)) (\<lambda>d.
     (let changed = packet AND ALL_SIDES_MASK;
          d = d\<lparr>input_levels := drop_bit 6 packet AND INPUT_LEVEL_MASK\<rparr> in
      if changed = 0 \<or> rd_waiters d = [] then (Inr [], d)
      else
        (case submit_loop changed d (rd_waiters d) [] [] of
           Inl e \<Rightarrow> (Inl e, d\<lparr>rd_waiters := []\<rparr>)
         | Inr (ready, pending) \<Rightarrow>
             (Inr (sort_key (\<lambda>k. (wk_task k, wk_request k)) ready), d\<lparr>rd_waiters := pending\<rparr>))))"

definition validate_predicate :: "input_predicate \<Rightarrow> redstone_error + unit" where
  "validate_predicate p =
     (case p of Changed \<Rightarrow> Inr () | Exact s \<Rightarrow> validate_signal s | AtLeast s \<Rightarrow> validate_signal s | AtMost s \<Rightarrow> validate_signal s)"

definition register :: "nat \<Rightarrow> nat \<Rightarrow> nat \<Rightarrow> input_predicate \<Rightarrow> bool \<Rightarrow> wait_registration redstone_op" where
  "register task request side predicate level_triggered =
     sseq (sread (\<lambda>_. validate_side side))
     (sseq (sread (\<lambda>_. validate_predicate predicate))
     (sseq (sread (\<lambda>d. rguard (\<not> contains_waiter task request d) DuplicateWaiter))
     (sbind (sread (redstone_input side)) (\<lambda>current d.
      if level_triggered \<and> predicate_matches predicate current then (Inr (RegReady current), d)
      else if maximum_waiters d \<le> length (rd_waiters d) then (Inl WaiterLimit, d)
      else (Inr RegPending,
            d\<lparr>rd_waiters := rd_waiters d @
                [\<lparr>rw_task = task, rw_request = request, rw_side = side, rw_predicate = predicate\<rparr>]\<rparr>)))))"

definition register_changed :: "nat \<Rightarrow> nat \<Rightarrow> nat \<Rightarrow> wait_registration redstone_op" where
  "register_changed task request side = register task request side Changed False"

definition register_exact :: "nat \<Rightarrow> nat \<Rightarrow> nat \<Rightarrow> nat \<Rightarrow> wait_registration redstone_op" where
  "register_exact task request side signal = register task request side (Exact signal) True"

definition register_at_least :: "nat \<Rightarrow> nat \<Rightarrow> nat \<Rightarrow> nat \<Rightarrow> wait_registration redstone_op" where
  "register_at_least task request side signal = register task request side (AtLeast signal) True"

definition register_at_most :: "nat \<Rightarrow> nat \<Rightarrow> nat \<Rightarrow> nat \<Rightarrow> wait_registration redstone_op" where
  "register_at_most task request side signal = register task request side (AtMost signal) True"

subsection \<open>Levels\<close>

definition level_of :: "u32 \<Rightarrow> nat \<Rightarrow> nat" where
  "level_of levels side = unat (take_bit 4 (drop_bit (side * 4) levels))"

definition side_changed :: "u32 \<Rightarrow> nat \<Rightarrow> bool" where
  "side_changed packet side \<longleftrightarrow> bit packet side"

definition packet_levels :: "u32 \<Rightarrow> u32" where
  "packet_levels packet = drop_bit 6 packet AND INPUT_LEVEL_MASK"

lemma redstone_input_eq: "redstone_input side d = (if side < SIDE_COUNT then Inr (level_of (input_levels d) side) else Inl InvalidSide)"
proof -
  have "(of_nat SIGNAL_MASK :: u32) = mask 4" by (simp add: SIGNAL_MASK_def mask_eq_exp_minus_1)
  then show ?thesis by (simp add: redstone_input_def validate_side_def level_of_def take_bit_eq_mask)
qed

lemma changed_bit:
  assumes "side < SIDE_COUNT"
  shows "(packet AND ALL_SIDES_MASK) AND push_bit side 1 = 0 \<longleftrightarrow> \<not> side_changed packet side"
proof -
  have m: "ALL_SIDES_MASK = mask 6" by (simp add: ALL_SIDES_MASK_def mask_eq_exp_minus_1)
  have side: "side < 6" "side < 32" using assms by (simp_all add: SIDE_COUNT_def)
  have zero: "w = 0 \<longleftrightarrow> (\<forall>n. \<not> bit w n)" for w :: u32
    using bit_imp_le_length [of w] by (auto simp: bit_eq_iff)
  have "(packet AND ALL_SIDES_MASK) AND push_bit side 1 = 0 \<longleftrightarrow> \<not> bit (packet AND mask 6) side"
    unfolding zero m using side by (auto simp: bit_simps dest!: spec [of _ side])
  then show ?thesis using side by (simp add: side_changed_def bit_simps)
qed

text \<open>A waiter fires when its side is reported as changed and its predicate holds of the new level.\<close>

definition fires :: "u32 \<Rightarrow> redstone_waiter \<Rightarrow> bool" where
  "fires packet w \<longleftrightarrow> side_changed packet (rw_side w) \<and>
     predicate_matches (rw_predicate w) (level_of (packet_levels packet) (rw_side w))"

definition wakeup_of :: "u32 \<Rightarrow> redstone_waiter \<Rightarrow> redstone_wakeup" where
  "wakeup_of packet w =
     \<lparr>wk_task = rw_task w, wk_request = rw_request w, wk_level = level_of (packet_levels packet) (rw_side w)\<rparr>"

definition redstone_ok :: "redstone_device \<Rightarrow> bool" where
  "redstone_ok d \<longleftrightarrow> (\<forall>w\<in>set (rd_waiters d). rw_side w < SIDE_COUNT) \<and>
     distinct (map (\<lambda>w. (rw_task w, rw_request w)) (rd_waiters d)) \<and> length (rd_waiters d) \<le> maximum_waiters d"

lemma submit_loop_eq:
  assumes "\<forall>w\<in>set ws. rw_side w < SIDE_COUNT" "input_levels d = packet_levels packet"
  shows "submit_loop (packet AND ALL_SIDES_MASK) d ws ready pending =
    Inr (ready @ map (wakeup_of packet) (filter (fires packet) ws), pending @ filter (\<lambda>w. \<not> fires packet w) ws)"
  using assms
proof (induction ws arbitrary: ready pending)
  case (Cons w ws)
  then show ?case using changed_bit [of "rw_side w" packet] by (simp add: redstone_input_eq fires_def wakeup_of_def)
qed simp

lemma no_change_no_fire: "packet AND ALL_SIDES_MASK = 0 \<Longrightarrow> rw_side w < SIDE_COUNT \<Longrightarrow> \<not> fires packet w"
  using changed_bit [of "rw_side w" packet] by (simp add: fires_def)

lemma submit_input_eq:
  assumes "redstone_ok d" "packet AND NOT REGISTER_MASK = 0"
  shows "submit_input packet d =
    (Inr (sort_key (\<lambda>k. (wk_task k, wk_request k)) (map (wakeup_of packet) (filter (fires packet) (rd_waiters d)))),
     d\<lparr>input_levels := packet_levels packet, rd_waiters := filter (\<lambda>w. \<not> fires packet w) (rd_waiters d)\<rparr>)"
proof (cases "packet AND ALL_SIDES_MASK = 0 \<or> rd_waiters d = []")
  case True
  have "filter (fires packet) (rd_waiters d) = []" "filter (\<lambda>w. \<not> fires packet w) (rd_waiters d) = rd_waiters d"
    using True assms(1) no_change_no_fire unfolding redstone_ok_def by (auto simp: filter_empty_conv filter_id_conv)
  with True assms(2) show ?thesis
    by (simp add: submit_input_def sseq_def sbind_def validate_register_def Let_def packet_levels_def)
next
  case False
  let ?e = "d\<lparr>input_levels := packet_levels packet\<rparr>"
  have "submit_loop (packet AND ALL_SIDES_MASK) ?e (rd_waiters d) [] [] =
      Inr (map (wakeup_of packet) (filter (fires packet) (rd_waiters d)), filter (\<lambda>w. \<not> fires packet w) (rd_waiters d))"
    using assms(1) by (subst submit_loop_eq) (simp_all add: redstone_ok_def)
  with False assms(2) show ?thesis
    by (simp add: submit_input_def sseq_def sbind_def validate_register_def Let_def packet_levels_def)
qed

lemma register_eq:
  "register task request side predicate level_triggered d =
     (if \<not> side < SIDE_COUNT then (Inl InvalidSide, d)
      else if \<not> is_ok (validate_predicate predicate) then (Inl InvalidSignal, d)
      else if contains_waiter task request d then (Inl DuplicateWaiter, d)
      else if level_triggered \<and> predicate_matches predicate (level_of (input_levels d) side)
      then (Inr (RegReady (level_of (input_levels d) side)), d)
      else if maximum_waiters d \<le> length (rd_waiters d) then (Inl WaiterLimit, d)
      else (Inr RegPending, d\<lparr>rd_waiters := rd_waiters d @
        [\<lparr>rw_task = task, rw_request = request, rw_side = side, rw_predicate = predicate\<rparr>]\<rparr>))"
  by (auto simp: register_def sseq_def sbind_def validate_side_def redstone_input_eq validate_predicate_def
      validate_signal_def rguard_def split: input_predicate.splits)

subsection \<open>Runs\<close>

datatype redstone_call =
  RsSubmit u32 | RsConfirm u32 | RsChanged nat nat nat | RsExact nat nat nat nat | RsAtLeast nat nat nat nat | RsAtMost nat nat nat nat

fun redstone_exec :: "redstone_call \<Rightarrow> redstone_device \<Rightarrow> redstone_device" where
  "redstone_exec (RsSubmit packet) d = snd (submit_input packet d)"
| "redstone_exec (RsConfirm packed) d = snd (confirm_output packed d)"
| "redstone_exec (RsChanged t r s) d = snd (register_changed t r s d)"
| "redstone_exec (RsExact t r s v) d = snd (register_exact t r s v d)"
| "redstone_exec (RsAtLeast t r s v) d = snd (register_at_least t r s v d)"
| "redstone_exec (RsAtMost t r s v) d = snd (register_at_most t r s v d)"

text \<open>What the host promises: a packet marks every side whose level it changes.\<close>

definition marks_changes :: "redstone_device \<Rightarrow> u32 \<Rightarrow> bool" where
  "marks_changes d packet \<longleftrightarrow> (\<forall>side<SIDE_COUNT.
     level_of (packet_levels packet) side \<noteq> level_of (input_levels d) side \<longrightarrow> side_changed packet side)"

fun honest_call :: "redstone_device \<Rightarrow> redstone_call \<Rightarrow> bool" where
  "honest_call d (RsSubmit packet) \<longleftrightarrow> marks_changes d packet"
| "honest_call d _ \<longleftrightarrow> True"

inductive redstone_run :: "nat \<Rightarrow> redstone_device \<Rightarrow> bool" for limit where
  redstone_start: "redstone_run limit (redstone_new limit)"
| redstone_step: "redstone_run limit d \<Longrightarrow> honest_call d c \<Longrightarrow> redstone_run limit (redstone_exec c d)"

text \<open>No waiter for a level sleeps while its level is there.\<close>

definition none_overdue :: "redstone_device \<Rightarrow> bool" where
  "none_overdue d \<longleftrightarrow> (\<forall>w\<in>set (rd_waiters d). rw_predicate w \<noteq> Changed \<longrightarrow>
     \<not> predicate_matches (rw_predicate w) (level_of (input_levels d) (rw_side w)))"

text \<open>The well-formedness of the waiters needs no promise of the host.\<close>

lemma exec_ok: "redstone_ok d \<Longrightarrow> redstone_ok (redstone_exec c d)"
proof -
  assume ok: "redstone_ok d"
  have reg: "redstone_ok (snd (register t r s p l d))" for t r s p l
    using ok by (auto simp: register_eq redstone_ok_def contains_waiter_def list_ex_iff)
  have "redstone_ok (snd (confirm_output v d))" for v
    using ok by (simp add: confirm_output_def sseq_def sbind_def validate_register_def redstone_ok_def)
  moreover have "redstone_ok (snd (submit_input packet d))" for packet
  proof (cases "packet AND NOT REGISTER_MASK = 0")
    case True
    show ?thesis using ok le_trans [OF length_filter_le]
      unfolding submit_input_eq [OF ok True] redstone_ok_def by (auto simp: distinct_map_filter)
  next
    case False
    with ok show ?thesis by (simp add: submit_input_def sseq_def sbind_def validate_register_def)
  qed
  ultimately show ?thesis
    by (cases c) (simp_all add: reg register_changed_def register_exact_def register_at_least_def register_at_most_def)
qed

lemma execs_ok: "redstone_ok d \<Longrightarrow> redstone_ok (fold redstone_exec calls d)"
  by (induction calls arbitrary: d) (simp_all add: exec_ok del: redstone_exec.simps)

lemma redstone_new_ok: "redstone_ok (redstone_new limit)"
  by (simp add: redstone_new_def redstone_ok_def)

lemma register_timely:
  assumes "none_overdue d" "p \<noteq> Changed \<longrightarrow> l"
  shows "none_overdue (snd (register t r s p l d))"
  using assms by (auto simp: register_eq none_overdue_def)

lemma submit_timely:
  assumes "redstone_ok d" "none_overdue d" "marks_changes d packet"
  shows "none_overdue (snd (submit_input packet d))"
proof (cases "packet AND NOT REGISTER_MASK = 0")
  case True
  have "\<not> predicate_matches (rw_predicate w) (level_of (packet_levels packet) (rw_side w))"
    if w: "w \<in> set (rd_waiters d)" "\<not> fires packet w" "rw_predicate w \<noteq> Changed" for w
  proof
    assume m: "predicate_matches (rw_predicate w) (level_of (packet_levels packet) (rw_side w))"
    with w have "\<not> side_changed packet (rw_side w)" by (simp add: fires_def)
    with assms(1,3) w have "level_of (packet_levels packet) (rw_side w) = level_of (input_levels d) (rw_side w)"
      by (auto simp: marks_changes_def redstone_ok_def)
    with assms(2) w m show False by (auto simp: none_overdue_def)
  qed
  then show ?thesis unfolding submit_input_eq [OF assms(1) True] by (auto simp: none_overdue_def)
next
  case False
  with assms show ?thesis by (simp add: submit_input_def sseq_def sbind_def validate_register_def)
qed

lemma redstone_run_ok: "redstone_run limit d \<Longrightarrow> redstone_ok d \<and> none_overdue d"
proof (induction rule: redstone_run.induct)
  case redstone_start
  show ?case using redstone_new_ok by (simp add: redstone_new_def none_overdue_def)
next
  case (redstone_step d c)
  then have "none_overdue (snd (confirm_output v d))" for v
    by (simp add: confirm_output_def sseq_def sbind_def validate_register_def none_overdue_def)
  with redstone_step have "none_overdue (redstone_exec c d)"
    by (cases c) (simp_all add: submit_timely register_timely register_changed_def register_exact_def
        register_at_least_def register_at_most_def)
  with redstone_step.IH exec_ok show ?case by blast
qed

text \<open>
  C31. No wake-up is missed: as long as the host marks every side whose level it changes, no task waits for
  a level that its side already has, no request waits twice, and the number of waiters stays within the limit.
\<close>

theorem no_missed_wakeup:
  assumes "redstone_run limit d"
  shows "none_overdue d \<and> redstone_ok d"
  using redstone_run_ok [OF assms] by simp

theorem no_missed_wakeup_witness: "none_overdue (redstone_exec (RsExact 1 1 0 7) (redstone_new 4))"
  using no_missed_wakeup [OF redstone_step [OF redstone_start, of 4 "RsExact 1 1 0 7"]] by (simp del: redstone_exec.simps)

text \<open>
  C32. A packet wakes exactly the waiters it should, in every state that calls can produce, whatever the
  host sends: it is rejected without effect when a reserved bit is
  set; otherwise all six levels are taken over, the waiters whose side is marked and whose predicate holds
  of the new level leave the device and are returned with that level, ordered by task and request, and
  all others stay in their order.
\<close>

theorem submit_input_exact:
  assumes "d = fold redstone_exec calls (redstone_new limit)"
  shows "submit_input packet d =
    (if packet AND NOT REGISTER_MASK = 0
     then (Inr (sort_key (\<lambda>k. (wk_task k, wk_request k)) (map (wakeup_of packet) (filter (fires packet) (rd_waiters d)))),
           d\<lparr>input_levels := packet_levels packet, rd_waiters := filter (\<lambda>w. \<not> fires packet w) (rd_waiters d)\<rparr>)
     else (Inl ReservedBits, d)) \<and>
    (packet AND NOT REGISTER_MASK = 0 \<longrightarrow> (\<forall>side<SIDE_COUNT.
       redstone_input side (snd (submit_input packet d)) = Inr (unat (take_bit 4 (drop_bit (6 + side * 4) packet)))))"
proof -
  have ok: "redstone_ok d" unfolding assms by (rule execs_ok [OF redstone_new_ok])
  have level: "level_of (packet_levels packet) side = unat (take_bit 4 (drop_bit (6 + side * 4) packet))"
    if "side < SIDE_COUNT" for side
  proof -
    have "INPUT_LEVEL_MASK = mask 24" by (simp add: INPUT_LEVEL_MASK_def mask_eq_exp_minus_1)
    then have "packet_levels packet = take_bit 24 (drop_bit 6 packet)" by (simp add: packet_levels_def take_bit_eq_mask)
    moreover have "4 + side * 4 \<le> 24" using that by (simp add: SIDE_COUNT_def)
    ultimately have "take_bit 4 (drop_bit (side * 4) (packet_levels packet)) = take_bit 4 (drop_bit (6 + side * 4) packet)"
      by (auto simp: bit_eq_iff bit_simps add.assoc)
    then show ?thesis by (simp add: level_of_def)
  qed
  show ?thesis
  proof (cases "packet AND NOT REGISTER_MASK = 0")
    case True
    with submit_input_eq [OF ok True] level show ?thesis by (simp add: redstone_input_eq)
  next
    case False
    then show ?thesis by (simp add: submit_input_def sseq_def sbind_def validate_register_def)
  qed
qed

theorem submit_input_exact_witness:
  "redstone_input 1 (snd (submit_input 0x1C41 (redstone_exec (RsExact 1 1 0 1) (redstone_new 4)))) = Inr 7"
proof -
  have run: "redstone_exec (RsExact 1 1 0 1) (redstone_new 4) = fold redstone_exec [RsExact 1 1 0 1] (redstone_new 4)"
    by (simp del: redstone_exec.simps)
  have reserved: "(0x1C41 :: u32) AND NOT REGISTER_MASK = 0" by (simp add: REGISTER_MASK_def)
  have "take_bit 4 (drop_bit 10 (0x1C41 :: u32)) = 7" by (simp add: drop_bit_eq_div take_bit_eq_mod)
  moreover have "\<forall>side<SIDE_COUNT. redstone_input side (snd (submit_input 0x1C41 (redstone_exec (RsExact 1 1 0 1) (redstone_new 4)))) =
      Inr (unat (take_bit 4 (drop_bit (6 + side * 4) (0x1C41 :: u32))))"
    by (rule mp [OF conjunct2 [OF submit_input_exact [OF run]] reserved])
  ultimately show ?thesis by (auto simp: SIDE_COUNT_def simp del: redstone_exec.simps dest!: spec [of _ 1])
qed

end
