(* ===== verification/Cp_Codec.thy ===== *)
theory Cp_Codec
  imports Bytes
begin

text \<open>
  The primitives of logical checkpoints (\<open>src/src/execution/checkpoint.rs\<close>): a bounded writer, a reader that
  charges every allocation and every level of nesting, and the encodings of integers, booleans, options,
  vectors, arrays, boxes, strings and tuples. Sizes of values in memory (\<open>size_of\<close>) are arguments; \<open>usize\<close> has 64
  bits. Reservations of memory succeed.
\<close>

datatype checkpoint_error =
  CpLimit | CpAllocation | CpTruncated | CpInvalidState | CpTrailingBytes | CpIncompatible | CpIntegrity

definition USIZE_MAX :: nat where "USIZE_MAX = 2 ^ 64 - 1"

record cp_writer =
  wr_bytes :: bytes
  wr_maximum :: nat

record cp_reader =
  rd_bytes :: bytes
  rd_allocation :: nat
  rd_depth :: nat

type_synonym 'a cp_write = "'a \<Rightarrow> (cp_writer, checkpoint_error, unit) smonad"
type_synonym 'a cp_read = "(cp_reader, checkpoint_error, 'a) smonad"

definition writer_new :: "nat \<Rightarrow> cp_writer" where
  "writer_new maximum = \<lparr>wr_bytes = [], wr_maximum = maximum\<rparr>"

definition writer_put :: "bytes cp_write" where
  "writer_put bs w =
     (case checked_add 64 (length (wr_bytes w)) (length bs) of
        None \<Rightarrow> (Inl CpLimit, w)
      | Some n \<Rightarrow>
          if wr_maximum w < n then (Inl CpLimit, w)
          else (Inr (), w\<lparr>wr_bytes := wr_bytes w @ bs\<rparr>))"

definition reader_new :: "bytes \<Rightarrow> nat \<Rightarrow> nat \<Rightarrow> checkpoint_error + cp_reader" where
  "reader_new bs maximum_bytes maximum_allocation =
     (if maximum_bytes < length bs then Inl CpLimit
      else Inr \<lparr>rd_bytes = bs, rd_allocation = maximum_allocation, rd_depth = 0\<rparr>)"

definition reader_take :: "nat \<Rightarrow> bytes cp_read" where
  "reader_take n r =
     (if n \<le> length (rd_bytes r) then (Inr (take n (rd_bytes r)), r\<lparr>rd_bytes := drop n (rd_bytes r)\<rparr>)
      else (Inl CpTruncated, r))"

definition reader_allocate :: "nat \<Rightarrow> nat \<Rightarrow> unit cp_read" where
  "reader_allocate size_of n r =
     (case checked_mul 64 n (max size_of 1) of
        None \<Rightarrow> (Inl CpLimit, r)
      | Some bs \<Rightarrow>
          (case checked_sub (rd_allocation r) bs of
             None \<Rightarrow> (Inl CpLimit, r)
           | Some left \<Rightarrow> (Inr (), r\<lparr>rd_allocation := left\<rparr>)))"

definition reader_nested :: "'a cp_read \<Rightarrow> 'a cp_read" where
  "reader_nested m r =
     (if rd_depth r = 64 then (Inl CpLimit, r)
      else (let (result, r) = m (r\<lparr>rd_depth := rd_depth r + 1\<rparr>) in (result, r\<lparr>rd_depth := rd_depth r - 1\<rparr>)))"

definition reader_finish :: "cp_reader \<Rightarrow> checkpoint_error + unit" where
  "reader_finish r = (if rd_bytes r = [] then Inr () else Inl CpTrailingBytes)"

definition write_uint :: "nat \<Rightarrow> nat cp_write" where
  "write_uint n v = writer_put (le_bytes n v)"

definition read_uint :: "nat \<Rightarrow> nat cp_read" where
  "read_uint n = sbind (reader_take n) (\<lambda>bs. sret (le_nat bs))"

definition write_sint :: "nat \<Rightarrow> int cp_write" where
  "write_sint n v = writer_put (le_bytes n (nat (v mod 256 ^ n)))"

definition read_sint :: "nat \<Rightarrow> int cp_read" where
  "read_sint n = sbind (reader_take n) (\<lambda>bs.
     sret (if 2 * le_nat bs < 256 ^ n then int (le_nat bs) else int (le_nat bs) - 256 ^ n))"

definition write_usize :: "nat cp_write" where
  "write_usize v = write_uint 8 (if v = USIZE_MAX then 2 ^ 64 - 1 else v)"

definition read_usize :: "nat cp_read" where
  "read_usize = sbind (read_uint 8) (\<lambda>v.
     if v = 2 ^ 64 - 1 then sret USIZE_MAX
     else if v \<le> USIZE_MAX then sret v else sfail CpLimit)"

definition write_bool :: "bool cp_write" where
  "write_bool b = write_uint 1 (of_bool b)"

definition read_bool :: "bool cp_read" where
  "read_bool = sbind (read_uint 1) (\<lambda>v.
     if v = 0 then sret False else if v = 1 then sret True else sfail CpInvalidState)"

definition reader_arc_bytes :: "nat \<Rightarrow> bytes cp_read" where
  "reader_arc_bytes maximum =
     sbind read_usize (\<lambda>n.
     if maximum < n then sfail CpLimit
     else sseq (reader_allocate 1 n) (sseq (reader_allocate 8 2) (reader_take n)))"

definition write_arc_bytes :: "bytes cp_write" where
  "write_arc_bytes bs = sseq (write_usize (length bs)) (writer_put bs)"

definition read_arc_bytes :: "bytes cp_read" where
  "read_arc_bytes = reader_arc_bytes USIZE_MAX"

fun write_option :: "'a cp_write \<Rightarrow> 'a option cp_write" where
  "write_option wr None = write_bool False"
| "write_option wr (Some v) = sseq (write_bool True) (wr v)"

definition read_option :: "'a cp_read \<Rightarrow> 'a option cp_read" where
  "read_option rd = reader_nested (sbind read_bool (\<lambda>present. if present then sbind rd (\<lambda>v. sret (Some v)) else sret None))"

fun write_all :: "'a cp_write \<Rightarrow> 'a list cp_write" where
  "write_all wr [] = sret ()"
| "write_all wr (v # vs) = sseq (wr v) (write_all wr vs)"

fun read_n :: "nat \<Rightarrow> 'a cp_read \<Rightarrow> 'a list cp_read" where
  "read_n 0 rd = sret []"
| "read_n (Suc n) rd = sbind rd (\<lambda>v. sbind (read_n n rd) (\<lambda>vs. sret (v # vs)))"

definition write_vec :: "'a cp_write \<Rightarrow> 'a list cp_write" where
  "write_vec wr vs = sseq (write_usize (length vs)) (write_all wr vs)"

definition read_vec :: "nat \<Rightarrow> 'a cp_read \<Rightarrow> 'a list cp_read" where
  "read_vec size_of rd = reader_nested (sbind read_usize (\<lambda>n. sseq (reader_allocate size_of n) (read_n n rd)))"

definition read_array :: "nat \<Rightarrow> nat \<Rightarrow> 'a cp_read \<Rightarrow> 'a list cp_read" where
  "read_array size_of n rd = sseq (reader_allocate size_of n) (read_n n rd)"

definition read_box :: "nat \<Rightarrow> 'a cp_read \<Rightarrow> 'a cp_read" where
  "read_box size_of rd = sseq (reader_allocate size_of 1) (reader_nested rd)"

definition write_string :: "bytes cp_write" where
  "write_string bs = sseq (write_usize (length bs)) (writer_put bs)"

definition read_string :: "bytes cp_read" where
  "read_string = sbind (read_vec 1 (sbind (read_uint 1) (\<lambda>v. sret (of_nat v)))) (\<lambda>bs.
     if utf8_valid bs then sret bs else sfail CpInvalidState)"

definition write_pair :: "'a cp_write \<Rightarrow> 'b cp_write \<Rightarrow> ('a \<times> 'b) cp_write" where
  "write_pair wa wb v = sseq (wa (fst v)) (wb (snd v))"

definition read_pair :: "'a cp_read \<Rightarrow> 'b cp_read \<Rightarrow> ('a \<times> 'b) cp_read" where
  "read_pair ra rb = sbind ra (\<lambda>a. sbind rb (\<lambda>b. sret (a, b)))"

text \<open>What the \<open>checkpoint_enum\<close> macro reads: a tag byte and the fields of its variant, one level deeper.\<close>

definition read_enum :: "(nat \<Rightarrow> 'a cp_read) \<Rightarrow> 'a cp_read" where
  "read_enum variant = reader_nested (sbind (read_uint 1) variant)"

text \<open>The whole of a value: a new writer, the value and its bytes; a new reader, the value and no trailing bytes.\<close>

definition cp_save :: "'a cp_write \<Rightarrow> nat \<Rightarrow> 'a \<Rightarrow> checkpoint_error + bytes" where
  "cp_save wr maximum v = (case wr v (writer_new maximum) of (Inl e, _) \<Rightarrow> Inl e | (Inr _, w) \<Rightarrow> Inr (wr_bytes w))"

definition cp_load :: "'a cp_read \<Rightarrow> nat \<Rightarrow> nat \<Rightarrow> bytes \<Rightarrow> checkpoint_error + 'a" where
  "cp_load rd maximum_bytes maximum_allocation bs =
     rbind (reader_new bs maximum_bytes maximum_allocation) (\<lambda>r.
     (case rd r of (Inl e, _) \<Rightarrow> Inl e | (Inr v, r) \<Rightarrow> rbind (reader_finish r) (\<lambda>_. Inr v)))"

subsection \<open>Formats\<close>

text \<open>
  A format says what a value is on the wire: its bytes, what reading it costs of the allocation budget, how
  deep it nests, and which values have an encoding at all.
\<close>

record 'a cp_format =
  fm_enc :: "'a \<Rightarrow> bytes"
  fm_cost :: "'a \<Rightarrow> nat"
  fm_deep :: "'a \<Rightarrow> nat"
  fm_valid :: "'a \<Rightarrow> bool"

definition writer_ok :: "cp_writer \<Rightarrow> bool" where
  "writer_ok w \<longleftrightarrow> wr_maximum w < 2 ^ 64 \<and> length (wr_bytes w) \<le> wr_maximum w"

definition reader_ok :: "cp_reader \<Rightarrow> bool" where
  "reader_ok r \<longleftrightarrow> length (rd_bytes r) < 2 ^ 64 \<and> rd_allocation r < 2 ^ 64 \<and> rd_depth r \<le> 64"

definition appends :: "(cp_writer, checkpoint_error, unit) smonad \<Rightarrow> bytes \<Rightarrow> bool" where
  "appends m bs \<longleftrightarrow> (\<forall>w. writer_ok w \<longrightarrow>
     (if length (wr_bytes w) + length bs \<le> wr_maximum w
      then m w = (Inr (), w\<lparr>wr_bytes := wr_bytes w @ bs\<rparr>)
      else fst (m w) = Inl CpLimit))"

definition consumed :: "'a cp_format \<Rightarrow> 'a \<Rightarrow> cp_reader \<Rightarrow> cp_reader \<Rightarrow> bool" where
  "consumed F v r r' \<longleftrightarrow> fm_valid F v \<and> rd_bytes r = fm_enc F v @ rd_bytes r' \<and>
     rd_allocation r = rd_allocation r' + fm_cost F v \<and> rd_depth r' = rd_depth r \<and> rd_depth r + fm_deep F v \<le> 64"

definition reads :: "'a cp_read \<Rightarrow> 'a cp_format \<Rightarrow> bool" where
  "reads m F \<longleftrightarrow> (\<forall>r v r'. reader_ok r \<longrightarrow> (m r = (Inr v, r') \<longleftrightarrow> consumed F v r r'))"

lemma readsD: "reads m F \<Longrightarrow> reader_ok r \<Longrightarrow> m r = (Inr v, r') \<longleftrightarrow> consumed F v r r'"
  by (simp add: reads_def)

lemma consumed_ok: "consumed F v r r' \<Longrightarrow> reader_ok r \<Longrightarrow> reader_ok r'"
  by (auto simp: consumed_def reader_ok_def)

lemma appends_put: "appends (writer_put bs) bs"
  by (auto simp: appends_def writer_put_def writer_ok_def checked_add_def)

lemma appends_ret: "appends (sret ()) []"
  by (simp add: appends_def writer_ok_def)

lemma appends_seq:
  assumes "appends m a" "appends k b"
  shows "appends (sseq m k) (a @ b)"
  unfolding appends_def
proof (intro allI impI)
  fix w assume w: "writer_ok w"
  show "if length (wr_bytes w) + length (a @ b) \<le> wr_maximum w
      then sseq m k w = (Inr (), w\<lparr>wr_bytes := wr_bytes w @ (a @ b)\<rparr>) else fst (sseq m k w) = Inl CpLimit"
  proof (cases "length (wr_bytes w) + length a \<le> wr_maximum w")
    case True
    let ?w = "w\<lparr>wr_bytes := wr_bytes w @ a\<rparr>"
    have m: "m w = (Inr (), ?w)" using assms(1) w True by (simp add: appends_def)
    have "writer_ok ?w" using w True by (simp add: writer_ok_def)
    then have "if length (wr_bytes ?w) + length b \<le> wr_maximum ?w then k ?w = (Inr (), ?w\<lparr>wr_bytes := wr_bytes ?w @ b\<rparr>)
      else fst (k ?w) = Inl CpLimit" using assms(2) by (simp add: appends_def)
    then show ?thesis using m by (auto simp: sseq_step add.assoc)
  next
    case False
    then have "fst (m w) = Inl CpLimit" using assms(1) w by (simp add: appends_def)
    then show ?thesis using False by (cases "m w") (auto simp: sseq_step)
  qed
qed

definition fm_ret :: "'a \<Rightarrow> 'a cp_format" where
  "fm_ret x = \<lparr>fm_enc = \<lambda>_. [], fm_cost = \<lambda>_. 0, fm_deep = \<lambda>_. 0, fm_valid = \<lambda>v. v = x\<rparr>"

definition fm_fail :: "'a cp_format" where
  "fm_fail = \<lparr>fm_enc = \<lambda>_. [], fm_cost = \<lambda>_. 0, fm_deep = \<lambda>_. 0, fm_valid = \<lambda>_. False\<rparr>"

text \<open>First a part \<open>sel v\<close> of the value, then the rest in a format that may depend on it.\<close>

definition fm_bind :: "'a cp_format \<Rightarrow> ('b \<Rightarrow> 'a) \<Rightarrow> ('a \<Rightarrow> 'b cp_format) \<Rightarrow> 'b cp_format" where
  "fm_bind A sel B =
     \<lparr>fm_enc = \<lambda>v. fm_enc A (sel v) @ fm_enc (B (sel v)) v, fm_cost = \<lambda>v. fm_cost A (sel v) + fm_cost (B (sel v)) v,
      fm_deep = \<lambda>v. max (fm_deep A (sel v)) (fm_deep (B (sel v)) v), fm_valid = \<lambda>v. fm_valid A (sel v) \<and> fm_valid (B (sel v)) v\<rparr>"

definition fm_nested :: "'a cp_format \<Rightarrow> 'a cp_format" where
  "fm_nested F = F\<lparr>fm_deep := \<lambda>v. fm_deep F v + 1\<rparr>"

definition fm_uint :: "nat \<Rightarrow> nat cp_format" where
  "fm_uint n = \<lparr>fm_enc = le_bytes n, fm_cost = \<lambda>_. 0, fm_deep = \<lambda>_. 0, fm_valid = \<lambda>v. v < 256 ^ n\<rparr>"

definition fm_alloc :: "nat \<Rightarrow> nat \<Rightarrow> unit cp_format" where
  "fm_alloc size_of n = \<lparr>fm_enc = \<lambda>_. [], fm_cost = \<lambda>_. n * max size_of 1, fm_deep = \<lambda>_. 0, fm_valid = \<lambda>_. True\<rparr>"

definition fm_take :: "nat \<Rightarrow> bytes cp_format" where
  "fm_take n = \<lparr>fm_enc = \<lambda>bs. bs, fm_cost = \<lambda>_. 0, fm_deep = \<lambda>_. 0, fm_valid = \<lambda>bs. length bs = n\<rparr>"

lemmas fm_defs = fm_ret_def fm_fail_def fm_bind_def fm_nested_def fm_uint_def fm_alloc_def fm_take_def

lemma reads_ret: "reads (sret x) (fm_ret x)"
  by (auto simp: reads_def consumed_def fm_ret_def reader_ok_def)

lemma reads_fail: "reads (sfail e) fm_fail"
  by (simp add: reads_def consumed_def fm_fail_def)

lemma reads_bind:
  assumes m: "reads m A" and f: "\<And>a. fm_valid A a \<Longrightarrow> reads (f a) (B a)"
    and sel: "\<And>a v. fm_valid A a \<Longrightarrow> fm_valid (B a) v \<Longrightarrow> sel v = a"
  shows "reads (sbind m f) (fm_bind A sel B)"
  unfolding reads_def
proof (intro allI impI)
  fix r v r' assume r: "reader_ok r"
  show "sbind m f r = (Inr v, r') \<longleftrightarrow> consumed (fm_bind A sel B) v r r'"
  proof
    assume "sbind m f r = (Inr v, r')"
    then obtain a t where a: "m r = (Inr a, t)" "f a t = (Inr v, r')" by (auto simp: sbind_Inr_iff)
    then have c: "consumed A a r t" using readsD [OF m r] by simp
    then have "consumed (B a) v t r'" using a(2) readsD [OF f consumed_ok [OF c r]] by (simp add: consumed_def)
    with c sel [of a v] show "consumed (fm_bind A sel B) v r r'" by (auto simp: consumed_def fm_bind_def)
  next
    assume c: "consumed (fm_bind A sel B) v r r'"
    let ?a = "sel v" and ?t = "r'\<lparr>rd_bytes := fm_enc (B (sel v)) v @ rd_bytes r', rd_allocation := rd_allocation r' + fm_cost (B (sel v)) v\<rparr>"
    have t: "consumed A ?a r ?t" "consumed (B ?a) v ?t r'" using c by (auto simp: consumed_def fm_bind_def)
    have "m r = (Inr ?a, ?t)" using readsD [OF m r] t(1) by simp
    moreover have "f ?a ?t = (Inr v, r')" using readsD [OF f consumed_ok [OF t(1) r]] t by (simp add: consumed_def)
    ultimately show "sbind m f r = (Inr v, r')" by (simp add: sbind_def)
  qed
qed

definition fm_map :: "'a cp_format \<Rightarrow> ('b \<Rightarrow> 'a) \<Rightarrow> ('a \<Rightarrow> 'b) \<Rightarrow> 'b cp_format" where
  "fm_map A sel g =
     \<lparr>fm_enc = \<lambda>v. fm_enc A (sel v), fm_cost = \<lambda>v. fm_cost A (sel v), fm_deep = \<lambda>v. fm_deep A (sel v),
      fm_valid = \<lambda>v. fm_valid A (sel v) \<and> g (sel v) = v\<rparr>"

lemma reads_cong:
  assumes "reads m F" "\<And>v. fm_valid F v \<longleftrightarrow> fm_valid G v"
    "\<And>v. fm_valid G v \<Longrightarrow> fm_enc F v = fm_enc G v \<and> fm_cost F v = fm_cost G v \<and> fm_deep F v = fm_deep G v"
  shows "reads m G"
  using assms by (auto simp: reads_def consumed_def)

lemma reads_map:
  assumes "reads m A" "\<And>a. fm_valid A a \<Longrightarrow> sel (g a) = a"
  shows "reads (sbind m (\<lambda>a. sret (g a))) (fm_map A sel g)"
  by (rule reads_cong [OF reads_bind [OF assms(1) reads_ret, where sel = sel]]) (use assms(2) in \<open>auto simp: fm_map_def fm_bind_def fm_ret_def\<close>)

lemma reads_nested:
  assumes "reads m F"
  shows "reads (reader_nested m) (fm_nested F)"
  unfolding reads_def
proof (intro allI impI)
  fix r v r' assume r: "reader_ok r"
  let ?r = "r\<lparr>rd_depth := rd_depth r + 1\<rparr>"
  show "reader_nested m r = (Inr v, r') \<longleftrightarrow> consumed (fm_nested F) v r r'"
  proof (cases "rd_depth r = 64")
    case True
    then show ?thesis by (simp add: reader_nested_def consumed_def fm_nested_def)
  next
    case False
    then have ok: "reader_ok ?r" using r by (simp add: reader_ok_def)
    have "reader_nested m r = (Inr v, r') \<longleftrightarrow> (\<exists>t. m ?r = (Inr v, t) \<and> r' = t\<lparr>rd_depth := rd_depth t - 1\<rparr>)"
      using False by (auto simp: reader_nested_def Let_def split: prod.splits)
    also have "\<dots> \<longleftrightarrow> (\<exists>t. consumed F v ?r t \<and> r' = t\<lparr>rd_depth := rd_depth t - 1\<rparr>)" using readsD [OF assms ok] by simp
    also have "\<dots> \<longleftrightarrow> consumed (fm_nested F) v r r'"
    proof
      assume "consumed (fm_nested F) v r r'"
      then have "consumed F v ?r (r'\<lparr>rd_depth := rd_depth r' + 1\<rparr>)" by (simp add: consumed_def fm_nested_def)
      then show "\<exists>t. consumed F v ?r t \<and> r' = t\<lparr>rd_depth := rd_depth t - 1\<rparr>"
        by (intro exI [of _ "r'\<lparr>rd_depth := rd_depth r' + 1\<rparr>"]) simp
    qed (auto simp: consumed_def fm_nested_def)
    finally show ?thesis .
  qed
qed

lemma reads_take: "n < 2 ^ 64 \<Longrightarrow> reads (reader_take n) (fm_take n)"
  unfolding reads_def
proof (intro allI impI)
  fix r r' :: cp_reader and v
  show "reader_take n r = (Inr v, r') \<longleftrightarrow> consumed (fm_take n) v r r'" if "reader_ok r"
  proof
    assume "consumed (fm_take n) v r r'"
    then have c: "rd_bytes r = v @ rd_bytes r'" "length v = n" "rd_allocation r = rd_allocation r'" "rd_depth r' = rd_depth r"
      by (simp_all add: consumed_def fm_take_def)
    moreover from c have "take n (rd_bytes r) = v" "n \<le> length (rd_bytes r)" by simp_all
    ultimately show "reader_take n r = (Inr v, r')" by (simp add: reader_take_def)
  qed (use that in \<open>auto simp: reader_take_def consumed_def fm_take_def reader_ok_def split: if_splits\<close>)
qed

lemma reads_alloc: "reads (reader_allocate size_of n) (fm_alloc size_of n)"
  unfolding reads_def
proof (intro allI impI)
  fix r r' :: cp_reader and v
  show "reader_allocate size_of n r = (Inr v, r') \<longleftrightarrow> consumed (fm_alloc size_of n) v r r'" if "reader_ok r"
  proof
    assume "consumed (fm_alloc size_of n) v r r'"
    then have c: "rd_bytes r = rd_bytes r'" "rd_allocation r = rd_allocation r' + n * max size_of 1" "rd_depth r' = rd_depth r"
      by (simp_all add: consumed_def fm_alloc_def)
    moreover from c that have "checked_mul 64 n (max size_of 1) = Some (n * max size_of 1)"
      "checked_sub (rd_allocation r) (n * max size_of 1) = Some (rd_allocation r')"
      by (simp_all add: checked_mul_def checked_sub_def reader_ok_def)
    ultimately show "reader_allocate size_of n r = (Inr v, r')"
      by (cases r; cases r') (simp add: reader_allocate_def)
  qed (use that in \<open>auto simp: reader_allocate_def consumed_def fm_alloc_def checked_simps reader_ok_def split: option.splits\<close>)
qed

subsection \<open>The encodings of the primitives\<close>

definition fm_sint :: "nat \<Rightarrow> int cp_format" where
  "fm_sint n = \<lparr>fm_enc = \<lambda>v. le_bytes n (nat (v mod 256 ^ n)), fm_cost = \<lambda>_. 0, fm_deep = \<lambda>_. 0,
     fm_valid = \<lambda>v. - (256 ^ n) \<le> 2 * v \<and> 2 * v < 256 ^ n\<rparr>"

definition fm_bool :: "bool cp_format" where
  "fm_bool = \<lparr>fm_enc = \<lambda>b. [of_bool b], fm_cost = \<lambda>_. 0, fm_deep = \<lambda>_. 0, fm_valid = \<lambda>_. True\<rparr>"

definition fm_arc_bytes :: "bytes cp_format" where
  "fm_arc_bytes = \<lparr>fm_enc = \<lambda>bs. le_bytes 8 (length bs) @ bs, fm_cost = \<lambda>bs. length bs + 16, fm_deep = \<lambda>_. 0,
     fm_valid = \<lambda>bs. length bs < 2 ^ 64\<rparr>"

definition fm_option :: "'a cp_format \<Rightarrow> 'a option cp_format" where
  "fm_option F =
     \<lparr>fm_enc = case_option [0] (\<lambda>v. 1 # fm_enc F v), fm_cost = case_option 0 (fm_cost F), fm_deep = case_option 1 (\<lambda>v. fm_deep F v + 1),
      fm_valid = case_option True (fm_valid F)\<rparr>"

definition fm_list :: "'a cp_format \<Rightarrow> nat \<Rightarrow> 'a list cp_format" where
  "fm_list F n =
     \<lparr>fm_enc = \<lambda>vs. concat (map (fm_enc F) vs), fm_cost = \<lambda>vs. sum_list (map (fm_cost F) vs), fm_deep = \<lambda>vs. foldr (max \<circ> fm_deep F) vs 0,
      fm_valid = \<lambda>vs. length vs = n \<and> list_all (fm_valid F) vs\<rparr>"

definition fm_vec :: "nat \<Rightarrow> 'a cp_format \<Rightarrow> 'a list cp_format" where
  "fm_vec size_of F =
     \<lparr>fm_enc = \<lambda>vs. le_bytes 8 (length vs) @ concat (map (fm_enc F) vs), fm_cost = \<lambda>vs. length vs * max size_of 1 + sum_list (map (fm_cost F) vs),
      fm_deep = \<lambda>vs. foldr (max \<circ> fm_deep F) vs 0 + 1, fm_valid = \<lambda>vs. length vs < 2 ^ 64 \<and> list_all (fm_valid F) vs\<rparr>"

lemma le_bytes_id: "length bs = n \<Longrightarrow> le_bytes n (le_nat bs) = bs"
  using le_bytes_le_nat by blast

lemma le_bytes_iff: "v = le_nat (le_bytes n v) \<longleftrightarrow> v < 256 ^ n"
  using le_nat_less [of "le_bytes n v"] le_nat_le_bytes_id [of v n] by auto

lemma fm_uint_simps [simp]: "fm_enc (fm_uint n) v = le_bytes n v" "fm_cost (fm_uint n) v = 0" "fm_deep (fm_uint n) v = 0"
  "fm_valid (fm_uint n) v \<longleftrightarrow> v < 256 ^ n"
  by (simp_all add: fm_uint_def)

lemma reads_uint: "n < 2 ^ 64 \<Longrightarrow> reads (read_uint n) (fm_uint n)"
  unfolding read_uint_def
  by (rule reads_cong [OF reads_map [OF reads_take, where sel = "le_bytes n"]])
    (auto simp: fm_take_def fm_map_def le_bytes_id le_bytes_iff [symmetric])

lemma sint_cases:
  assumes "m = (256 :: nat) ^ n" "v < m"
  shows "nat ((if 2 * v < m then int v else int v - int m) mod int m) = v"
  using assms(2) mod_add_self2 [of "int v - int m" "int m"] by (auto simp: mod_pos_pos_trivial)

lemma reads_sint: "n < 2 ^ 64 \<Longrightarrow> reads (read_sint n) (fm_sint n)"
proof -
  assume n: "n < 2 ^ 64"
  let ?g = "\<lambda>bs. if 2 * le_nat bs < 256 ^ n then int (le_nat bs) else int (le_nat bs) - 256 ^ n"
  let ?e = "\<lambda>v. le_bytes n (nat (v mod 256 ^ n))"
  have inv: "?e (?g bs) = bs" if "length bs = n" for bs
    using sint_cases [OF refl, of "le_nat bs" n] le_nat_less [of bs] le_bytes_id [OF that] that by (auto simp: of_nat_power)
  have range: "?g (?e v) = v \<longleftrightarrow> - (256 ^ n) \<le> 2 * v \<and> 2 * v < 256 ^ n" for v :: int
  proof -
    define m :: int where "m = 256 ^ n"
    define x where "x = v mod m"
    have m: "0 < m" "0 \<le> x" "x < m" "int (le_nat (?e v)) = x"
      by (simp_all add: m_def x_def le_nat_le_bytes nat_less_iff flip: of_nat_power)
    have "x = v \<or> m \<le> v \<or> x = v + m \<or> v < - m"
    proof (cases "0 \<le> v")
      case True
      then show ?thesis using mod_pos_pos_trivial [of v m] unfolding x_def by (cases "v < m") auto
    next
      case False
      then show ?thesis using mod_pos_pos_trivial [of "v + m" m] unfolding x_def by (cases "0 \<le> v + m") auto
    qed
    moreover have "2 * le_nat (?e v) < 256 ^ n \<longleftrightarrow> 2 * x < m"
      using m(4) of_nat_less_iff [of "2 * le_nat (?e v)" "256 ^ n", where 'a = int] by (simp add: m_def)
    ultimately show ?thesis using m unfolding m_def [symmetric] by auto
  qed
  have "reads (read_sint n) (fm_map (fm_take n) ?e ?g)"
    unfolding read_sint_def by (rule reads_map [OF reads_take [OF n]], rule inv) (simp add: fm_take_def)
  then show ?thesis by (rule reads_cong) (simp_all only: fm_map_def fm_take_def fm_sint_def cp_format.simps range length_le_bytes simp_thms)
qed

lemma usize_ret:
  assumes "fm_valid (fm_uint 8) a"
  shows "reads (if a = 2 ^ 64 - 1 then sret USIZE_MAX else if a \<le> USIZE_MAX then sret a else sfail CpLimit) (fm_ret a)"
proof -
  have "a \<le> USIZE_MAX" using assms unfolding USIZE_MAX_def by simp
  then have eq: "(if a = 2 ^ 64 - 1 then sret USIZE_MAX else if a \<le> USIZE_MAX then sret a else sfail CpLimit) = sret a"
    unfolding USIZE_MAX_def by simp
  show ?thesis unfolding eq by (rule reads_ret)
qed

lemma reads_usize: "reads read_usize (fm_uint 8)"
  unfolding read_usize_def
  by (rule reads_cong [OF reads_bind [OF reads_uint usize_ret, where sel = "\<lambda>v. v"]]) (simp_all add: fm_bind_def fm_ret_def)

lemma byte_of_bool: "le_bytes 1 (of_bool b) = [of_bool b]"
  by (cases b) simp_all

lemma reads_bool: "reads read_bool fm_bool"
  unfolding read_bool_def
proof (rule reads_cong [OF reads_bind [OF reads_uint, where sel = of_bool and B = "\<lambda>v. if v = 0 then fm_ret False else if v = 1 then fm_ret True else fm_fail"]])
  fix a :: nat
  show "reads (if a = 0 then sret False else if a = 1 then sret True else sfail CpInvalidState)
    (if a = 0 then fm_ret False else if a = 1 then fm_ret True else fm_fail)"
    by (auto intro: reads_ret reads_fail)
qed (auto simp: fm_bool_def fm_bind_def fm_ret_def fm_fail_def byte_of_bool split: if_splits)

lemma reads_option: "reads rd F \<Longrightarrow> reads (read_option rd) (fm_option F)"
  unfolding read_option_def
proof (rule reads_cong [OF reads_nested [OF reads_bind [OF reads_bool, where sel = "\<lambda>v. v \<noteq> None"
      and B = "\<lambda>b. if b then fm_map F the Some else fm_ret None"]]])
  fix a :: bool assume "reads rd F"
  then show "reads (if a then sbind rd (\<lambda>v. sret (Some v)) else sret None) (if a then fm_map F the Some else fm_ret None)"
    by (auto intro: reads_ret reads_map)
qed (auto simp: fm_option_def fm_nested_def fm_bind_def fm_bool_def fm_map_def fm_ret_def split: option.splits if_splits, metis)

lemma fm_list_simps [simp]:
  "fm_valid (fm_list F n) vs \<longleftrightarrow> length vs = n \<and> list_all (fm_valid F) vs" "fm_enc (fm_list F n) vs = concat (map (fm_enc F) vs)"
  "fm_cost (fm_list F n) vs = sum_list (map (fm_cost F) vs)" "fm_deep (fm_list F n) vs = foldr (max \<circ> fm_deep F) vs 0"
  by (simp_all add: fm_list_def)

lemma reads_n:
  assumes "reads rd F"
  shows "reads (read_n n rd) (fm_list F n)"
proof (induction n)
  case 0
  show ?case unfolding read_n.simps by (rule reads_cong [OF reads_ret]) (auto simp: fm_ret_def)
next
  case (Suc n)
  have rest: "reads (sbind (read_n n rd) (\<lambda>vs. sret (v # vs))) (fm_bind (fm_list F n) tl (\<lambda>vs. fm_ret (v # vs)))" for v
    by (rule reads_bind [OF Suc reads_ret]) (auto simp: fm_ret_def)
  have hd: "fm_valid (fm_bind (fm_list F n) tl (\<lambda>vs. fm_ret (a # vs))) v \<Longrightarrow> hd v = a" for a v
    by (cases v) (auto simp: fm_bind_def fm_ret_def)
  have "reads (read_n (Suc n) rd) (fm_bind F hd (\<lambda>v. fm_bind (fm_list F n) tl (\<lambda>vs. fm_ret (v # vs))))"
    unfolding read_n.simps by (rule reads_bind [OF assms rest hd])
  then show ?case
  proof (rule reads_cong)
    fix vs
    show "fm_valid (fm_bind F hd (\<lambda>v. fm_bind (fm_list F n) tl (\<lambda>vs. fm_ret (v # vs)))) vs = fm_valid (fm_list F (Suc n)) vs"
      by (cases vs) (auto simp: fm_bind_def fm_ret_def)
  qed (auto simp: fm_bind_def fm_ret_def length_Suc_conv)
qed

lemma reads_seq: "reads m A \<Longrightarrow> reads k B \<Longrightarrow> reads (sseq m k) (fm_bind A (\<lambda>_. ()) (\<lambda>_. B))"
  unfolding sseq_def by (rule reads_bind) auto

lemma reads_counted:
  assumes "reads rd F"
  shows "reads (sseq (reader_allocate size_of n) (read_n n rd)) ((fm_list F n)\<lparr>fm_cost := \<lambda>vs. n * max size_of 1 + sum_list (map (fm_cost F) vs)\<rparr>)"
  by (rule reads_cong [OF reads_seq [OF reads_alloc reads_n [OF assms]]]) (auto simp: fm_bind_def fm_alloc_def)

lemma reads_vec:
  assumes "reads rd F"
  shows "reads (read_vec size_of rd) (fm_vec size_of F)"
  unfolding read_vec_def
  by (rule reads_cong [OF reads_nested [OF reads_bind [OF reads_usize reads_counted [OF assms], where sel = length]]])
    (auto simp: fm_nested_def fm_bind_def fm_vec_def)

lemma reads_array:
  assumes "reads rd F"
  shows "reads (read_array size_of n rd) ((fm_list F n)\<lparr>fm_cost := \<lambda>vs. n * max size_of 1 + sum_list (map (fm_cost F) vs)\<rparr>)"
  unfolding read_array_def by (rule reads_counted [OF assms])

lemma reads_arc_bytes: "reads read_arc_bytes fm_arc_bytes"
proof -
  have "reads (sseq (reader_allocate 1 n) (sseq (reader_allocate 8 2) (reader_take n)))
      ((fm_take n)\<lparr>fm_cost := \<lambda>_. n + 16\<rparr>)" if "n < 2 ^ 64" for n
    by (rule reads_cong [OF reads_seq [OF reads_alloc reads_seq [OF reads_alloc reads_take [OF that]]]])
      (auto simp: fm_bind_def fm_alloc_def fm_take_def)
  then show ?thesis
    unfolding read_arc_bytes_def reader_arc_bytes_def
    by (intro reads_cong [OF reads_bind [OF reads_usize, where sel = length and B = "\<lambda>n. (fm_take n)\<lparr>fm_cost := \<lambda>_. n + 16\<rparr>"]])
      (auto simp: USIZE_MAX_def fm_bind_def fm_take_def fm_arc_bytes_def)
qed

definition fm_string :: "bytes cp_format" where
  "fm_string = \<lparr>fm_enc = \<lambda>bs. le_bytes 8 (length bs) @ bs, fm_cost = length, fm_deep = \<lambda>_. 1,
     fm_valid = \<lambda>bs. length bs < 2 ^ 64 \<and> utf8_valid bs\<rparr>"

definition fm_pair :: "'a cp_format \<Rightarrow> 'b cp_format \<Rightarrow> ('a \<times> 'b) cp_format" where
  "fm_pair A B =
     \<lparr>fm_enc = \<lambda>(a, b). fm_enc A a @ fm_enc B b, fm_cost = \<lambda>(a, b). fm_cost A a + fm_cost B b,
      fm_deep = \<lambda>(a, b). max (fm_deep A a) (fm_deep B b), fm_valid = \<lambda>(a, b). fm_valid A a \<and> fm_valid B b\<rparr>"

definition fm_box :: "nat \<Rightarrow> 'a cp_format \<Rightarrow> 'a cp_format" where
  "fm_box size_of F = F\<lparr>fm_cost := \<lambda>v. max size_of 1 + fm_cost F v, fm_deep := \<lambda>v. fm_deep F v + 1\<rparr>"

definition fm_enum :: "('a \<Rightarrow> nat) \<Rightarrow> (nat \<Rightarrow> 'a cp_format) \<Rightarrow> 'a cp_format" where
  "fm_enum tag P = fm_nested (fm_bind (fm_uint 1) tag P)"

lemma reads_pair: "reads ra A \<Longrightarrow> reads rb B \<Longrightarrow> reads (read_pair ra rb) (fm_pair A B)"
proof -
  assume "reads ra A" "reads rb B"
  have "reads (sbind rb (\<lambda>b. sret (a, b))) (fm_map B snd (Pair a))" for a by (rule reads_map [OF \<open>reads rb B\<close>]) simp
  then show ?thesis unfolding read_pair_def
    by (intro reads_cong [OF reads_bind [OF \<open>reads ra A\<close>, where sel = fst and B = "\<lambda>a. fm_map B snd (Pair a)"]])
      (auto simp: fm_bind_def fm_map_def fm_pair_def)
qed

lemma reads_box: "reads rd F \<Longrightarrow> reads (read_box size_of rd) (fm_box size_of F)"
  unfolding read_box_def
  by (rule reads_cong [OF reads_seq [OF reads_alloc reads_nested]]) (auto simp: fm_bind_def fm_alloc_def fm_nested_def fm_box_def)

lemma reads_enum:
  assumes "\<And>t. t < 256 \<Longrightarrow> reads (f t) (P t)" "\<And>t v. t < 256 \<Longrightarrow> fm_valid (P t) v \<Longrightarrow> tag v = t"
  shows "reads (read_enum f) (fm_enum tag P)"
  unfolding read_enum_def fm_enum_def by (rule reads_nested, rule reads_bind [OF reads_uint]) (use assms in auto)

lemma reads_byte: "reads (sbind (read_uint 1) (\<lambda>v. sret (of_nat v :: u8))) \<lparr>fm_enc = \<lambda>b. [b], fm_cost = \<lambda>_. 0, fm_deep = \<lambda>_. 0, fm_valid = \<lambda>_. True\<rparr>"
proof (rule reads_cong [OF reads_map [OF reads_uint, where sel = unat]])
  fix a :: nat assume "fm_valid (fm_uint 1) a"
  then show "unat (of_nat a :: u8) = a" by (simp add: unat_of_nat)
next
  fix b :: u8
  show "fm_valid (fm_map (fm_uint 1) unat of_nat) b = fm_valid \<lparr>fm_enc = \<lambda>b. [b], fm_cost = \<lambda>_. 0, fm_deep = \<lambda>_. 0, fm_valid = \<lambda>_. True\<rparr> b"
    using unsigned_less [of b] by (simp add: fm_map_def)
qed (auto simp: fm_map_def)

lemma sum_zero [simp]: "sum_list (map (\<lambda>_. 0) xs) = (0 :: nat)" "foldr (\<lambda>_. max 0) xs (0 :: nat) = 0"
  by (induction xs) simp_all

lemma reads_string: "reads read_string fm_string"
  unfolding read_string_def
proof (rule reads_cong [OF reads_bind [OF reads_vec [OF reads_byte], where sel = "\<lambda>bs. bs" and B = "\<lambda>bs. if utf8_valid bs then fm_ret bs else fm_fail"]])
  fix bs
  show "reads (if utf8_valid bs then sret bs else sfail CpInvalidState) (if utf8_valid bs then fm_ret bs else fm_fail)"
    by (simp add: reads_ret reads_fail)
qed (auto simp: fm_bind_def fm_vec_def fm_ret_def fm_fail_def fm_string_def list_all_iff comp_def split: if_splits)

subsection \<open>Writing\<close>

definition writes :: "'a cp_write \<Rightarrow> 'a cp_format \<Rightarrow> bool" where
  "writes wr F \<longleftrightarrow> (\<forall>v. fm_valid F v \<longrightarrow> appends (wr v) (fm_enc F v))"

lemma writesI [intro?]: "(\<And>v. fm_valid F v \<Longrightarrow> appends (wr v) (fm_enc F v)) \<Longrightarrow> writes wr F"
  by (simp add: writes_def)

lemma writesD: "writes wr F \<Longrightarrow> fm_valid F v \<Longrightarrow> appends (wr v) (fm_enc F v)"
  by (simp add: writes_def)

lemma writes_uint: "writes (write_uint n) (fm_uint n)"
  by (simp add: writes_def write_uint_def appends_put)

lemma writes_sint: "writes (write_sint n) (fm_sint n)"
  by (simp add: writes_def write_sint_def fm_sint_def appends_put)

lemma writes_usize: "writes write_usize (fm_uint 8)"
  by (auto simp: writes_def write_usize_def write_uint_def USIZE_MAX_def appends_put)

lemma writes_bool: "writes write_bool fm_bool"
  using appends_put [of "le_bytes 1 (of_bool _)", unfolded byte_of_bool]
  by (simp add: writes_def write_bool_def write_uint_def fm_bool_def byte_of_bool)

lemma writes_option:
  assumes "writes wr F"
  shows "writes (write_option wr) (fm_option F)"
proof
  fix v assume v: "fm_valid (fm_option F) v"
  have b: "appends (write_bool b) [of_bool b]" for b using writesD [OF writes_bool, of b] by (simp add: fm_bool_def)
  show "appends (write_option wr v) (fm_enc (fm_option F) v)"
  proof (cases v)
    case (Some x)
    then show ?thesis using appends_seq [OF b [of True] writesD [OF assms, of x]] v by (simp add: fm_option_def)
  qed (use b [of False] in \<open>simp add: fm_option_def\<close>)
qed

lemma writes_all: "writes wr F \<Longrightarrow> list_all (fm_valid F) vs \<Longrightarrow> appends (write_all wr vs) (concat (map (fm_enc F) vs))"
  by (induction vs) (auto intro: appends_ret appends_seq dest: writesD)

lemma writes_vec:
  assumes "writes wr F"
  shows "writes (write_vec wr) (fm_vec size_of F)"
proof
  fix vs assume "fm_valid (fm_vec size_of F) vs"
  then have "fm_valid (fm_uint 8) (length vs)" "list_all (fm_valid F) vs" by (simp_all add: fm_vec_def)
  then show "appends (write_vec wr vs) (fm_enc (fm_vec size_of F) vs)"
    using appends_seq [OF writesD [OF writes_usize] writes_all [OF assms]] by (simp add: write_vec_def fm_vec_def)
qed

lemma writes_arc_bytes: "writes write_arc_bytes fm_arc_bytes"
proof
  fix bs assume "fm_valid fm_arc_bytes bs"
  then have "fm_valid (fm_uint 8) (length bs)" by (simp add: fm_arc_bytes_def)
  then show "appends (write_arc_bytes bs) (fm_enc fm_arc_bytes bs)"
    using appends_seq [OF writesD [OF writes_usize] appends_put] by (simp add: write_arc_bytes_def fm_arc_bytes_def)
qed

subsection \<open>Codecs\<close>

lemma load_reads:
  assumes reads: "reads rd F" and assms: "maximum < 2 ^ 64" "allocation < 2 ^ 64"
  shows "cp_load rd maximum allocation bs = Inr v \<longleftrightarrow>
    fm_valid F v \<and> bs = fm_enc F v \<and> length bs \<le> maximum \<and> fm_cost F v \<le> allocation \<and> fm_deep F v \<le> 64"
proof (cases "length bs \<le> maximum")
  case True
  let ?r = "\<lparr>rd_bytes = bs, rd_allocation = allocation, rd_depth = 0\<rparr>"
  have ok: "reader_ok ?r" using assms True by (simp add: reader_ok_def)
  have "cp_load rd maximum allocation bs = Inr v \<longleftrightarrow> (\<exists>r'. rd ?r = (Inr v, r') \<and> rd_bytes r' = [])"
    using True by (auto simp: cp_load_def reader_new_def reader_finish_def split: prod.splits sum.splits if_splits)
  also have "\<dots> \<longleftrightarrow> (\<exists>r'. consumed F v ?r r' \<and> rd_bytes r' = [])" using readsD [OF reads ok] by simp
  also have "\<dots> \<longleftrightarrow> fm_valid F v \<and> bs = fm_enc F v \<and> fm_cost F v \<le> allocation \<and> fm_deep F v \<le> 64"
  proof
    assume "fm_valid F v \<and> bs = fm_enc F v \<and> fm_cost F v \<le> allocation \<and> fm_deep F v \<le> 64"
    then have "consumed F v ?r \<lparr>rd_bytes = [], rd_allocation = allocation - fm_cost F v, rd_depth = 0\<rparr>" by (simp add: consumed_def)
    then show "\<exists>r'. consumed F v ?r r' \<and> rd_bytes r' = []" by force
  qed (auto simp: consumed_def)
  finally show ?thesis using True by simp
qed (simp add: cp_load_def reader_new_def)

locale cp_codec =
  fixes wr :: "'a cp_write" and rd :: "'a cp_read" and F :: "'a cp_format"
  assumes writes: "writes wr F" and reads: "reads rd F"
begin

lemma save_eq:
  assumes "fm_valid F v" "maximum < 2 ^ 64"
  shows "cp_save wr maximum v = (if length (fm_enc F v) \<le> maximum then Inr (fm_enc F v) else Inl CpLimit)"
proof -
  have "writer_ok (writer_new maximum)" using assms(2) by (simp add: writer_ok_def writer_new_def)
  then have "if length (fm_enc F v) \<le> maximum then wr v (writer_new maximum) = (Inr (), writer_new maximum\<lparr>wr_bytes := fm_enc F v\<rparr>)
    else fst (wr v (writer_new maximum)) = Inl CpLimit"
    using writesD [OF writes assms(1)] unfolding appends_def by (auto simp: writer_new_def)
  then show ?thesis by (cases "wr v (writer_new maximum)") (auto simp: cp_save_def split: if_splits)
qed

lemmas load_iff = load_reads [OF reads]

lemma load_save:
  assumes "fm_valid F v" "length (fm_enc F v) \<le> maximum" "maximum < 2 ^ 64" "fm_cost F v \<le> allocation" "allocation < 2 ^ 64" "fm_deep F v \<le> 64"
  shows "rbind (cp_save wr maximum v) (cp_load rd maximum allocation) = Inr v"
  using save_eq [OF assms(1,3)] load_iff [OF assms(3,5), of "fm_enc F v" v] assms by simp

end

interpretation cp_usize: cp_codec write_usize read_usize "fm_uint 8"
  by unfold_locales (rule writes_usize reads_usize)+

interpretation cp_arc: cp_codec write_arc_bytes read_arc_bytes fm_arc_bytes
  by unfold_locales (rule writes_arc_bytes reads_arc_bytes)+

end
