(* ===== verification/Cp_Envelope.thy ===== *)
theory Cp_Envelope
  imports Cp_Codec Fs_Codec
begin

text \<open>
  The envelope around a saved computer (\<open>src/src/checkpoint/envelope.rs\<close>): a fixed header that names the
  format, the runtime and the computer, the execution and host payloads, and a SHA-256 checksum. The digest
  function and the ABI number of the runtime, taken from the package version at build time, are arguments.
\<close>

definition ENV_MAGIC :: bytes where "ENV_MAGIC = ascii ''CPKTHIB'' @ [0]"
definition ENV_FORMAT :: nat where "ENV_FORMAT = 5"
definition HEADER_BYTES :: nat where "HEADER_BYTES = 84"
definition CHECKSUM_BYTES :: nat where "CHECKSUM_BYTES = 32"
definition SCHEMA :: bytes where "SCHEMA = ascii ''compukters.computer.logical-checkpoint/5''"

record envelope_limits =
  el_execution_bytes :: nat
  el_host_bytes :: nat
  el_allocation_bytes :: nat

record envelope =
  en_generation :: nat
  en_execution :: bytes
  en_host :: bytes

definition total_bytes :: "envelope_limits \<Rightarrow> checkpoint_error + nat" where
  "total_bytes lim =
     ok_or (Option.bind (checked_add 64 HEADER_BYTES (el_execution_bytes lim)) (\<lambda>n.
            Option.bind (checked_add 64 n (el_host_bytes lim)) (\<lambda>n. checked_add 64 n CHECKSUM_BYTES))) CpLimit"

definition runtime_identity :: "sha256 \<Rightarrow> nat \<Rightarrow> bytes" where
  "runtime_identity sha abi = sha (SCHEMA @ [0] @ le_bytes 4 abi)"

definition write_byte :: "u8 cp_write" where
  "write_byte b = write_uint 1 (unat b)"

definition read_byte :: "u8 cp_read" where
  "read_byte = sbind (read_uint 1) (\<lambda>v. sret (of_nat v))"

definition envelope_encode :: "sha256 \<Rightarrow> nat \<Rightarrow> bytes \<Rightarrow> nat \<Rightarrow> bytes \<Rightarrow> bytes \<Rightarrow> envelope_limits \<Rightarrow> checkpoint_error + bytes" where
  "envelope_encode sha abi cid generation execution host lim =
     (if el_execution_bytes lim < length execution \<or> el_host_bytes lim < length host then Inl CpLimit
      else
        rbind (total_bytes lim) (\<lambda>total.
        rbind (cp_save (\<lambda>_.
            sseq (write_all write_byte ENV_MAGIC)
            (sseq (write_uint 4 ENV_FORMAT)
            (sseq (write_all write_byte (runtime_identity sha abi))
            (sseq (writer_put cid)
            (sseq (write_uint 8 generation)
            (sseq (write_usize (length execution))
            (sseq (write_usize (length host))
            (sseq (writer_put execution) (writer_put host))))))))) total ()) (\<lambda>body.
          Inr (body @ sha body))))"

definition read_envelope :: "sha256 \<Rightarrow> nat \<Rightarrow> bytes \<Rightarrow> envelope_limits \<Rightarrow> envelope cp_read" where
  "read_envelope sha abi cid lim =
     sbind (read_array 1 8 read_byte) (\<lambda>magic.
     sbind (read_uint 4) (\<lambda>format.
     sbind (read_array 1 32 read_byte) (\<lambda>runtime.
     sbind (read_array 1 16 read_byte) (\<lambda>computer.
     if magic \<noteq> ENV_MAGIC \<or> format \<noteq> ENV_FORMAT \<or> runtime \<noteq> runtime_identity sha abi \<or> computer \<noteq> cid then sfail CpIncompatible
     else
       sbind (read_uint 8) (\<lambda>generation.
       sbind read_usize (\<lambda>execution_length.
       sbind read_usize (\<lambda>host_length.
       if el_execution_bytes lim < execution_length \<or> el_host_bytes lim < host_length then sfail CpLimit
       else
         sbind (reader_take execution_length) (\<lambda>execution.
         sbind (reader_take host_length) (\<lambda>host.
         sret \<lparr>en_generation = generation, en_execution = execution, en_host = host\<rparr>)))))))))"

definition envelope_decode :: "sha256 \<Rightarrow> nat \<Rightarrow> bytes \<Rightarrow> bytes \<Rightarrow> envelope_limits \<Rightarrow> checkpoint_error + envelope" where
  "envelope_decode sha abi bs cid lim =
     rbind (total_bytes lim) (\<lambda>total.
     if total < length bs then Inl CpLimit
     else
       rbind (ok_or (Option.bind (checked_sub (length bs) CHECKSUM_BYTES) (\<lambda>n. if HEADER_BYTES \<le> n then Some n else None)) CpTruncated) (\<lambda>n.
       if sha (take n bs) \<noteq> drop n bs then Inl CpIntegrity
       else cp_load (read_envelope sha abi cid lim) total HEADER_BYTES (take n bs)))"

definition envelope_body :: "sha256 \<Rightarrow> nat \<Rightarrow> bytes \<Rightarrow> envelope \<Rightarrow> bytes" where
  "envelope_body sha abi cid e =
     ENV_MAGIC @ le_bytes 4 ENV_FORMAT @ runtime_identity sha abi @ cid @ le_bytes 8 (en_generation e) @
     le_bytes 8 (length (en_execution e)) @ le_bytes 8 (length (en_host e)) @ en_execution e @ en_host e"

definition fm_envelope :: "sha256 \<Rightarrow> nat \<Rightarrow> bytes \<Rightarrow> envelope_limits \<Rightarrow> envelope cp_format" where
  "fm_envelope sha abi cid lim =
     \<lparr>fm_enc = envelope_body sha abi cid, fm_cost = \<lambda>_. 56, fm_deep = \<lambda>_. 0,
      fm_valid = \<lambda>e. en_generation e < 2 ^ 64 \<and> length (en_execution e) \<le> el_execution_bytes lim \<and> length (en_execution e) < 2 ^ 64 \<and>
        length (en_host e) \<le> el_host_bytes lim \<and> length (en_host e) < 2 ^ 64\<rparr>"

definition fm_bytes :: "nat \<Rightarrow> bytes cp_format" where
  "fm_bytes n = \<lparr>fm_enc = \<lambda>bs. bs, fm_cost = \<lambda>_. n, fm_deep = \<lambda>_. 0, fm_valid = \<lambda>bs. length bs = n\<rparr>"

lemma reads_bytes: "reads (read_array 1 n read_byte) (fm_bytes n)"
  unfolding read_byte_def
  by (rule reads_cong [OF reads_array [OF reads_byte]]) (auto simp: fm_bytes_def fm_list_def list_all_iff comp_def)

lemma appends_bytes: "appends (write_all write_byte bs) bs"
proof -
  have "le_bytes 1 (unat b) = [b]" for b :: u8 by simp
  then have "appends (write_byte b) [b]" for b using appends_put [of "[b]"] by (simp add: write_byte_def write_uint_def)
  then show ?thesis using appends_seq [of "write_byte _" "[_]"] by (induction bs) (auto intro: appends_ret)
qed

lemma reads_guard: "(\<not> c \<Longrightarrow> reads m F) \<Longrightarrow> reads (if c then sfail e else m) (if c then fm_fail else F)"
  by (simp add: reads_fail)

lemma reads_payload:
  "reads (sbind (read_uint 8) (\<lambda>generation. sbind read_usize (\<lambda>execution_length. sbind read_usize (\<lambda>host_length.
       if el_execution_bytes lim < execution_length \<or> el_host_bytes lim < host_length then sfail CpLimit
       else sbind (reader_take execution_length) (\<lambda>execution. sbind (reader_take host_length) (\<lambda>host.
         sret \<lparr>en_generation = generation, en_execution = execution, en_host = host\<rparr>))))))
    \<lparr>fm_enc = \<lambda>e. le_bytes 8 (en_generation e) @ le_bytes 8 (length (en_execution e)) @ le_bytes 8 (length (en_host e)) @ en_execution e @ en_host e,
     fm_cost = \<lambda>_. 0, fm_deep = \<lambda>_. 0, fm_valid = fm_valid (fm_envelope sha abi cid lim)\<rparr>"
proof -
  let ?env = "\<lambda>g ex host. \<lparr>en_generation = g, en_execution = ex, en_host = host\<rparr>"
  have 1: "reads (sbind (reader_take hl) (\<lambda>host. sret (?env g ex host))) (fm_map (fm_take hl) en_host (?env g ex))" if "hl < 2 ^ 64" for g ex hl
    by (rule reads_map [OF reads_take [OF that]]) simp
  have 2: "reads (sbind (reader_take el) (\<lambda>ex. sbind (reader_take hl) (\<lambda>host. sret (?env g ex host))))
      (fm_bind (fm_take el) en_execution (\<lambda>ex. fm_map (fm_take hl) en_host (?env g ex)))" if "el < 2 ^ 64" "hl < 2 ^ 64" for g el hl
    by (rule reads_bind [OF reads_take [OF that(1)] 1 [OF that(2)]]) (auto simp: fm_map_def dest: arg_cong [of _ _ en_execution])
  define G where "G g el hl = (if el_execution_bytes lim < el \<or> el_host_bytes lim < hl then fm_fail
    else fm_bind (fm_take el) en_execution (\<lambda>ex. fm_map (fm_take hl) en_host (?env g ex)))" for g el hl
  have valid: "fm_valid (G g el hl) e \<longleftrightarrow> el \<le> el_execution_bytes lim \<and> hl \<le> el_host_bytes lim \<and>
      length (en_execution e) = el \<and> length (en_host e) = hl \<and> en_generation e = g" for g el hl e
    by (cases e) (auto simp: G_def fm_fail_def fm_bind_def fm_map_def fm_take_def)
  have 3: "reads (if el_execution_bytes lim < el \<or> el_host_bytes lim < hl then sfail CpLimit
      else sbind (reader_take el) (\<lambda>ex. sbind (reader_take hl) (\<lambda>host. sret (?env g ex host)))) (G g el hl)"
    if "fm_valid (fm_uint 8) el" "fm_valid (fm_uint 8) hl" for g el hl
    unfolding G_def using that by (intro reads_guard 2) simp_all
  have 4: "reads (sbind read_usize (\<lambda>hl. if el_execution_bytes lim < el \<or> el_host_bytes lim < hl then sfail CpLimit
      else sbind (reader_take el) (\<lambda>ex. sbind (reader_take hl) (\<lambda>host. sret (?env g ex host)))))
      (fm_bind (fm_uint 8) (\<lambda>e. length (en_host e)) (G g el))" if "fm_valid (fm_uint 8) el" for g el
    by (rule reads_bind [OF reads_usize 3 [OF that]]) (simp_all add: valid)
  have 5: "reads (sbind read_usize (\<lambda>el. sbind read_usize (\<lambda>hl. if el_execution_bytes lim < el \<or> el_host_bytes lim < hl then sfail CpLimit
      else sbind (reader_take el) (\<lambda>ex. sbind (reader_take hl) (\<lambda>host. sret (?env g ex host))))))
      (fm_bind (fm_uint 8) (\<lambda>e. length (en_execution e)) (\<lambda>el. fm_bind (fm_uint 8) (\<lambda>e. length (en_host e)) (G g el)))" for g
    by (rule reads_bind [OF reads_usize 4]) (simp_all add: fm_bind_def valid)
  show ?thesis
    by (rule reads_cong [OF reads_bind [OF reads_uint 5, where sel = en_generation]])
      (auto simp: fm_bind_def valid fm_envelope_def, simp_all add: G_def fm_bind_def fm_map_def fm_take_def)
qed

lemma reads_envelope:
  assumes "sha256_length sha" "length cid = 16"
  shows "reads (read_envelope sha abi cid lim) (fm_envelope sha abi cid lim)"
proof -
  let ?P = "\<lparr>fm_enc = \<lambda>e. le_bytes 8 (en_generation e) @ le_bytes 8 (length (en_execution e)) @ le_bytes 8 (length (en_host e)) @ en_execution e @ en_host e,
     fm_cost = \<lambda>_. 0, fm_deep = \<lambda>_. 0, fm_valid = fm_valid (fm_envelope sha abi cid lim)\<rparr>"
  let ?r = "runtime_identity sha abi"
  define G where "G m f r c = (if m \<noteq> ENV_MAGIC \<or> f \<noteq> ENV_FORMAT \<or> r \<noteq> ?r \<or> c \<noteq> cid then fm_fail else ?P)" for m f r c
  have len: "length ?r = 32" "length ENV_MAGIC = 8"
    using assms(1) by (simp_all add: runtime_identity_def sha256_length_def ENV_MAGIC_def ascii_def)
  have valid: "fm_valid (G m f r c) e \<longleftrightarrow> m = ENV_MAGIC \<and> f = ENV_FORMAT \<and> r = ?r \<and> c = cid \<and> fm_valid (fm_envelope sha abi cid lim) e" for m f r c e
    by (auto simp: G_def fm_fail_def)
  let ?H3 = "\<lambda>m f r. fm_bind (fm_bytes 16) (\<lambda>_. cid) (G m f r)"
  let ?H2 = "\<lambda>m f. fm_bind (fm_bytes 32) (\<lambda>_. ?r) (?H3 m f)"
  let ?H1 = "\<lambda>m. fm_bind (fm_uint 4) (\<lambda>_. ENV_FORMAT) (?H2 m)"
  have "reads (read_envelope sha abi cid lim) (fm_bind (fm_bytes 8) (\<lambda>_. ENV_MAGIC) ?H1)"
    unfolding read_envelope_def
  proof (intro reads_bind [OF reads_bytes] reads_bind [OF reads_uint [of 4]])
    fix m f r c
    show "reads (if m \<noteq> ENV_MAGIC \<or> f \<noteq> ENV_FORMAT \<or> r \<noteq> ?r \<or> c \<noteq> cid then sfail CpIncompatible
      else sbind (read_uint 8) (\<lambda>generation. sbind read_usize (\<lambda>execution_length. sbind read_usize (\<lambda>host_length.
       if el_execution_bytes lim < execution_length \<or> el_host_bytes lim < host_length then sfail CpLimit
       else sbind (reader_take execution_length) (\<lambda>execution. sbind (reader_take host_length) (\<lambda>host.
         sret \<lparr>en_generation = generation, en_execution = execution, en_host = host\<rparr>)))))) (G m f r c)"
      unfolding G_def by (rule reads_guard) (rule reads_payload)
  qed (simp_all add: fm_bind_def valid)
  then show ?thesis
    by (rule reads_cong) (simp_all add: fm_bind_def valid fm_bytes_def len assms(2) ENV_FORMAT_def, simp_all add: G_def ENV_FORMAT_def fm_envelope_def envelope_body_def)
qed

lemma save_appends:
  assumes "appends m bs" "length bs \<le> maximum" "maximum < 2 ^ 64"
  shows "cp_save (\<lambda>_. m) maximum () = Inr bs"
proof -
  have "writer_ok (writer_new maximum)" using assms(3) by (simp add: writer_ok_def writer_new_def)
  then have "m (writer_new maximum) = (Inr (), (writer_new maximum)\<lparr>wr_bytes := bs\<rparr>)"
    using assms(1,2) unfolding appends_def by (fastforce simp: writer_new_def)
  then show ?thesis by (simp add: cp_save_def)
qed

lemma total_bytes_iff:
  "total_bytes lim = Inr n \<longleftrightarrow> n = 84 + el_execution_bytes lim + el_host_bytes lim + 32 \<and> n < 2 ^ 64"
  by (auto simp: total_bytes_def HEADER_BYTES_def CHECKSUM_BYTES_def checked_add_def ok_or_def split: if_splits option.splits)

lemma envelope_encode_iff:
  assumes "sha256_length sha" "length cid = 16"
  shows "envelope_encode sha abi cid (en_generation e) (en_execution e) (en_host e) lim = Inr bs \<longleftrightarrow>
    length (en_execution e) \<le> el_execution_bytes lim \<and> length (en_host e) \<le> el_host_bytes lim \<and> is_ok (total_bytes lim) \<and>
    bs = envelope_body sha abi cid e @ sha (envelope_body sha abi cid e)"
proof -
  let ?m = "sseq (write_all write_byte ENV_MAGIC)
            (sseq (write_uint 4 ENV_FORMAT)
            (sseq (write_all write_byte (runtime_identity sha abi))
            (sseq (writer_put cid)
            (sseq (write_uint 8 (en_generation e))
            (sseq (write_usize (length (en_execution e)))
            (sseq (write_usize (length (en_host e)))
            (sseq (writer_put (en_execution e)) (writer_put (en_host e)))))))))"
  have len: "length (envelope_body sha abi cid e) = 84 + length (en_execution e) + length (en_host e)"
    using assms by (simp add: envelope_body_def runtime_identity_def sha256_length_def ENV_MAGIC_def ascii_def)
  have u: "appends (write_uint n v) (le_bytes n v)" for n v by (simp add: write_uint_def appends_put)
  have z: "appends (write_usize v) (le_bytes 8 v)" for v
    using u [of 8 v] u [of 8 "2 ^ 64 - 1"] by (auto simp: write_usize_def USIZE_MAX_def)
  have m: "appends ?m (envelope_body sha abi cid e)"
    unfolding envelope_body_def by (intro appends_seq appends_bytes appends_put u z)
  show ?thesis
  proof (cases "total_bytes lim")
    case (Inr n)
    then have n: "n = 84 + el_execution_bytes lim + el_host_bytes lim + 32" "n < 2 ^ 64" by (simp_all add: total_bytes_iff)
    show ?thesis
    proof (cases "el_execution_bytes lim < length (en_execution e) \<or> el_host_bytes lim < length (en_host e)")
      case False
      then have "length (envelope_body sha abi cid e) \<le> n" using n(1) len by linarith
      from save_appends [OF m this n(2)] False show ?thesis by (auto simp: envelope_encode_def Inr)
    qed (auto simp: envelope_encode_def)
  qed (auto simp: envelope_encode_def)
qed

text \<open>
  C36. The envelope is exact: \<open>decode\<close> accepts a byte string for a computer exactly when it is what \<open>encode\<close> writes for the
  result within the same limits. So a saved computer can be read back, and corruption, truncation, trailing
  bytes, another computer, runtime or format, and payloads over the limits are all rejected unless the
  SHA-256 digest of the changed bytes matches.
\<close>

theorem envelope_exact:
  assumes "sha256_length sha" "length cid = 16"
  shows "envelope_decode sha abi bs cid lim = Inr e \<longleftrightarrow>
    en_generation e < 2 ^ 64 \<and> envelope_encode sha abi cid (en_generation e) (en_execution e) (en_host e) lim = Inr bs"
proof (cases "total_bytes lim")
  case (Inr total)
  then have total: "total = 84 + el_execution_bytes lim + el_host_bytes lim + 32" "total < 2 ^ 64" by (simp_all add: total_bytes_iff)
  have len: "length (sha x) = 32" "length (envelope_body sha abi cid e) = 84 + length (en_execution e) + length (en_host e)" for x
    using assms by (simp_all add: envelope_body_def runtime_identity_def sha256_length_def ENV_MAGIC_def ascii_def)
  let ?n = "length bs - 32" and ?b = "envelope_body sha abi cid e"
  have load: "cp_load (read_envelope sha abi cid lim) total HEADER_BYTES body = Inr e \<longleftrightarrow>
      fm_valid (fm_envelope sha abi cid lim) e \<and> body = ?b \<and> length body \<le> total" for body
    using load_reads [OF reads_envelope [OF assms] total(2), of HEADER_BYTES abi lim body e] by (auto simp: HEADER_BYTES_def fm_envelope_def)
  have "envelope_decode sha abi bs cid lim = Inr e \<longleftrightarrow> length bs \<le> total \<and> 116 \<le> length bs \<and> sha (take ?n bs) = drop ?n bs \<and>
      fm_valid (fm_envelope sha abi cid lim) e \<and> take ?n bs = ?b"
  proof (cases "length bs \<le> total")
    case True
    have ok: "ok_or (Option.bind (checked_sub (length bs) CHECKSUM_BYTES) (\<lambda>n. if HEADER_BYTES \<le> n then Some n else None)) CpTruncated =
        (if 116 \<le> length bs then Inr ?n else Inl CpTruncated)"
      by (auto simp: CHECKSUM_BYTES_def HEADER_BYTES_def checked_sub_def)
    have "length (take ?n bs) \<le> total" using True by simp
    with load [of "take ?n bs"] True show ?thesis unfolding envelope_decode_def Inr rbind_simps ok by (simp add: not_less)
  qed (simp add: envelope_decode_def Inr)
  also have "\<dots> \<longleftrightarrow> fm_valid (fm_envelope sha abi cid lim) e \<and> bs = ?b @ sha ?b"
  proof
    assume "fm_valid (fm_envelope sha abi cid lim) e \<and> bs = ?b @ sha ?b"
    then show "length bs \<le> total \<and> 116 \<le> length bs \<and> sha (take ?n bs) = drop ?n bs \<and> fm_valid (fm_envelope sha abi cid lim) e \<and> take ?n bs = ?b"
      using total(1) len by (simp add: fm_envelope_def)
  qed (metis append_take_drop_id)
  also have "\<dots> \<longleftrightarrow> en_generation e < 2 ^ 64 \<and> envelope_encode sha abi cid (en_generation e) (en_execution e) (en_host e) lim = Inr bs"
    using total by (auto simp: envelope_encode_iff [OF assms] fm_envelope_def Inr)
  finally show ?thesis .
qed (simp add: envelope_decode_def envelope_encode_iff [OF assms])

theorem envelope_exact_witness:
  "envelope_decode (\<lambda>_. replicate 32 0) 24
     (envelope_body (\<lambda>_. replicate 32 0) 24 (replicate 16 7) \<lparr>en_generation = 17, en_execution = [1, 2], en_host = [3]\<rparr> @ replicate 32 0)
     (replicate 16 7) \<lparr>el_execution_bytes = 32, el_host_bytes = 16, el_allocation_bytes = 64\<rparr> =
   Inr \<lparr>en_generation = 17, en_execution = [1, 2], en_host = [3]\<rparr>"
proof (subst envelope_exact)
  show "sha256_length (\<lambda>_. replicate 32 (0 :: u8))" by (simp add: sha256_length_def)
  then show "en_generation \<lparr>en_generation = 17, en_execution = [1, 2], en_host = [3]\<rparr> < 2 ^ 64 \<and>
    envelope_encode (\<lambda>_. replicate 32 0) 24 (replicate 16 7) (en_generation \<lparr>en_generation = 17, en_execution = [1, 2], en_host = [3]\<rparr>)
      (en_execution \<lparr>en_generation = 17, en_execution = [1, 2], en_host = [3]\<rparr>) (en_host \<lparr>en_generation = 17, en_execution = [1, 2], en_host = [3]\<rparr>)
      \<lparr>el_execution_bytes = 32, el_host_bytes = 16, el_allocation_bytes = 64\<rparr> =
    Inr (envelope_body (\<lambda>_. replicate 32 0) 24 (replicate 16 7) \<lparr>en_generation = 17, en_execution = [1, 2], en_host = [3]\<rparr> @ replicate 32 0)"
    by (subst envelope_encode_iff)
      (simp_all add: total_bytes_def HEADER_BYTES_def CHECKSUM_BYTES_def checked_add_def)
qed simp

end
