(* ===== verification/Cp_Structs.thy ===== *)
theory Cp_Structs
  imports Cp_Codec
begin

text \<open>
  Rules for the codecs of structures and enumerations, which the macros \<open>checkpoint_struct!\<close> and \<open>checkpoint_enum!\<close>
  of \<open>src/src/execution/checkpoint.rs\<close> generate: a structure writes and reads its fields in turn, an
  enumeration its tag and then the fields of the variant.
\<close>

named_theorems fm_valids "when a composed format is valid"

lemma fm_valid_map [fm_valids]: "fm_valid (fm_map A sel g) v \<longleftrightarrow> fm_valid A (sel v) \<and> g (sel v) = v"
  by (simp add: fm_map_def)

lemma fm_valid_bind [fm_valids]: "fm_valid (fm_bind A sel B) v \<longleftrightarrow> fm_valid A (sel v) \<and> fm_valid (B (sel v)) v"
  by (simp add: fm_bind_def)

lemma fm_valid_ret [fm_valids]: "fm_valid (fm_ret x) v \<longleftrightarrow> v = x"
  by (simp add: fm_ret_def)

lemma fm_valid_fail [fm_valids]: "\<not> fm_valid fm_fail v"
  by (simp add: fm_fail_def)

lemma fm_valid_enum [fm_valids]: "fm_valid (fm_enum tag P) v \<longleftrightarrow> tag v < 256 \<and> fm_valid (P (tag v)) v"
  by (simp add: fm_enum_def fm_nested_def fm_bind_def)

lemma fm_valid_option [fm_valids]: "fm_valid (fm_option F) v \<longleftrightarrow> (case v of None \<Rightarrow> True | Some x \<Rightarrow> fm_valid F x)"
  by (simp add: fm_option_def)

lemma fm_valid_vec [fm_valids]: "fm_valid (fm_vec size_of F) vs \<longleftrightarrow> length vs < 2 ^ 64 \<and> list_all (fm_valid F) vs"
  by (simp add: fm_vec_def)

lemma reads_if: "(c \<Longrightarrow> reads m F) \<Longrightarrow> (\<not> c \<Longrightarrow> reads n G) \<Longrightarrow> reads (if c then m else n) (if c then F else G)"
  by simp

lemma appends_bind:
  "appends m (fm_enc A (sel v)) \<Longrightarrow> appends n (fm_enc (B (sel v)) v) \<Longrightarrow> appends (sseq m n) (fm_enc (fm_bind A sel B) v)"
  using appends_seq by (simp add: fm_bind_def)

lemma appends_map: "appends m (fm_enc A (sel v)) \<Longrightarrow> appends m (fm_enc (fm_map A sel g) v)"
  by (simp add: fm_map_def)

lemma appends_uint: "appends (write_uint n v) (le_bytes n v)"
  by (simp add: write_uint_def appends_put)

lemma appends_enum:
  "tag v = t \<Longrightarrow> appends m (fm_enc (P t) v) \<Longrightarrow> appends (sseq (write_uint 1 t) m) (fm_enc (fm_enum tag P) v)"
  using appends_seq [OF appends_uint [of 1 t]] by (simp add: fm_enum_def fm_nested_def fm_bind_def)

lemma appends_variant: "tag v = t \<Longrightarrow> P t = fm_ret v \<Longrightarrow> appends (write_uint 1 t) (fm_enc (fm_enum tag P) v)"
  using appends_uint [of 1 t] by (simp add: fm_enum_def fm_nested_def fm_bind_def fm_ret_def)

lemma fm_deep_vec: "(\<And>x. fm_deep F x \<le> n) \<Longrightarrow> fm_deep (fm_vec z F) xs \<le> Suc n"
proof -
  assume le: "\<And>x. fm_deep F x \<le> n"
  have "foldr (max \<circ> fm_deep F) xs 0 \<le> n" using le by (induction xs) auto
  then show ?thesis by (simp add: fm_vec_def)
qed

lemma fm_cost_vec: "(\<And>x. fm_cost F x = 0) \<Longrightarrow> fm_cost (fm_vec z F) xs = length xs * max z 1"
  by (simp add: fm_vec_def)

lemma fm_parts:
  "fm_cost (fm_bind A sel B) v = fm_cost A (sel v) + fm_cost (B (sel v)) v"
  "fm_deep (fm_bind A sel B) v = max (fm_deep A (sel v)) (fm_deep (B (sel v)) v)"
  "fm_cost (fm_map A sel g) v = fm_cost A (sel v)"
  "fm_deep (fm_map A sel g) v = fm_deep A (sel v)"
  "fm_cost (fm_option F) x = (case x of None \<Rightarrow> 0 | Some y \<Rightarrow> fm_cost F y)"
  "fm_deep (fm_option F) x = (case x of None \<Rightarrow> 1 | Some y \<Rightarrow> fm_deep F y + 1)"
  "fm_cost (fm_enum tag P) w = fm_cost (P (tag w)) w"
  "fm_deep (fm_enum tag P) w = fm_deep (P (tag w)) w + 1"
  "fm_cost (fm_ret u) w = 0" "fm_deep (fm_ret u) w = 0"
  by (auto simp: fm_bind_def fm_map_def fm_option_def fm_enum_def fm_nested_def fm_ret_def split: option.split)

end
