(* ===== verification/Cp_Task.thy ===== *)
theory Cp_Task
  imports Cp_Structs Vm_Task
begin

text \<open>
  The checkpoint of the scheduler (\<open>src/src/execution/checkpoint/task.rs\<close>): its codec and the validation of a
  decoded scheduler. Task and request ids are coded as in \<open>src/src/execution/checkpoint/host.rs\<close>. The size of
  a task record in memory, which the reader charges for a boxed slice, is an argument.
\<close>

subsection \<open>Codec\<close>

definition write_task_id :: "task_id cp_write" where "write_task_id = write_uint 4"
definition read_task_id :: "task_id cp_read" where "read_task_id = read_uint 4"
definition write_request_id :: "nat cp_write" where "write_request_id = write_uint 8"
definition read_request_id :: "nat cp_read" where "read_request_id = read_uint 8"

fun write_task_wait :: "task_wait cp_write" where
  "write_task_wait (WaitHost r) = sseq (write_uint 1 0) (write_request_id r)"
| "write_task_wait (WaitJoin t) = sseq (write_uint 1 1) (write_task_id t)"
| "write_task_wait (WaitChannel c) = sseq (write_uint 1 2) (write_uint 4 c)"

definition read_task_wait :: "task_wait cp_read" where
  "read_task_wait = read_enum (\<lambda>tag.
     if tag = 0 then sbind read_request_id (\<lambda>v. sret (WaitHost v))
     else if tag = 1 then sbind read_task_id (\<lambda>v. sret (WaitJoin v))
     else if tag = 2 then sbind (read_uint 4) (\<lambda>v. sret (WaitChannel v))
     else sfail CpInvalidState)"

fun write_task_state :: "task_state cp_write" where
  "write_task_state Vacant = write_uint 1 0"
| "write_task_state Ready = write_uint 1 1"
| "write_task_state Running = write_uint 1 2"
| "write_task_state (Waiting w) = sseq (write_uint 1 3) (write_task_wait w)"
| "write_task_state Completed = write_uint 1 4"

definition read_task_state :: "task_state cp_read" where
  "read_task_state = read_enum (\<lambda>tag.
     if tag = 0 then sret Vacant
     else if tag = 1 then sret Ready
     else if tag = 2 then sret Running
     else if tag = 3 then sbind read_task_wait (\<lambda>w. sret (Waiting w))
     else if tag = 4 then sret Completed
     else sfail CpInvalidState)"

definition write_task_record :: "task_record cp_write" where
  "write_task_record t = sseq (write_option write_task_id (tr_id t)) (write_task_state (tr_state t))"

definition read_task_record :: "task_record cp_read" where
  "read_task_record =
     sbind (read_option read_task_id) (\<lambda>i.
     sbind read_task_state (\<lambda>st. sret \<lparr>tr_id = i, tr_state = st\<rparr>))"

definition write_task_scheduler :: "task_scheduler cp_write" where
  "write_task_scheduler s =
     sseq (write_vec write_task_record (ts_tasks s))
     (sseq (write_vec write_usize (ts_ready s))
     (sseq (write_usize (ts_ready_head s))
     (sseq (write_usize (ts_ready_len s))
     (sseq (write_option write_usize (ts_active s))
     (write_uint 4 (ts_next_id s))))))"

definition read_task_scheduler :: "nat \<Rightarrow> task_scheduler cp_read" where
  "read_task_scheduler record_size =
     sbind (read_vec record_size read_task_record) (\<lambda>tasks.
     sbind (read_vec 8 read_usize) (\<lambda>ready.
     sbind read_usize (\<lambda>ready_head.
     sbind read_usize (\<lambda>ready_len.
     sbind (read_option read_usize) (\<lambda>active.
     sbind (read_uint 4) (\<lambda>next_id.
     sret \<lparr>ts_tasks = tasks, ts_ready = ready, ts_ready_head = ready_head, ts_ready_len = ready_len,
       ts_active = active, ts_next_id = next_id\<rparr>))))))"

subsection \<open>Validation\<close>

fun validate_join :: "task_scheduler \<Rightarrow> nat \<Rightarrow> nat \<Rightarrow> task_id \<Rightarrow> checkpoint_error + unit" where
  "validate_join s slot 0 cursor = Inr ()"
| "validate_join s slot (Suc remaining) cursor =
     rbind (ok_or (task_slot cursor s) CpInvalidState) (\<lambda>target.
     if target = slot \<or> tr_state (ts_tasks s ! target) = Completed then Inl CpInvalidState
     else
       (case tr_state (ts_tasks s ! target) of
          Waiting (WaitJoin nxt) \<Rightarrow> if remaining = 0 then Inl CpInvalidState else validate_join s slot remaining nxt
        | _ \<Rightarrow> Inr ()))"

definition validate_task :: "task_scheduler \<Rightarrow> nat \<Rightarrow> nat \<Rightarrow> task_record \<Rightarrow> task_id set \<Rightarrow> checkpoint_error + task_id set" where
  "validate_task s capacity slot t ids =
     rbind
       (case tr_id t of
          None \<Rightarrow> if tr_state t = Vacant then Inr ids else Inl CpInvalidState
        | Some k \<Rightarrow>
            if k \<noteq> 0 \<and> k < ts_next_id s \<and> tr_state t \<noteq> Vacant \<and> k \<notin> ids then Inr (insert k ids) else Inl CpInvalidState) (\<lambda>ids.
     if (tr_state t = Running) \<noteq> (ts_active s = Some slot) then Inl CpInvalidState
     else
       (case tr_state t of
          Waiting (WaitHost request) \<Rightarrow> if request = 0 then Inl CpInvalidState else Inr ids
        | Waiting (WaitChannel channel) \<Rightarrow> if channel = 0 then Inl CpInvalidState else Inr ids
        | Waiting (WaitJoin target) \<Rightarrow> rbind (validate_join s slot capacity target) (\<lambda>_. Inr ids)
        | _ \<Rightarrow> Inr ids))"

fun validate_tasks :: "task_scheduler \<Rightarrow> nat \<Rightarrow> nat \<Rightarrow> task_record list \<Rightarrow> task_id set \<Rightarrow> checkpoint_error + task_id set" where
  "validate_tasks s capacity slot [] ids = Inr ids"
| "validate_tasks s capacity slot (t # ts) ids =
     rbind (validate_task s capacity slot t ids) (validate_tasks s capacity (Suc slot) ts)"

fun validate_ready :: "task_scheduler \<Rightarrow> nat \<Rightarrow> nat list \<Rightarrow> nat set \<Rightarrow> checkpoint_error + nat set" where
  "validate_ready s capacity [] queued = Inr queued"
| "validate_ready s capacity (index # rest) queued =
     (let slot = ts_ready s ! ((ts_ready_head s + index) mod capacity) in
      if capacity \<le> slot \<or> tr_state (ts_tasks s ! slot) \<noteq> Ready \<or> slot \<in> queued then Inl CpInvalidState
      else validate_ready s capacity rest (insert slot queued))"

definition validate_scheduler :: "task_scheduler \<Rightarrow> nat \<Rightarrow> checkpoint_error + unit" where
  "validate_scheduler s capacity =
     (if capacity = 0 \<or> length (ts_tasks s) \<noteq> capacity \<or> length (ts_ready s) \<noteq> capacity \<or>
         capacity \<le> ts_ready_head s \<or> capacity < ts_ready_len s \<or> ts_next_id s < 2 \<or> I32_MAX + 1 < ts_next_id s
      then Inl CpInvalidState
      else
        rbind (validate_tasks s capacity 0 (ts_tasks s) {}) (\<lambda>_.
        if (case ts_active s of None \<Rightarrow> False | Some slot \<Rightarrow> capacity \<le> slot) then Inl CpInvalidState
        else
          rbind (validate_ready s capacity [0..<ts_ready_len s] {}) (\<lambda>queued.
          if length (filter (\<lambda>t. tr_state t = Ready) (ts_tasks s)) \<noteq> card queued then Inl CpInvalidState
          else Inr ())))"

subsection \<open>The codec is exact\<close>

definition wait_tag :: "task_wait \<Rightarrow> nat" where
  "wait_tag w = (case w of WaitHost _ \<Rightarrow> 0 | WaitJoin _ \<Rightarrow> 1 | WaitChannel _ \<Rightarrow> 2)"

definition wait_arg :: "task_wait \<Rightarrow> nat" where
  "wait_arg w = (case w of WaitHost v \<Rightarrow> v | WaitJoin v \<Rightarrow> v | WaitChannel v \<Rightarrow> v)"

definition fm_task_wait :: "task_wait cp_format" where
  "fm_task_wait = fm_enum wait_tag (\<lambda>tag.
     if tag = 0 then fm_map (fm_uint 8) wait_arg WaitHost
     else if tag = 1 then fm_map (fm_uint 4) wait_arg WaitJoin
     else if tag = 2 then fm_map (fm_uint 4) wait_arg WaitChannel
     else fm_fail)"

definition state_tag :: "task_state \<Rightarrow> nat" where
  "state_tag st = (case st of Vacant \<Rightarrow> 0 | Ready \<Rightarrow> 1 | Running \<Rightarrow> 2 | Waiting _ \<Rightarrow> 3 | Completed \<Rightarrow> 4)"

definition state_wait :: "task_state \<Rightarrow> task_wait" where
  "state_wait st = (case st of Waiting w \<Rightarrow> w | _ \<Rightarrow> WaitHost 0)"

definition fm_task_state :: "task_state cp_format" where
  "fm_task_state = fm_enum state_tag (\<lambda>tag.
     if tag = 0 then fm_ret Vacant
     else if tag = 1 then fm_ret Ready
     else if tag = 2 then fm_ret Running
     else if tag = 3 then fm_map fm_task_wait state_wait Waiting
     else if tag = 4 then fm_ret Completed
     else fm_fail)"

definition fm_task_record :: "task_record cp_format" where
  "fm_task_record = fm_bind (fm_option (fm_uint 4)) tr_id (\<lambda>i. fm_map fm_task_state tr_state (\<lambda>st. \<lparr>tr_id = i, tr_state = st\<rparr>))"

definition fm_task_scheduler :: "nat \<Rightarrow> task_scheduler cp_format" where
  "fm_task_scheduler record_size =
     fm_bind (fm_vec record_size fm_task_record) ts_tasks (\<lambda>tasks.
     fm_bind (fm_vec 8 (fm_uint 8)) ts_ready (\<lambda>ready.
     fm_bind (fm_uint 8) ts_ready_head (\<lambda>ready_head.
     fm_bind (fm_uint 8) ts_ready_len (\<lambda>ready_len.
     fm_bind (fm_option (fm_uint 8)) ts_active (\<lambda>active.
     fm_map (fm_uint 4) ts_next_id (\<lambda>next_id.
     \<lparr>ts_tasks = tasks, ts_ready = ready, ts_ready_head = ready_head, ts_ready_len = ready_len,
       ts_active = active, ts_next_id = next_id\<rparr>))))))"

lemma reads_task_wait: "reads read_task_wait fm_task_wait"
  unfolding read_task_wait_def fm_task_wait_def read_request_id_def read_task_id_def
proof (rule reads_enum, goal_cases)
  case (2 t v)
  then show ?case by (cases v) (auto simp: wait_tag_def fm_valids split: if_splits)
qed (intro reads_if reads_map reads_uint reads_fail; simp add: wait_arg_def)

lemma writes_task_wait: "writes write_task_wait fm_task_wait"
proof
  fix w assume "fm_valid fm_task_wait w"
  then show "appends (write_task_wait w) (fm_enc fm_task_wait w)"
    by (cases w) (auto simp: fm_task_wait_def write_request_id_def write_task_id_def wait_tag_def wait_arg_def simp del: One_nat_def
      intro!: appends_enum appends_map appends_uint)
qed

lemma reads_task_state: "reads read_task_state fm_task_state"
  unfolding read_task_state_def fm_task_state_def
proof (rule reads_enum, goal_cases)
  case (2 t v)
  then show ?case by (cases v) (auto simp: state_tag_def fm_valids split: if_splits)
qed (intro reads_if reads_map reads_ret reads_task_wait reads_fail; simp add: state_wait_def)

lemma writes_task_state: "writes write_task_state fm_task_state"
proof
  fix st assume "fm_valid fm_task_state st"
  then show "appends (write_task_state st) (fm_enc fm_task_state st)"
    by (cases st) (auto simp: fm_task_state_def fm_valids state_tag_def state_wait_def simp del: One_nat_def
      intro!: appends_enum appends_variant appends_map writesD [OF writes_task_wait])
qed

lemma reads_task_record: "reads read_task_record fm_task_record"
  unfolding read_task_record_def fm_task_record_def read_task_id_def
  by (intro reads_bind [OF reads_option [OF reads_uint]] reads_map [OF reads_task_state])
    ((simp only: fm_valids, elim conjE, erule subst, simp) | simp)+

lemma writes_task_record: "writes write_task_record fm_task_record"
  unfolding write_task_record_def fm_task_record_def write_task_id_def
  by (intro writesI appends_bind appends_map writesD [OF writes_option [OF writes_uint]] writesD [OF writes_task_state])
    (simp_all add: fm_valids)

lemma reads_task_scheduler: "reads (read_task_scheduler record_size) (fm_task_scheduler record_size)"
  unfolding read_task_scheduler_def fm_task_scheduler_def
  by (intro reads_bind [OF reads_vec [OF reads_task_record]] reads_bind [OF reads_vec [OF reads_usize]] reads_bind [OF reads_usize]
      reads_bind [OF reads_option [OF reads_usize]] reads_map [OF reads_uint])
    ((simp only: fm_valids, elim conjE, erule subst, simp) | simp)+

lemma writes_task_scheduler: "writes write_task_scheduler (fm_task_scheduler record_size)"
  unfolding write_task_scheduler_def fm_task_scheduler_def
  by (intro writesI appends_bind appends_map writesD [OF writes_vec [OF writes_task_record]] writesD [OF writes_vec [OF writes_usize]]
      writesD [OF writes_option [OF writes_usize]] writesD [OF writes_usize] writesD [OF writes_uint])
    (simp_all add: fm_valids)

interpretation cp_sched: cp_codec write_task_scheduler "read_task_scheduler record_size" "fm_task_scheduler record_size"
  by unfold_locales (rule writes_task_scheduler reads_task_scheduler)+

subsection \<open>What validation accepts\<close>

text \<open>The invariant of the scheduler without its clause on the root slot, which validation does not look at.\<close>

definition slots_ok :: "task_record list \<Rightarrow> nat \<Rightarrow> bool" where
  "slots_ok ts next \<longleftrightarrow> next \<le> 2 ^ 31 \<and> 1 < next \<and>
     (\<forall>i<length ts. tr_id (ts ! i) = None \<longleftrightarrow> tr_state (ts ! i) = Vacant) \<and>
     (\<forall>i<length ts. \<forall>k. tr_id (ts ! i) = Some k \<longrightarrow> 0 < k \<and> k < next) \<and>
     (\<forall>i<length ts. \<forall>j<length ts. \<forall>k. tr_id (ts ! i) = Some k \<longrightarrow> tr_id (ts ! j) = Some k \<longrightarrow> i = j)"

definition root_ok :: "task_record list \<Rightarrow> bool" where
  "root_ok ts \<longleftrightarrow> tr_state (ts ! 0) = Vacant \<longrightarrow> list_all (\<lambda>t. tr_state t = Vacant) ts"

definition sched_core :: "task_scheduler \<Rightarrow> bool" where
  "sched_core s \<longleftrightarrow> ring_ok s \<and> slots_ok (ts_tasks s) (ts_next_id s) \<and>
     queue_ok (ts_tasks s) (ready_list s) (ts_active s) \<and> joins_ok (ts_tasks s)"

definition wait_named :: "task_record \<Rightarrow> bool" where
  "wait_named t \<longleftrightarrow> tr_state t \<noteq> Waiting (WaitHost 0) \<and> tr_state t \<noteq> Waiting (WaitChannel 0)"

lemma sched_inv_core: "sched_inv s \<longleftrightarrow> sched_core s \<and> root_ok (ts_tasks s)"
  unfolding sched_inv_def base_inv_def sched_core_def root_ok_def table_ok_def slots_ok_def list_all_length by blast

lemma unique_slot:
  assumes "slots_ok (ts_tasks s) n"
  shows "task_slot k s = Some i \<longleftrightarrow> i < length (ts_tasks s) \<and> tr_id (ts_tasks s ! i) = Some k"
proof
  show "task_slot k s = Some i" if "i < length (ts_tasks s) \<and> tr_id (ts_tasks s ! i) = Some k"
    unfolding task_slot_def by (rule find_index_unique) (use that assms in \<open>auto simp: slots_ok_def\<close>)
qed (auto simp: task_slot_def dest: find_index_SomeD)

lemma unique_join:
  assumes "slots_ok ts n" "i < length ts" "tr_id (ts ! i) = Some c"
  shows "(c, x) \<in> joins ts \<longleftrightarrow> tr_state (ts ! i) = Waiting (WaitJoin x)"
  using assms unfolding joins_def slots_ok_def by blast

lemma validate_join_sound:
  assumes ok: "slots_ok (ts_tasks s) m" and i: "i < length (ts_tasks s)" "tr_id (ts_tasks s ! i) = Some a"
    and v: "validate_join s i (Suc n) c = Inr ()"
  shows "(c, a) \<notin> (joins (ts_tasks s))\<^sup>* \<and> (\<exists>j<length (ts_tasks s). tr_id (ts_tasks s ! j) = Some c \<and> tr_state (ts_tasks s ! j) \<noteq> Completed)"
  using v
proof (induction n arbitrary: c)
  case (0 c)
  then obtain j where j: "task_slot c s = Some j" "j \<noteq> i" "tr_state (ts_tasks s ! j) \<noteq> Completed"
    by (auto simp: ok_or_def split: option.splits if_splits)
  then have at: "j < length (ts_tasks s)" "tr_id (ts_tasks s ! j) = Some c" using unique_slot [OF ok] by auto
  have "c \<noteq> a" using at i j(2) ok by (auto simp: slots_ok_def)
  moreover have "(c, x) \<notin> joins (ts_tasks s)" for x
    using 0 j unique_join [OF ok at] by (auto split: if_splits)
  ultimately have "(c, a) \<notin> (joins (ts_tasks s))\<^sup>*" by (metis converse_rtranclE)
  with at j(3) show ?case by blast
next
  case (Suc n c)
  then obtain j where j: "task_slot c s = Some j" "j \<noteq> i" "tr_state (ts_tasks s ! j) \<noteq> Completed"
    by (auto simp: ok_or_def split: option.splits if_splits)
  then have at: "j < length (ts_tasks s)" "tr_id (ts_tasks s ! j) = Some c" using unique_slot [OF ok] by auto
  have "c \<noteq> a" using at i j(2) ok by (auto simp: slots_ok_def)
  moreover have "(x, a) \<notin> (joins (ts_tasks s))\<^sup>*" if "(c, x) \<in> joins (ts_tasks s)" for x
    using Suc.prems Suc.IH [of x] j that unique_join [OF ok at] by simp
  ultimately have "(c, a) \<notin> (joins (ts_tasks s))\<^sup>*" by (metis converse_rtranclE)
  with at j(3) show ?case by blast
qed

lemma validate_join_complete:
  assumes ok: "slots_ok (ts_tasks s) m" and j: "joins_ok (ts_tasks s)"
    and i: "i < length (ts_tasks s)" "tr_id (ts_tasks s ! i) = Some a"
    and c: "(a, c) \<in> (joins (ts_tasks s))\<^sup>+" and fuel: "card {x. (c, x) \<in> (joins (ts_tasks s))\<^sup>+} < n"
  shows "validate_join s i n c = Inr ()"
  using c fuel
proof (induction n arbitrary: c)
  case (Suc n)
  let ?R = "joins (ts_tasks s)"
  obtain b where "(b, c) \<in> ?R" using Suc.prems(1) by (metis tranclE)
  then obtain k where k: "k < length (ts_tasks s)" "tr_id (ts_tasks s ! k) = Some c" "tr_state (ts_tasks s ! k) \<noteq> Completed"
    using joins_okD(2) [OF j] by blast
  have at: "task_slot c s = Some k" using unique_slot [OF ok] k by simp
  have "c \<noteq> a" using Suc.prems(1) joins_okD(1) [OF j] by (auto simp: acyclic_def)
  then have ki: "k \<noteq> i" using k(2) i(2) by auto
  show ?case
  proof (cases "\<exists>x. tr_state (ts_tasks s ! k) = Waiting (WaitJoin x)")
    case True
    then obtain x where x: "tr_state (ts_tasks s ! k) = Waiting (WaitJoin x)" ..
    then have cx: "(c, x) \<in> ?R" using unique_join [OF ok k(1,2)] by simp
    then have "{y. (x, y) \<in> ?R\<^sup>+} \<subset> {y. (c, y) \<in> ?R\<^sup>+}"
      using joins_okD(1) [OF j] by (auto simp: acyclic_def intro: trancl_into_trancl2)
    then have "card {y. (x, y) \<in> ?R\<^sup>+} < card {y. (c, y) \<in> ?R\<^sup>+}" by (rule psubset_card_mono [OF finite_waits [OF j]])
    then have "card {y. (x, y) \<in> ?R\<^sup>+} < n" using Suc.prems(2) by simp
    then show ?thesis using Suc.IH [of x] Suc.prems(1) cx x at ki by (auto intro: trancl_into_trancl)
  qed (use at ki k(3) in \<open>auto split: task_state.split task_wait.split\<close>)
qed simp

lemma validate_joins:
  assumes ok: "slots_ok (ts_tasks s) m" and n: "length (ts_tasks s) = n"
  shows "(\<forall>i<n. \<forall>t. tr_state (ts_tasks s ! i) = Waiting (WaitJoin t) \<longrightarrow> validate_join s i n t = Inr ()) \<longleftrightarrow> joins_ok (ts_tasks s)"
proof
  assume v: "\<forall>i<n. \<forall>t. tr_state (ts_tasks s ! i) = Waiting (WaitJoin t) \<longrightarrow> validate_join s i n t = Inr ()"
  have edge: "(b, a) \<notin> (joins (ts_tasks s))\<^sup>* \<and> (\<exists>j<length (ts_tasks s). tr_id (ts_tasks s ! j) = Some b \<and> tr_state (ts_tasks s ! j) \<noteq> Completed)"
    if ab: "(a, b) \<in> joins (ts_tasks s)" for a b
  proof -
    obtain i where i: "i < length (ts_tasks s)" "tr_id (ts_tasks s ! i) = Some a" "tr_state (ts_tasks s ! i) = Waiting (WaitJoin b)"
      using ab by (auto simp: joins_def)
    moreover obtain k where "n = Suc k" using i(1) n by (cases n) auto
    ultimately show ?thesis using v n validate_join_sound [OF ok i(1,2)] by auto
  qed
  then show "joins_ok (ts_tasks s)" unfolding joins_ok_def acyclic_def by (auto dest: tranclD)
next
  assume j: "joins_ok (ts_tasks s)"
  show "\<forall>i<n. \<forall>t. tr_state (ts_tasks s ! i) = Waiting (WaitJoin t) \<longrightarrow> validate_join s i n t = Inr ()"
  proof (intro allI impI)
    fix i t assume i: "i < n" and st: "tr_state (ts_tasks s ! i) = Waiting (WaitJoin t)"
    then obtain a where a: "tr_id (ts_tasks s ! i) = Some a" using ok n by (cases "tr_id (ts_tasks s ! i)") (auto simp: slots_ok_def)
    then have at: "(a, t) \<in> (joins (ts_tasks s))\<^sup>+" using unique_join [OF ok _ a] i n st by auto
    let ?R = "joins (ts_tasks s)"
    have "{x. (t, x) \<in> ?R\<^sup>+} \<subseteq> {x. (a, x) \<in> ?R\<^sup>+}" using at by auto
    then have "card {x. (t, x) \<in> ?R\<^sup>+} \<le> card {x. (a, x) \<in> ?R\<^sup>+}" by (rule card_mono [OF finite_waits [OF j]])
    also have "\<dots> < n" using card_waits [OF j] i a n by blast
    finally show "validate_join s i n t = Inr ()" using validate_join_complete [OF ok j _ a at] i n by simp
  qed
qed

definition slot_valid :: "task_scheduler \<Rightarrow> nat \<Rightarrow> nat \<Rightarrow> task_record \<Rightarrow> bool" where
  "slot_valid s n i t \<longleftrightarrow> (tr_id t = None \<longleftrightarrow> tr_state t = Vacant) \<and> (\<forall>k. tr_id t = Some k \<longrightarrow> 0 < k \<and> k < ts_next_id s) \<and>
     (ts_active s = Some i \<longleftrightarrow> tr_state t = Running) \<and> wait_named t \<and>
     (\<forall>b. tr_state t = Waiting (WaitJoin b) \<longrightarrow> validate_join s i n b = Inr ())"

lemma rbind_unit: "rbind (r :: 'e + unit) (\<lambda>_. Inr x) = Inr y \<longleftrightarrow> r = Inr () \<and> x = y"
  by (cases r) auto

lemma validate_task_iff:
  "validate_task s n i t ids = Inr ids' \<longleftrightarrow> slot_valid s n i t \<and> set_option (tr_id t) \<inter> ids = {} \<and> ids' = set_option (tr_id t) \<union> ids"
  by (cases t, cases "tr_id t"; cases "tr_state t")
    (auto simp: validate_task_def slot_valid_def wait_named_def rbind_unit split: task_wait.splits if_splits)

lemma validate_tasks_iff:
  "validate_tasks s n k ts ids = Inr ids' \<longleftrightarrow> (\<forall>i<length ts. slot_valid s n (k + i) (ts ! i)) \<and>
     distinct (List.map_filter tr_id ts) \<and> set (List.map_filter tr_id ts) \<inter> ids = {} \<and> ids' = ids \<union> set (List.map_filter tr_id ts)"
proof (induction ts arbitrary: k ids)
  case (Cons t ts)
  have "(\<forall>i<Suc (length ts). slot_valid s n (k + i) ((t # ts) ! i)) \<longleftrightarrow> slot_valid s n k t \<and> (\<forall>i<length ts. slot_valid s n (Suc k + i) (ts ! i))"
    by (auto simp: less_Suc_eq_0_disj)
  moreover have "validate_tasks s n k (t # ts) ids = Inr ids' \<longleftrightarrow>
      (\<exists>ids''. validate_task s n k t ids = Inr ids'' \<and> validate_tasks s n (Suc k) ts ids'' = Inr ids')"
    by (cases "validate_task s n k t ids") auto
  ultimately show ?case by (cases "tr_id t") (auto simp: Cons.IH validate_task_iff map_filter_simps)
qed (auto simp: map_filter_simps)

lemma map_filter_mem: "k \<in> set (List.map_filter f xs) \<longleftrightarrow> (\<exists>j<length xs. f (xs ! j) = Some k)"
proof (induction xs)
  case (Cons x xs)
  then show ?case by (cases "f x") (auto simp: map_filter_simps less_Suc_eq_0_disj)
qed (simp add: map_filter_simps)

lemma map_filter_distinct:
  "distinct (List.map_filter f xs) \<longleftrightarrow> (\<forall>i<length xs. \<forall>j<length xs. \<forall>k. f (xs ! i) = Some k \<longrightarrow> f (xs ! j) = Some k \<longrightarrow> i = j)"
proof (induction xs)
  case (Cons x xs)
  let ?U = "\<lambda>xs. \<forall>i<length xs. \<forall>j<length xs. \<forall>k. f (xs ! i) = Some k \<longrightarrow> f (xs ! j) = Some k \<longrightarrow> i = j"
  have "?U (x # xs) \<longleftrightarrow> (\<forall>j<length xs. \<forall>k. f x = Some k \<longrightarrow> f (xs ! j) \<noteq> Some k) \<and> ?U xs"
    by (simp add: All_less_Suc2) blast
  then show ?case by (cases "f x") (auto simp: map_filter_simps Cons.IH map_filter_mem)
qed (simp add: map_filter_simps)

lemma validate_ready_iff:
  "validate_ready s n js q = Inr q' \<longleftrightarrow>
     (let l = map (\<lambda>j. ts_ready s ! ((ts_ready_head s + j) mod n)) js in
      distinct l \<and> set l \<inter> q = {} \<and> (\<forall>i\<in>set l. i < n \<and> tr_state (ts_tasks s ! i) = Ready) \<and> q' = q \<union> set l)"
  by (induction js arbitrary: q) (auto simp: Let_def split: if_splits)

lemma count_ready: "length (filter P xs) = card {i. i < length xs \<and> P (xs ! i)}"
  by (rule length_filter_conv_card)

lemma queue_ok_count:
  assumes "distinct q" "\<forall>i\<in>set q. i < length ts \<and> tr_state (ts ! i) = Ready"
  shows "length (filter (\<lambda>t. tr_state t = Ready) ts) = card (set q) \<longleftrightarrow> set q = {i. i < length ts \<and> tr_state (ts ! i) = Ready}"
proof -
  let ?R = "{i. i < length ts \<and> tr_state (ts ! i) = Ready}"
  have "finite ?R" "set q \<subseteq> ?R" using assms by auto
  then show ?thesis unfolding count_ready using card_subset_eq [of ?R "set q"] by auto
qed

lemma queue_ok_iff:
  "queue_ok ts q active \<longleftrightarrow> distinct q \<and> (\<forall>i\<in>set q. i < length ts \<and> tr_state (ts ! i) = Ready) \<and>
     length (filter (\<lambda>t. tr_state t = Ready) ts) = card (set q) \<and>
     (\<forall>i<length ts. active = Some i \<longleftrightarrow> tr_state (ts ! i) = Running) \<and> (\<forall>i. active = Some i \<longrightarrow> i < length ts)"
proof (cases "distinct q \<and> (\<forall>i\<in>set q. i < length ts \<and> tr_state (ts ! i) = Ready)")
  case True
  then show ?thesis using queue_ok_count [of q ts] unfolding queue_ok_def by blast
qed (auto simp: queue_ok_def)

lemma validate_scheduler_iff:
  "validate_scheduler s n = Inr () \<longleftrightarrow> length (ts_tasks s) = n \<and> sched_core s \<and> list_all wait_named (ts_tasks s)"
proof (cases "0 < n \<and> length (ts_tasks s) = n \<and> ring_ok s \<and> 2 \<le> ts_next_id s \<and> ts_next_id s \<le> 2 ^ 31")
  case True
  let ?ts = "ts_tasks s"
  have n: "length ?ts = n" "length (ts_ready s) = n" using True by (auto simp: ring_ok_def)
  have l: "map (\<lambda>j. ts_ready s ! ((ts_ready_head s + j) mod n)) [0..<ts_ready_len s] = ready_list s"
    using n by (simp add: ready_list_def ring_def)
  have guard: "\<not> (n = 0 \<or> length ?ts \<noteq> n \<or> length (ts_ready s) \<noteq> n \<or> n \<le> ts_ready_head s \<or> n < ts_ready_len s \<or>
      ts_next_id s < 2 \<or> I32_MAX + 1 < ts_next_id s)"
    using True n by (auto simp: ring_ok_def I32_MAX_def)
  have slots: "slots_ok ?ts (ts_next_id s) \<longleftrightarrow> (\<forall>i<n. (tr_id (?ts ! i) = None \<longleftrightarrow> tr_state (?ts ! i) = Vacant) \<and>
      (\<forall>k. tr_id (?ts ! i) = Some k \<longrightarrow> 0 < k \<and> k < ts_next_id s)) \<and> distinct (List.map_filter tr_id ?ts)"
    using True n by (auto simp: slots_ok_def map_filter_distinct)
  have queue: "queue_ok ?ts (ready_list s) (ts_active s) \<longleftrightarrow> distinct (ready_list s) \<and>
      (\<forall>i\<in>set (ready_list s). i < n \<and> tr_state (?ts ! i) = Ready) \<and>
      length (filter (\<lambda>t. tr_state t = Ready) ?ts) = card (set (ready_list s)) \<and>
      (\<forall>i<n. ts_active s = Some i \<longleftrightarrow> tr_state (?ts ! i) = Running) \<and> (\<forall>i. ts_active s = Some i \<longrightarrow> i < n)"
    unfolding n(1) [symmetric] by (rule queue_ok_iff)
  have "validate_scheduler s n = Inr () \<longleftrightarrow>
    (\<forall>i<n. slot_valid s n i (?ts ! i)) \<and> distinct (List.map_filter tr_id ?ts) \<and> (\<forall>i. ts_active s = Some i \<longrightarrow> i < n) \<and>
    distinct (ready_list s) \<and> (\<forall>i\<in>set (ready_list s). i < n \<and> tr_state (?ts ! i) = Ready) \<and>
    length (filter (\<lambda>t. tr_state t = Ready) ?ts) = card (set (ready_list s))"
    (is "_ \<longleftrightarrow> ?rhs")
  proof -
    have "validate_scheduler s n = Inr () \<longleftrightarrow> (\<exists>ids. validate_tasks s n 0 ?ts {} = Inr ids) \<and> (\<forall>i. ts_active s = Some i \<longrightarrow> i < n) \<and>
        (\<exists>q. validate_ready s n [0..<ts_ready_len s] {} = Inr q \<and> length (filter (\<lambda>t. tr_state t = Ready) ?ts) = card q)"
      unfolding validate_scheduler_def if_not_P [OF guard]
      by (cases "validate_tasks s n 0 ?ts {}"; cases "validate_ready s n [0..<ts_ready_len s] {}"; cases "ts_active s") (simp_all add: not_le)
    then show ?thesis unfolding validate_tasks_iff validate_ready_iff Let_def l by (auto simp: n)
  qed
  also have "?rhs \<longleftrightarrow> slots_ok ?ts (ts_next_id s) \<and> queue_ok ?ts (ready_list s) (ts_active s) \<and> list_all wait_named ?ts \<and>
      (\<forall>i<n. \<forall>t. tr_state (?ts ! i) = Waiting (WaitJoin t) \<longrightarrow> validate_join s i n t = Inr ())"
    unfolding slots queue slot_valid_def list_all_length n by blast
  also have "\<dots> \<longleftrightarrow> sched_core s \<and> list_all wait_named ?ts"
    using True validate_joins [of s "ts_next_id s" n] by (auto simp: sched_core_def)
  finally show ?thesis using True by simp
next
  case False
  then have "validate_scheduler s n = Inl CpInvalidState" by (auto simp: validate_scheduler_def ring_ok_def I32_MAX_def)
  with False show ?thesis by (auto simp: sched_core_def slots_ok_def ring_ok_def)
qed

subsection \<open>Saving and restoring\<close>

definition keeps_len :: "'a sched_op \<Rightarrow> bool" where
  "keeps_len m \<longleftrightarrow> (\<forall>s. length (ts_tasks (snd (m s))) = length (ts_tasks s))"

lemma keeps_len_bind: "keeps_len m \<Longrightarrow> (\<And>a. keeps_len (f a)) \<Longrightarrow> keeps_len (sbind m f)"
  unfolding keeps_len_def sbind_def by (auto split: prod.split sum.split) (metis snd_conv)+

lemma keeps_len_seq: "keeps_len m \<Longrightarrow> keeps_len n \<Longrightarrow> keeps_len (sseq m n)"
  unfolding sseq_def by (rule keeps_len_bind)

lemma keeps_len_basic:
  "keeps_len (sret a)" "keeps_len (sfail e)" "keeps_len (Pair r)" "keeps_len (sread g)" "keeps_len (set_state i st)" "keeps_len (enqueue i)"
  by (simp_all add: keeps_len_def sread_def set_state_def enqueue_def Let_def)

lemma keeps_len_modify: "(\<And>s. length (ts_tasks (h s)) = length (ts_tasks s)) \<Longrightarrow> keeps_len (smodify h)"
  by (simp add: keeps_len_def)

lemma keeps_len_at: "(\<And>x. keeps_len (f x)) \<Longrightarrow> keeps_len (\<lambda>s. f (g s) s)"
  by (simp add: keeps_len_def)

lemmas keeps_len_rules = keeps_len_bind keeps_len_seq keeps_len_basic keeps_len_modify

lemma keeps_len_wake: "keeps_len (wake_joiners t ws)"
  by (induction ws) (auto intro!: keeps_len_rules)

lemma keeps_len_suspend: "keeps_len (suspend w)"
  unfolding suspend_def by (auto intro!: keeps_len_rules)

lemma keeps_len_join: "keeps_len (join_loop a b n c)"
proof (induction n arbitrary: c)
  case (Suc n)
  then show ?case
    by (auto intro!: keeps_len_rules keeps_len_suspend split: task_state.split task_wait.split)
qed (auto intro: keeps_len_rules)

lemma sched_exec_length: "sched_exec c s = (r, s') \<Longrightarrow> length (ts_tasks s') = length (ts_tasks s)"
proof -
  have "keeps_len (sched_exec c)"
    by (cases c) (auto intro!: keeps_len_rules keeps_len_suspend
      keeps_len_at [where f = "\<lambda>n. join_loop _ _ n _", OF keeps_len_join] keeps_len_at [where f = "\<lambda>n. wake_joiners _ [0..<n]", OF keeps_len_wake]
      simp: start_root_def spawn_def
      suspend_host_def suspend_channel_def join_def complete_current_def complete_host_def complete_channel_def complete_wait_def
      forget_result_def cancel_all_def keeps_len_def [of activate_next] activate_next_def Let_def)
  then show "sched_exec c s = (r, s') \<Longrightarrow> length (ts_tasks s') = length (ts_tasks s)" unfolding keeps_len_def by (metis snd_conv)
qed

lemma sched_reach_length: "sched_reach n s \<Longrightarrow> length (ts_tasks s) = n"
  by (induction rule: sched_reach.induct) (auto simp: scheduler_new_def sched_exec_length split: if_splits)

text \<open>Every number fits the machine integer the code keeps it in.\<close>

definition wait_fits :: "task_wait \<Rightarrow> bool" where
  "wait_fits w = (case w of WaitHost r \<Rightarrow> r < 2 ^ 64 | WaitJoin t \<Rightarrow> t < 2 ^ 32 | WaitChannel c \<Rightarrow> c < 2 ^ 32)"

definition task_fits :: "task_record \<Rightarrow> bool" where
  "task_fits t \<longleftrightarrow> (case tr_id t of None \<Rightarrow> True | Some k \<Rightarrow> k < 2 ^ 32) \<and> (case tr_state t of Waiting w \<Rightarrow> wait_fits w | _ \<Rightarrow> True)"

definition sched_fits :: "task_scheduler \<Rightarrow> bool" where
  "sched_fits s \<longleftrightarrow> length (ts_tasks s) < 2 ^ 64 \<and> list_all task_fits (ts_tasks s) \<and>
     length (ts_ready s) < 2 ^ 64 \<and> list_all (\<lambda>i. i < 2 ^ 64) (ts_ready s) \<and> ts_ready_head s < 2 ^ 64 \<and> ts_ready_len s < 2 ^ 64 \<and>
     (case ts_active s of None \<Rightarrow> True | Some i \<Rightarrow> i < 2 ^ 64) \<and> ts_next_id s < 2 ^ 32"

lemma fm_wait_simps:
  "fm_valid fm_task_wait w \<longleftrightarrow> wait_fits w" "fm_cost fm_task_wait w = 0" "fm_deep fm_task_wait w = 1"
  by (cases w; simp add: fm_task_wait_def fm_valids fm_parts wait_tag_def wait_arg_def wait_fits_def)+

lemma fm_state_simps:
  "fm_valid fm_task_state st \<longleftrightarrow> (case st of Waiting w \<Rightarrow> wait_fits w | _ \<Rightarrow> True)" "fm_cost fm_task_state st = 0" "fm_deep fm_task_state st \<le> 2"
  by (cases st; simp add: fm_task_state_def fm_valids fm_parts state_tag_def state_wait_def fm_wait_simps)+

lemma fm_record_simps:
  "fm_valid fm_task_record t \<longleftrightarrow> task_fits t" "fm_cost fm_task_record t = 0" "fm_deep fm_task_record t \<le> 2"
  using fm_state_simps [of "tr_state t"]
  by (auto simp: fm_task_record_def task_fits_def fm_valids fm_parts split: option.splits)

lemma fm_scheduler_simps:
  "fm_valid (fm_task_scheduler z) s \<longleftrightarrow> sched_fits s"
  "fm_cost (fm_task_scheduler z) s = length (ts_tasks s) * max z 1 + length (ts_ready s) * 8"
  "fm_deep (fm_task_scheduler z) s \<le> 3"
proof -
  have rec: "fm_valid fm_task_record = task_fits" "fm_cost (fm_vec z fm_task_record) ts = length ts * max z 1"
    "fm_deep (fm_vec z fm_task_record) ts \<le> 3" for ts
    using fm_deep_vec [of fm_task_record 2] fm_record_simps by (auto simp: fm_cost_vec)
  have num: "fm_valid (fm_uint 8) = (\<lambda>i. i < 2 ^ 64)" "fm_cost (fm_vec 8 (fm_uint 8)) js = length js * 8" "fm_deep (fm_vec 8 (fm_uint 8)) js \<le> 1" for js
    using fm_deep_vec [of "fm_uint 8" 0] by (auto simp: fm_cost_vec)
  show "fm_valid (fm_task_scheduler z) s \<longleftrightarrow> sched_fits s"
    by (cases "ts_active s") (simp_all add: fm_task_scheduler_def fm_valids rec num sched_fits_def)
  show "fm_cost (fm_task_scheduler z) s = length (ts_tasks s) * max z 1 + length (ts_ready s) * 8"
    by (simp add: fm_task_scheduler_def fm_parts rec num split: option.split)
  show "fm_deep (fm_task_scheduler z) s \<le> 3"
    using rec(3) [of "ts_tasks s"] num(3) [of "ts_ready s"] by (simp add: fm_task_scheduler_def fm_parts split: option.split)
qed

text \<open>
  C37. Validation accepts exactly the schedulers whose bookkeeping fits together: exactly the ready slots are
  queued once each, the running slot is the active one, ids are unique and below the next id, no task waits
  for itself or for a completed or missing task, and every host or channel wait names its request. This is the
  invariant of running schedulers, but for a vacant root slot beside other tasks.
\<close>

theorem validate_scheduler_exact:
  "(validate_scheduler s n = Inr () \<longleftrightarrow> length (ts_tasks s) = n \<and> sched_core s \<and> list_all wait_named (ts_tasks s)) \<and>
   (sched_inv s \<longleftrightarrow> sched_core s \<and> root_ok (ts_tasks s))"
  using validate_scheduler_iff sched_inv_core by blast

text \<open>
  C38. A saved scheduler is restored: in every scheduler that calls can reach, if its numbers are in range and
  its waits are named, the bytes written for it decode, within the allocation, to the same scheduler, and
  validation accepts it; and no other bytes decode to it.
\<close>

theorem scheduler_restored:
  assumes "sched_reach n s" "sched_fits s" "list_all wait_named (ts_tasks s)"
    and "maximum < 2 ^ 64" "allocation < 2 ^ 64" "n * (max record_size 1 + 8) \<le> allocation"
  shows "(cp_save write_task_scheduler maximum s = Inr bs \<longleftrightarrow> cp_load (read_task_scheduler record_size) maximum allocation bs = Inr s) \<and>
    length (ts_tasks s) = n \<and> validate_scheduler s n = Inr ()"
proof -
  have inv: "sched_inv s" by (rule sched_reach_inv [OF assms(1)])
  have n: "length (ts_tasks s) = n" by (rule sched_reach_length [OF assms(1)])
  then have r: "length (ts_ready s) = n" using inv by (simp add: sched_inv_def base_inv_def ring_ok_def)
  have fits: "fm_valid (fm_task_scheduler record_size) s" "fm_cost (fm_task_scheduler record_size) s \<le> allocation"
      "fm_deep (fm_task_scheduler record_size) s \<le> 64"
    using assms(2,6) n r fm_scheduler_simps(3) [of record_size s] by (simp_all add: fm_scheduler_simps(1,2) algebra_simps)
  have "cp_save write_task_scheduler maximum s = Inr bs \<longleftrightarrow> cp_load (read_task_scheduler record_size) maximum allocation bs = Inr s"
    using cp_sched.save_eq [OF fits(1) assms(4)] cp_sched.load_iff [OF assms(4,5), of record_size bs s] fits by auto
  moreover have "validate_scheduler s n = Inr ()" using inv n assms(3) by (simp add: validate_scheduler_iff sched_inv_core)
  ultimately show ?thesis using n by simp
qed

theorem scheduler_restored_witness:
  "(let s = sched_run [ScStartRoot, ScSpawn, ScJoin 2] (new_scheduler 2) in
    cp_load (read_task_scheduler 24) 200 64 (projr (cp_save write_task_scheduler 200 s)) = Inr s \<and> validate_scheduler s 2 = Inr ())"
proof -
  let ?s = "sched_run [ScStartRoot, ScSpawn, ScJoin 2] (new_scheduler 2)"
  have s: "?s = \<lparr>ts_tasks = [\<lparr>tr_id = Some 1, tr_state = Waiting (WaitJoin 2)\<rparr>, \<lparr>tr_id = Some 2, tr_state = Ready\<rparr>],
      ts_ready = [1, usize_max], ts_ready_head = 0, ts_ready_len = 1, ts_active = None, ts_next_id = 3\<rparr>"
    by (simp add: sched_eval)
  have fits: "sched_fits ?s" "list_all wait_named (ts_tasks ?s)"
    unfolding s by (simp_all add: sched_fits_def task_fits_def wait_fits_def wait_named_def usize_max_def)
  have "fm_valid (fm_task_scheduler 24) ?s" using fits(1) by (simp add: fm_scheduler_simps(1))
  moreover have "length (fm_enc (fm_task_scheduler 24) ?s) \<le> 200"
    unfolding s by (simp add: fm_task_scheduler_def fm_task_record_def fm_task_state_def fm_task_wait_def fm_enum_def fm_nested_def fm_bind_def
      fm_map_def fm_vec_def fm_option_def fm_ret_def state_tag_def state_wait_def wait_tag_def wait_arg_def)
  ultimately have "cp_save write_task_scheduler 200 ?s = Inr (fm_enc (fm_task_scheduler 24) ?s)"
    using cp_sched.save_eq [of 24 ?s 200] by simp
  then show ?thesis
    using scheduler_restored [of 2 ?s 200 64 24 "fm_enc (fm_task_scheduler 24) ?s"] fits
      new_scheduler_reach [of 2 "[ScStartRoot, ScSpawn, ScJoin 2]"] by (simp del: sched_run.simps)
qed

end
