(* ===== verification/Cp_Channel.thy ===== *)
theory Cp_Channel
  imports Cp_Task Vm_Channel
begin

text \<open>
  The checkpoint of the channel arena (\<open>src/src/execution/checkpoint/channel.rs\<close>): its codec and the validation of
  a decoded arena. The validation follows the linked queues of arbitrary, possibly cyclic waiter tables in a loop
  without a bound, so it is a partial function here and its termination is a theorem. The sizes of a
  channel and of a waiter in memory, which the reader charges, are arguments.
\<close>

subsection \<open>Codec\<close>

definition write_i32 :: "i32 cp_write" where
  "write_i32 v = write_uint 4 (unat v)"

definition read_i32_le :: "i32 cp_read" where
  "read_i32_le = sbind (read_uint 4) (\<lambda>v. sret (of_nat v))"

fun write_wait_kind :: "wait_kind cp_write" where
  "write_wait_kind WkNone = write_uint 1 0"
| "write_wait_kind (WkSend v resume) = sseq (write_uint 1 1) (sseq (write_i32 v) (write_usize resume))"
| "write_wait_kind (WkReceive d resume) = sseq (write_uint 1 2) (sseq (write_uint 2 d) (write_usize resume))"

definition read_wait_kind :: "wait_kind cp_read" where
  "read_wait_kind = read_enum (\<lambda>tag.
     if tag = 0 then sret WkNone
     else if tag = 1 then sbind read_i32_le (\<lambda>v. sbind read_usize (\<lambda>resume. sret (WkSend v resume)))
     else if tag = 2 then sbind (read_uint 2) (\<lambda>d. sbind read_usize (\<lambda>resume. sret (WkReceive d resume)))
     else sfail CpInvalidState)"

definition write_waiter :: "waiter cp_write" where
  "write_waiter w = sseq (write_option write_task_id (w_task w)) (sseq (write_usize (w_next w)) (write_wait_kind (w_kind w)))"

definition read_waiter :: "waiter cp_read" where
  "read_waiter =
     sbind (read_option read_task_id) (\<lambda>task.
     sbind read_usize (\<lambda>nxt.
     sbind read_wait_kind (\<lambda>kind. sret \<lparr>w_task = task, w_next = nxt, w_kind = kind\<rparr>)))"

definition write_channel :: "channel cp_write" where
  "write_channel c =
     sseq (write_usize (ch_values_start c))
     (sseq (write_usize (ch_capacity c))
     (sseq (write_usize (ch_head c))
     (sseq (write_usize (ch_len c))
     (sseq (write_usize (ch_send_head c))
     (sseq (write_usize (ch_send_tail c))
     (sseq (write_usize (ch_receive_head c))
     (write_usize (ch_receive_tail c))))))))"

definition read_channel :: "channel cp_read" where
  "read_channel =
     sbind read_usize (\<lambda>values_start.
     sbind read_usize (\<lambda>capacity.
     sbind read_usize (\<lambda>head.
     sbind read_usize (\<lambda>len.
     sbind read_usize (\<lambda>send_head.
     sbind read_usize (\<lambda>send_tail.
     sbind read_usize (\<lambda>receive_head.
     sbind read_usize (\<lambda>receive_tail.
     sret \<lparr>ch_values_start = values_start, ch_capacity = capacity, ch_head = head, ch_len = len, ch_send_head = send_head,
       ch_send_tail = send_tail, ch_receive_head = receive_head, ch_receive_tail = receive_tail\<rparr>))))))))"

definition write_channel_arena :: "channel_arena cp_write" where
  "write_channel_arena a =
     sseq (write_vec write_channel (ca_channels a))
     (sseq (write_vec write_i32 (ca_values a))
     (sseq (write_vec write_waiter (ca_waiters a))
     (sseq (write_usize (ca_channel_count a))
     (write_usize (ca_value_count a)))))"

definition read_channel_arena :: "nat \<Rightarrow> nat \<Rightarrow> channel_arena cp_read" where
  "read_channel_arena channel_size waiter_size =
     sbind (read_vec channel_size read_channel) (\<lambda>channels.
     sbind (read_vec 4 read_i32_le) (\<lambda>values.
     sbind (read_vec waiter_size read_waiter) (\<lambda>waiters.
     sbind read_usize (\<lambda>channel_count.
     sbind read_usize (\<lambda>value_count.
     sret \<lparr>ca_channels = channels, ca_values = values, ca_waiters = waiters, ca_channel_count = channel_count,
       ca_value_count = value_count\<rparr>)))))"

subsection \<open>Validation\<close>

text \<open>A loop that returns is \<open>Some\<close> of its result.\<close>

definition obind :: "('e + 'a) option \<Rightarrow> ('a \<Rightarrow> ('e + 'b) option) \<Rightarrow> ('e + 'b) option" where
  "obind m f = (case m of None \<Rightarrow> None | Some (Inl e) \<Rightarrow> Some (Inl e) | Some (Inr a) \<Rightarrow> f a)"

definition kind_matches :: "bool \<Rightarrow> wait_kind \<Rightarrow> bool" where
  "kind_matches send kind = (case kind of WkNone \<Rightarrow> False | WkSend _ _ \<Rightarrow> send | WkReceive _ _ \<Rightarrow> \<not> send)"

type_synonym seen = "nat set \<times> task_id set"

partial_function (option) walk_waiters ::
  "waiter list \<Rightarrow> bool \<Rightarrow> nat \<Rightarrow> nat \<Rightarrow> nat set \<Rightarrow> task_id set \<Rightarrow> (checkpoint_error + (nat \<times> seen)) option" where
  "walk_waiters ws send cursor prev visited task_ids =
     (if cursor = NONE then Some (Inr (prev, visited, task_ids))
      else if cursor \<in> visited then Some (Inl CpInvalidState)
      else if length ws \<le> cursor then Some (Inl CpInvalidState)
      else
        (case w_task (ws ! cursor) of
           None \<Rightarrow> Some (Inl CpInvalidState)
         | Some task \<Rightarrow>
             if task = 0 then Some (Inl CpInvalidState)
             else if task \<in> task_ids \<or> \<not> kind_matches send (w_kind (ws ! cursor)) then Some (Inl CpInvalidState)
             else walk_waiters ws send (w_next (ws ! cursor)) cursor (insert cursor visited) (insert task task_ids)))"

definition validate_queue :: "waiter list \<Rightarrow> channel \<Rightarrow> bool \<Rightarrow> nat \<Rightarrow> nat \<Rightarrow> seen \<Rightarrow> (checkpoint_error + seen) option" where
  "validate_queue ws c send head tail seen =
     (if (head = NONE) \<noteq> (tail = NONE) \<or> (head \<noteq> NONE \<and> (if send then ch_len c \<noteq> ch_capacity c else ch_len c \<noteq> 0))
      then Some (Inl CpInvalidState)
      else
        obind (walk_waiters ws send head NONE (fst seen) (snd seen)) (\<lambda>(last, seen).
        if last \<noteq> tail then Some (Inl CpInvalidState) else Some (Inr seen)))"

fun validate_channels :: "waiter list \<Rightarrow> nat \<Rightarrow> channel list \<Rightarrow> nat \<Rightarrow> seen \<Rightarrow> (checkpoint_error + (nat \<times> seen)) option" where
  "validate_channels ws values [] start seen = Some (Inr (start, seen))"
| "validate_channels ws values (c # cs) start seen =
     (if ch_values_start c \<noteq> start \<or> ch_capacity c = 0 \<or> ch_capacity c \<le> ch_head c \<or> ch_capacity c < ch_len c
      then Some (Inl CpInvalidState)
      else
        (case checked_add 64 start (ch_capacity c) of
           None \<Rightarrow> Some (Inl CpInvalidState)
         | Some end_ \<Rightarrow>
             if values < end_ then Some (Inl CpInvalidState)
             else
               obind (validate_queue ws c True (ch_send_head c) (ch_send_tail c) seen) (\<lambda>seen.
               obind (validate_queue ws c False (ch_receive_head c) (ch_receive_tail c) seen) (\<lambda>seen.
               validate_channels ws values cs end_ seen))))"

definition waiter_consistent :: "nat set \<Rightarrow> nat \<Rightarrow> waiter \<Rightarrow> bool" where
  "waiter_consistent visited slot w \<longleftrightarrow>
     (w_task w \<noteq> None) = (slot \<in> visited) \<and> (w_task w = None \<longrightarrow> w_kind w = WkNone \<and> w_next w = NONE)"

definition validate_arena :: "channel_arena \<Rightarrow> nat \<Rightarrow> nat \<Rightarrow> nat \<Rightarrow> (checkpoint_error + unit) option" where
  "validate_arena a channels values tasks =
     (let tasks = if channels = 0 then 0 else tasks in
      if length (ca_channels a) \<noteq> channels \<or> length (ca_values a) \<noteq> values \<or> length (ca_waiters a) \<noteq> tasks \<or>
         channels < ca_channel_count a \<or> values < ca_value_count a
      then Some (Inl CpInvalidState)
      else
        obind (validate_channels (ca_waiters a) values (take (ca_channel_count a) (ca_channels a)) 0 ({}, {})) (\<lambda>(start, visited, _).
        if start \<noteq> ca_value_count a then Some (Inl CpInvalidState)
        else if list_all (\<lambda>(slot, w). waiter_consistent visited slot w) (zip [0..<length (ca_waiters a)] (ca_waiters a))
        then Some (Inr ()) else Some (Inl CpInvalidState)))"

subsection \<open>The walk\<close>

definition queue_seen :: "waiter list \<Rightarrow> bool \<Rightarrow> waiting list \<Rightarrow> seen \<Rightarrow> seen \<Rightarrow> bool" where
  "queue_seen ws send q S S' \<longleftrightarrow> distinct (map fst q) \<and> fst ` set q \<inter> fst S = {} \<and> fst S' = fst S \<union> fst ` set q \<and>
     distinct (map (fst \<circ> snd) q) \<and> (fst \<circ> snd) ` set q \<inter> snd S = {} \<and> snd S' = snd S \<union> (fst \<circ> snd) ` set q \<and>
     (\<forall>(s, t, k)\<in>set q. t \<noteq> 0 \<and> kind_matches send k)"

lemma walk_returns: "\<exists>r. walk_waiters ws send h l V I = Some r"
proof (induction "card ({..<length ws} - V)" arbitrary: h l V I rule: less_induct)
  case less
  show ?case
  proof (cases "h \<noteq> NONE \<and> h \<notin> V \<and> h < length ws")
    case True
    then have "{..<length ws} - insert h V \<subset> {..<length ws} - V" by auto
    then have "card ({..<length ws} - insert h V) < card ({..<length ws} - V)" by (intro psubset_card_mono) auto
    then have "\<exists>r. walk_waiters ws send (w_next (ws ! h)) h (insert h V) J = Some r" for J by (rule less.hyps)
    with True show ?thesis
      by (subst walk_waiters.simps) (simp split: option.split)
  qed (subst walk_waiters.simps, auto)
qed

lemma wchain_step:
  assumes "wchain ws h q" "h \<noteq> NONE" "w_task (ws ! h) = Some t"
  obtains q' where "q = (h, t, w_kind (ws ! h)) # q'"
proof (cases q)
  case (Cons x q')
  with assms that show thesis by (cases x) simp
qed (use assms in simp)

lemma walk_iff:
  assumes "length ws \<le> NONE"
  shows "walk_waiters ws send h l V I = Some (Inr (l', S)) \<longleftrightarrow>
    (\<exists>q. wchain ws h q \<and> queue_seen ws send q (V, I) S \<and> l' = (if q = [] then l else fst (last q)))"
proof (induction "card ({..<length ws} - V)" arbitrary: h l V I rule: less_induct)
  case less
  show ?case
  proof (cases "h = NONE")
    case True
    have "wchain ws NONE q \<longleftrightarrow> q = []" for q using assms by (cases q) auto
    with True show ?thesis by (subst walk_waiters.simps) (auto simp: queue_seen_def prod_eq_iff)
  next
    case h: False
    let ?n = "w_next (ws ! h)" and ?k = "w_kind (ws ! h)"
    show ?thesis
    proof (cases "h \<notin> V \<and> h < length ws \<and> (\<exists>t. w_task (ws ! h) = Some t \<and> t \<noteq> 0 \<and> t \<notin> I \<and> kind_matches send ?k)")
      case True
      then obtain t where t: "w_task (ws ! h) = Some t" "t \<noteq> 0" "t \<notin> I" "kind_matches send ?k" by blast
      have "{..<length ws} - insert h V \<subset> {..<length ws} - V" using True by auto
      then have "card ({..<length ws} - insert h V) < card ({..<length ws} - V)" by (intro psubset_card_mono) auto
      note IH = less.hyps [OF this]
      have "walk_waiters ws send h l V I = Some (Inr (l', S)) \<longleftrightarrow>
          (\<exists>q. wchain ws ?n q \<and> queue_seen ws send q (insert h V, insert t I) S \<and> l' = (if q = [] then h else fst (last q)))"
        using h True t by (subst walk_waiters.simps) (simp add: IH)
      also have "\<dots> \<longleftrightarrow> (\<exists>q. wchain ws h ((h, t, ?k) # q) \<and> queue_seen ws send ((h, t, ?k) # q) (V, I) S \<and> l' = fst (last ((h, t, ?k) # q)))"
        using True t by (intro ex_cong1) (auto simp: queue_seen_def prod_eq_iff)
      also have "\<dots> \<longleftrightarrow> (\<exists>q. wchain ws h q \<and> queue_seen ws send q (V, I) S \<and> l' = (if q = [] then l else fst (last q)))"
      proof
        assume "\<exists>q. wchain ws h q \<and> queue_seen ws send q (V, I) S \<and> l' = (if q = [] then l else fst (last q))"
        then obtain q where q: "wchain ws h q" "queue_seen ws send q (V, I) S" "l' = (if q = [] then l else fst (last q))" by blast
        obtain q' where "q = (h, t, ?k) # q'" by (rule wchain_step [OF q(1) h t(1)])
        with q show "\<exists>q. wchain ws h ((h, t, ?k) # q) \<and> queue_seen ws send ((h, t, ?k) # q) (V, I) S \<and> l' = fst (last ((h, t, ?k) # q))"
          by (intro exI [of _ q']) simp
      next
        assume "\<exists>q. wchain ws h ((h, t, ?k) # q) \<and> queue_seen ws send ((h, t, ?k) # q) (V, I) S \<and> l' = fst (last ((h, t, ?k) # q))"
        then obtain q where "wchain ws h ((h, t, ?k) # q)" "queue_seen ws send ((h, t, ?k) # q) (V, I) S" "l' = fst (last ((h, t, ?k) # q))" by blast
        then show "\<exists>q. wchain ws h q \<and> queue_seen ws send q (V, I) S \<and> l' = (if q = [] then l else fst (last q))"
          by (intro exI [of _ "(h, t, ?k) # q"]) simp
      qed
      finally show ?thesis .
    next
      case False
      then have "walk_waiters ws send h l V I \<noteq> Some (Inr (l', S))"
        using h by (subst walk_waiters.simps) (auto split: option.split)
      moreover have "\<not> (wchain ws h q \<and> queue_seen ws send q (V, I) S)" for q
        using h False by (cases q) (auto simp: queue_seen_def)
      ultimately show ?thesis by blast
    qed
  qed
qed

subsection \<open>What validation accepts\<close>

lemma obind_Some: "obind m f = Some (Inr b) \<longleftrightarrow> (\<exists>a. m = Some (Inr a) \<and> f a = Some (Inr b))"
  by (auto simp: obind_def split: option.splits sum.splits)

lemma obind_returns: "\<exists>r. m = Some r \<Longrightarrow> (\<And>a. \<exists>r. f a = Some r) \<Longrightarrow> \<exists>r. obind m f = Some r"
  by (auto simp: obind_def split: sum.split)

lemma validate_queue_returns: "\<exists>r. validate_queue ws c send h t S = Some r"
proof -
  have "\<exists>r. obind (walk_waiters ws send h NONE (fst S) (snd S)) (\<lambda>(last, seen).
      if last \<noteq> t then Some (Inl CpInvalidState) else Some (Inr seen)) = Some r"
    by (intro obind_returns walk_returns) (auto split: prod.split)
  then show ?thesis unfolding validate_queue_def by (simp split: if_split)
qed

lemma validate_channels_returns: "\<exists>r. validate_channels ws n cs s S = Some r"
proof (induction cs arbitrary: s S)
  case (Cons c cs)
  have "\<exists>r. obind (validate_queue ws c True (ch_send_head c) (ch_send_tail c) S) (\<lambda>S.
      obind (validate_queue ws c False (ch_receive_head c) (ch_receive_tail c) S) (\<lambda>S. validate_channels ws n cs e S)) = Some r" for e
    by (intro obind_returns validate_queue_returns Cons.IH)
  then show ?case by (auto split: option.split)
qed simp

lemma validate_queue_iff:
  assumes ws: "length ws \<le> NONE"
  shows "validate_queue ws c send h t S = Some (Inr S') \<longleftrightarrow>
    (\<exists>q. wchain ws h q \<and> t = wtail q \<and> queue_seen ws send q S S' \<and> (q \<noteq> [] \<longrightarrow> ch_len c = (if send then ch_capacity c else 0)))"
proof
  assume "validate_queue ws c send h t S = Some (Inr S')"
  then have "walk_waiters ws send h NONE (fst S) (snd S) = Some (Inr (t, S'))" and len: "h \<noteq> NONE \<longrightarrow> ch_len c = (if send then ch_capacity c else 0)"
    by (auto simp: validate_queue_def obind_Some split: if_splits)
  then obtain q where q: "wchain ws h q" "queue_seen ws send q S S'" "t = wtail q"
    unfolding walk_iff [OF ws] wtail_def prod.collapse by blast
  then show "\<exists>q. wchain ws h q \<and> t = wtail q \<and> queue_seen ws send q S S' \<and> (q \<noteq> [] \<longrightarrow> ch_len c = (if send then ch_capacity c else 0))"
    using wchain_head [OF ws q(1)] len by blast
next
  assume "\<exists>q. wchain ws h q \<and> t = wtail q \<and> queue_seen ws send q S S' \<and> (q \<noteq> [] \<longrightarrow> ch_len c = (if send then ch_capacity c else 0))"
  then obtain q where q: "wchain ws h q" "t = wtail q" "queue_seen ws send q S S'" "q \<noteq> [] \<longrightarrow> ch_len c = (if send then ch_capacity c else 0)"
    by blast
  have "h = NONE \<longleftrightarrow> q = []" "t = NONE \<longleftrightarrow> q = []" using wchain_head [OF ws q(1)] wtail_NONE [OF ws q(1)] q(2) by simp_all
  moreover have "walk_waiters ws send h NONE (fst S) (snd S) = Some (Inr (t, S'))"
    unfolding walk_iff [OF ws] prod.collapse using q(1-3) by (intro exI [of _ q]) (simp add: wtail_def)
  ultimately show "validate_queue ws c send h t S = Some (Inr S')" using q(4) by (auto simp: validate_queue_def obind_def)
qed

fun packed :: "nat \<Rightarrow> channel list \<Rightarrow> nat \<Rightarrow> bool" where
  "packed s [] e \<longleftrightarrow> s = e"
| "packed s (c # cs) e \<longleftrightarrow> ch_values_start c = s \<and> packed (s + ch_capacity c) cs e"

type_synonym queues = "waiting list \<times> waiting list"

definition chan_queues :: "waiter list \<Rightarrow> channel \<Rightarrow> queues \<Rightarrow> bool" where
  "chan_queues ws c q \<longleftrightarrow> 0 < ch_capacity c \<and> ch_head c < ch_capacity c \<and> ch_len c \<le> ch_capacity c \<and>
     wchain ws (ch_send_head c) (fst q) \<and> ch_send_tail c = wtail (fst q) \<and> (fst q \<noteq> [] \<longrightarrow> ch_len c = ch_capacity c) \<and>
     wchain ws (ch_receive_head c) (snd q) \<and> ch_receive_tail c = wtail (snd q) \<and> (snd q \<noteq> [] \<longrightarrow> ch_len c = 0)"

fun all_seen :: "waiter list \<Rightarrow> queues list \<Rightarrow> seen \<Rightarrow> seen \<Rightarrow> bool" where
  "all_seen ws [] S S' \<longleftrightarrow> S' = S"
| "all_seen ws (q # qs) S S' \<longleftrightarrow>
     (\<exists>S1 S2. queue_seen ws True (fst q) S S1 \<and> queue_seen ws False (snd q) S1 S2 \<and> all_seen ws qs S2 S')"

lemma packed_le: "packed s cs e \<Longrightarrow> s \<le> e"
  by (induction cs arbitrary: s) force+

lemma chan_queues_bounds: "chan_queues ws c q \<Longrightarrow> 0 < ch_capacity c \<and> ch_head c < ch_capacity c \<and> ch_len c \<le> ch_capacity c"
  by (simp add: chan_queues_def)

lemma validate_channels_iff:
  assumes ws: "length ws \<le> NONE" and n: "n < 2 ^ 64"
  shows "s \<le> n \<Longrightarrow> validate_channels ws n cs s S = Some (Inr (e, S')) \<longleftrightarrow>
    packed s cs e \<and> e \<le> n \<and> (\<exists>qs. list_all2 (chan_queues ws) cs qs \<and> all_seen ws qs S S')"
proof (induction cs arbitrary: s S)
  case Nil
  then show ?case by auto
next
  case (Cons c cs)
  let ?e = "s + ch_capacity c"
  let ?ok = "ch_values_start c = s \<and> 0 < ch_capacity c \<and> ch_head c < ch_capacity c \<and> ch_len c \<le> ch_capacity c \<and> ?e \<le> n"
  have add: "checked_add 64 s (ch_capacity c) = Some ?e" if "?e \<le> n" using that n by (simp add: checked_add_def)
  have "validate_channels ws n (c # cs) s S = Some (Inr (e, S')) \<longleftrightarrow> ?ok \<and>
      (\<exists>S1 S2. validate_queue ws c True (ch_send_head c) (ch_send_tail c) S = Some (Inr S1) \<and>
        validate_queue ws c False (ch_receive_head c) (ch_receive_tail c) S1 = Some (Inr S2) \<and>
        validate_channels ws n cs ?e S2 = Some (Inr (e, S')))"
    using add by (auto simp: obind_Some checked_add_def split: option.splits if_splits)
  also have "\<dots> \<longleftrightarrow> ?ok \<and> packed ?e cs e \<and> e \<le> n \<and> (\<exists>q qs. chan_queues ws c q \<and> list_all2 (chan_queues ws) cs qs \<and> all_seen ws (q # qs) S S')"
    (is "?L \<longleftrightarrow> ?R")
  proof
    assume ?L
    then obtain S1 S2 q1 q2 qs where ok: ?ok and q1: "wchain ws (ch_send_head c) q1" "ch_send_tail c = wtail q1"
        "queue_seen ws True q1 S S1" "q1 \<noteq> [] \<longrightarrow> ch_len c = ch_capacity c"
      and q2: "wchain ws (ch_receive_head c) q2" "ch_receive_tail c = wtail q2" "queue_seen ws False q2 S1 S2" "q2 \<noteq> [] \<longrightarrow> ch_len c = 0"
      and rest: "packed ?e cs e" "e \<le> n" "list_all2 (chan_queues ws) cs qs" "all_seen ws qs S2 S'"
      unfolding validate_queue_iff [OF ws] using Cons.IH [of ?e] by (simp only: if_True if_False) blast
    have "chan_queues ws c (q1, q2)" using ok q1 q2 by (simp add: chan_queues_def)
    moreover have "all_seen ws ((q1, q2) # qs) S S'" unfolding all_seen.simps fst_conv snd_conv using q1(3) q2(3) rest(4) by blast
    ultimately show ?R using ok rest(1-3) by blast
  next
    assume ?R
    then obtain q qs where ok: ?ok and rest: "packed ?e cs e" "e \<le> n" "list_all2 (chan_queues ws) cs qs" and q: "chan_queues ws c q"
      and "all_seen ws (q # qs) S S'" by blast
    then obtain S1 S2 where S: "queue_seen ws True (fst q) S S1" "queue_seen ws False (snd q) S1 S2" "all_seen ws qs S2 S'" by auto
    have "validate_queue ws c True (ch_send_head c) (ch_send_tail c) S = Some (Inr S1)"
      "validate_queue ws c False (ch_receive_head c) (ch_receive_tail c) S1 = Some (Inr S2)"
      unfolding validate_queue_iff [OF ws] using q S(1,2) unfolding chan_queues_def if_True if_False by blast+
    moreover have "validate_channels ws n cs ?e S2 = Some (Inr (e, S'))" using Cons.IH [of ?e] ok rest S(3) by blast
    ultimately show ?L using ok by blast
  qed
  also have "\<dots> \<longleftrightarrow> packed s (c # cs) e \<and> e \<le> n \<and> (\<exists>qs. list_all2 (chan_queues ws) (c # cs) qs \<and> all_seen ws qs S S')"
    unfolding packed.simps list_all2_Cons1 using le_trans [OF packed_le, of ?e cs e n] chan_queues_bounds by blast
  finally show ?case .
qed

definition q_slots :: "queues \<Rightarrow> nat list" where
  "q_slots q = map fst (fst q) @ map fst (snd q)"

definition q_tasks :: "queues \<Rightarrow> task_id list" where
  "q_tasks q = map (fst \<circ> snd) (fst q) @ map (fst \<circ> snd) (snd q)"

definition q_kinds :: "queues \<Rightarrow> bool" where
  "q_kinds q \<longleftrightarrow> list_all (\<lambda>(s, t, k). kind_matches True k) (fst q) \<and> list_all (\<lambda>(s, t, k). kind_matches False k) (snd q)"

definition fresh :: "'a set \<Rightarrow> 'a list \<Rightarrow> bool" where
  "fresh A xs \<longleftrightarrow> distinct xs \<and> set xs \<inter> A = {}"

lemma fresh_append: "fresh A (xs @ ys) \<longleftrightarrow> fresh A xs \<and> fresh (A \<union> set xs) ys"
  by (auto simp: fresh_def)

lemma queue_seen_eq:
  "queue_seen ws send q S S' \<longleftrightarrow> S' = (fst S \<union> set (map fst q), snd S \<union> set (map (fst \<circ> snd) q)) \<and> fresh (fst S) (map fst q) \<and>
     fresh (snd S) (map (fst \<circ> snd) q) \<and> 0 \<notin> set (map (fst \<circ> snd) q) \<and> list_all (\<lambda>(s, t, k). kind_matches send k) q"
proof -
  have "(\<forall>(s, t, k)\<in>set q. t \<noteq> 0 \<and> kind_matches send k) \<longleftrightarrow> 0 \<notin> set (map (fst \<circ> snd) q) \<and> list_all (\<lambda>(s, t, k). kind_matches send k) q"
    by (force simp: list_all_iff)
  then show ?thesis unfolding queue_seen_def prod_eq_iff fst_conv snd_conv fresh_def set_map by (simp only:) iprover
qed

lemma all_seen_iff:
  "all_seen ws qs S S' \<longleftrightarrow>
     (let L = concat (map q_slots qs); T = concat (map q_tasks qs) in
      S' = (fst S \<union> set L, snd S \<union> set T) \<and> fresh (fst S) L \<and> fresh (snd S) T \<and> 0 \<notin> set T \<and> list_all q_kinds qs)"
proof (induction qs arbitrary: S)
  case (Cons q qs)
  obtain q1 q2 where q: "q = (q1, q2)" by (cases q)
  have one: "(\<exists>S1 S2. (S1 = x \<and> A) \<and> (S2 = g S1 \<and> B S1) \<and> C S2) \<longleftrightarrow> A \<and> B x \<and> C (g x)" for x :: seen and g :: "seen \<Rightarrow> seen" and A B C
    by blast
  show ?case
    unfolding all_seen.simps queue_seen_eq Cons.IH q fst_conv snd_conv Let_def one
    by (simp only: list.map concat.simps list.pred_inject q_slots_def q_tasks_def q_kinds_def fst_conv snd_conv fresh_append set_append Un_assoc Un_iff de_Morgan_disj)
      iprover
qed (simp add: prod_eq_iff fresh_def)

lemma distinct_concat_nth:
  "distinct (concat xss) \<longleftrightarrow> (\<forall>i<length xss. distinct (xss ! i)) \<and>
     (\<forall>i<length xss. \<forall>j<length xss. i \<noteq> j \<longrightarrow> set (xss ! i) \<inter> set (xss ! j) = {})"
proof (induction xss)
  case (Cons xs xss)
  have meet: "set xs \<inter> set (concat xss) = {} \<longleftrightarrow> (\<forall>j<length xss. set xs \<inter> set (xss ! j) = {})"
    unfolding set_concat by (auto simp: all_set_conv_all_nth [of _ "\<lambda>ys. set xs \<inter> set ys = {}", symmetric])
  have split: "(\<forall>i<Suc n. \<forall>j<Suc n. i \<noteq> j \<longrightarrow> P i j) \<longleftrightarrow>
      (\<forall>j<n. P 0 (Suc j)) \<and> (\<forall>j<n. P (Suc j) 0) \<and> (\<forall>i<n. \<forall>j<n. i \<noteq> j \<longrightarrow> P (Suc i) (Suc j))" for n P
    unfolding All_less_Suc2 by (simp add: imp_conjR all_conj_distrib)
  show ?case
    unfolding concat.simps distinct_append meet Cons.IH list.size(4) add_Suc_right add_0_right split
    unfolding All_less_Suc2 nth_Cons_0 nth_Cons_Suc
    by (simp only: Int_commute [of "set (xss ! _)" "set xs"], rule iffI; elim conjE; intro conjI; assumption)
qed simp

lemma packed_regions:
  assumes "packed s cs e"
  shows "\<forall>i<length cs. s \<le> ch_values_start (cs ! i) \<and> ch_values_start (cs ! i) + ch_capacity (cs ! i) \<le> e"
    "\<forall>j<length cs. \<forall>i<j. ch_values_start (cs ! i) + ch_capacity (cs ! i) \<le> ch_values_start (cs ! j)"
  using assms
proof (induction cs arbitrary: s)
  case (Cons c cs)
  { case 1
    then show ?case using Cons.IH(1) [of "s + ch_capacity c"] packed_le [of "s + ch_capacity c" cs e] by (simp add: All_less_Suc2) (meson add_leD1) }
  { case 2
    then show ?case using Cons.IH [of "s + ch_capacity c"] by (simp add: All_less_Suc2) }
qed auto

definition abs_channel :: "i32 list \<Rightarrow> channel \<Rightarrow> queues \<Rightarrow> achannel" where
  "abs_channel vals c q =
     \<lparr>ac_capacity = ch_capacity c, ac_buffer = ring (\<lambda>k. vals ! (ch_values_start c + k)) (ch_capacity c) (ch_head c) (ch_len c),
      ac_senders = fst q, ac_receivers = snd q\<rparr>"

definition ac_queues :: "achannel \<Rightarrow> queues" where
  "ac_queues c = (ac_senders c, ac_receivers c)"

text \<open>What holds of a saved arena beyond the relation to abstract channels: the channels cover the used values
  without gaps, senders wait only on a full channel and receivers only on an empty one, no task waits twice, and
  free waiters are blank.\<close>

definition arena_settled :: "channel_arena \<Rightarrow> achannel list \<Rightarrow> bool" where
  "arena_settled a cs \<longleftrightarrow> packed 0 (take (ca_channel_count a) (ca_channels a)) (ca_value_count a) \<and> list_all ac_calm cs \<and>
     distinct (concat (map (q_tasks \<circ> ac_queues) cs)) \<and> 0 \<notin> set (concat (map (q_tasks \<circ> ac_queues) cs)) \<and>
     list_all (\<lambda>w. w_task w = None \<longrightarrow> w = EMPTY_WAITER) (ca_waiters a)"

lemma kinds_ok: "q_kinds q \<longleftrightarrow> (\<forall>(s, t, k)\<in>set (fst q). \<exists>v r. k = WkSend v r) \<and> (\<forall>(s, t, k)\<in>set (snd q). \<exists>d r. k = WkReceive d r)"
proof -
  have "kind_matches True k \<longleftrightarrow> (\<exists>v r. k = WkSend v r)" "kind_matches False k \<longleftrightarrow> (\<exists>d r. k = WkReceive d r)" for k
    by (cases k; simp add: kind_matches_def)+
  then show ?thesis by (simp add: q_kinds_def list_all_iff)
qed

lemma ring_empty: "ring f cap h n = [] \<longleftrightarrow> n = 0" "[] = ring f cap h n \<longleftrightarrow> n = 0"
  using length_ring [of f cap h n] by (metis length_0_conv)+

lemma chan_rel_queues:
  "chan_rel vals ws ch c \<and> ac_calm c \<longleftrightarrow> c = abs_channel vals ch (ac_queues c) \<and> chan_queues ws ch (ac_queues c) \<and> q_kinds (ac_queues c)"
  (is "?L \<longleftrightarrow> ?R")
proof
  assume ?L
  then show ?R
    unfolding kinds_ok by (cases c) (auto simp: chan_rel_def ac_calm_def ac_ok_def abs_channel_def ac_queues_def chan_queues_def ring_empty)
next
  assume ?R
  then have c: "ac_capacity c = ch_capacity ch"
      "ac_buffer c = ring (\<lambda>k. vals ! (ch_values_start ch + k)) (ch_capacity ch) (ch_head ch) (ch_len ch)"
    by (metis abs_channel_def achannel.select_convs)+
  show ?L using \<open>?R\<close> unfolding kinds_ok by (simp add: chan_rel_def ac_calm_def ac_ok_def ac_queues_def chan_queues_def ring_empty c)
qed

lemma q_slots_ac: "q_slots (ac_queues c) = ac_slots c"
  by (simp add: q_slots_def ac_queues_def ac_slots_def)

lemma slots_nth: "s \<in> set (concat (map ac_slots cs)) \<longleftrightarrow> (\<exists>i<length cs. s \<in> set (ac_slots (cs ! i)))"
  by (auto simp: in_set_conv_nth) (metis nth_mem in_set_conv_nth)+

lemma arena_rel_slots:
  assumes n: "ca_channel_count a \<le> length (ca_channels a)" "ca_value_count a \<le> length (ca_values a)" "length (ca_waiters a) \<le> NONE"
  shows "arena_rel a cs \<and> arena_settled a cs \<longleftrightarrow> packed 0 (take (ca_channel_count a) (ca_channels a)) (ca_value_count a) \<and>
    list_all2 (\<lambda>ch c. chan_rel (ca_values a) (ca_waiters a) ch c \<and> ac_calm c) (take (ca_channel_count a) (ca_channels a)) cs \<and>
    distinct (concat (map ac_slots cs)) \<and> distinct (concat (map (q_tasks \<circ> ac_queues) cs)) \<and> 0 \<notin> set (concat (map (q_tasks \<circ> ac_queues) cs)) \<and>
    (\<forall>s<length (ca_waiters a). waiter_consistent (set (concat (map ac_slots cs))) s (ca_waiters a ! s))"
    (is "_ \<longleftrightarrow> ?packed \<and> ?rel \<and> ?slots \<and> ?tasks \<and> ?named \<and> ?waiters")
proof -
  let ?Cs = "take (ca_channel_count a) (ca_channels a)"
  have len: "length ?Cs = ca_channel_count a" using n(1) by simp
  have regions: "regions_ok a" if ?packed
    using packed_regions [OF that] n unfolding regions_ok_def len by (simp add: nth_take)
  have rel: "?rel \<longleftrightarrow> length cs = ca_channel_count a \<and> (\<forall>i<length cs. chan_rel (ca_values a) (ca_waiters a) (ca_channels a ! i) (cs ! i)) \<and> list_all ac_calm cs"
    unfolding list_all2_conv_all_nth list_all_length len by auto
  have slots: "?slots \<longleftrightarrow> (\<forall>i<length cs. distinct (ac_slots (cs ! i))) \<and>
      (\<forall>i<length cs. \<forall>j<length cs. i \<noteq> j \<longrightarrow> set (ac_slots (cs ! i)) \<inter> set (ac_slots (cs ! j)) = {})"
    by (simp add: distinct_concat_nth)
  have blank: "(w_task w = None \<longrightarrow> w = EMPTY_WAITER) \<longleftrightarrow> (w_task w = None \<longrightarrow> w_kind w = WkNone \<and> w_next w = NONE)" for w :: waiter
    by (cases w) (auto simp: EMPTY_WAITER_def)
  have waiters: "?waiters \<longleftrightarrow> (\<forall>s<length (ca_waiters a). w_task (ca_waiters a ! s) \<noteq> None \<longleftrightarrow> (\<exists>i<length cs. s \<in> set (ac_slots (cs ! i)))) \<and>
      list_all (\<lambda>w. w_task w = None \<longrightarrow> w = EMPTY_WAITER) (ca_waiters a)"
    unfolding waiter_consistent_def slots_nth list_all_length blank by blast
  show ?thesis
    unfolding arena_rel_def arena_settled_def rel slots waiters using regions by blast
qed

lemma queues_abs:
  "(\<exists>cs. qs = map ac_queues cs \<and> list_all2 (\<lambda>ch c. chan_rel vals ws ch c \<and> ac_calm c) Cs cs) \<longleftrightarrow>
     list_all2 (chan_queues ws) Cs qs \<and> list_all q_kinds qs"
proof (induction Cs arbitrary: qs)
  case (Cons ch Cs)
  have inv: "ac_queues (abs_channel vals ch q) = q" for q by (simp add: ac_queues_def abs_channel_def)
  have one: "(\<exists>c. q = ac_queues c \<and> chan_rel vals ws ch c \<and> ac_calm c) \<longleftrightarrow> chan_queues ws ch q \<and> q_kinds q" for q
    unfolding chan_rel_queues using inv by metis
  show ?case
  proof (cases qs)
    case (Cons q qs')
    have "(\<exists>cs. q # qs' = map ac_queues cs \<and> list_all2 (\<lambda>ch c. chan_rel vals ws ch c \<and> ac_calm c) (ch # Cs) cs) \<longleftrightarrow>
        (\<exists>c. q = ac_queues c \<and> chan_rel vals ws ch c \<and> ac_calm c) \<and>
        (\<exists>cs. qs' = map ac_queues cs \<and> list_all2 (\<lambda>ch c. chan_rel vals ws ch c \<and> ac_calm c) Cs cs)"
      unfolding list_all2_Cons1 by (auto simp: Cons_eq_map_conv)
    also have "\<dots> \<longleftrightarrow> list_all2 (chan_queues ws) (ch # Cs) (q # qs') \<and> list_all q_kinds (q # qs')"
      unfolding one Cons.IH by auto
    finally show ?thesis unfolding Cons .
  qed (auto simp: list_all2_Cons1)
qed auto

lemma validate_arena_iff:
  assumes "length (ca_values a) < 2 ^ 64" "length (ca_waiters a) \<le> NONE"
  shows "validate_arena a channels values tasks = Some (Inr ()) \<longleftrightarrow>
    length (ca_channels a) = channels \<and> length (ca_values a) = values \<and> length (ca_waiters a) = (if channels = 0 then 0 else tasks) \<and>
    (\<exists>cs. arena_rel a cs \<and> arena_settled a cs)"
proof (cases "length (ca_channels a) = channels \<and> length (ca_values a) = values \<and> length (ca_waiters a) = (if channels = 0 then 0 else tasks) \<and>
    ca_channel_count a \<le> channels \<and> ca_value_count a \<le> values")
  case True
  then have n: "ca_channel_count a \<le> length (ca_channels a)" "ca_value_count a \<le> length (ca_values a)" by auto
  let ?Cs = "take (ca_channel_count a) (ca_channels a)" and ?ws = "ca_waiters a" and ?vals = "ca_values a"
  have v: "values < 2 ^ 64" and le0: "0 \<le> values" using assms(1) True by auto
  have zip: "list_all (\<lambda>(i, w). P i w) (zip [0..<length ws] ws) \<longleftrightarrow> (\<forall>i<length ws. P i (ws ! i))" for P and ws :: "waiter list"
    by (simp add: list_all_length)
  have "validate_arena a channels values tasks = Some (Inr ()) \<longleftrightarrow>
      (\<exists>S. validate_channels ?ws values ?Cs 0 ({}, {}) = Some (Inr (ca_value_count a, S)) \<and> (\<forall>s<length ?ws. waiter_consistent (fst S) s (?ws ! s)))"
    using True by (auto simp: validate_arena_def Let_def obind_Some zip split: if_splits)
  also have "\<dots> \<longleftrightarrow> packed 0 ?Cs (ca_value_count a) \<and> (\<exists>qs. list_all2 (chan_queues ?ws) ?Cs qs \<and>
      distinct (concat (map q_slots qs)) \<and> distinct (concat (map q_tasks qs)) \<and> 0 \<notin> set (concat (map q_tasks qs)) \<and> list_all q_kinds qs \<and>
      (\<forall>s<length ?ws. waiter_consistent (set (concat (map q_slots qs))) s (?ws ! s)))"
    (is "_ \<longleftrightarrow> _ \<and> ?Q")
    unfolding validate_channels_iff [OF assms(2) v le0] all_seen_iff Let_def fresh_def fst_conv snd_conv Un_empty_left Int_empty_right
    using n(2) True by auto
  also have "?Q \<longleftrightarrow> (\<exists>cs. list_all2 (\<lambda>ch c. chan_rel ?vals ?ws ch c \<and> ac_calm c) ?Cs cs \<and>
      distinct (concat (map ac_slots cs)) \<and> distinct (concat (map (q_tasks \<circ> ac_queues) cs)) \<and> 0 \<notin> set (concat (map (q_tasks \<circ> ac_queues) cs)) \<and>
      (\<forall>s<length ?ws. waiter_consistent (set (concat (map ac_slots cs))) s (?ws ! s)))"
  proof -
    let ?P = "\<lambda>qs. distinct (concat (map q_slots qs)) \<and> distinct (concat (map q_tasks qs)) \<and> 0 \<notin> set (concat (map q_tasks qs)) \<and>
      (\<forall>s<length ?ws. waiter_consistent (set (concat (map q_slots qs))) s (?ws ! s))"
    have slots: "map q_slots (map ac_queues cs) = map ac_slots cs" for cs by (simp add: q_slots_ac)
    have "?Q \<longleftrightarrow> (\<exists>qs. (list_all2 (chan_queues ?ws) ?Cs qs \<and> list_all q_kinds qs) \<and> ?P qs)" by blast
    also have "\<dots> \<longleftrightarrow> (\<exists>cs. list_all2 (\<lambda>ch c. chan_rel ?vals ?ws ch c \<and> ac_calm c) ?Cs cs \<and> ?P (map ac_queues cs))"
      unfolding queues_abs [where vals = ?vals, symmetric] by blast
    finally show ?thesis unfolding slots by (simp only: map_map)
  qed
  finally have "validate_arena a channels values tasks = Some (Inr ()) \<longleftrightarrow> (\<exists>cs. arena_rel a cs \<and> arena_settled a cs)"
    unfolding arena_rel_slots [OF n assms(2)] by blast
  with True show ?thesis by blast
next
  case False
  then have "validate_arena a channels values tasks = Some (Inl CpInvalidState)" by (auto simp: validate_arena_def Let_def)
  with False show ?thesis by (auto simp: arena_rel_def regions_ok_def)
qed

subsection \<open>The codec is exact\<close>

definition fm_i32 :: "i32 cp_format" where
  "fm_i32 = fm_map (fm_uint 4) unat of_nat"

definition kind_tag :: "wait_kind \<Rightarrow> nat" where
  "kind_tag k = (case k of WkNone \<Rightarrow> 0 | WkSend _ _ \<Rightarrow> 1 | WkReceive _ _ \<Rightarrow> 2)"

definition kind_value :: "wait_kind \<Rightarrow> i32" where
  "kind_value k = (case k of WkSend v _ \<Rightarrow> v | _ \<Rightarrow> 0)"

definition kind_destination :: "wait_kind \<Rightarrow> nat" where
  "kind_destination k = (case k of WkReceive d _ \<Rightarrow> d | _ \<Rightarrow> 0)"

definition kind_resume :: "wait_kind \<Rightarrow> nat" where
  "kind_resume k = (case k of WkNone \<Rightarrow> 0 | WkSend _ r \<Rightarrow> r | WkReceive _ r \<Rightarrow> r)"

definition fm_wait_kind :: "wait_kind cp_format" where
  "fm_wait_kind = fm_enum kind_tag (\<lambda>tag.
     if tag = 0 then fm_ret WkNone
     else if tag = 1 then fm_bind fm_i32 kind_value (\<lambda>v. fm_map (fm_uint 8) kind_resume (WkSend v))
     else if tag = 2 then fm_bind (fm_uint 2) kind_destination (\<lambda>d. fm_map (fm_uint 8) kind_resume (WkReceive d))
     else fm_fail)"

definition fm_waiter :: "waiter cp_format" where
  "fm_waiter =
     fm_bind (fm_option (fm_uint 4)) w_task (\<lambda>task.
     fm_bind (fm_uint 8) w_next (\<lambda>nxt.
     fm_map fm_wait_kind w_kind (\<lambda>kind. \<lparr>w_task = task, w_next = nxt, w_kind = kind\<rparr>)))"

definition fm_channel :: "channel cp_format" where
  "fm_channel =
     fm_bind (fm_uint 8) ch_values_start (\<lambda>values_start.
     fm_bind (fm_uint 8) ch_capacity (\<lambda>capacity.
     fm_bind (fm_uint 8) ch_head (\<lambda>head.
     fm_bind (fm_uint 8) ch_len (\<lambda>len.
     fm_bind (fm_uint 8) ch_send_head (\<lambda>send_head.
     fm_bind (fm_uint 8) ch_send_tail (\<lambda>send_tail.
     fm_bind (fm_uint 8) ch_receive_head (\<lambda>receive_head.
     fm_map (fm_uint 8) ch_receive_tail (\<lambda>receive_tail.
     \<lparr>ch_values_start = values_start, ch_capacity = capacity, ch_head = head, ch_len = len, ch_send_head = send_head,
       ch_send_tail = send_tail, ch_receive_head = receive_head, ch_receive_tail = receive_tail\<rparr>))))))))"

definition fm_channel_arena :: "nat \<Rightarrow> nat \<Rightarrow> channel_arena cp_format" where
  "fm_channel_arena channel_size waiter_size =
     fm_bind (fm_vec channel_size fm_channel) ca_channels (\<lambda>channels.
     fm_bind (fm_vec 4 fm_i32) ca_values (\<lambda>values.
     fm_bind (fm_vec waiter_size fm_waiter) ca_waiters (\<lambda>waiters.
     fm_bind (fm_uint 8) ca_channel_count (\<lambda>channel_count.
     fm_map (fm_uint 8) ca_value_count (\<lambda>value_count.
     \<lparr>ca_channels = channels, ca_values = values, ca_waiters = waiters, ca_channel_count = channel_count,
       ca_value_count = value_count\<rparr>)))))"

lemma reads_i32: "reads read_i32_le fm_i32"
  unfolding read_i32_le_def fm_i32_def by (rule reads_map [OF reads_uint]) (simp_all add: unat_of_nat)

lemma writes_i32: "writes write_i32 fm_i32"
  unfolding write_i32_def fm_i32_def by (intro writesI appends_map) (simp add: appends_uint)

lemma fm_i32_simps: "fm_valid fm_i32 v" "fm_cost fm_i32 v = 0" "fm_deep fm_i32 v = 0"
  using unsigned_less [of v] by (simp_all add: fm_i32_def fm_valids fm_parts)

lemma reads_wait_kind: "reads read_wait_kind fm_wait_kind"
  unfolding read_wait_kind_def fm_wait_kind_def
proof (rule reads_enum, goal_cases)
  case (2 t v)
  then show ?case by (cases v) (auto simp: kind_tag_def fm_valids split: if_splits)
next
  case (1 t)
  show ?case
    by (intro reads_if reads_ret reads_bind [OF reads_i32] reads_bind [OF reads_uint] reads_map [OF reads_usize] reads_fail)
      ((simp only: fm_valids, elim conjE, erule subst, simp add: kind_value_def kind_destination_def) | simp add: kind_resume_def)+
qed

lemma writes_wait_kind: "writes write_wait_kind fm_wait_kind"
proof
  fix k assume "fm_valid fm_wait_kind k"
  then show "appends (write_wait_kind k) (fm_enc fm_wait_kind k)"
    by (cases k) (auto simp: fm_wait_kind_def fm_valids kind_tag_def kind_resume_def kind_value_def kind_destination_def fm_i32_simps simp del: One_nat_def
      intro!: appends_enum appends_variant appends_bind appends_map writesD [OF writes_i32] appends_uint writesD [OF writes_usize, simplified])
qed

lemma reads_waiter: "reads read_waiter fm_waiter"
  unfolding read_waiter_def fm_waiter_def read_task_id_def
  by (intro reads_bind [OF reads_option [OF reads_uint]] reads_bind [OF reads_usize] reads_map [OF reads_wait_kind])
    ((simp only: fm_valids, elim conjE, erule subst, simp) | simp)+

lemma writes_waiter: "writes write_waiter fm_waiter"
  unfolding write_waiter_def fm_waiter_def write_task_id_def
  by (intro writesI appends_bind appends_map writesD [OF writes_option [OF writes_uint]] writesD [OF writes_usize] writesD [OF writes_wait_kind])
    (simp_all add: fm_valids)

lemma reads_channel: "reads read_channel fm_channel"
  unfolding read_channel_def fm_channel_def
  by (intro reads_bind [OF reads_usize] reads_map [OF reads_usize]) ((simp only: fm_valids, elim conjE, erule subst, simp) | simp)+

lemma writes_channel: "writes write_channel fm_channel"
  unfolding write_channel_def fm_channel_def
  by (intro writesI appends_bind appends_map writesD [OF writes_usize]) (simp_all add: fm_valids)

lemma reads_channel_arena: "reads (read_channel_arena cz wz) (fm_channel_arena cz wz)"
  unfolding read_channel_arena_def fm_channel_arena_def
  by (intro reads_bind [OF reads_vec [OF reads_channel]] reads_bind [OF reads_vec [OF reads_i32]] reads_bind [OF reads_vec [OF reads_waiter]]
      reads_bind [OF reads_usize] reads_map [OF reads_usize]) ((simp only: fm_valids, elim conjE, erule subst, simp) | simp)+

lemma writes_channel_arena: "writes write_channel_arena (fm_channel_arena cz wz)"
  unfolding write_channel_arena_def fm_channel_arena_def
  by (intro writesI appends_bind appends_map writesD [OF writes_vec [OF writes_channel]] writesD [OF writes_vec [OF writes_i32]]
      writesD [OF writes_vec [OF writes_waiter]] writesD [OF writes_usize]) (simp_all add: fm_valids)

interpretation cp_arena: cp_codec write_channel_arena "read_channel_arena cz wz" "fm_channel_arena cz wz"
  by unfold_locales (rule writes_channel_arena reads_channel_arena)+

text \<open>Every number fits the machine integer the code keeps it in.\<close>

definition kind_fits :: "wait_kind \<Rightarrow> bool" where
  "kind_fits k = (case k of WkNone \<Rightarrow> True | WkSend _ r \<Rightarrow> r < 2 ^ 64 | WkReceive d r \<Rightarrow> d < 2 ^ 16 \<and> r < 2 ^ 64)"

definition waiter_fits :: "waiter \<Rightarrow> bool" where
  "waiter_fits w \<longleftrightarrow> (case w_task w of None \<Rightarrow> True | Some k \<Rightarrow> k < 2 ^ 32) \<and> w_next w < 2 ^ 64 \<and> kind_fits (w_kind w)"

definition channel_fits :: "channel \<Rightarrow> bool" where
  "channel_fits c \<longleftrightarrow> list_all (\<lambda>n. n < 2 ^ 64) [ch_values_start c, ch_capacity c, ch_head c, ch_len c, ch_send_head c,
     ch_send_tail c, ch_receive_head c, ch_receive_tail c]"

definition arena_fits :: "channel_arena \<Rightarrow> bool" where
  "arena_fits a \<longleftrightarrow> length (ca_channels a) < 2 ^ 64 \<and> list_all channel_fits (ca_channels a) \<and> length (ca_values a) < 2 ^ 64 \<and>
     length (ca_waiters a) < 2 ^ 64 \<and> list_all waiter_fits (ca_waiters a) \<and> ca_channel_count a < 2 ^ 64 \<and> ca_value_count a < 2 ^ 64"

lemma fm_kind_simps: "fm_valid fm_wait_kind k \<longleftrightarrow> kind_fits k" "fm_cost fm_wait_kind k = 0" "fm_deep fm_wait_kind k = 1"
  by (cases k; simp add: fm_wait_kind_def fm_valids fm_parts kind_tag_def kind_value_def kind_destination_def kind_resume_def kind_fits_def
      fm_i32_simps)+

lemma fm_waiter_simps: "fm_valid fm_waiter w \<longleftrightarrow> waiter_fits w" "fm_cost fm_waiter w = 0" "fm_deep fm_waiter w \<le> 1"
  by (cases "w_task w"; simp add: fm_waiter_def waiter_fits_def fm_valids fm_parts fm_kind_simps)+

lemma fm_channel_simps: "fm_valid fm_channel c \<longleftrightarrow> channel_fits c" "fm_cost fm_channel c = 0" "fm_deep fm_channel c = 0"
  by (simp_all add: fm_channel_def channel_fits_def fm_valids fm_parts)

lemma fm_arena_simps:
  "fm_valid (fm_channel_arena cz wz) a \<longleftrightarrow> arena_fits a"
  "fm_cost (fm_channel_arena cz wz) a = length (ca_channels a) * max cz 1 + length (ca_values a) * 4 + length (ca_waiters a) * max wz 1"
  "fm_deep (fm_channel_arena cz wz) a \<le> 2"
proof -
  have val: "fm_valid fm_channel = channel_fits" "fm_valid fm_waiter = waiter_fits" "fm_valid fm_i32 = (\<lambda>_. True)"
    by (auto simp: fm_channel_simps fm_waiter_simps fm_i32_simps)
  then show "fm_valid (fm_channel_arena cz wz) a \<longleftrightarrow> arena_fits a"
    by (simp add: fm_channel_arena_def fm_valids arena_fits_def list.pred_True)
  show "fm_cost (fm_channel_arena cz wz) a = length (ca_channels a) * max cz 1 + length (ca_values a) * 4 + length (ca_waiters a) * max wz 1"
    by (simp add: fm_channel_arena_def fm_parts fm_cost_vec fm_channel_simps fm_waiter_simps fm_i32_simps)
  show "fm_deep (fm_channel_arena cz wz) a \<le> 2"
    using fm_deep_vec [of fm_channel 0 cz "ca_channels a"] fm_deep_vec [of fm_waiter 1 wz "ca_waiters a", OF fm_waiter_simps(3)] fm_deep_vec [of fm_i32 0 4 "ca_values a"]
    by (simp add: fm_channel_arena_def fm_parts fm_channel_simps fm_waiter_simps fm_i32_simps)
qed

subsection \<open>Saving and restoring\<close>

text \<open>
  C39. The validation of a decoded arena always comes to an end: whatever the links between the waiters are, cycles
  included, every walk along a queue stops, and validation returns a verdict.
\<close>

theorem validate_arena_terminates: "\<exists>verdict. validate_arena a channels values tasks = Some verdict"
proof -
  have "\<exists>r. obind (validate_channels (ca_waiters a) values (take (ca_channel_count a) (ca_channels a)) 0 ({}, {})) (\<lambda>(start, visited, _).
      if start \<noteq> ca_value_count a then Some (Inl CpInvalidState)
      else if list_all (\<lambda>(slot, w). waiter_consistent visited slot w) (zip [0..<length (ca_waiters a)] (ca_waiters a))
      then Some (Inr ()) else Some (Inl CpInvalidState)) = Some r"
    by (intro obind_returns validate_channels_returns) (auto split: prod.split)
  then show ?thesis unfolding validate_arena_def Let_def by (auto split: if_split)
qed

text \<open>
  C40. An arena is restored from bytes and accepted exactly when the bytes are those written for it, its allocation
  fits, its sizes are those of the profile, and its tables represent a list of channels: every queue is an
  unbroken chain of waiters, no waiter is in two queues, senders wait only on full and receivers only on empty
  channels, no task waits twice, and the values of the channels lie side by side. This is the relation that the
  channel operations are shown to keep.
\<close>

theorem arena_restored_exact:
  assumes "maximum < 2 ^ 64" "allocation < 2 ^ 64"
  shows "cp_load (read_channel_arena channel_size waiter_size) maximum allocation bs = Inr a \<and>
      validate_arena a channels values tasks = Some (Inr ()) \<longleftrightarrow>
    cp_save write_channel_arena maximum a = Inr bs \<and> arena_fits a \<and>
    length (ca_channels a) * max channel_size 1 + length (ca_values a) * 4 + length (ca_waiters a) * max waiter_size 1 \<le> allocation \<and>
    length (ca_channels a) = channels \<and> length (ca_values a) = values \<and> length (ca_waiters a) = (if channels = 0 then 0 else tasks) \<and>
    (\<exists>cs. arena_rel a cs \<and> arena_settled a cs)"
proof (cases "arena_fits a")
  case True
  then have v: "fm_valid (fm_channel_arena channel_size waiter_size) a" by (simp add: fm_arena_simps(1))
  have "fm_deep (fm_channel_arena channel_size waiter_size) a \<le> 64" by (rule le_trans [OF fm_arena_simps(3)]) simp
  then have "cp_load (read_channel_arena channel_size waiter_size) maximum allocation bs = Inr a \<longleftrightarrow>
      cp_save write_channel_arena maximum a = Inr bs \<and> fm_cost (fm_channel_arena channel_size waiter_size) a \<le> allocation"
    using cp_arena.load_iff [OF assms] cp_arena.save_eq [OF v assms(1)] v by auto
  moreover have "length (ca_values a) < 2 ^ 64" "length (ca_waiters a) \<le> NONE" using True by (auto simp: arena_fits_def usize_max_def)
  ultimately show ?thesis using True validate_arena_iff [of a channels "values" tasks] unfolding fm_arena_simps(2) by blast
next
  case False
  then show ?thesis using cp_arena.load_iff [OF assms, of channel_size waiter_size bs a] by (simp add: fm_arena_simps(1))
qed

definition parked_sender :: channel_arena where
  "parked_sender =
     \<lparr>ca_channels = [\<lparr>ch_values_start = 0, ch_capacity = 1, ch_head = 0, ch_len = 1, ch_send_head = 1, ch_send_tail = 1,
        ch_receive_head = NONE, ch_receive_tail = NONE\<rparr>],
      ca_values = [11], ca_waiters = [EMPTY_WAITER, \<lparr>w_task = Some 2, w_next = NONE, w_kind = WkSend 22 8\<rparr>],
      ca_channel_count = 1, ca_value_count = 1\<rparr>"

lemma parked_sender_rel:
  "\<exists>cs. arena_rel parked_sender cs \<and> arena_settled parked_sender cs"
proof (intro exI conjI)
  let ?cs = "[\<lparr>ac_capacity = 1, ac_buffer = [11], ac_senders = [(1, 2, WkSend 22 8)], ac_receivers = []\<rparr>]"
  show "arena_rel parked_sender ?cs"
    by (simp add: parked_sender_def arena_rel_def regions_ok_def chan_rel_def ac_ok_def wtail_def ac_slots_def ring_def EMPTY_WAITER_def
        usize_max_def less_Suc_eq)
  show "arena_settled parked_sender ?cs"
    by (simp add: parked_sender_def arena_settled_def ac_calm_def q_tasks_def ac_queues_def)
qed

theorem arena_restored_exact_witness:
  "cp_load (read_channel_arena 64 48) 300 200 (projr (cp_save write_channel_arena 300 parked_sender)) = Inr parked_sender \<and>
     validate_arena parked_sender 1 1 2 = Some (Inr ())"
proof -
  have fits: "arena_fits parked_sender"
    by (simp add: parked_sender_def arena_fits_def channel_fits_def waiter_fits_def kind_fits_def EMPTY_WAITER_def usize_max_def)
  moreover have "length (fm_enc (fm_channel_arena 64 48) parked_sender) \<le> 300"
    by (simp add: parked_sender_def fm_channel_arena_def fm_channel_def fm_waiter_def fm_wait_kind_def fm_i32_def fm_enum_def fm_nested_def fm_bind_def
      fm_map_def fm_vec_def fm_option_def fm_ret_def kind_tag_def kind_value_def kind_resume_def EMPTY_WAITER_def)
  ultimately have "cp_save write_channel_arena 300 parked_sender = Inr (fm_enc (fm_channel_arena 64 48) parked_sender)"
    using cp_arena.save_eq [of 64 48 parked_sender 300] by (simp add: fm_arena_simps(1))
  then show ?thesis
    using arena_restored_exact [of 300 200 64 48 "projr (cp_save write_channel_arena 300 parked_sender)" parked_sender 1 1 2] fits parked_sender_rel
    by (simp add: parked_sender_def [THEN arg_cong, of "\<lambda>a. length (ca_channels a)"] parked_sender_def [THEN arg_cong, of "\<lambda>a. length (ca_values a)"]
      parked_sender_def [THEN arg_cong, of "\<lambda>a. length (ca_waiters a)"])
qed

end
