(* ===== verification/Spec2Isabelle.thy ===== *)
theory Spec2Isabelle
  imports Bytes Fs_Handles Fs_Durability Vm_Roots Vm_Channel Vm_Heap_Spec Terminal_Device Redstone Cp_Envelope Cp_Channel
begin

text \<open>
  A verification library for the Compukter VM: a bounded virtual machine for guest programs with a
  persistent filesystem, a terminal and redstone ports. The program loads a verified artifact, runs it as
  cooperative tasks over a managed heap, and connects it to the host through devices and a filesystem
  whose changes are journaled on disk. The development follows the components of \<open>src/src\<close>:
  each theory opens with the types and operations of one component, translated from the file it names,
  and continues with what is proved about them.

  \<^bold>\<open>Conventions.\<close> A Rust \<open>Result\<close> is a sum type with the error on the left. A method on \<open>&mut self\<close> is a
  function from the state to a result and a state, so the changes made before an early return are visible
  (\<open>Prelude\<close>). Panics, exhausted counters and indices out of range are error constructors of their own, and a theorem
  that a call does not fail excludes them too. Integers of a fixed width are natural numbers with
  \<open>checked_add\<close> and \<open>checked_sub\<close> at that width, or words where bits matter. SHA-256 is a parameter; where a
  theorem relies on it, the hypothesis is the length of a digest or that two given contents have
  different digests.

  \<^bold>\<open>Artifact bytes.\<close> \<open>Bytes\<close> models \<open>src/src/bytes.rs\<close> and \<open>src/src/diagnostic.rs\<close>, and UTF-8 and UTF-16
  decoding. The LEB128 reader accepts exactly the canonical encodings.

  \<^bold>\<open>Filesystem.\<close> \<open>Fs_Path\<close> (paths), \<open>Fs_Handles\<close> (handles, capabilities, quota), \<open>Fs_Codec\<close>, \<open>Fs_Journal\<close>,
  \<open>Fs_Checkpoint\<close> (the formats on disk), \<open>Fs_Recovery\<close>, \<open>Fs_Worker\<close> (the queue of the persistence worker) and
  \<open>Fs_Tree\<close> (\<open>src/src/filesystem/tree.rs\<close>: all calls of the live filesystem) hold the definitions.
  \<open>Fs_Namespace\<close> is the abstract namespace, a finite map from paths to nodes with four operations. Its
  refinement runs twice: \<open>Fs_Lookup\<close>, \<open>Fs_Accounting\<close>, \<open>Fs_Transactions\<close>, \<open>Fs_Refinement\<close>, \<open>Fs_Live\<close>, \<open>Fs_Calls\<close>
  and \<open>Fs_Contents\<close> show that the live calls refine it, \<open>Fs_Replay\<close> and \<open>Fs_Crash\<close> that the replay of the journal does;
  \<open>Fs_Durability\<close> puts both together: after a crash, recovery returns the namespace the live filesystem had after
  the prefix of its mutations that is on disk, as long as no rename among them moved a path beyond the path limits; after such a
  rename, which the live filesystem wrongly allows, it fails. Recovery is taken without filesystem checkpoints there, since
  the running program writes none; \<open>Fs_Crash\<close> covers recovery from any files.
  \<open>Generation_Tables\<close> is the interface of slot tables with generations, interpreted by file handles and by
  the external roots of the machine; \<open>Ordered_Map\<close> the one of the sorted maps.

  \<^bold>\<open>Machine.\<close> \<open>Vm_Values\<close> (tagged references), \<open>Vm_Roots\<close> (references held by the host), \<open>Vm_Task\<close> (the
  scheduler), \<open>Vm_Channel\<close> (channels), \<open>Vm_Layout\<close> (object layouts and header formats) and \<open>Vm_Heap\<close> (the allocator and
  the block operations of the collector) model \<open>src/src/execution\<close>. \<open>Fifo\<close> is the interface of queues in a
  ring, interpreted by the ready queue of the scheduler and the buffers of channels. The scheduler and the
  channels are shown to keep their invariants over every sequence of calls, to serve in order, and never
  to report corruption. \<open>Vm_Heap_Mem\<close> gives the effect of every header and link accessor of the heap in both header
  formats, and \<open>Vm_Heap_Free\<close> shows that the free lists with their bitmaps hold exactly the free blocks
  and that a block found for a request is large enough.
  \<open>Vm_Heap_Ops\<close> relates the arena to a list of blocks and gives the effect of reserving and freeing on that
  list, with the merge of neighbours; \<open>Vm_Heap_Calls\<close> does so for the calls a client makes, with the contents that
  stay, the payload accesses, a new heap and the scan of the diagnostic. \<open>Vm_Heap_Spec\<close> states the abstract
  allocator and shows that every allowed call refines it, that no sequence of them makes a new heap fault, and that
  what is written to an object is read back after any calls on other blocks.

  \<^bold>\<open>Devices.\<close> \<open>Terminal_Input\<close>, \<open>Terminal_Replication\<close> and \<open>Terminal_Device\<close> model \<open>src/src/terminal\<close>: the
  rotated grid refines a screen in reading order, clients that follow the deltas converge to the device,
  and a snapshot taken before a commit does not. \<open>Redstone\<close> models \<open>src/src/redstone.rs\<close>.

  \<^bold>\<open>Checkpoints of a running computer.\<close> \<open>Cp_Codec\<close> models the bounded writer and reader of \<open>src/src/execution/checkpoint.rs\<close>
  and the codecs of its primitive types. A format describes the bytes, the allocation and the nesting depth of a
  value; a codec is shown to write the format and to read back exactly the valid values in it. \<open>Cp_Envelope\<close> models the
  envelope around the saved payloads (\<open>src/src/checkpoint/envelope.rs\<close>). \<open>Cp_Structs\<close> has the rules for generated codecs.
  \<open>Cp_Task\<close> and \<open>Cp_Channel\<close> model the checkpoints of the scheduler and of the channel arena
  (\<open>src/src/execution/checkpoint\<close>): what is restored is what was saved, and validation, which always ends, accepts exactly
  the states that satisfy the invariants of \<open>Vm_Task\<close> and \<open>Vm_Channel\<close>.

  \<^bold>\<open>Bounds and fuel.\<close> The scan of the heap diagnostic walks at most one block per 16 bytes of the arena, so it gets
  \<open>arena_bytes div 16 + 1\<close> steps; every block has at least 16 bytes. The walk along a join chain has as
  many steps as there are tasks, as in the code. The validation of a restored channel arena is a partial function that
  is shown to return for every arena. All other loops are structural or terminate by a measure. The row
  numbers of the terminal history wrap at 64 bits, as in a release build of the code.

  \<^bold>\<open>Not modelled.\<close> The interpreter loop and its frames and the linked image (\<open>machine.rs\<close>, \<open>image.rs\<close>, \<open>session.rs\<close>),
  the artifact decoder and verifier above the byte cursor, the composition into a computer (\<open>computer.rs\<close>),
  floating point and text routines, the checkpoint encoders of that state, the thread of the persistence
  worker and the files it writes (the files are an argument of recovery), and the foreign function
  interfaces. They are outside because they are I/O, platform arithmetic or glue, or because a model would need the whole
  instruction set first.
\<close>

end
